(* ===== verification/Prelude.thy ===== *)
theory Prelude
  imports Main "HOL-Library.Word"
begin

text \<open>
  The shared base of the development: names for the machine integers of the C++ code,
  the fact collections the component theories extend, and generic lemmas on lists,
  bits and words that several components use.
\<close>

unbundle bit_operations_syntax

type_synonym u8 = "8 word"
type_synonym u16 = "16 word"
type_synonym u32 = "32 word"
type_synonym u64 = "64 word"
type_synonym bytes = "8 word list"

named_theorems wf_intros \<open>preservation of the well-formedness invariants\<close>
named_theorems keeps_intros \<open>operations that keep the resource limits\<close>
named_theorems no_abort \<open>operations whose assertions cannot fail\<close>
named_theorems val_simps \<open>what an operation means on the abstract value\<close>

section \<open>Bits and words\<close>

lemma unat_lt32 [simp]: "unat (x :: u32) < 4294967296"
  using unsigned_less [of x] by simp

lemma unat_lt64 [simp]: "unat (x :: u64) < 18446744073709551616"
  using unsigned_less [of x] by simp

lemma unat_lt8 [simp]: "unat (x :: u8) < 256"
  using unsigned_less [of x] by simp

lemma unat_ucast_32_64 [simp]: "unat (ucast (x :: u32) :: u64) = unat x"
  by (simp add: unsigned_ucast_eq take_bit_eq_mod less_trans [OF unat_lt32])

lemma unat_ucast_8_32 [simp]: "unat (ucast (x :: u8) :: u32) = unat x"
  by (simp add: unsigned_ucast_eq take_bit_eq_mod less_trans [OF unat_lt8])

lemma unat_ucast_8_64 [simp]: "unat (ucast (x :: u8) :: u64) = unat x"
  by (simp add: unsigned_ucast_eq take_bit_eq_mod less_trans [OF unat_lt8])

lemma unat_minus_one_32 [simp]: "unat (- 1 :: u32) = 4294967295"
  by (simp add: unsigned_minus_1_eq_mask mask_numeral)

lemma unat_drop_bit_div: "unat (drop_bit n (x :: 'a::len word)) = unat x div 2 ^ n"
proof -
  have "unat (drop_bit n x) = drop_bit n (take_bit LENGTH('a) (unat x))"
    by (rule unsigned_drop_bit_eq)
  also have "take_bit LENGTH('a) (unat x) = unat x"
    by (simp add: take_bit_eq_mod)
  finally show ?thesis by (simp only: drop_bit_eq_div)
qed

lemma unat_and_mask_mod: "unat ((x :: 'a::len word) AND mask n) = unat x mod 2 ^ n"
proof -
  have "unat (take_bit n x) = take_bit n (unat x)"
    by (rule unsigned_take_bit_eq)
  then show ?thesis by (simp only: take_bit_eq_mask take_bit_eq_mod [symmetric])
qed

lemma unat_add_no_wrap:
  "unat a + unat b < 2 ^ LENGTH('a) \<Longrightarrow> unat (a + b :: 'a::len word) = unat a + unat b"
  by (simp add: unat_word_ariths)

lemma unat_mult_no_wrap:
  "unat a * unat b < 2 ^ LENGTH('a) \<Longrightarrow> unat (a * b :: 'a::len word) = unat a * unat b"
  by (simp add: unat_word_ariths)

lemma bit_lt8: "bit (w :: u8) n \<Longrightarrow> n < 8"
  by (drule bit_imp_le_length) simp

lemma bit_lt32: "bit (w :: u32) n \<Longrightarrow> n < 32"
  by (drule bit_imp_le_length) simp

lemma unat_push_bit_no_wrap:
  fixes x :: "'a::len word"
  assumes "unat x * 2 ^ k < 2 ^ LENGTH('a)"
  shows "unat (push_bit k x) = unat x * 2 ^ k"
proof -
  have "unat (push_bit k x) = take_bit LENGTH('a) (push_bit k (unat x))"
    by (rule unsigned_push_bit_eq)
  then show ?thesis using assms by (simp add: push_bit_eq_mult take_bit_nat_eq_self)
qed

lemma bit_top_iff: "v < 2 ^ Suc k \<Longrightarrow> bit v k \<longleftrightarrow> 2 ^ k \<le> (v :: nat)"
proof (cases "2 ^ k \<le> v")
  case True
  assume "v < 2 ^ Suc k"
  with True have "v div 2 ^ k = 1" by (intro div_nat_eqI) simp_all
  with True show ?thesis by (simp add: bit_iff_odd)
qed (simp add: bit_iff_odd)

lemma and_push_bit_1: "w AND push_bit n 1 \<noteq> 0 \<longleftrightarrow> bit w n"
  for w :: "'a::len word"
  by (simp only: push_bit_of_1 and_exp_eq_0_iff_not_bit not_not)

lemma sint_small: "unat (x :: u64) < 2 ^ 63 \<Longrightarrow> sint x = int (unat x)"
proof -
  assume "unat x < 2 ^ 63"
  then have "uint x < 2 ^ 63" unfolding uint_nat by (metis of_nat_less_iff of_nat_numeral of_nat_power)
  then have "sint x = uint x" by (simp add: sint_uint signed_take_bit_int_eq_self order_trans [OF _ uint_ge_0])
  then show ?thesis by (simp only: uint_nat)
qed

section \<open>Lists\<close>

lemma fold_upt_Suc: "fold f [0..<Suc n] s = f n (fold f [0..<n] s)"
  by simp

end
