(* ===== verification/ArithUint256.thy ===== *)
theory ArithUint256
  imports Prelude
begin

text \<open>
  \<^verbatim>\<open>arith_uint256.h\<close> and \<^verbatim>\<open>arith_uint256.cpp\<close>: the fixed-width big integers the
  consensus code computes targets and chain work with. A \<^verbatim>\<open>base_uint<256>\<close> is the
  array \<^verbatim>\<open>pn\<close> of eight 32-bit limbs, least significant first, modelled as a list
  of words; every operator is the limb loop of the source, with its 64-bit carries.
  The lemmas give each operator's meaning on the number \<open>uval\<close> the limbs represent:
  arithmetic modulo \<open>2 ^ 256\<close>, shifts, comparison, the restoring division, the position
  of the highest bit, and the compact format of difficulty targets.
\<close>

type_synonym base_uint = "u32 list"

definition WIDTH :: nat where
  "WIDTH = 8"

section \<open>Constructors and bitwise operators\<close>

definition base_uint_zero :: base_uint where
  "base_uint_zero = replicate WIDTH 0"

definition base_uint_of_u64 :: "u64 \<Rightarrow> base_uint" where
  "base_uint_of_u64 b = ucast b # ucast (drop_bit 32 b) # replicate (WIDTH - 2) 0"

definition base_uint_is_zero :: "base_uint \<Rightarrow> bool" where
  "base_uint_is_zero pn = list_all (\<lambda>w. w = 0) pn"

definition base_uint_not :: "base_uint \<Rightarrow> base_uint" where
  "base_uint_not pn = map NOT pn"

fun base_uint_inc :: "base_uint \<Rightarrow> base_uint" where
  "base_uint_inc [] = []"
| "base_uint_inc (p # pn) =
     (if p + 1 = 0 \<and> pn \<noteq> [] then (p + 1) # base_uint_inc pn else (p + 1) # pn)"

fun base_uint_dec :: "base_uint \<Rightarrow> base_uint" where
  "base_uint_dec [] = []"
| "base_uint_dec (p # pn) =
     (if p - 1 = - 1 \<and> pn \<noteq> [] then (p - 1) # base_uint_dec pn else (p - 1) # pn)"

definition base_uint_neg :: "base_uint \<Rightarrow> base_uint" where
  "base_uint_neg pn = base_uint_inc (base_uint_not pn)"

definition base_uint_xor :: "base_uint \<Rightarrow> base_uint \<Rightarrow> base_uint" where
  "base_uint_xor pn b = map2 (XOR) pn b"

definition base_uint_and :: "base_uint \<Rightarrow> base_uint \<Rightarrow> base_uint" where
  "base_uint_and pn b = map2 (AND) pn b"

definition base_uint_or :: "base_uint \<Rightarrow> base_uint \<Rightarrow> base_uint" where
  "base_uint_or pn b = map2 (OR) pn b"

section \<open>Addition, subtraction, multiplication\<close>

fun add_limbs :: "u64 \<Rightarrow> base_uint \<Rightarrow> base_uint \<Rightarrow> base_uint" where
  "add_limbs carry (p # pn) (q # b) =
     (let n = carry + ucast p + ucast q
      in ucast (n AND 0xffffffff) # add_limbs (drop_bit 32 n) pn b)"
| "add_limbs carry _ _ = []"

definition base_uint_add :: "base_uint \<Rightarrow> base_uint \<Rightarrow> base_uint" where
  "base_uint_add pn b = add_limbs 0 pn b"

definition base_uint_sub :: "base_uint \<Rightarrow> base_uint \<Rightarrow> base_uint" where
  "base_uint_sub pn b = base_uint_add pn (base_uint_neg b)"

definition base_uint_add64 :: "base_uint \<Rightarrow> u64 \<Rightarrow> base_uint" where
  "base_uint_add64 pn b64 = base_uint_add pn (base_uint_of_u64 b64)"

definition base_uint_sub64 :: "base_uint \<Rightarrow> u64 \<Rightarrow> base_uint" where
  "base_uint_sub64 pn b64 = base_uint_add pn (base_uint_neg (base_uint_of_u64 b64))"

fun mul32_limbs :: "u64 \<Rightarrow> u32 \<Rightarrow> base_uint \<Rightarrow> base_uint" where
  "mul32_limbs carry b32 [] = []"
| "mul32_limbs carry b32 (p # pn) =
     (let n = carry + ucast b32 * ucast p
      in ucast (n AND 0xffffffff) # mul32_limbs (drop_bit 32 n) b32 pn)"

definition base_uint_mul32 :: "base_uint \<Rightarrow> u32 \<Rightarrow> base_uint" where
  "base_uint_mul32 pn b32 = mul32_limbs 0 b32 pn"

text \<open>
  The inner loop of the schoolbook product adds \<open>a.pn[j] * b\<close> into the limbs from index
  \<open>j\<close> upwards; it ends where those limbs end.
\<close>

fun mul_row :: "u64 \<Rightarrow> u32 \<Rightarrow> base_uint \<Rightarrow> base_uint \<Rightarrow> base_uint" where
  "mul_row carry aj (p # pn) (q # b) =
     (let n = carry + ucast p + ucast aj * ucast q
      in ucast (n AND 0xffffffff) # mul_row (drop_bit 32 n) aj pn b)"
| "mul_row carry aj _ _ = []"

definition base_uint_mul :: "base_uint \<Rightarrow> base_uint \<Rightarrow> base_uint" where
  "base_uint_mul a b =
     fold (\<lambda>j pn. take j pn @ mul_row 0 (a ! j) (drop j pn) b) [0..<WIDTH] (replicate WIDTH 0)"

section \<open>Shifts, comparison, bit length\<close>

definition shl_step :: "base_uint \<Rightarrow> nat \<Rightarrow> nat \<Rightarrow> nat \<Rightarrow> base_uint \<Rightarrow> base_uint" where
  "shl_step a k s i pn =
     (let pn1 = (if i + k + 1 < WIDTH \<and> s \<noteq> 0
                 then pn[i + k + 1 := pn ! (i + k + 1) OR drop_bit (32 - s) (a ! i)] else pn)
      in if i + k < WIDTH then pn1[i + k := pn1 ! (i + k) OR push_bit s (a ! i)] else pn1)"

definition base_uint_shl :: "base_uint \<Rightarrow> nat \<Rightarrow> base_uint" where
  "base_uint_shl a shift =
     fold (shl_step a (shift div 32) (shift mod 32)) [0..<WIDTH] (replicate WIDTH 0)"

definition shr_step :: "base_uint \<Rightarrow> nat \<Rightarrow> nat \<Rightarrow> nat \<Rightarrow> base_uint \<Rightarrow> base_uint" where
  "shr_step a k s i pn =
     (let pn1 = (if k + 1 \<le> i \<and> s \<noteq> 0
                 then pn[i - k - 1 := pn ! (i - k - 1) OR push_bit (32 - s) (a ! i)] else pn)
      in if k \<le> i then pn1[i - k := pn1 ! (i - k) OR drop_bit s (a ! i)] else pn1)"

definition base_uint_shr :: "base_uint \<Rightarrow> nat \<Rightarrow> base_uint" where
  "base_uint_shr a shift =
     fold (shr_step a (shift div 32) (shift mod 32)) [0..<WIDTH] (replicate WIDTH 0)"

fun compare_limbs :: "nat \<Rightarrow> base_uint \<Rightarrow> base_uint \<Rightarrow> int" where
  "compare_limbs 0 pn b = 0"
| "compare_limbs (Suc i) pn b =
     (if pn ! i < b ! i then - 1 else if pn ! i > b ! i then 1 else compare_limbs i pn b)"

definition CompareTo :: "base_uint \<Rightarrow> base_uint \<Rightarrow> int" where
  "CompareTo pn b = compare_limbs WIDTH pn b"

definition EqualTo :: "base_uint \<Rightarrow> u64 \<Rightarrow> bool" where
  "EqualTo pn b =
     (list_all (\<lambda>w. w = 0) (drop 2 pn) \<and> ucast (pn ! 1) = drop_bit 32 b
        \<and> ucast (pn ! 0) = (b AND 0xffffffff))"

fun bits_word :: "nat \<Rightarrow> u32 \<Rightarrow> nat" where
  "bits_word 0 w = 1"
| "bits_word (Suc n) w = (if w AND push_bit (Suc n) 1 \<noteq> 0 then Suc n + 1 else bits_word n w)"

fun bits_limbs :: "nat \<Rightarrow> base_uint \<Rightarrow> nat" where
  "bits_limbs 0 pn = 0"
| "bits_limbs (Suc pos) pn =
     (if pn ! pos \<noteq> 0 then 32 * pos + bits_word 31 (pn ! pos) else bits_limbs pos pn)"

definition base_uint_bits :: "base_uint \<Rightarrow> nat" where
  "base_uint_bits pn = bits_limbs WIDTH pn"

definition GetLow64 :: "base_uint \<Rightarrow> u64" where
  "GetLow64 pn = ucast (pn ! 0) OR push_bit 32 (ucast (pn ! 1))"

section \<open>Division\<close>

datatype uint_error = DivisionByZero

text \<open>
  \<open>div_loop (Suc shift)\<close> is the state of the \<^verbatim>\<open>while (shift >= 0)\<close> loop at \<open>shift\<close>;
  \<open>div_loop 0\<close> is its exit. It returns the quotient and what \<^verbatim>\<open>num\<close> holds then.
\<close>

fun div_loop :: "nat \<Rightarrow> base_uint \<Rightarrow> base_uint \<Rightarrow> base_uint \<Rightarrow> base_uint \<times> base_uint" where
  "div_loop 0 num dv pn = (pn, num)"
| "div_loop (Suc shift) num dv pn =
     (if CompareTo num dv \<ge> 0
      then div_loop shift (base_uint_sub num dv) (base_uint_shr dv 1)
             (pn[shift div 32 := pn ! (shift div 32) OR push_bit (shift mod 32) 1])
      else div_loop shift num (base_uint_shr dv 1) pn)"

definition base_uint_div :: "base_uint \<Rightarrow> base_uint \<Rightarrow> uint_error + base_uint" where
  "base_uint_div num b =
     (let num_bits = base_uint_bits num; div_bits = base_uint_bits b
      in if div_bits = 0 then Inl DivisionByZero
         else if div_bits > num_bits then Inr base_uint_zero
         else let shift = num_bits - div_bits
              in Inr (fst (div_loop (Suc shift) num (base_uint_shl b shift) base_uint_zero)))"

section \<open>The compact format and the 256-bit blob\<close>

text \<open>
  \<^verbatim>\<open>SetCompact\<close> returns the number with the flags it stores through
  \<^verbatim>\<open>pfNegative\<close> and \<^verbatim>\<open>pfOverflow\<close>. The two assertions of \<^verbatim>\<open>GetCompact\<close> are
  guards of the model: \<open>None\<close> is the abort.
\<close>

definition SetCompact :: "u32 \<Rightarrow> base_uint \<times> bool \<times> bool" where
  "SetCompact nCompact =
     (let nSize = unat (drop_bit 24 nCompact);
          nWord = nCompact AND 0x007fffff;
          nWord = (if nSize \<le> 3 then drop_bit (8 * (3 - nSize)) nWord else nWord);
          pn = (if nSize \<le> 3 then base_uint_of_u64 (ucast nWord)
                else base_uint_shl (base_uint_of_u64 (ucast nWord)) (8 * (nSize - 3)));
          fNegative = (nWord \<noteq> 0 \<and> nCompact AND 0x00800000 \<noteq> 0);
          fOverflow = (nWord \<noteq> 0 \<and> (nSize > 34 \<or> (nWord > 0xff \<and> nSize > 33)
                                   \<or> (nWord > 0xffff \<and> nSize > 32)))
      in (pn, fNegative, fOverflow))"

definition GetCompact :: "base_uint \<Rightarrow> bool \<Rightarrow> u32 option" where
  "GetCompact pn fNegative =
     (let nSize = (base_uint_bits pn + 7) div 8;
          nCompact = (if nSize \<le> 3 then ucast (push_bit (8 * (3 - nSize)) (GetLow64 pn))
                      else ucast (GetLow64 (base_uint_shr pn (8 * (nSize - 3))))) :: u32;
          (nCompact, nSize) = (if nCompact AND 0x00800000 \<noteq> 0
                               then (drop_bit 8 nCompact, nSize + 1) else (nCompact, nSize))
      in if nCompact AND NOT 0x007fffff = 0 \<and> nSize < 256
         then let nCompact = nCompact OR push_bit 24 (of_nat nSize)
              in Some (nCompact OR (if fNegative \<and> nCompact AND 0x007fffff \<noteq> 0
                                    then 0x00800000 else 0))
         else None)"

fun WriteLE32 :: "u32 \<Rightarrow> bytes" where
  "WriteLE32 x = [ucast x, ucast (drop_bit 8 x), ucast (drop_bit 16 x), ucast (drop_bit 24 x)]"

fun ReadLE32 :: "bytes \<Rightarrow> u32" where
  "ReadLE32 p = ucast (p ! 0) OR push_bit 8 (ucast (p ! 1)) OR push_bit 16 (ucast (p ! 2))
                  OR push_bit 24 (ucast (p ! 3))"

definition ArithToUint256 :: "base_uint \<Rightarrow> bytes" where
  "ArithToUint256 a = concat (map (\<lambda>x. WriteLE32 (a ! x)) [0..<WIDTH])"

definition UintToArith256 :: "bytes \<Rightarrow> base_uint" where
  "UintToArith256 a = map (\<lambda>x. ReadLE32 (drop (x * 4) a)) [0..<WIDTH]"

section \<open>The number the limbs represent\<close>

fun uval :: "base_uint \<Rightarrow> nat" where
  "uval [] = 0"
| "uval (p # pn) = unat p + 4294967296 * uval pn"

definition wf_uint :: "base_uint \<Rightarrow> bool" where
  "wf_uint pn \<longleftrightarrow> length pn = WIDTH"

lemma uval_bound: "uval pn < 2 ^ (32 * length pn)"
proof (induction pn)
  case (Cons p pn)
  have "uval pn + 1 \<le> 2 ^ (32 * length pn)" using Cons by simp
  then have "4294967296 * (uval pn + 1) \<le> 4294967296 * 2 ^ (32 * length pn)" by simp
  then show ?case using unat_lt32 [of p] by (simp add: power_add del: unat_lt32)
qed simp

lemma uval_append: "uval (xs @ ys) = uval xs + 2 ^ (32 * length xs) * uval ys"
  by (induction xs) (simp_all add: power_add algebra_simps)

lemma uval_replicate_0 [simp]: "uval (replicate n 0) = 0"
  by (induction n) auto

lemma uval_zero_iff: "uval pn = 0 \<longleftrightarrow> list_all (\<lambda>w. w = 0) pn"
  by (induction pn) (auto simp: unat_eq_0)

lemma uval_inj: "length xs = length ys \<Longrightarrow> uval xs = uval ys \<Longrightarrow> xs = ys"
proof (induction xs ys rule: list_induct2)
  case (Cons x xs y ys)
  have eq: "unat x + 4294967296 * uval xs = unat y + 4294967296 * uval ys" using Cons.prems by simp
  have "unat x = (unat x + 4294967296 * uval xs) mod 4294967296" by simp
  also have "\<dots> = unat y" using eq by simp
  finally have "unat x = unat y" .
  with eq have "uval xs = uval ys" by simp
  with Cons.IH \<open>unat x = unat y\<close> show ?case by (simp add: word_unat_eq_iff)
qed simp

lemma bit_uval: "bit (uval pn) j \<longleftrightarrow> j div 32 < length pn \<and> bit (pn ! (j div 32)) (j mod 32)"
proof (induction pn arbitrary: j)
  case (Cons p pn)
  have split: "uval (p # pn) = push_bit 32 (uval pn) OR unat p"
  proof -
    have "push_bit 32 (uval pn) + unat p = push_bit 32 (uval pn) OR unat p"
      by (rule disjunctive_add) (auto simp: bit_simps dest: bit_imp_le_length)
    then show ?thesis by (simp add: push_bit_eq_mult)
  qed
  show ?case
  proof (cases "j < 32")
    case True
    then show ?thesis by (simp only: split) (simp add: bit_simps)
  next
    case False
    then obtain m where "j = m + 32" by (metis add.commute le_add_diff_inverse not_less)
    moreover have "(m + 32) div 32 = Suc (m div 32)" by simp
    ultimately show ?thesis
      by (simp only: split) (auto simp: bit_simps Cons.IH dest: bit_imp_le_length)
  qed
qed simp

section \<open>Addition, subtraction and multiplication modulo the width\<close>

text \<open>One limb of any carry loop: the low half is stored and the high half carried on.\<close>

lemma limb_split:
  fixes n :: u64
  shows "unat (ucast (n AND 0xffffffff) :: u32) + 4294967296 * unat (drop_bit 32 n) = unat n"
proof -
  have "unat (n AND 0xffffffff) = unat n mod 4294967296"
    using unat_and_mask_mod [of n 32] by (simp add: mask_numeral)
  then have "unat (ucast (n AND 0xffffffff) :: u32) = unat n mod 4294967296"
    by (simp add: unsigned_ucast_eq take_bit_eq_mod)
  moreover have "unat (drop_bit 32 n) = unat n div 4294967296"
    using unat_drop_bit_div [of 32 n] by simp
  ultimately show ?thesis by simp
qed

lemma carry_bound:
  fixes n :: u64
  shows "unat (drop_bit 32 n) < 4294967296"
  using unat_drop_bit_div [of 32 n] unat_lt64 [of n] by (simp add: less_mult_imp_div_less)

lemma limb_mod_step:
  fixes lo hi rest r w :: nat
  assumes "lo + 4294967296 * hi = t" and "r = (hi + rest) mod 2 ^ w" and "lo < 4294967296"
  shows "lo + 4294967296 * r = (t + 4294967296 * rest) mod 2 ^ (32 + w)"
proof -
  define m where "m = lo + 4294967296 * (hi + rest)"
  have "m div 4294967296 = hi + rest" and "m mod 4294967296 = lo"
    using assms(3) by (simp_all add: m_def del: distrib_left_numeral)
  then have "m mod (4294967296 * 2 ^ w) = lo + 4294967296 * ((hi + rest) mod 2 ^ w)"
    by (simp add: mod_mult2_eq)
  then have "(lo + 4294967296 * (hi + rest)) mod (4294967296 * 2 ^ w)
        = lo + 4294967296 * ((hi + rest) mod 2 ^ w)"
    by (simp only: m_def)
  then show ?thesis by (simp add: assms(2) assms(1) [symmetric] power_add algebra_simps)
qed

lemma length_add_limbs [simp]: "length (add_limbs c pn b) = min (length pn) (length b)"
  by (induction c pn b rule: add_limbs.induct) (simp_all add: Let_def)

lemma uval_add_limbs:
  "length pn = length b \<Longrightarrow> unat c \<le> 1 \<Longrightarrow>
   uval (add_limbs c pn b) = (unat c + uval pn + uval b) mod 2 ^ (32 * length pn)"
proof (induction c pn b rule: add_limbs.induct)
  case (1 carry p pn q b)
  define n :: u64 where "n = carry + ucast p + ucast q"
  have n: "unat n = unat carry + unat p + unat q"
    using "1.prems"(2) unat_lt32 [of p] unat_lt32 [of q] by (simp add: n_def unat_word_ariths del: unat_lt32)
  have c: "unat (drop_bit 32 n) \<le> 1"
    using "1.prems"(2) unat_lt32 [of p] unat_lt32 [of q] unat_drop_bit_div [of 32 n]
    by (simp add: n del: unat_lt32)
  have IH: "uval (add_limbs (drop_bit 32 n) pn b)
            = (unat (drop_bit 32 n) + (uval pn + uval b)) mod 2 ^ (32 * length pn)"
    using "1.IH" [OF n_def] "1.prems"(1) c by (simp add: add.assoc)
  have "add_limbs carry (p # pn) (q # b) = ucast (n AND 0xffffffff) # add_limbs (drop_bit 32 n) pn b"
    by (simp add: n_def Let_def)
  then show ?case
    using limb_mod_step [OF limb_split IH] by (simp add: n algebra_simps)
qed auto

lemma length_inc [simp]: "length (base_uint_inc pn) = length pn"
  by (induction pn rule: base_uint_inc.induct) auto

lemma uval_inc: "uval (base_uint_inc pn) = (uval pn + 1) mod 2 ^ (32 * length pn)"
proof (induction pn rule: base_uint_inc.induct)
  case (2 p pn)
  show ?case
  proof (cases "p + 1 = 0")
    case True
    then have "p = - 1" by (simp add: eq_neg_iff_add_eq_0)
    then have p: "unat p = 4294967295" by simp
    show ?thesis
    proof (cases "pn = []")
      case False
      then have IH: "uval (base_uint_inc pn) = (1 + uval pn) mod 2 ^ (32 * length pn)"
        using 2 True by simp
      show ?thesis
        using limb_mod_step [of 0 1 4294967296, OF _ IH] True False p by simp
    qed (simp add: True p)
  next
    case False
    then have "unat (p + 1) = unat p + 1"
      by (metis Suc_eq_plus1 add.commute unatSuc)
    then have "uval (base_uint_inc (p # pn)) = uval (p # pn) + 1" using False by simp
    then show ?thesis
      using uval_bound [of "base_uint_inc (p # pn)"] by (simp del: base_uint_inc.simps)
  qed
qed simp

lemma uval_not: "uval (base_uint_not pn) = 2 ^ (32 * length pn) - 1 - uval pn"
proof (induction pn)
  case (Cons p pn)
  have "unat (NOT p) = 4294967295 - unat p"
  proof -
    have "unat (- 1 - p) = unat (- 1 :: u32) - unat p"
      by (rule unat_sub) simp
    moreover have "unat (- 1 :: u32) = 4294967295"
      by simp
    moreover have "NOT p = - 1 - p" by (simp add: not_eq_complement)
    ultimately show ?thesis by simp
  qed
  then show ?case
    using Cons uval_bound [of pn] unat_lt32 [of p]
    by (simp add: base_uint_not_def power_add algebra_simps del: unat_lt32)
qed (simp add: base_uint_not_def)

lemma length_neg [simp]: "length (base_uint_neg pn) = length pn"
  by (simp add: base_uint_neg_def base_uint_not_def)

lemma uval_neg: "uval (base_uint_neg pn) = (2 ^ (32 * length pn) - uval pn) mod 2 ^ (32 * length pn)"
proof -
  have "length (base_uint_not pn) = length pn" by (simp add: base_uint_not_def)
  then show ?thesis
    using uval_bound [of pn] by (simp add: base_uint_neg_def uval_inc uval_not Suc_diff_Suc)
qed

lemma length_mul32_limbs [simp]: "length (mul32_limbs c b pn) = length pn"
  by (induction c b pn rule: mul32_limbs.induct) (simp_all add: Let_def)

lemma mul_step_bound:
  fixes x y c d :: nat
  assumes "x < 4294967296" "y < 4294967296" "c < 4294967296" "d < 4294967296"
  shows "c + d + x * y < 18446744073709551616"
proof -
  have "x * y \<le> 4294967295 * 4294967295" using assms by (intro mult_le_mono) auto
  then show ?thesis using assms by simp
qed

lemma uval_mul32_limbs:
  "unat c < 4294967296 \<Longrightarrow>
   uval (mul32_limbs c b pn) = (unat c + unat b * uval pn) mod 2 ^ (32 * length pn)"
proof (induction c b pn rule: mul32_limbs.induct)
  case (2 carry b p pn)
  define n :: u64 where "n = carry + ucast b * ucast p"
  have bnd: "unat carry + unat b * unat p < 18446744073709551616"
    using mul_step_bound [of "unat b" "unat p" "unat carry" 0] "2.prems" by simp
  then have n: "unat n = unat carry + unat b * unat p"
    by (simp add: n_def unat_add_no_wrap unat_mult_no_wrap)
  have IH: "uval (mul32_limbs (drop_bit 32 n) b pn)
            = (unat (drop_bit 32 n) + unat b * uval pn) mod 2 ^ (32 * length pn)"
    using "2.IH" [OF n_def carry_bound] .
  have "mul32_limbs carry b (p # pn) = ucast (n AND 0xffffffff) # mul32_limbs (drop_bit 32 n) b pn"
    by (simp add: n_def Let_def)
  then show ?case
    using limb_mod_step [OF limb_split IH] by (simp add: n algebra_simps)
qed simp

lemma length_mul_row [simp]: "length (mul_row c a pn b) = min (length pn) (length b)"
  by (induction c a pn b rule: mul_row.induct) (simp_all add: Let_def)

lemma uval_mul_row:
  "unat c < 4294967296 \<Longrightarrow> length pn \<le> length b \<Longrightarrow>
   uval (mul_row c a pn b) = (unat c + uval pn + unat a * uval b) mod 2 ^ (32 * length pn)"
proof (induction c a pn b rule: mul_row.induct)
  case (1 carry a p pn q b)
  define n :: u64 where "n = carry + ucast p + ucast a * ucast q"
  have bnd: "unat carry + unat p + unat a * unat q < 18446744073709551616"
    using mul_step_bound [of "unat a" "unat q" "unat carry" "unat p"] "1.prems" by simp
  then have n: "unat n = unat carry + unat p + unat a * unat q"
    by (simp add: n_def unat_add_no_wrap unat_mult_no_wrap)
  have IH: "uval (mul_row (drop_bit 32 n) a pn b)
            = (unat (drop_bit 32 n) + (uval pn + unat a * uval b)) mod 2 ^ (32 * length pn)"
    using "1.IH" [OF n_def carry_bound] "1.prems" by (simp add: add.assoc)
  have "mul_row carry a (p # pn) (q # b) = ucast (n AND 0xffffffff) # mul_row (drop_bit 32 n) a pn b"
    by (simp add: n_def Let_def)
  then show ?case
    using limb_mod_step [OF limb_split IH] by (simp add: n algebra_simps)
qed auto


lemma uval_fold_rows:
  assumes "length a = WIDTH" and "length b = WIDTH" and "n \<le> WIDTH"
  defines "acc \<equiv> fold (\<lambda>j pn. take j pn @ mul_row 0 (a ! j) (drop j pn) b) [0..<n] (replicate WIDTH 0)"
  shows "length acc = WIDTH \<and> uval acc = (uval (take n a) * uval b) mod 2 ^ (32 * WIDTH)"
  using assms(3) unfolding acc_def
proof (induction n)
  case (Suc n)
  define pn where "pn = fold (\<lambda>j pn. take j pn @ mul_row 0 (a ! j) (drop j pn) b) [0..<n] (replicate WIDTH 0)"
  from Suc have len: "length pn = WIDTH"
    and val: "uval pn = (uval (take n a) * uval b) mod 2 ^ (32 * WIDTH)" by (simp_all add: pn_def)
  have n: "n < WIDTH" using Suc.prems by simp
  define r where "r = mul_row 0 (a ! n) (drop n pn) b"
  have r: "length r = WIDTH - n" using len assms(2) by (simp add: r_def)
  have split: "uval pn = uval (take n pn) + 2 ^ (32 * n) * uval (drop n pn)"
    using uval_append [of "take n pn" "drop n pn"] len n by simp
  have w: "(2::nat) ^ (32 * WIDTH) = 2 ^ (32 * n) * 2 ^ (32 * (WIDTH - n))"
    using n by (simp add: power_add [symmetric] right_diff_distrib')
  have "uval (take n pn) < 2 ^ (32 * n)" using uval_bound [of "take n pn"] len n by simp
  then have "uval (take n pn) + 2 ^ (32 * n) * ((uval (drop n pn) + unat (a ! n) * uval b) mod 2 ^ (32 * (WIDTH - n)))
        = (uval (take n pn) + 2 ^ (32 * n) * (uval (drop n pn) + unat (a ! n) * uval b)) mod 2 ^ (32 * WIDTH)"
    unfolding w by (simp add: mod_mult2_eq)
  moreover have "uval (take n pn @ r)
        = uval (take n pn) + 2 ^ (32 * n) * ((uval (drop n pn) + unat (a ! n) * uval b) mod 2 ^ (32 * (WIDTH - n)))"
    using len n assms(2) by (simp add: uval_append r_def uval_mul_row)
  ultimately have "uval (take n pn @ r) = (uval pn + 2 ^ (32 * n) * (unat (a ! n) * uval b)) mod 2 ^ (32 * WIDTH)"
    by (simp add: split algebra_simps)
  also have "\<dots> = (uval (take n a) * uval b + 2 ^ (32 * n) * (unat (a ! n) * uval b)) mod 2 ^ (32 * WIDTH)"
    by (simp add: val mod_simps)
  also have "uval (take n a) * uval b + 2 ^ (32 * n) * (unat (a ! n) * uval b) = uval (take (Suc n) a) * uval b"
    using assms(1) n by (simp add: take_Suc_conv_app_nth uval_append algebra_simps)
  finally show ?case using len n r by (simp add: pn_def [symmetric] r_def [symmetric])
qed simp

section \<open>Shifts as multiplication and division by powers of two\<close>

lemma length_shl_step [simp]: "length (shl_step a k s i pn) = length pn"
  by (simp add: shl_step_def Let_def)

lemma length_shr_step [simp]: "length (shr_step a k s i pn) = length pn"
  by (simp add: shr_step_def Let_def)

lemma nth_shl_step:
  "length pn = WIDTH \<Longrightarrow> m < WIDTH \<Longrightarrow> shl_step a k s i pn ! m =
     (if m = i + k then pn ! m OR push_bit s (a ! i)
      else if s \<noteq> 0 \<and> m = i + k + 1 then pn ! m OR drop_bit (32 - s) (a ! i) else pn ! m)"
  by (auto simp: shl_step_def Let_def nth_list_update)

lemma nth_shr_step:
  "length pn = WIDTH \<Longrightarrow> m < WIDTH \<Longrightarrow> i < WIDTH \<Longrightarrow> shr_step a k s i pn ! m =
     (if i = m + k then pn ! m OR drop_bit s (a ! i)
      else if s \<noteq> 0 \<and> i = m + k + 1 then pn ! m OR push_bit (32 - s) (a ! i) else pn ! m)"
  by (auto simp: shr_step_def Let_def nth_list_update)

lemma length_shl_fold [simp]: "length (fold (shl_step a k s) is pn) = length pn"
  by (induction "is" arbitrary: pn) simp_all

lemma length_shr_fold [simp]: "length (fold (shr_step a k s) is pn) = length pn"
  by (induction "is" arbitrary: pn) simp_all

lemma shl_fold:
  assumes "m < WIDTH" and "n \<le> WIDTH"
  shows "fold (shl_step a k s) [0..<n] (replicate WIDTH 0) ! m =
     (if k \<le> m \<and> m - k < n then push_bit s (a ! (m - k)) else 0)
     OR (if s \<noteq> 0 \<and> Suc k \<le> m \<and> m - Suc k < n then drop_bit (32 - s) (a ! (m - Suc k)) else 0)"
  using assms(2)
proof (induction n)
  case (Suc n)
  define acc where "acc = fold (shl_step a k s) [0..<n] (replicate WIDTH 0)"
  from Suc have IH: "acc ! m =
     (if k \<le> m \<and> m - k < n then push_bit s (a ! (m - k)) else 0)
     OR (if s \<noteq> 0 \<and> Suc k \<le> m \<and> m - Suc k < n then drop_bit (32 - s) (a ! (m - Suc k)) else 0)"
    by (simp add: acc_def)
  have len: "length acc = WIDTH" by (simp add: acc_def)
  show ?case
  proof (cases "k \<le> m")
    case True
    then obtain d where d: "m = k + d" using le_Suc_ex by blast
    consider "d = n" | "d = Suc n" | "d < n" | "Suc n < d" by linarith
    then show ?thesis
      unfolding fold_upt_Suc acc_def [symmetric] nth_shl_step [OF len assms(1)]
      using IH unfolding d by cases (auto simp: or.commute)
  next
    case False
    then show ?thesis
      unfolding fold_upt_Suc acc_def [symmetric] nth_shl_step [OF len assms(1)] by (simp add: IH)
  qed
qed (use assms in simp)

lemma shr_fold:
  assumes "m < WIDTH" and "n \<le> WIDTH"
  shows "fold (shr_step a k s) [0..<n] (replicate WIDTH 0) ! m =
     (if m + k < n then drop_bit s (a ! (m + k)) else 0)
     OR (if s \<noteq> 0 \<and> m + k + 1 < n then push_bit (32 - s) (a ! (m + k + 1)) else 0)"
  using assms(2)
proof (induction n)
  case (Suc n)
  define acc where "acc = fold (shr_step a k s) [0..<n] (replicate WIDTH 0)"
  from Suc have IH: "acc ! m =
     (if m + k < n then drop_bit s (a ! (m + k)) else 0)
     OR (if s \<noteq> 0 \<and> m + k + 1 < n then push_bit (32 - s) (a ! (m + k + 1)) else 0)"
    by (simp add: acc_def)
  have len: "length acc = WIDTH" and n: "n < WIDTH" using Suc.prems by (simp_all add: acc_def)
  consider "n = m + k" | "n = m + k + 1" | "n < m + k" | "m + k + 1 < n" by linarith
  then show ?case
    unfolding fold_upt_Suc acc_def [symmetric] nth_shr_step [OF len assms(1) n]
    by cases (simp_all add: IH)
qed (use assms in simp)

lemma nth_shl:
  assumes "wf_uint a" and "m < WIDTH"
  shows "base_uint_shl a n ! m =
     (if n div 32 \<le> m then push_bit (n mod 32) (a ! (m - n div 32)) else 0)
     OR (if n mod 32 \<noteq> 0 \<and> Suc (n div 32) \<le> m
         then drop_bit (32 - n mod 32) (a ! (m - Suc (n div 32))) else 0)"
  using shl_fold [OF assms(2), of WIDTH] assms by (simp add: base_uint_shl_def less_imp_diff_less)

lemma wf_shl [wf_intros, simp]: "wf_uint a \<Longrightarrow> wf_uint (base_uint_shl a n)"
  by (simp add: base_uint_shl_def wf_uint_def)

lemma nth_shr:
  assumes "wf_uint a" and "m < WIDTH"
  shows "base_uint_shr a n ! m =
     (if m + n div 32 < WIDTH then drop_bit (n mod 32) (a ! (m + n div 32)) else 0)
     OR (if n mod 32 \<noteq> 0 \<and> m + n div 32 + 1 < WIDTH
         then push_bit (32 - n mod 32) (a ! (m + n div 32 + 1)) else 0)"
  using shr_fold [OF assms(2), of WIDTH] assms by (simp add: base_uint_shr_def)

lemma wf_shr [wf_intros, simp]: "wf_uint a \<Longrightarrow> wf_uint (base_uint_shr a n)"
  by (simp add: base_uint_shr_def wf_uint_def)

lemma div_mod_32: "r < 32 \<Longrightarrow> (32 * q + r) div 32 = q \<and> (32 * q + r) mod 32 = (r :: nat)"
  by simp

lemma bit_div_mod_shift_down:
  fixes j n :: nat
  assumes "n \<le> j"
  shows "if n mod 32 \<le> j mod 32
         then n div 32 \<le> j div 32 \<and> (j - n) div 32 = j div 32 - n div 32 \<and> (j - n) mod 32 = j mod 32 - n mod 32
         else Suc (n div 32) \<le> j div 32 \<and> (j - n) div 32 = j div 32 - Suc (n div 32)
              \<and> (j - n) mod 32 = 32 + j mod 32 - n mod 32"
proof -
  define m r k s where "m = j div 32" "r = j mod 32" "k = n div 32" "s = n mod 32"
  then have j: "j = 32 * m + r" "r < 32" and n: "n = 32 * k + s" "s < 32" by simp_all
  show ?thesis
  proof (cases "s \<le> r")
    case True
    with assms j n have "k \<le> m" by linarith
    with True j n have "j - n = 32 * (m - k) + (r - s)" by (simp add: algebra_simps)
    then show ?thesis using True j n \<open>k \<le> m\<close> div_mod_32 [of "r - s" "m - k"] by simp
  next
    case False
    with assms j n have "Suc k \<le> m" by linarith
    with False j n have "j - n = 32 * (m - Suc k) + (32 + r - s)" by (simp add: algebra_simps)
    then show ?thesis using False j n \<open>Suc k \<le> m\<close> div_mod_32 [of "32 + r - s" "m - Suc k"] by simp
  qed
qed

lemma bit_div_mod_shift_up:
  fixes j n :: nat
  shows "if n mod 32 + j mod 32 < 32
         then (j + n) div 32 = j div 32 + n div 32 \<and> (j + n) mod 32 = n mod 32 + j mod 32
         else (j + n) div 32 = Suc (j div 32 + n div 32) \<and> (j + n) mod 32 = n mod 32 + j mod 32 - 32"
proof -
  define m r k s where "m = j div 32" "r = j mod 32" "k = n div 32" "s = n mod 32"
  then have j: "j = 32 * m + r" "r < 32" and n: "n = 32 * k + s" "s < 32" by simp_all
  show ?thesis
  proof (cases "s + r < 32")
    case True
    have "j + n = 32 * (m + k) + (s + r)" using j n by simp
    then have "(j + n) div 32 = m + k" "(j + n) mod 32 = s + r"
      using div_mod_32 [OF True, of "m + k"] by simp_all
    then show ?thesis using True by (simp add: m_r_k_s_def [symmetric])
  next
    case False
    then have "j + n = 32 * Suc (m + k) + (s + r - 32)" using j n by simp
    moreover have "s + r - 32 < 32" using j n by simp
    ultimately have "(j + n) div 32 = Suc (m + k)" "(j + n) mod 32 = s + r - 32"
      by (simp_all only: div_mod_32 [of "s + r - 32" "Suc (m + k)"])
    then show ?thesis using False by (simp add: m_r_k_s_def [symmetric])
  qed
qed

lemma m32: "j mod 32 < (32 :: nat)"
  by simp

lemma bit_nth_shl:
  assumes "wf_uint a" and "m < WIDTH" and "r < 32"
  shows "bit (base_uint_shl a n ! m) r \<longleftrightarrow>
    (n div 32 \<le> m \<and> n mod 32 \<le> r \<and> bit (a ! (m - n div 32)) (r - n mod 32))
    \<or> (r < n mod 32 \<and> Suc (n div 32) \<le> m \<and> bit (a ! (m - Suc (n div 32))) (32 + r - n mod 32))"
proof -
  have "bit w (32 - n mod 32 + r) \<Longrightarrow> r < n mod 32" for w :: u32
    by (drule bit_imp_le_length) simp
  then show ?thesis using assms(3) by (auto simp: nth_shl [OF assms(1,2)] bit_simps)
qed

lemma bit_nth_shr:
  assumes "wf_uint a" and "m < WIDTH" and "r < 32"
  shows "bit (base_uint_shr a n ! m) r \<longleftrightarrow>
    (if n mod 32 + r < 32 then m + n div 32 < WIDTH \<and> bit (a ! (m + n div 32)) (n mod 32 + r)
     else m + n div 32 + 1 < WIDTH \<and> bit (a ! (m + n div 32 + 1)) (n mod 32 + r - 32))"
proof -
  have "bit w (n mod 32 + r) \<Longrightarrow> n mod 32 + r < 32" for w :: u32
    by (drule bit_imp_le_length) simp
  then show ?thesis using assms(3) by (auto simp: nth_shr [OF assms(1,2)] bit_simps add.commute [of r])
qed

lemma uval_shl:
  assumes "wf_uint a"
  shows "uval (base_uint_shl a n) = take_bit 256 (push_bit n (uval a))"
proof (rule bit_eqI)
  fix j :: nat
  have len: "length a = WIDTH" "length (base_uint_shl a n) = WIDTH"
    using assms wf_shl [OF assms] by (simp_all add: wf_uint_def)
  show "bit (uval (base_uint_shl a n)) j = bit (take_bit 256 (push_bit n (uval a))) j"
  proof (cases "j < 256")
    case True
    then have j: "j div 32 < WIDTH" by (simp add: WIDTH_def less_mult_imp_div_less)
    have l: "bit (uval (base_uint_shl a n)) j = bit (base_uint_shl a n ! (j div 32)) (j mod 32)"
      using j by (simp add: bit_uval len)
    have r: "bit (take_bit 256 (push_bit n (uval a))) j
             = (n \<le> j \<and> (j - n) div 32 < WIDTH \<and> bit (a ! ((j - n) div 32)) ((j - n) mod 32))"
      using True by (simp add: bit_uval len bit_simps)
    show ?thesis
    proof (cases "n \<le> j")
      case True
      show ?thesis
        unfolding l r bit_nth_shl [OF assms j m32]
        using bit_div_mod_shift_down [OF True] True j by (cases "n mod 32 \<le> j mod 32") (simp_all add: less_imp_diff_less)
    next
      case False
      then have "32 * (j div 32) + j mod 32 < 32 * (n div 32) + n mod 32" by simp
      then have "j div 32 < n div 32 \<or> j div 32 = n div 32 \<and> j mod 32 < n mod 32"
        using mod_less_divisor [of 32 j] mod_less_divisor [of 32 n] by linarith
      then show ?thesis
        unfolding l r bit_nth_shl [OF assms j m32]
        using False by auto
    qed
  next
    case False
    then have "WIDTH \<le> j div 32" using div_le_mono [of 256 j 32] by (simp add: WIDTH_def)
    with False show ?thesis by (simp add: bit_uval len bit_simps)
  qed
qed

lemma uval_shr:
  assumes "wf_uint a"
  shows "uval (base_uint_shr a n) = drop_bit n (uval a)"
proof (rule bit_eqI)
  fix j :: nat
  have len: "length a = WIDTH" "length (base_uint_shr a n) = WIDTH"
    using assms wf_shr [OF assms] by (simp_all add: wf_uint_def)
  have r: "bit (drop_bit n (uval a)) j
           = ((j + n) div 32 < WIDTH \<and> bit (a ! ((j + n) div 32)) ((j + n) mod 32))"
    by (simp add: bit_uval len bit_simps add.commute [of n j])
  show "bit (uval (base_uint_shr a n)) j = bit (drop_bit n (uval a)) j"
  proof (cases "j div 32 < WIDTH")
    case True
    then have "bit (uval (base_uint_shr a n)) j = bit (base_uint_shr a n ! (j div 32)) (j mod 32)"
      by (simp add: bit_uval len)
    then show ?thesis
      unfolding r bit_nth_shr [OF assms True m32]
      using bit_div_mod_shift_up [of n j] by (cases "n mod 32 + j mod 32 < 32") simp_all
  next
    case False
    moreover have "j div 32 \<le> (j + n) div 32" by (simp add: div_le_mono)
    ultimately show ?thesis unfolding r by (simp add: bit_uval len)
  qed
qed

section \<open>Comparison and bit length\<close>

lemma uval_take_Suc:
  "i < length pn \<Longrightarrow> uval (take (Suc i) pn) = uval (take i pn) + 2 ^ (32 * i) * unat (pn ! i)"
  by (simp add: take_Suc_conv_app_nth uval_append)

lemma uval_take_less:
  assumes "i < length pn" and "i < length b" and "unat (pn ! i) < unat (b ! i)"
  shows "uval (take (Suc i) pn) < uval (take (Suc i) b)"
proof -
  have "uval (take i pn) < 2 ^ (32 * i)" using uval_bound [of "take i pn"] assms(1) by simp
  then have "uval (take (Suc i) pn) < 2 ^ (32 * i) * (unat (pn ! i) + 1)"
    using assms(1) by (simp add: uval_take_Suc)
  also have "\<dots> \<le> 2 ^ (32 * i) * unat (b ! i)" using assms(3) by (intro mult_le_mono) auto
  also have "\<dots> \<le> uval (take (Suc i) b)" using assms(2) by (simp add: uval_take_Suc)
  finally show ?thesis .
qed

lemma compare_limbs_uval:
  "i \<le> length pn \<Longrightarrow> i \<le> length b \<Longrightarrow>
   compare_limbs i pn b = (if uval (take i pn) < uval (take i b) then - 1
                           else if uval (take i pn) > uval (take i b) then 1 else 0)"
proof (induction i)
  case (Suc i)
  consider "unat (pn ! i) < unat (b ! i)" | "unat (b ! i) < unat (pn ! i)" | "pn ! i = b ! i"
    by (metis linorder_neqE_nat word_unat_eq_iff)
  then show ?case
  proof cases
    case 1
    then show ?thesis using uval_take_less [of i pn b] Suc.prems by (simp add: word_less_nat_alt)
  next
    case 2
    then show ?thesis using uval_take_less [of i b pn] Suc.prems by (simp add: word_less_nat_alt)
  next
    case 3
    then show ?thesis using Suc by (simp add: uval_take_Suc)
  qed
qed simp

lemma CompareTo_uval:
  assumes "wf_uint pn" and "wf_uint b"
  shows "CompareTo pn b = (if uval pn < uval b then - 1 else if uval pn > uval b then 1 else 0)"
  using assms compare_limbs_uval [of WIDTH pn b] by (simp add: CompareTo_def wf_uint_def)

lemma bits_word_bounds:
  "unat w < 2 ^ Suc n \<Longrightarrow> w \<noteq> 0 \<Longrightarrow> n < 32 \<Longrightarrow>
   2 ^ (bits_word n w - 1) \<le> unat w \<and> unat w < 2 ^ bits_word n w \<and> 1 \<le> bits_word n w"
proof (induction n)
  case 0
  then show ?case by (simp add: Suc_le_eq unat_gt_0)
next
  case (Suc n)
  have b: "w AND push_bit (Suc n) 1 \<noteq> 0 \<longleftrightarrow> bit (unat w) (Suc n)"
    by (simp only: and_push_bit_1 bit_unsigned_iff) simp
  show ?case
  proof (cases "bit (unat w) (Suc n)")
    case True
    then have "2 ^ Suc n \<le> unat w"
      by (metis bit_take_bit_iff leI less_irrefl_nat take_bit_nat_eq_self)
    then show ?thesis using True b Suc.prems by simp
  next
    case False
    have "take_bit (Suc (Suc n)) (unat w) = take_bit (Suc n) (unat w)"
      using False by (intro bit_eqI) (auto simp: bit_take_bit_iff less_Suc_eq)
    then have "unat w < 2 ^ Suc n" using Suc.prems(1)
      by (metis take_bit_nat_eq_self take_bit_nat_less_exp)
    then show ?thesis using False b Suc by simp
  qed
qed

lemma bits_limbs_bounds:
  "n \<le> length pn \<Longrightarrow>
   (bits_limbs n pn = 0 \<longleftrightarrow> uval (take n pn) = 0)
   \<and> (uval (take n pn) \<noteq> 0 \<longrightarrow>
        2 ^ (bits_limbs n pn - 1) \<le> uval (take n pn) \<and> uval (take n pn) < 2 ^ bits_limbs n pn)"
proof (induction n)
  case (Suc n)
  show ?case
  proof (cases "pn ! n = 0")
    case True
    then show ?thesis using Suc by (simp add: uval_take_Suc)
  next
    case False
    define k where "k = bits_word 31 (pn ! n)"
    have k: "2 ^ (k - 1) \<le> unat (pn ! n)" "unat (pn ! n) < 2 ^ k" "1 \<le> k"
      using bits_word_bounds [of "pn ! n" 31] False by (simp_all add: k_def)
    have u: "uval (take (Suc n) pn) = uval (take n pn) + 2 ^ (32 * n) * unat (pn ! n)"
      using Suc.prems by (simp add: uval_take_Suc)
    have "(2::nat) ^ (32 * n + k - 1) = 2 ^ (32 * n) * 2 ^ (k - 1)" using k(3) by (simp add: power_add [symmetric])
    also have "\<dots> \<le> uval (take (Suc n) pn)" using k(1) u by (simp add: trans_le_add2)
    finally have lo: "2 ^ (32 * n + k - 1) \<le> uval (take (Suc n) pn)" .
    have "uval (take n pn) < 2 ^ (32 * n)" using uval_bound [of "take n pn"] Suc.prems by simp
    then have "uval (take (Suc n) pn) < 2 ^ (32 * n) * (unat (pn ! n) + 1)" using u by simp
    also have "\<dots> \<le> 2 ^ (32 * n) * 2 ^ k" using k(2) by (intro mult_le_mono) auto
    finally have hi: "uval (take (Suc n) pn) < 2 ^ (32 * n + k)" by (simp add: power_add)
    have "0 < uval (take (Suc n) pn)" using lo by (metis gr0I le_zero_eq power_not_zero zero_neq_numeral)
    then show ?thesis using False lo hi k(3) by (simp add: k_def)
  qed
qed simp

lemma bits_bounds:
  assumes "wf_uint pn" and "uval pn \<noteq> 0"
  shows "2 ^ (base_uint_bits pn - 1) \<le> uval pn" and "uval pn < 2 ^ base_uint_bits pn"
    and "0 < base_uint_bits pn"
  using assms bits_limbs_bounds [of WIDTH pn] by (auto simp: base_uint_bits_def wf_uint_def)

lemma bits_zero_iff: "wf_uint pn \<Longrightarrow> base_uint_bits pn = 0 \<longleftrightarrow> uval pn = 0"
  using bits_limbs_bounds [of WIDTH pn] by (auto simp: base_uint_bits_def wf_uint_def)

section \<open>The operators on well-formed numbers\<close>

lemma wf_zero [wf_intros, simp]: "wf_uint base_uint_zero"
  by (simp add: wf_uint_def base_uint_zero_def)

lemma uval_zero [val_simps, simp]: "uval base_uint_zero = 0"
  by (simp add: base_uint_zero_def)

lemma wf_of_u64 [wf_intros, simp]: "wf_uint (base_uint_of_u64 b)"
  by (simp add: wf_uint_def base_uint_of_u64_def WIDTH_def)

lemma uval_of_u64 [val_simps, simp]: "uval (base_uint_of_u64 b) = unat b"
proof -
  have m: "(0xffffffff :: u64) = mask 32" by (simp add: mask_numeral)
  have "(ucast b :: u32) = ucast (b AND 0xffffffff)"
    unfolding m by (rule bit_word_eqI) (simp add: bit_simps)
  moreover have "unat (ucast (drop_bit 32 b) :: u32) = unat (drop_bit 32 b)"
    using carry_bound [of b] by (simp add: unsigned_ucast_eq take_bit_nat_eq_self)
  ultimately show ?thesis using limb_split [of b] by (simp add: base_uint_of_u64_def)
qed

lemma wf_add [wf_intros, simp]: "wf_uint a \<Longrightarrow> wf_uint b \<Longrightarrow> wf_uint (base_uint_add a b)"
  by (simp add: wf_uint_def base_uint_add_def)

lemma uval_add [val_simps]:
  "wf_uint a \<Longrightarrow> wf_uint b \<Longrightarrow> uval (base_uint_add a b) = (uval a + uval b) mod 2 ^ 256"
  by (simp add: wf_uint_def base_uint_add_def uval_add_limbs WIDTH_def)

lemma wf_sub [wf_intros, simp]: "wf_uint a \<Longrightarrow> wf_uint b \<Longrightarrow> wf_uint (base_uint_sub a b)"
  by (simp add: wf_uint_def base_uint_sub_def base_uint_add_def)

lemma uval_lt: "wf_uint a \<Longrightarrow> uval a < 2 ^ 256"
  using uval_bound [of a] by (simp add: wf_uint_def WIDTH_def)

lemma uval_sub [val_simps]:
  assumes "wf_uint a" and "wf_uint b"
  shows "uval (base_uint_sub a b) = (uval a + (2 ^ 256 - uval b)) mod 2 ^ 256"
proof -
  have w: "wf_uint (base_uint_neg b)" using assms(2) by (simp add: wf_uint_def)
  show ?thesis
    unfolding base_uint_sub_def uval_add [OF assms(1) w] uval_neg
    using assms(2) by (simp add: wf_uint_def WIDTH_def mod_add_right_eq)
qed

lemma uval_sub_le:
  assumes "wf_uint a" and "wf_uint b" and "uval b \<le> uval a"
  shows "uval (base_uint_sub a b) = uval a - uval b"
proof -
  have "uval a + (2 ^ 256 - uval b) = (uval a - uval b) + 2 ^ 256"
    using assms(3) uval_lt [OF assms(2)] by linarith
  then show ?thesis
    unfolding uval_sub [OF assms(1,2)] using uval_lt [OF assms(1)]
    by (simp only: mod_add_self2 mod_less less_imp_diff_less)
qed

lemma wf_mul32 [wf_intros, simp]: "wf_uint a \<Longrightarrow> wf_uint (base_uint_mul32 a n)"
  by (simp add: wf_uint_def base_uint_mul32_def)

lemma uval_mul32 [val_simps]:
  "wf_uint a \<Longrightarrow> uval (base_uint_mul32 a n) = (uval a * unat n) mod 2 ^ 256"
  by (simp add: wf_uint_def base_uint_mul32_def uval_mul32_limbs WIDTH_def mult.commute)

lemma uval_mul [val_simps]:
  "wf_uint a \<Longrightarrow> wf_uint b \<Longrightarrow> uval (base_uint_mul a b) = (uval a * uval b) mod 2 ^ 256"
  using uval_fold_rows [of a b WIDTH] by (simp add: wf_uint_def base_uint_mul_def WIDTH_def)

lemma wf_mul [wf_intros, simp]: "wf_uint a \<Longrightarrow> wf_uint b \<Longrightarrow> wf_uint (base_uint_mul a b)"
  using uval_fold_rows [of a b WIDTH] by (simp add: wf_uint_def base_uint_mul_def)

lemma wf_not [wf_intros, simp]: "wf_uint a \<Longrightarrow> wf_uint (base_uint_not a)"
  by (simp add: wf_uint_def base_uint_not_def)

lemma uval_not_256 [val_simps]: "wf_uint a \<Longrightarrow> uval (base_uint_not a) = 2 ^ 256 - 1 - uval a"
  by (simp add: uval_not wf_uint_def WIDTH_def)

lemma wf_neg [wf_intros, simp]: "wf_uint a \<Longrightarrow> wf_uint (base_uint_neg a)"
  by (simp add: wf_uint_def)

lemma uval_neg_256 [val_simps]: "wf_uint a \<Longrightarrow> uval (base_uint_neg a) = (2 ^ 256 - uval a) mod 2 ^ 256"
  by (simp add: uval_neg wf_uint_def WIDTH_def)

lemma wf_inc [wf_intros, simp]: "wf_uint a \<Longrightarrow> wf_uint (base_uint_inc a)"
  by (simp add: wf_uint_def)

lemma uval_inc_256 [val_simps]: "wf_uint a \<Longrightarrow> uval (base_uint_inc a) = (uval a + 1) mod 2 ^ 256"
  by (simp add: uval_inc wf_uint_def WIDTH_def)

lemma length_dec [simp]: "length (base_uint_dec pn) = length pn"
  by (induction pn rule: base_uint_dec.induct) auto

lemma inc_dec: "base_uint_inc (base_uint_dec pn) = pn"
  by (induction pn rule: base_uint_dec.induct) (auto simp: neq_Nil_conv split: if_splits dest: arg_cong [of _ _ length])

lemma wf_dec [wf_intros, simp]: "wf_uint a \<Longrightarrow> wf_uint (base_uint_dec a)"
  by (simp add: wf_uint_def)

lemma uval_dec_256 [val_simps]:
  assumes "wf_uint a"
  shows "uval (base_uint_dec a) = (uval a + (2 ^ 256 - 1)) mod 2 ^ 256"
proof -
  define x where "x = uval (base_uint_dec a)"
  have x: "x < 2 ^ 256" using uval_lt [OF wf_dec [OF assms]] by (simp add: x_def)
  have "uval a = (x + 1) mod 2 ^ 256"
    using uval_inc_256 [OF wf_dec [OF assms]] by (simp add: inc_dec x_def)
  then have "(uval a + (2 ^ 256 - 1)) mod 2 ^ 256 = (x + 1 + (2 ^ 256 - 1)) mod 2 ^ 256"
    by (simp only: mod_add_left_eq)
  also have "x + 1 + (2 ^ 256 - 1) = x + 2 ^ 256" by simp
  also have "(x + 2 ^ 256) mod 2 ^ 256 = x" using x by (simp only: mod_add_self2 mod_less)
  finally show ?thesis by (simp add: x_def)
qed

lemma wf_bitwise [wf_intros, simp]:
  "wf_uint a \<Longrightarrow> wf_uint b \<Longrightarrow> wf_uint (base_uint_and a b)"
  "wf_uint a \<Longrightarrow> wf_uint b \<Longrightarrow> wf_uint (base_uint_or a b)"
  "wf_uint a \<Longrightarrow> wf_uint b \<Longrightarrow> wf_uint (base_uint_xor a b)"
  by (simp_all add: wf_uint_def base_uint_and_def base_uint_or_def base_uint_xor_def)

lemma uval_bitwise [val_simps]:
  assumes "wf_uint a" and "wf_uint b"
  shows "uval (base_uint_and a b) = uval a AND uval b"
    and "uval (base_uint_or a b) = uval a OR uval b"
    and "uval (base_uint_xor a b) = uval a XOR uval b"
  using assms
  by (auto intro!: bit_eqI simp: bit_uval bit_simps wf_uint_def base_uint_and_def base_uint_or_def base_uint_xor_def)

lemma EqualTo_uval:
  assumes "wf_uint pn"
  shows "EqualTo pn b \<longleftrightarrow> uval pn = unat b"
proof -
  obtain p q r where pn: "pn = p # q # r" and r: "length r = WIDTH - 2"
    using assms by (cases pn; cases "tl pn") (auto simp: wf_uint_def WIDTH_def)
  have m: "(0xffffffff :: u64) = mask 32" by (simp add: mask_numeral)
  have hi: "ucast q = drop_bit 32 b \<longleftrightarrow> q = ucast (drop_bit 32 b)"
    using carry_bound [of b] by (auto simp: word_unat_eq_iff unsigned_ucast_eq take_bit_nat_eq_self)
  have lo: "ucast p = (b AND 0xffffffff) \<longleftrightarrow> p = ucast b"
    unfolding m by (auto simp: bit_eq_iff bit_simps dest: bit_lt32)
  have "EqualTo pn b \<longleftrightarrow> pn = base_uint_of_u64 b"
    using hi lo r by (auto simp: EqualTo_def pn base_uint_of_u64_def list_all_iff intro!: replicate_eqI)
  also have "\<dots> \<longleftrightarrow> uval pn = unat b"
    using uval_inj [of pn "base_uint_of_u64 b"] wf_of_u64 [of b] assms by (auto simp: wf_uint_def)
  finally show ?thesis .
qed

section \<open>Division\<close>

lemma uval_set_bit:
  assumes "wf_uint pn" and "n < 256"
  shows "uval (pn[n div 32 := pn ! (n div 32) OR push_bit (n mod 32) 1]) = set_bit n (uval pn)"
proof (rule bit_eqI)
  fix j :: nat
  have n: "n div 32 < length pn" using assms by (simp add: wf_uint_def WIDTH_def less_mult_imp_div_less)
  have "j div 32 = n div 32 \<and> j mod 32 = n mod 32 \<longleftrightarrow> j = n" by (metis div_mult_mod_eq)
  then show "bit (uval (pn[n div 32 := pn ! (n div 32) OR push_bit (n mod 32) 1])) j = bit (set_bit n (uval pn)) j"
    using n by (auto simp: bit_uval nth_list_update bit_simps)
qed

lemma set_bit_add:
  assumes "2 ^ Suc k dvd (v :: nat)"
  shows "set_bit k v = v + 2 ^ k"
proof -
  have "take_bit (Suc k) v = 0" using assms by (simp add: take_bit_eq_0_iff)
  then have "\<not> bit v k" by (metis bit_0_eq bit_take_bit_iff bot_apply bot_bool_def lessI)
  then show ?thesis by (simp add: set_bit_eq)
qed

lemma div_loop_correct:
  assumes "wf_uint num" and "wf_uint dv" and "wf_uint pn" and "0 < d"
    and "shift \<le> 256" and "\<And>k. shift = Suc k \<Longrightarrow> uval dv = d * 2 ^ k"
    and "uval num < d * 2 ^ shift" and "2 ^ shift dvd uval pn"
  shows "wf_uint (fst (div_loop shift num dv pn))
    \<and> uval (fst (div_loop shift num dv pn)) = uval pn + uval num div d
    \<and> uval (snd (div_loop shift num dv pn)) = uval num mod d"
  using assms
proof (induction shift arbitrary: num dv pn)
  case (Suc k)
  note wf = Suc.prems(1-3)
  have dv: "uval dv = d * 2 ^ k" using Suc.prems(6) by simp
  have dv': "uval (base_uint_shr dv 1) = d * 2 ^ j" if "k = Suc j" for j
    using wf(2) that by (simp add: uval_shr dv drop_bit_eq_div)
  show ?case
  proof (cases "uval dv \<le> uval num")
    case True
    define pn' where "pn' = pn[k div 32 := pn ! (k div 32) OR push_bit (k mod 32) 1]"
    define num' where "num' = base_uint_sub num dv"
    have pn': "wf_uint pn'" using wf by (simp add: pn'_def wf_uint_def)
    have "uval pn' = set_bit k (uval pn)"
      unfolding pn'_def using Suc.prems(5) by (intro uval_set_bit wf) simp
    then have pn'2: "uval pn' = uval pn + 2 ^ k" by (simp only: set_bit_add [OF Suc.prems(8)])
    have num': "wf_uint num'" "uval num' = uval num - d * 2 ^ k"
      using wf True by (simp_all add: num'_def uval_sub_le dv)
    have step: "div_loop (Suc k) num dv pn = div_loop k num' (base_uint_shr dv 1) pn'"
      using True wf by (simp add: CompareTo_uval num'_def pn'_def)
    have "uval num = uval num' + d * 2 ^ k" using True num'(2) dv by simp
    moreover from this have "uval num div d = uval num' div d + 2 ^ k"
      and "uval num mod d = uval num' mod d" using Suc.prems(4) by simp_all
    moreover have "2 ^ k dvd uval pn'"
      using Suc.prems(8) unfolding pn'2 by (metis dvd_add dvd_refl dvd_trans le_imp_power_dvd lessI less_imp_le)
    ultimately show ?thesis
      unfolding step using Suc.IH [OF num'(1) wf_shr [OF wf(2)] pn' Suc.prems(4) _ dv'] Suc.prems(5,7) pn'2
      by simp
  next
    case False
    have step: "div_loop (Suc k) num dv pn = div_loop k num (base_uint_shr dv 1) pn"
      using False wf by (simp add: CompareTo_uval)
    have "2 ^ k dvd uval pn"
      using Suc.prems(8) by (metis dvd_trans le_imp_power_dvd lessI less_imp_le)
    then show ?thesis
      unfolding step using Suc.IH [OF wf(1) wf_shr [OF wf(2)] wf(3) Suc.prems(4) _ dv'] Suc.prems(5) False dv
      by simp
  qed
qed simp

lemma base_uint_div_spec:
  assumes "wf_uint num" and "wf_uint b"
  shows "if uval b = 0 then base_uint_div num b = Inl DivisionByZero
         else \<exists>q. base_uint_div num b = Inr q \<and> wf_uint q \<and> uval q = uval num div uval b"
proof (cases "uval b = 0")
  case True
  then show ?thesis using assms by (simp add: base_uint_div_def bits_zero_iff)
next
  case False
  note b = bits_bounds [OF assms(2) False]
  show ?thesis
  proof (cases "base_uint_bits num < base_uint_bits b")
    case True
    have "uval num < uval b"
    proof (cases "uval num = 0")
      case nz: False
      have "uval num < 2 ^ base_uint_bits num" by (rule bits_bounds [OF assms(1) nz])
      also have "\<dots> \<le> 2 ^ (base_uint_bits b - 1)" using True by (intro power_increasing) auto
      finally show ?thesis using b(1) by simp
    qed (use False in simp)
    then show ?thesis using True b(3) False by (simp add: base_uint_div_def)
  next
    case nlt: False
    then have nz: "uval num \<noteq> 0" using b(3) bits_zero_iff [OF assms(1)] by auto
    define sh where "sh = base_uint_bits num - base_uint_bits b"
    have num: "uval num < 2 ^ base_uint_bits num" by (rule bits_bounds [OF assms(1) nz])
    have "(2::nat) ^ (base_uint_bits num - 1) < 2 ^ 256"
      using bits_bounds(1) [OF assms(1) nz] uval_lt [OF assms(1)] by (rule le_less_trans)
    then have le: "base_uint_bits num \<le> 256" by (simp del: power_numeral)
    have "uval b * 2 ^ sh < 2 ^ base_uint_bits b * 2 ^ sh" using b(2) by simp
    also have "\<dots> = 2 ^ base_uint_bits num" using nlt by (simp add: sh_def power_add [symmetric])
    also have "\<dots> \<le> 2 ^ 256" using le by (intro power_increasing) auto
    finally have shl: "uval (base_uint_shl b sh) = uval b * 2 ^ sh"
      using assms(2) by (simp add: uval_shl push_bit_eq_mult take_bit_nat_eq_self del: power_numeral)
    have "base_uint_bits num = (base_uint_bits b - 1) + Suc sh" using nlt b(3) by (simp add: sh_def)
    then have "(2::nat) ^ base_uint_bits num = 2 ^ (base_uint_bits b - 1) * 2 ^ Suc sh"
      by (simp only: power_add)
    also have "\<dots> \<le> uval b * 2 ^ Suc sh" using b(1) by (intro mult_le_mono) auto
    finally have "uval num < uval b * 2 ^ Suc sh" using num by simp
    then have "wf_uint (fst (div_loop (Suc sh) num (base_uint_shl b sh) base_uint_zero))
      \<and> uval (fst (div_loop (Suc sh) num (base_uint_shl b sh) base_uint_zero)) = uval base_uint_zero + uval num div uval b"
      using div_loop_correct [of num "base_uint_shl b sh" base_uint_zero "uval b" "Suc sh"]
        assms False shl le b(3) nlt by (simp add: sh_def)
    then show ?thesis using nlt b(3) False by (simp add: base_uint_div_def sh_def Let_def del: div_loop.simps)
  qed
qed

section \<open>The compact format\<close>

lemma byte_size_bounds:
  assumes "wf_uint pn"
  defines "n \<equiv> (base_uint_bits pn + 7) div 8"
  shows "uval pn < 256 ^ n" and "n \<le> 32" and "uval pn = 0 \<longleftrightarrow> n = 0"
    and "uval pn \<noteq> 0 \<Longrightarrow> 256 ^ (n - 1) \<le> uval pn"
proof -
  have pow: "(256::nat) ^ k = 2 ^ (8 * k)" for k by (simp add: power_mult)
  show z: "uval pn = 0 \<longleftrightarrow> n = 0" using bits_zero_iff [OF assms(1)] by (auto simp: n_def)
  show lt: "uval pn < 256 ^ n"
  proof (cases "uval pn = 0")
    case False
    have "uval pn < 2 ^ base_uint_bits pn" by (rule bits_bounds [OF assms(1) False])
    also have "\<dots> \<le> 2 ^ (8 * n)" unfolding n_def by (intro power_increasing) linarith+
    finally show ?thesis by (simp add: pow)
  qed simp
  show ge: "256 ^ (n - 1) \<le> uval pn" if "uval pn \<noteq> 0"
  proof -
    have "8 * (n - 1) \<le> base_uint_bits pn - 1" unfolding n_def by linarith
    then have "(256::nat) ^ (n - 1) \<le> 2 ^ (base_uint_bits pn - 1)"
      unfolding pow by (intro power_increasing) auto
    also have "\<dots> \<le> uval pn" by (rule bits_bounds [OF assms(1) that])
    finally show ?thesis .
  qed
  show "n \<le> 32"
  proof (cases "uval pn = 0")
    case False
    have "(2::nat) ^ (8 * (n - 1)) < 2 ^ 256"
      using ge [OF False] uval_lt [OF assms(1)] unfolding pow by (rule le_less_trans)
    then show ?thesis by (simp del: power_numeral)
  qed (use z in simp)
qed

text \<open>The mantissa \<^verbatim>\<open>GetCompact\<close> takes from a number of \<open>n\<close> bytes.\<close>

definition mantissa :: "nat \<Rightarrow> nat \<Rightarrow> nat" where
  "mantissa v n = (if n \<le> 3 then v * 256 ^ (3 - n) else v div 256 ^ (n - 3))"

lemma mantissa_lt: "v < 256 ^ n \<Longrightarrow> mantissa v n < 2 ^ 24"
proof (cases "n \<le> 3")
  case True
  assume "v < 256 ^ n"
  then have "v * 256 ^ (3 - n) < 256 ^ n * 256 ^ (3 - n)" by simp
  also have "\<dots> = 256 ^ 3" using True by (simp add: power_add [symmetric])
  finally show ?thesis using True by (simp add: mantissa_def)
next
  case False
  then obtain k where k: "n = 3 + k" using le_Suc_ex nat_le_linear by blast
  assume "v < 256 ^ n"
  then show ?thesis using False by (simp add: k mantissa_def power_add less_mult_imp_div_less)
qed

lemma GetLow64_uval: "wf_uint pn \<Longrightarrow> unat (GetLow64 pn) = take_bit 64 (uval pn)"
proof (rule bit_eqI)
  fix j :: nat
  assume wf: "wf_uint pn"
  consider "j < 32" | "32 \<le> j" "j < 64" | "64 \<le> j" by linarith
  then show "bit (unat (GetLow64 pn)) j = bit (take_bit 64 (uval pn)) j"
  proof cases
    case 2
    then obtain r where "j = r + 32" "r < 32" by (metis add.commute add_less_cancel_right le_Suc_ex numeral_Bit0)
    moreover from this have "(r + 32) div 32 = 1" "(r + 32) mod 32 = r" by simp_all
    ultimately show ?thesis using wf
      by (auto simp: GetLow64_def bit_simps bit_uval wf_uint_def WIDTH_def dest: bit_imp_le_length)
  qed (use wf in \<open>auto simp: GetLow64_def bit_simps bit_uval wf_uint_def WIDTH_def dest: bit_imp_le_length\<close>)
qed

lemma compact_fields:
  fixes w :: u32
  assumes "unat w < 2 ^ 23" and "n < 256"
  shows "unat (drop_bit 24 (w OR push_bit 24 (of_nat n))) = n"
    and "(w OR push_bit 24 (of_nat n)) AND 0x007fffff = w"
    and "(w OR push_bit 24 (of_nat n)) AND 0x00800000 = 0"
    and "w AND NOT 0x007fffff = 0"
proof -
  have m: "(0x007fffff :: u32) = mask 23" by (simp add: mask_numeral)
  have "take_bit 23 (unat w) = unat w" using assms(1) by (simp add: take_bit_nat_eq_self del: power_numeral)
  then have hi: "j < 23" if "bit w j" for j
  proof -
    have "bit (take_bit 23 (unat w)) j"
      using that \<open>take_bit 23 (unat w) = unat w\<close> by (simp add: bit_simps)
    then show ?thesis by (simp add: bit_take_bit_iff)
  qed
  have hn: "j < 8 \<and> j < 32" if "bit n j" for j
  proof -
    have "take_bit 8 n = n" using assms(2) by (simp add: take_bit_nat_eq_self)
    then have "bit (take_bit 8 n) j" using that by simp
    then show ?thesis by (simp add: bit_take_bit_iff)
  qed
  show "unat (drop_bit 24 (w OR push_bit 24 (of_nat n))) = n"
    by (rule bit_eqI) (auto simp: bit_simps dest: hn hi)
  show "(w OR push_bit 24 (of_nat n)) AND 0x007fffff = w"
    unfolding m by (rule bit_word_eqI) (auto simp: bit_simps dest: hi)
  have "\<not> bit (w OR push_bit 24 (of_nat n)) 23" by (auto simp: bit_simps dest: hi)
  then show "(w OR push_bit 24 (of_nat n)) AND 0x00800000 = 0"
    using and_push_bit_1 [of "w OR push_bit 24 (of_nat n)" 23] by simp
  show "w AND NOT 0x007fffff = 0"
    unfolding m by (rule bit_word_eqI) (auto simp: bit_simps dest: hi)
qed

definition compact_mantissa :: "nat \<Rightarrow> nat \<Rightarrow> nat" where
  "compact_mantissa v n = (if 2 ^ 23 \<le> mantissa v n then mantissa v n div 256 else mantissa v n)"

definition compact_exponent :: "nat \<Rightarrow> nat \<Rightarrow> nat" where
  "compact_exponent v n = (if 2 ^ 23 \<le> mantissa v n then n + 1 else n)"

lemma compact_mantissa_lt: "v < 256 ^ n \<Longrightarrow> compact_mantissa v n < 2 ^ 23"
  using mantissa_lt [of v n] by (simp add: compact_mantissa_def less_mult_imp_div_less)

lemma GetCompact_raw_mantissa:
  assumes "wf_uint pn"
  defines "n \<equiv> (base_uint_bits pn + 7) div 8"
  defines "w \<equiv> (if n \<le> 3 then ucast (push_bit (8 * (3 - n)) (GetLow64 pn))
                 else ucast (GetLow64 (base_uint_shr pn (8 * (n - 3))))) :: u32"
  shows "unat w = mantissa (uval pn) n"
proof -
  note b = byte_size_bounds [OF assms(1), folded n_def]
  have lt: "mantissa (uval pn) n < 2 ^ 24" by (rule mantissa_lt [OF b(1)])
  have c: "unat (ucast x :: u32) = unat x" if "unat x < 2 ^ 24" for x :: u64
    using that by (simp add: unsigned_ucast_eq take_bit_nat_eq_self)
  have pow: "(256::nat) ^ k = 2 ^ (8 * k)" for k by (simp add: power_mult)
  show ?thesis
  proof (cases "n \<le> 3")
    case True
    then have "(256::nat) ^ n \<le> 256 ^ 3" by (intro power_increasing) auto
    then have "uval pn < 2 ^ 64" using b(1) by simp
    then have low: "unat (GetLow64 pn) = uval pn"
      using GetLow64_uval [OF assms(1)] by (simp add: take_bit_nat_eq_self)
    have m: "mantissa (uval pn) n = uval pn * 2 ^ (8 * (3 - n))" using True by (simp add: mantissa_def pow)
    then have "unat (push_bit (8 * (3 - n)) (GetLow64 pn)) = mantissa (uval pn) n"
      using lt by (subst unat_push_bit_no_wrap) (simp_all add: low)
    then show ?thesis using True c lt by (simp add: w_def)
  next
    case False
    have m: "uval (base_uint_shr pn (8 * (n - 3))) = mantissa (uval pn) n"
      using False by (simp add: uval_shr [OF assms(1)] drop_bit_eq_div mantissa_def pow)
    then have "unat (GetLow64 (base_uint_shr pn (8 * (n - 3)))) = mantissa (uval pn) n"
      using GetLow64_uval [OF wf_shr [OF assms(1)]] lt by (simp add: take_bit_nat_eq_self)
    then show ?thesis using False c lt by (simp add: w_def)
  qed
qed

lemma GetCompact_value:
  assumes "wf_uint pn"
  defines "n \<equiv> (base_uint_bits pn + 7) div 8"
  shows "\<exists>w. unat w = compact_mantissa (uval pn) n
          \<and> GetCompact pn False = Some (w OR push_bit 24 (of_nat (compact_exponent (uval pn) n)))"
proof -
  note b = byte_size_bounds [OF assms(1), folded n_def]
  define w :: u32 where "w = (if n \<le> 3 then ucast (push_bit (8 * (3 - n)) (GetLow64 pn))
                 else ucast (GetLow64 (base_uint_shr pn (8 * (n - 3)))))"
  have w: "unat w = mantissa (uval pn) n"
    unfolding w_def n_def by (rule GetCompact_raw_mantissa [OF assms(1)])
  have lt: "unat w < 2 ^ 24" using mantissa_lt [OF b(1)] by (simp add: w)
  have "w AND push_bit 23 1 \<noteq> 0 \<longleftrightarrow> 2 ^ 23 \<le> unat w"
    using bit_top_iff [of "unat w" 23] lt by (simp only: and_push_bit_1) (simp add: bit_simps)
  then have bit23: "w AND 0x00800000 \<noteq> 0 \<longleftrightarrow> 2 ^ 23 \<le> unat w" by simp
  define w' where "w' = (if 2 ^ 23 \<le> unat w then drop_bit 8 w else w)"
  define e where "e = compact_exponent (uval pn) n"
  have w': "unat w' = compact_mantissa (uval pn) n"
    using unat_drop_bit_div [of 8 w] by (simp add: w'_def compact_mantissa_def w)
  have e: "e < 256" using b(2) by (simp add: e_def compact_exponent_def)
  have "unat w' < 2 ^ 23" using compact_mantissa_lt [OF b(1)] by (simp add: w')
  then have ok: "w' AND NOT 0x007fffff = 0" using e by (rule compact_fields(4))
  have "GetCompact pn False = Some (w' OR push_bit 24 (of_nat e))"
  proof (cases "2 ^ 23 \<le> unat w")
    case True
    then have "w' = drop_bit 8 w" "e = n + 1" by (simp_all add: w'_def e_def compact_exponent_def w)
    then show ?thesis using ok e bit23 True
      by (simp add: GetCompact_def Let_def n_def [symmetric] w_def [symmetric])
  next
    case False
    then have "w' = w" "e = n" by (simp_all add: w'_def e_def compact_exponent_def w)
    then show ?thesis using ok e bit23 False
      by (simp add: GetCompact_def Let_def n_def [symmetric] w_def [symmetric])
  qed
  then show ?thesis using w' by (auto simp: e_def)
qed

lemma SetCompact_fields:
  fixes w :: u32
  assumes "unat w < 2 ^ 23" and "n \<le> 33" and "n = 33 \<Longrightarrow> unat w < 2 ^ 16"
    and "n \<le> 3 \<Longrightarrow> 256 ^ (3 - n) dvd unat w"
  shows "\<exists>t. SetCompact (w OR push_bit 24 (of_nat n)) = (t, False, False) \<and> wf_uint t
          \<and> uval t * 256 ^ 3 = unat w * 256 ^ n"
proof -
  define c where "c = w OR push_bit 24 (of_nat n)"
  have c: "unat (drop_bit 24 c) = n" "c AND 0x007fffff = w" "c AND 0x00800000 = 0"
    using compact_fields [of w n] assms(1,2) by (simp_all add: c_def)
  have ov: "\<not> (w > 0xffff \<and> n > 32)" using assms(2,3) by (auto simp: word_less_nat_alt)
  have pow: "(2::nat) ^ (8 * k) = 256 ^ k" for k by (simp add: power_mult)
  show ?thesis
  proof (cases "n \<le> 3")
    case True
    have "unat (drop_bit (8 * (3 - n)) w) * 256 ^ (3 - n) = unat w"
      using unat_drop_bit_div [of "8 * (3 - n)" w] assms(4) [OF True] by (simp add: pow)
    then have "unat (drop_bit (8 * (3 - n)) w) * 256 ^ (3 - n) * 256 ^ n = unat w * 256 ^ n" by simp
    then have "unat (drop_bit (8 * (3 - n)) w) * 256 ^ 3 = unat w * 256 ^ n"
      using True by (simp add: mult.assoc power_add [symmetric])
    then show ?thesis using True c by (simp add: c_def [symmetric] SetCompact_def Let_def)
  next
    case False
    define t where "t = base_uint_shl (base_uint_of_u64 (ucast w)) (8 * (n - 3))"
    have "unat w * 256 ^ (n - 3) < 2 ^ 256"
    proof (cases "n = 33")
      case True
      then show ?thesis using assms(3) by simp
    next
      case nf: False
      have "(256::nat) ^ (n - 3) \<le> 256 ^ 29" using assms(2) nf by (intro power_increasing) auto
      then have "unat w * 256 ^ (n - 3) \<le> 2 ^ 23 * 256 ^ 29" using assms(1) by (intro mult_le_mono) auto
      then show ?thesis by simp
    qed
    then have v: "uval t = unat w * 256 ^ (n - 3)"
      by (simp add: t_def uval_shl push_bit_eq_mult pow take_bit_nat_eq_self)
    have "uval t * 256 ^ 3 = unat w * (256 ^ (n - 3) * 256 ^ 3)" by (simp add: v)
    also have "(256::nat) ^ (n - 3) * 256 ^ 3 = 256 ^ n"
      using False by (simp only: power_add [symmetric]) simp
    finally show ?thesis
      using False c ov assms(2) by (auto simp: c_def [symmetric] t_def SetCompact_def Let_def)
  qed
qed

lemma mantissa_Suc: "mantissa v (n + 1) = mantissa v n div 256"
proof -
  consider "n < 3" | "n = 3" | "3 < n" by linarith
  then show ?thesis
  proof cases
    case 1
    then have "3 - n = Suc (3 - (n + 1))" by simp
    then have "(256::nat) ^ (3 - n) = 256 * 256 ^ (3 - (n + 1))" by (simp only: power_Suc)
    then have "v * 256 ^ (3 - n) div 256 = v * 256 ^ (3 - (n + 1))" by simp
    moreover have "n + 1 \<le> 3" "n \<le> 3" using 1 by simp_all
    ultimately show ?thesis unfolding mantissa_def by (simp only: if_True)
  next
    case 3
    then have "n + 1 - 3 = Suc (n - 3)" by simp
    then have "(256::nat) ^ (n + 1 - 3) = 256 ^ (n - 3) * 256" by (simp only: power_Suc2)
    then show ?thesis using 3 by (simp add: mantissa_def div_mult2_eq)
  qed (simp add: mantissa_def)
qed

lemma compact_mantissa_exponent: "compact_mantissa v n = mantissa v (compact_exponent v n)"
  by (simp add: compact_mantissa_def compact_exponent_def mantissa_Suc [simplified])

text \<open>
  The number that survives the compact format: what is below the three mantissa bytes
  (two, when the third would set the sign bit) is cut off.
\<close>

definition trunc256 :: "nat \<Rightarrow> nat \<Rightarrow> nat" where
  "trunc256 e v = v div 256 ^ e * 256 ^ e"

lemma mantissa_trunc: "t * 256 ^ 3 = mantissa v e * 256 ^ e \<Longrightarrow> t = trunc256 (e - 3) v"
proof (cases "e \<le> 3")
  case True
  assume t: "t * 256 ^ 3 = mantissa v e * 256 ^ e"
  have "v * 256 ^ (3 - e) * 256 ^ e = v * 256 ^ 3"
    using True by (simp only: mult.assoc power_add [symmetric]) simp
  then have "t * 256 ^ 3 = v * 256 ^ 3" using t True by (simp only: mantissa_def if_True)
  then show ?thesis using True by (simp add: trunc256_def)
next
  case False
  assume t: "t * 256 ^ 3 = mantissa v e * 256 ^ e"
  have "(256::nat) ^ e = 256 ^ (e - 3) * 256 ^ 3" using False by (simp only: power_add [symmetric]) simp
  then show ?thesis using t False by (simp add: mantissa_def trunc256_def mult.assoc [symmetric])
qed

lemma compact_exponent_lower:
  assumes "v < 256 ^ n" and "v \<noteq> 0 \<Longrightarrow> 256 ^ (n - 1) \<le> v" and "v = 0 \<longleftrightarrow> n = 0"
    and "3 < compact_exponent v n"
  shows "2 ^ 15 * 256 ^ (compact_exponent v n - 3) \<le> v" and "compact_exponent v n - 3 \<le> n - 1"
proof -
  have nz: "v \<noteq> 0" using assms(3,4) by (auto simp: compact_exponent_def mantissa_def split: if_splits)
  show "compact_exponent v n - 3 \<le> n - 1" by (auto simp: compact_exponent_def)
  show "2 ^ 15 * 256 ^ (compact_exponent v n - 3) \<le> v"
  proof (cases "2 ^ 23 \<le> mantissa v n")
    case True
    show ?thesis
    proof (cases "n = 3")
      case n: True
      then show ?thesis using True by (simp add: compact_exponent_def mantissa_def)
    next
      case False
      then have n: "3 < n" using assms(4) True by (simp add: compact_exponent_def)
      then have "n - 2 = Suc (n - 3)" by simp
      then have "(2::nat) ^ 15 * 256 ^ (n - 2) = 2 ^ 23 * 256 ^ (n - 3)" by (simp only: power_Suc) simp
      also have "\<dots> \<le> v div 256 ^ (n - 3) * 256 ^ (n - 3)"
        using True n by (intro mult_le_mono) (simp_all add: mantissa_def)
      also have "\<dots> \<le> v" by simp
      finally show ?thesis using True by (simp add: compact_exponent_def)
    qed
  next
    case False
    then have n: "3 < n" using assms(4) by (simp add: compact_exponent_def)
    have "(2::nat) ^ 15 * 256 ^ (n - 3) \<le> 256 ^ 2 * 256 ^ (n - 3)" by simp
    also have "\<dots> = 256 ^ (2 + (n - 3))" by (simp only: power_add)
    also have "(256::nat) ^ (2 + (n - 3)) = 256 ^ (n - 1)" using n by (intro arg_cong [of _ _ "power 256"]) simp
    also have "\<dots> \<le> v" by (rule assms(2) [OF nz])
    finally show ?thesis using False by (simp add: compact_exponent_def)
  qed
qed

lemma trunc256_le: "trunc256 e v \<le> v"
  by (simp add: trunc256_def)

lemma trunc256_error: "v - trunc256 e v < 256 ^ e"
  using mod_less_divisor [of "256 ^ e" v] by (simp add: trunc256_def minus_div_mult_eq_mod)

lemma trunc256_ge:
  assumes "256 ^ k \<le> v" and "e \<le> k"
  shows "256 ^ k \<le> trunc256 e v"
proof -
  have "(256::nat) ^ k = 256 ^ (k - e) * 256 ^ e" using assms(2) by (simp add: power_add [symmetric])
  moreover have "256 ^ (k - e) \<le> v div 256 ^ e"
    using assms by (metis calculation div_le_mono div_mult_self_is_m power_eq_0_iff zero_less_numeral zero_less_power)
  ultimately show ?thesis by (simp add: trunc256_def)
qed

lemma byte_size_unique:
  fixes a b v :: nat
  assumes "v < 256 ^ a" "v < 256 ^ b" "256 ^ (a - 1) \<le> v" "256 ^ (b - 1) \<le> v"
  shows "a = b"
proof -
  have "a - 1 < b" "b - 1 < a"
    using assms by (metis le_less_trans nat_power_less_imp_less zero_less_numeral)+
  then show ?thesis by linarith
qed

lemma compact_trunc:
  assumes "v < 256 ^ n" and "v \<noteq> 0 \<Longrightarrow> 256 ^ (n - 1) \<le> v" and "v = 0 \<longleftrightarrow> n = 0"
  defines "t \<equiv> trunc256 (compact_exponent v n - 3) v"
  shows "compact_exponent t n = compact_exponent v n" and "compact_mantissa t n = compact_mantissa v n"
proof -
  have *: "compact_exponent t n = compact_exponent v n \<and> compact_mantissa t n = compact_mantissa v n"
  proof (cases "compact_exponent v n \<le> 3")
    case True
    then have "t = v" by (simp add: t_def trunc256_def)
    then show ?thesis by simp
  next
    case gt: False
    show ?thesis
    proof (cases "2 ^ 23 \<le> mantissa v n")
      case True
      then have e: "compact_exponent v n = n + 1" by (simp add: compact_exponent_def)
      have "mantissa t n = mantissa v n div 256 * 256"
      proof (cases "n = 3")
        case n: True
        then show ?thesis using e by (simp add: t_def trunc256_def mantissa_def)
      next
        case False
        then have "3 < n" using gt e by simp
        then have "n + 1 - 3 = Suc (n - 3)" by simp
        then have p: "(256::nat) ^ (n + 1 - 3) = 256 * 256 ^ (n - 3)" by (simp only: power_Suc)
        have "t div 256 ^ (n - 3) = v div 256 ^ (n - 3) div 256 * 256"
          unfolding t_def e trunc256_def p by (simp add: div_mult2_eq mult.commute [of 256] mult.assoc [symmetric])
        then show ?thesis using \<open>3 < n\<close> by (simp add: mantissa_def)
      qed
      moreover have "2 ^ 23 \<le> mantissa v n div 256 * 256" using True by simp
      ultimately show ?thesis using True by (simp add: compact_exponent_def compact_mantissa_def)
    next
      case False
      then have e: "compact_exponent v n = n" by (simp add: compact_exponent_def)
      then have "mantissa t n = mantissa v n" using gt by (simp add: t_def mantissa_def trunc256_def)
      then show ?thesis by (simp add: compact_exponent_def compact_mantissa_def)
    qed
  qed
  show "compact_exponent t n = compact_exponent v n" and "compact_mantissa t n = compact_mantissa v n"
    using * by simp_all
qed

lemma compact_error:
  assumes "v < 256 ^ n" and "v \<noteq> 0 \<Longrightarrow> 256 ^ (n - 1) \<le> v" and "v = 0 \<longleftrightarrow> n = 0"
  defines "e \<equiv> compact_exponent v n"
  shows "(v - trunc256 (e - 3) v) * 2 ^ 15 \<le> v"
proof (cases "3 < e")
  case True
  have "(v - trunc256 (e - 3) v) * 2 ^ 15 \<le> 256 ^ (e - 3) * 2 ^ 15"
    using trunc256_error [of v "e - 3"] by simp
  also have "\<dots> \<le> v"
    using compact_exponent_lower(1) [OF assms(1-3)] True by (simp add: e_def mult.commute)
  finally show ?thesis .
qed (simp add: trunc256_def)

lemma compact_byte_size:
  assumes "wf_uint pn" and "wf_uint t"
  defines "n \<equiv> (base_uint_bits pn + 7) div 8"
  assumes "uval t = trunc256 (compact_exponent (uval pn) n - 3) (uval pn)"
  shows "(base_uint_bits t + 7) div 8 = n"
proof (cases "uval pn = 0")
  case True
  then show ?thesis
    using byte_size_bounds(3) [OF assms(1)] byte_size_bounds(3) [OF assms(2)] assms(4)
    by (simp add: trunc256_def n_def)
next
  case False
  note b = byte_size_bounds [OF assms(1), folded n_def]
  have "compact_exponent (uval pn) n - 3 \<le> n - 1" by (auto simp: compact_exponent_def)
  then have "256 ^ (n - 1) \<le> uval t" unfolding assms(4) by (rule trunc256_ge [OF b(4) [OF False]])
  moreover from this have "uval t \<noteq> 0" by (metis le_zero_eq power_not_zero zero_neq_numeral)
  moreover have "uval t < 256 ^ n"
    using trunc256_le [of "compact_exponent (uval pn) n - 3" "uval pn"] b(1) assms(4) by simp
  ultimately show ?thesis using byte_size_unique byte_size_bounds(1,4) [OF assms(2)] by blast
qed

text \<open>The least number of bytes that hold a number.\<close>

definition byte_width :: "nat \<Rightarrow> nat \<Rightarrow> bool" where
  "byte_width v k \<longleftrightarrow> v < 256 ^ k \<and> (\<forall>j < k. 256 ^ j \<le> v)"

lemma mantissa_sign: "2 ^ 23 \<le> mantissa v n \<longleftrightarrow> 256 ^ n \<le> 2 * v"
proof (cases "n \<le> 3")
  case True
  then have "n = 0 \<or> n = 1 \<or> n = 2 \<or> n = 3" by linarith
  then show ?thesis by (auto simp: mantissa_def)
next
  case False
  then have "(256::nat) ^ n = 2 * (2 ^ 23 * 256 ^ (n - 3))"
    using power_add [of "256 :: nat" 3 "n - 3"] by simp
  then show ?thesis using False by (simp add: mantissa_def less_eq_div_iff_mult_less_eq)
qed

lemma compact_exponent_width:
  assumes "v < 256 ^ n" and "v \<noteq> 0 \<Longrightarrow> 256 ^ (n - 1) \<le> v" and "v = 0 \<longleftrightarrow> n = 0"
  shows "byte_width (2 * v) (compact_exponent v n)"
proof -
  have low: "256 ^ j \<le> 2 * v" if "j < n" for j
  proof -
    have "(256::nat) ^ j \<le> 256 ^ (n - 1)" using that by (intro power_increasing) auto
    then show ?thesis using assms(2,3) that by linarith
  qed
  show ?thesis
  proof (cases "2 ^ 23 \<le> mantissa v n")
    case True
    then have "256 ^ n \<le> 2 * v" by (simp only: mantissa_sign)
    then show ?thesis using True low assms(1) by (auto simp: byte_width_def compact_exponent_def less_Suc_eq)
  next
    case False
    then have "2 * v < 256 ^ n" by (simp only: mantissa_sign not_le)
    then show ?thesis using False low by (auto simp: byte_width_def compact_exponent_def)
  qed
qed

lemma compact_decode_encode:
  assumes "wf_uint pn"
  shows "\<exists>c t. GetCompact pn False = Some c \<and> SetCompact c = (t, False, False) \<and> wf_uint t
           \<and> uval t \<le> uval pn \<and> (uval pn - uval t) * 2 ^ 15 \<le> uval pn
           \<and> GetCompact t False = Some c \<and> byte_width (2 * uval pn) (unat (drop_bit 24 c))
           \<and> uval t = trunc256 (unat (drop_bit 24 c) - 3) (uval pn)"
proof -
  define v n where "v = uval pn" and "n = (base_uint_bits pn + 7) div 8"
  note b = byte_size_bounds [OF assms, folded n_def v_def]
  define e where "e = compact_exponent v n"
  obtain w where w: "unat w = compact_mantissa v n" and g: "GetCompact pn False = Some (w OR push_bit 24 (of_nat e))"
    using GetCompact_value [OF assms] by (auto simp: v_def n_def e_def)
  have e33: "e \<le> 33" using b(2) by (simp add: e_def compact_exponent_def)
  have "e = 33 \<Longrightarrow> unat w < 2 ^ 16"
    using b(2) mantissa_lt [OF b(1)] w
    by (auto simp: e_def compact_exponent_def compact_mantissa_def less_mult_imp_div_less split: if_splits)
  moreover have "e \<le> 3 \<Longrightarrow> 256 ^ (3 - e) dvd unat w"
    using w by (simp add: compact_mantissa_exponent e_def [symmetric] mantissa_def)
  ultimately obtain t where t: "SetCompact (w OR push_bit 24 (of_nat e)) = (t, False, False)" "wf_uint t"
    "uval t * 256 ^ 3 = unat w * 256 ^ e"
    using SetCompact_fields [of w e] compact_mantissa_lt [OF b(1)] e33 w by auto
  then have ut: "uval t = trunc256 (e - 3) v"
    using mantissa_trunc [of "uval t" v e] w by (simp add: compact_mantissa_exponent e_def)
  have nt: "(base_uint_bits t + 7) div 8 = n"
    using compact_byte_size [OF assms t(2)] ut by (simp add: v_def n_def e_def)
  obtain w' where w': "unat w' = compact_mantissa (uval t) n"
    "GetCompact t False = Some (w' OR push_bit 24 (of_nat (compact_exponent (uval t) n)))"
    using GetCompact_value [OF t(2)] by (auto simp: nt)
  have "compact_exponent (uval t) n = e" "compact_mantissa (uval t) n = unat w"
    using compact_trunc [OF b(1) b(4) b(3)] w by (simp_all add: ut e_def)
  moreover from this w' have "w' = w" by (simp add: word_unat_eq_iff)
  ultimately have "GetCompact t False = Some (w OR push_bit 24 (of_nat e))" using w' by simp
  moreover have "(v - uval t) * 2 ^ 15 \<le> v"
    using compact_error [OF b(1) b(4) b(3)] by (simp add: ut e_def)
  moreover have "unat (drop_bit 24 (w OR push_bit 24 (of_nat e))) = e"
    using compact_fields(1) [of w e] compact_mantissa_lt [OF b(1)] w e33 by simp
  moreover have "byte_width (2 * v) e" using compact_exponent_width [OF b(1) b(4) b(3)] by (simp add: e_def)
  ultimately show ?thesis using g t(1,2) trunc256_le [of "e - 3" v] ut by (auto simp: v_def)
qed

text \<open>
  C27. Encoding a 256-bit target into the compact \<^verbatim>\<open>nBits\<close> form never trips the two
  assertions of \<^verbatim>\<open>GetCompact\<close>. The size byte of the result is the least number of bytes that hold the
  target with a sign bit in front. Decoding the result raises neither the sign nor the overflow flag and gives
  exactly the target with every byte below the three highest of those bytes cleared, which
  is less than the target by at most one part in \<open>2 ^ 15\<close>; encoding that number again gives the
  same compact word.
\<close>

theorem compact_roundtrip:
  assumes "wf_uint pn"
  shows "\<exists>c t. GetCompact pn False = Some c \<and> SetCompact c = (t, False, False) \<and> wf_uint t
           \<and> byte_width (2 * uval pn) (unat (drop_bit 24 c))
           \<and> uval t = uval pn div 256 ^ (unat (drop_bit 24 c) - 3) * 256 ^ (unat (drop_bit 24 c) - 3)
           \<and> uval t \<le> uval pn \<and> (uval pn - uval t) * 2 ^ 15 \<le> uval pn
           \<and> GetCompact t False = Some c"
  using compact_decode_encode [OF assms] unfolding trunc256_def by blast

theorem compact_roundtrip_witness:
  "wf_uint (base_uint_of_u64 0x1234567)
   \<and> GetCompact (base_uint_of_u64 0x1234567) False = Some 0x04012345
   \<and> SetCompact 0x04012345 = (base_uint_of_u64 0x1234500, False, False)
   \<and> byte_width (2 * uval (base_uint_of_u64 0x1234567)) 4
   \<and> uval (base_uint_of_u64 0x1234500) = uval (base_uint_of_u64 0x1234567) div 256 * 256"
proof -
  have "GetCompact (base_uint_of_u64 0x1234567) False = Some 0x04012345" by code_simp
  moreover have "SetCompact 0x04012345 = (base_uint_of_u64 0x1234500, False, False)" by code_simp
  moreover have "unat (drop_bit 24 (0x04012345 :: u32)) = 4" by simp
  ultimately show ?thesis using compact_roundtrip [OF wf_of_u64 [of "0x1234567"]] by auto
qed

lemma wf_SetCompact [wf_intros, simp]: "wf_uint (fst (SetCompact c))"
  by (simp add: SetCompact_def Let_def)

section \<open>Serialized form\<close>

lemma wf_UintToArith256 [wf_intros, simp]: "wf_uint (UintToArith256 b)"
  by (simp add: UintToArith256_def wf_uint_def)

lemma ReadLE32_WriteLE32: "ReadLE32 (WriteLE32 x @ rest) = x"
proof (rule bit_word_eqI)
  fix n :: nat
  assume "n < LENGTH(32)"
  then consider "n < 8" | "8 \<le> n" "n < 16" | "16 \<le> n" "n < 24" | "24 \<le> n" "n < 32" by fastforce
  then show "bit (ReadLE32 (WriteLE32 x @ rest)) n \<longleftrightarrow> bit x n"
    by cases (auto simp: bit_simps)
qed

lemma WriteLE32_ReadLE32: "length p = 4 \<Longrightarrow> WriteLE32 (ReadLE32 p) = p"
proof -
  assume "length p = 4"
  then obtain a b c d where "p = [a, b, c, d]" by (auto simp: length_Suc_conv eval_nat_numeral)
  then show ?thesis by (auto intro!: bit_word_eqI simp: bit_simps) (drule bit_lt8, simp)+
qed

lemma WriteLE32_ReadLE32_take:
  assumes "4 \<le> length p"
  shows "WriteLE32 (ReadLE32 p) = take 4 p"
proof -
  have "ReadLE32 p = ReadLE32 (take 4 p)" by simp
  then show ?thesis using WriteLE32_ReadLE32 [of "take 4 p"] assms by (simp del: ReadLE32.simps WriteLE32.simps)
qed

lemma length_WriteLE32 [simp]: "length (WriteLE32 x) = 4"
  by simp

lemma concat_chunks: "concat (map (\<lambda>x. take 4 (drop (x * 4) b)) [0..<n]) = take (4 * n) b"
  by (induction n) (simp_all add: take_add [symmetric] mult.commute [of _ 4] add.commute)

lemma upt_WIDTH: "[0..<WIDTH] = [0, 1, 2, 3, 4, 5, 6, 7]"
  by (simp add: WIDTH_def upt_rec)

lemma blob_laws:
  assumes "wf_uint a" and "length b = 32"
  shows "UintToArith256 (ArithToUint256 a) = a" and "ArithToUint256 (UintToArith256 b) = b"
    and "length (ArithToUint256 a) = 32" and "wf_uint (UintToArith256 b)"
proof -
  have a: "a = map (\<lambda>x. a ! x) [0, 1, 2, 3, 4, 5, 6, 7]"
    using assms(1) by (metis map_nth upt_WIDTH wf_uint_def)
  show "UintToArith256 (ArithToUint256 a) = a"
    by (subst (2) a) (simp add: UintToArith256_def ArithToUint256_def upt_WIDTH ReadLE32_WriteLE32
      ReadLE32_WriteLE32 [where rest = "[]", simplified append_Nil2] del: ReadLE32.simps WriteLE32.simps)
  have "ArithToUint256 (UintToArith256 b) = concat (map (\<lambda>x. WriteLE32 (ReadLE32 (drop (x * 4) b))) [0..<WIDTH])"
    unfolding ArithToUint256_def UintToArith256_def
    by (intro arg_cong [of _ _ concat] map_cong) (simp_all del: ReadLE32.simps WriteLE32.simps)
  also have "\<dots> = concat (map (\<lambda>x. take 4 (drop (x * 4) b)) [0..<WIDTH])"
    using assms(2) by (intro arg_cong [of _ _ concat] map_cong)
      (simp_all add: WriteLE32_ReadLE32_take WIDTH_def del: ReadLE32.simps WriteLE32.simps)
  also have "\<dots> = b" using assms(2) by (simp add: concat_chunks WIDTH_def)
  finally show "ArithToUint256 (UintToArith256 b) = b" .
  show "length (ArithToUint256 a) = 32" by (simp add: ArithToUint256_def upt_WIDTH)
  show "wf_uint (UintToArith256 b)" by (simp add: UintToArith256_def wf_uint_def)
qed

text \<open>
  The 32-byte blob of a number and the number of a 32-byte blob are inverse: no
  256-bit value is lost or altered between \<^verbatim>\<open>uint256\<close> and \<^verbatim>\<open>arith_uint256\<close>.
\<close>

theorem uint256_roundtrip:
  assumes "wf_uint a" and "length b = 32"
  shows "UintToArith256 (ArithToUint256 a) = a
    \<and> ArithToUint256 (UintToArith256 b) = b
    \<and> length (ArithToUint256 a) = 32
    \<and> wf_uint (UintToArith256 b)"
  by (intro conjI impI blob_laws [OF assms])


theorem uint256_roundtrip_witness:
  "UintToArith256 (ArithToUint256 (base_uint_of_u64 77)) = base_uint_of_u64 77
   \<and> ArithToUint256 (UintToArith256 (replicate 32 7)) = replicate 32 7"
  using uint256_roundtrip [of "base_uint_of_u64 77" "replicate 32 7"] by simp

section \<open>The arithmetic the retargeting code relies on\<close>

text \<open>
  The interface of a fixed-width unsigned type, as \<^verbatim>\<open>pow.cpp\<close> uses it: a
  representation invariant, the number represented, and the laws of the operators up to
  a modulus. The facts proved from it once are the ones retargeting needs: clamping to a
  limit is the minimum, a scaling that does not wrap is exact, and a running mean stays
  between its arguments.
\<close>

locale uint_arith =
  fixes wf :: "'a \<Rightarrow> bool" and val :: "'a \<Rightarrow> nat" and M :: nat
    and of64 :: "u64 \<Rightarrow> 'a" and add :: "'a \<Rightarrow> 'a \<Rightarrow> 'a" and sub :: "'a \<Rightarrow> 'a \<Rightarrow> 'a"
    and mul32 :: "'a \<Rightarrow> u32 \<Rightarrow> 'a" and quot :: "'a \<Rightarrow> 'a \<Rightarrow> uint_error + 'a"
    and cmp :: "'a \<Rightarrow> 'a \<Rightarrow> int"
  assumes of64: "wf (of64 n)" "val (of64 n) = unat n"
    and bound: "wf a \<Longrightarrow> val a < M"
    and add: "wf a \<Longrightarrow> wf b \<Longrightarrow> wf (add a b)" "wf a \<Longrightarrow> wf b \<Longrightarrow> val (add a b) = (val a + val b) mod M"
    and sub: "wf a \<Longrightarrow> wf b \<Longrightarrow> wf (sub a b)" "wf a \<Longrightarrow> wf b \<Longrightarrow> val b \<le> val a \<Longrightarrow> val (sub a b) = val a - val b"
    and mul32: "wf a \<Longrightarrow> wf (mul32 a m)" "wf a \<Longrightarrow> val (mul32 a m) = (val a * unat m) mod M"
    and quot: "wf a \<Longrightarrow> wf b \<Longrightarrow> val b \<noteq> 0 \<Longrightarrow> \<exists>q. quot a b = Inr q \<and> wf q \<and> val q = val a div val b"
    and cmp: "wf a \<Longrightarrow> wf b \<Longrightarrow> 0 < cmp a b \<longleftrightarrow> val b < val a"
begin

lemma clamp_val:
  "wf a \<Longrightarrow> wf lim \<Longrightarrow> wf (if 0 < cmp a lim then lim else a)
     \<and> val (if 0 < cmp a lim then lim else a) = min (val a) (val lim)"
  by (simp add: cmp min_def)

lemma scale_val:
  assumes "wf a" and "d \<noteq> 0"
  obtains q where "quot (mul32 a n) (of64 d) = Inr q" and "wf q"
    and "val q = (val a * unat n) mod M div unat d"
proof -
  have "val (of64 d) \<noteq> 0" using assms(2) by (simp add: of64 unat_eq_0)
  then show ?thesis
    using quot [OF mul32(1) [OF assms(1)] of64(1)] that by (auto simp: mul32(2) [OF assms(1)] of64(2))
qed

lemma mean_val:
  assumes "wf avg" and "wf t" and "k + 1 \<noteq> 0"
    and "val avg * unat k + val t < M"
  obtains q where "quot (add (mul32 avg k) t) (of64 (ucast (k + 1))) = Inr q" and "wf q"
    and "val q = (val avg * unat k + val t) div (unat k + 1)"
proof -
  have k: "unat (k + 1) = unat k + 1"
    using assms(3) by (metis Suc_eq_plus1 add.commute unatSuc)
  have "val (mul32 avg k) = val avg * unat k" using assms(1,4) by (simp add: mul32)
  then have "val (add (mul32 avg k) t) = val avg * unat k + val t"
    using assms(1,2,4) by (simp add: add mul32)
  moreover have "wf (add (mul32 avg k) t)" using assms(1,2) by (simp add: add mul32)
  moreover have "val (of64 (ucast (k + 1))) = unat k + 1" by (simp add: of64 k)
  ultimately show ?thesis using quot [of "add (mul32 avg k) t" "of64 (ucast (k + 1))"] that of64(1) by auto
qed

lemma mean_between:
  fixes a t k lo hi :: nat
  assumes "lo \<le> a" "a \<le> hi" "lo \<le> t" "t \<le> hi"
  shows "lo \<le> (a * k + t) div (k + 1)" and "(a * k + t) div (k + 1) \<le> hi"
proof -
  have "lo * (k + 1) \<le> a * k + t" using assms by (simp add: add_mono algebra_simps)
  then show "lo \<le> (a * k + t) div (k + 1)" by (metis Suc_eq_plus1 less_eq_div_iff_mult_less_eq zero_less_Suc)
  have "a * k + t \<le> hi * (k + 1)" using assms by (simp add: add_mono algebra_simps)
  then show "(a * k + t) div (k + 1) \<le> hi"
    by (metis div_le_mono div_mult_self_is_m Suc_eq_plus1 zero_less_Suc)
qed

end

lemma limb_laws:
  assumes "wf_uint a" and "wf_uint b"
  shows "uval (base_uint_add a b) = (uval a + uval b) mod 2 ^ 256"
    and "uval (base_uint_sub a b) = (uval a + (2 ^ 256 - uval b)) mod 2 ^ 256"
    and "uval (base_uint_add64 a n) = (uval a + unat n) mod 2 ^ 256"
    and "uval (base_uint_sub64 a n) = (uval a + (2 ^ 256 - unat n)) mod 2 ^ 256"
    and "uval (base_uint_neg a) = (2 ^ 256 - uval a) mod 2 ^ 256"
    and "uval (base_uint_inc a) = (uval a + 1) mod 2 ^ 256"
    and "uval (base_uint_dec a) = (uval a + (2 ^ 256 - 1)) mod 2 ^ 256"
    and "uval (base_uint_mul a b) = (uval a * uval b) mod 2 ^ 256"
    and "uval (base_uint_mul32 a w) = (uval a * unat w) mod 2 ^ 256"
    and "uval (base_uint_not a) = 2 ^ 256 - 1 - uval a"
    and "uval (base_uint_and a b) = uval a AND uval b"
    and "uval (base_uint_or a b) = uval a OR uval b"
    and "uval (base_uint_xor a b) = uval a XOR uval b"
    and "uval (base_uint_shl a k) = (uval a * 2 ^ k) mod 2 ^ 256"
    and "uval (base_uint_shr a k) = uval a div 2 ^ k"
    and "CompareTo a b = (if uval a < uval b then - 1 else if uval a > uval b then 1 else 0)"
    and "EqualTo a n \<longleftrightarrow> uval a = unat n"
    and "base_uint_is_zero a \<longleftrightarrow> uval a = 0"
    and "(base_uint_bits a = 0 \<longleftrightarrow> uval a = 0)
         \<and> (uval a \<noteq> 0 \<longrightarrow> 2 ^ (base_uint_bits a - 1) \<le> uval a \<and> uval a < 2 ^ base_uint_bits a)"
proof -
  have sub64: "base_uint_sub64 a n = base_uint_sub a (base_uint_of_u64 n)"
    by (simp only: base_uint_sub64_def base_uint_sub_def)
  show "uval (base_uint_sub64 a n) = (uval a + (2 ^ 256 - unat n)) mod 2 ^ 256"
    unfolding sub64 by (simp only: uval_sub [OF assms(1) wf_of_u64] uval_of_u64)
  show "uval (base_uint_shl a k) = (uval a * 2 ^ k) mod 2 ^ 256"
    unfolding uval_shl [OF assms(1)] by (simp only: take_bit_eq_mod push_bit_eq_mult)
  show "uval (base_uint_shr a k) = uval a div 2 ^ k"
    unfolding uval_shr [OF assms(1)] by (simp only: drop_bit_eq_div)
  show "base_uint_is_zero a \<longleftrightarrow> uval a = 0" by (simp only: base_uint_is_zero_def uval_zero_iff)
  show "(base_uint_bits a = 0 \<longleftrightarrow> uval a = 0)
         \<and> (uval a \<noteq> 0 \<longrightarrow> 2 ^ (base_uint_bits a - 1) \<le> uval a \<and> uval a < 2 ^ base_uint_bits a)"
    using bits_zero_iff [OF assms(1)] bits_bounds [OF assms(1)] by simp
qed (simp_all only: base_uint_add64_def uval_add uval_sub uval_neg_256 uval_inc_256 uval_dec_256
      uval_mul uval_mul32 uval_not_256 uval_bitwise CompareTo_uval EqualTo_uval uval_of_u64 wf_of_u64 assms)

text \<open>
  C25. On eight-limb numbers every operator of \<^verbatim>\<open>base_uint<256>\<close> computes the
  mathematical operation modulo \<open>2 ^ 256\<close>: addition and subtraction with their carry
  chains, negation, increment and decrement, both products, shifts, complement and the
  bitwise operators; \<^verbatim>\<open>CompareTo\<close> and \<^verbatim>\<open>EqualTo\<close> decide the order and equality of the
  numbers, and \<^verbatim>\<open>bits\<close> is the position of the highest bit.
\<close>

theorem base_uint_ops_refine:
  assumes "wf_uint a" and "wf_uint b"
  shows "uval (base_uint_add a b) = (uval a + uval b) mod 2 ^ 256
    \<and> uval (base_uint_sub a b) = (uval a + (2 ^ 256 - uval b)) mod 2 ^ 256
    \<and> uval (base_uint_add64 a n) = (uval a + unat n) mod 2 ^ 256
    \<and> uval (base_uint_sub64 a n) = (uval a + (2 ^ 256 - unat n)) mod 2 ^ 256
    \<and> uval (base_uint_neg a) = (2 ^ 256 - uval a) mod 2 ^ 256
    \<and> uval (base_uint_inc a) = (uval a + 1) mod 2 ^ 256
    \<and> uval (base_uint_dec a) = (uval a + (2 ^ 256 - 1)) mod 2 ^ 256
    \<and> uval (base_uint_mul a b) = (uval a * uval b) mod 2 ^ 256
    \<and> uval (base_uint_mul32 a w) = (uval a * unat w) mod 2 ^ 256
    \<and> uval (base_uint_not a) = 2 ^ 256 - 1 - uval a
    \<and> uval (base_uint_and a b) = uval a AND uval b
    \<and> uval (base_uint_or a b) = uval a OR uval b
    \<and> uval (base_uint_xor a b) = uval a XOR uval b
    \<and> uval (base_uint_shl a k) = (uval a * 2 ^ k) mod 2 ^ 256
    \<and> uval (base_uint_shr a k) = uval a div 2 ^ k
    \<and> CompareTo a b = (if uval a < uval b then - 1 else if uval a > uval b then 1 else 0)
    \<and> (EqualTo a n \<longleftrightarrow> uval a = unat n)
    \<and> (base_uint_is_zero a \<longleftrightarrow> uval a = 0)
    \<and> ((base_uint_bits a = 0 \<longleftrightarrow> uval a = 0)
         \<and> (uval a \<noteq> 0 \<longrightarrow> 2 ^ (base_uint_bits a - 1) \<le> uval a \<and> uval a < 2 ^ base_uint_bits a))"
  by (intro conjI impI limb_laws [OF assms])

theorem base_uint_ops_refine_witness:
  "wf_uint (base_uint_of_u64 7) \<and> wf_uint (base_uint_of_u64 9)
   \<and> uval (base_uint_sub (base_uint_of_u64 7) (base_uint_of_u64 9)) = (7 + (2 ^ 256 - 9)) mod 2 ^ 256"
  using base_uint_ops_refine [of "base_uint_of_u64 7" "base_uint_of_u64 9"] by simp

lemma div_laws:
  assumes "wf_uint num" and "wf_uint b"
  shows "base_uint_div num b = Inl DivisionByZero \<longleftrightarrow> uval b = 0"
    and "uval b \<noteq> 0 \<Longrightarrow> \<exists>q. base_uint_div num b = Inr q \<and> wf_uint q \<and> uval q = uval num div uval b"
  using base_uint_div_spec [OF assms] by (auto split: if_splits)

text \<open>
  C26. The shift-and-subtract division of \<^verbatim>\<open>base_uint<256>\<close> throws exactly when the
  divisor is zero and otherwise returns the integer quotient.
\<close>

theorem base_uint_div_correct:
  assumes "wf_uint num" and "wf_uint b"
  shows "(base_uint_div num b = Inl DivisionByZero \<longleftrightarrow> uval b = 0)
    \<and> (uval b \<noteq> 0 \<longrightarrow> (\<exists>q. base_uint_div num b = Inr q \<and> wf_uint q \<and> uval q = uval num div uval b))"
  by (intro conjI impI div_laws [OF assms])

theorem base_uint_div_correct_witness:
  "\<exists>q. base_uint_div (base_uint_of_u64 1000) (base_uint_of_u64 7) = Inr q \<and> uval q = 142"
  using base_uint_div_correct [of "base_uint_of_u64 1000" "base_uint_of_u64 7"] by auto

lemma div_Inr:
  assumes "wf_uint a" and "wf_uint b" and "uval b \<noteq> 0"
  shows "\<exists>q. base_uint_div a b = Inr q \<and> wf_uint q \<and> uval q = uval a div uval b"
  using base_uint_div_spec [OF assms(1,2)] assms(3) by simp

interpretation uint256: uint_arith wf_uint uval "2 ^ 256" base_uint_of_u64 base_uint_add
  base_uint_sub base_uint_mul32 base_uint_div CompareTo
  by unfold_locales (simp_all add: uval_lt uval_add uval_sub_le uval_mul32 div_Inr CompareTo_uval del: power_numeral)

end
