(* ===== verification/Chain.thy ===== *)
theory Chain
  imports ArithUint256
begin

text \<open>
  \<^verbatim>\<open>chain.h\<close> and \<^verbatim>\<open>chain.cpp\<close>: the tree of block index entries and the active chain.
  Entries live in a store from addresses to \<^verbatim>\<open>CBlockIndex\<close> records and refer to each
  other by address, with \<open>None\<close> for \<^verbatim>\<open>NULL\<close>; the store is total because the program
  never frees an entry, so every non-null pointer it follows is one it allocated.
  A loop over pointers is a \<^verbatim>\<open>partial_function\<close> into \<open>option\<close>, where \<open>None\<close> is a failed
  assertion, an access out of range or a loop that does not end; the theorems show that
  on a well-formed tree none of these happens.
\<close>

type_synonym addr = nat
type_synonym ptr = "nat option"

record CBlockIndex =
  phashBlock :: bytes
  pprev :: ptr
  pskip :: ptr
  nHeight :: int
  nFile :: int
  nDataPos :: u32
  nUndoPos :: u32
  nChainWork :: base_uint
  nTx :: u32
  nChainTx :: u32
  nStatus :: u32
  nVersion :: int
  hashMerkleRoot :: bytes
  nTime :: u32
  nBits :: u32
  nNonce :: u32
  nSequenceId :: u32

type_synonym store = "addr \<Rightarrow> CBlockIndex"

definition GetBlockTime :: "CBlockIndex \<Rightarrow> int" where
  "GetBlockTime b = int (unat (nTime b))"

section \<open>Status bits\<close>

definition BLOCK_VALID_HEADER :: u32 where "BLOCK_VALID_HEADER = 1"
definition BLOCK_VALID_TREE :: u32 where "BLOCK_VALID_TREE = 2"
definition BLOCK_VALID_TRANSACTIONS :: u32 where "BLOCK_VALID_TRANSACTIONS = 3"
definition BLOCK_VALID_CHAIN :: u32 where "BLOCK_VALID_CHAIN = 4"
definition BLOCK_VALID_SCRIPTS :: u32 where "BLOCK_VALID_SCRIPTS = 5"

definition BLOCK_VALID_MASK :: u32 where
  "BLOCK_VALID_MASK = BLOCK_VALID_HEADER OR BLOCK_VALID_TREE OR BLOCK_VALID_TRANSACTIONS
                        OR BLOCK_VALID_CHAIN OR BLOCK_VALID_SCRIPTS"

definition BLOCK_FAILED_MASK :: u32 where
  "BLOCK_FAILED_MASK = 32 OR 64"

text \<open>\<open>None\<close> is the failed assertion that only validity flags are passed.\<close>

definition IsValid :: "CBlockIndex \<Rightarrow> u32 \<Rightarrow> bool option" where
  "IsValid b nUpTo =
     (if nUpTo AND NOT BLOCK_VALID_MASK \<noteq> 0 then None
      else if nStatus b AND BLOCK_FAILED_MASK \<noteq> 0 then Some False
      else Some (nStatus b AND BLOCK_VALID_MASK \<ge> nUpTo))"

definition RaiseValidity :: "CBlockIndex \<Rightarrow> u32 \<Rightarrow> (bool \<times> CBlockIndex) option" where
  "RaiseValidity b nUpTo =
     (if nUpTo AND NOT BLOCK_VALID_MASK \<noteq> 0 then None
      else if nStatus b AND BLOCK_FAILED_MASK \<noteq> 0 then Some (False, b)
      else if nStatus b AND BLOCK_VALID_MASK < nUpTo
      then Some (True, b\<lparr>nStatus := (nStatus b AND NOT BLOCK_VALID_MASK) OR nUpTo\<rparr>)
      else Some (False, b))"

section \<open>Skip list\<close>

definition InvertLowestOne :: "int \<Rightarrow> int" where
  "InvertLowestOne n = n AND (n - 1)"

definition GetSkipHeight :: "int \<Rightarrow> int" where
  "GetSkipHeight height =
     (if height < 2 then 0
      else if height AND 1 \<noteq> 0 then InvertLowestOne (InvertLowestOne (height - 1)) + 1
      else InvertLowestOne height)"

text \<open>Whether the walk prefers \<^verbatim>\<open>pskip\<close> over \<^verbatim>\<open>pprev\<close> at \<^verbatim>\<open>heightWalk\<close>.\<close>

definition prefer_skip :: "int \<Rightarrow> int \<Rightarrow> bool" where
  "prefer_skip heightWalk height =
     (let heightSkip = GetSkipHeight heightWalk; heightSkipPrev = GetSkipHeight (heightWalk - 1)
      in heightSkip = height
         \<or> (heightSkip > height \<and> \<not> (heightSkipPrev < heightSkip - 2 \<and> heightSkipPrev \<ge> height)))"

partial_function (option) ancestor_walk :: "store \<Rightarrow> int \<Rightarrow> addr \<Rightarrow> int \<Rightarrow> addr option" where
  "ancestor_walk s height pindexWalk heightWalk =
     (if heightWalk > height
      then case (if prefer_skip heightWalk height then pskip (s pindexWalk) else None) of
             Some q \<Rightarrow> ancestor_walk s height q (GetSkipHeight heightWalk)
           | None \<Rightarrow> (case pprev (s pindexWalk) of
                        None \<Rightarrow> None
                      | Some q \<Rightarrow> ancestor_walk s height q (heightWalk - 1))
      else Some pindexWalk)"

definition GetAncestor :: "store \<Rightarrow> addr \<Rightarrow> int \<Rightarrow> ptr option" where
  "GetAncestor s p height =
     (if height > nHeight (s p) \<or> height < 0 then Some None
      else map_option Some (ancestor_walk s height p (nHeight (s p))))"

definition BuildSkip :: "store \<Rightarrow> addr \<Rightarrow> store option" where
  "BuildSkip s p =
     (case pprev (s p) of
        None \<Rightarrow> Some s
      | Some q \<Rightarrow> map_option (\<lambda>k. s(p := (s p)\<lparr>pskip := k\<rparr>)) (GetAncestor s q (GetSkipHeight (nHeight (s p)))))"

section \<open>Median time\<close>

fun past_times :: "store \<Rightarrow> nat \<Rightarrow> ptr \<Rightarrow> int list" where
  "past_times s 0 p = []"
| "past_times s (Suc i) None = []"
| "past_times s (Suc i) (Some p) = GetBlockTime (s p) # past_times s i (pprev (s p))"

definition nMedianTimeSpan :: nat where
  "nMedianTimeSpan = 11"

definition GetMedianTimePast :: "store \<Rightarrow> addr \<Rightarrow> int" where
  "GetMedianTimePast s p =
     (let ts = sort (past_times s nMedianTimeSpan (Some p)) in ts ! (length ts div 2))"

section \<open>The active chain\<close>

type_synonym CChain = "ptr list"

definition Genesis :: "CChain \<Rightarrow> ptr" where
  "Genesis vChain = (if vChain = [] then None else vChain ! 0)"

definition Tip :: "CChain \<Rightarrow> ptr" where
  "Tip vChain = (if vChain = [] then None else vChain ! (length vChain - 1))"

definition chain_at :: "CChain \<Rightarrow> int \<Rightarrow> ptr" where
  "chain_at vChain h = (if h < 0 \<or> h \<ge> int (length vChain) then None else vChain ! nat h)"

definition Contains :: "store \<Rightarrow> CChain \<Rightarrow> addr \<Rightarrow> bool" where
  "Contains s vChain p = (chain_at vChain (nHeight (s p)) = Some p)"

definition Next :: "store \<Rightarrow> CChain \<Rightarrow> addr \<Rightarrow> ptr" where
  "Next s vChain p = (if Contains s vChain p then chain_at vChain (nHeight (s p) + 1) else None)"

definition Height :: "CChain \<Rightarrow> int" where
  "Height vChain = int (length vChain) - 1"

definition resize :: "nat \<Rightarrow> CChain \<Rightarrow> CChain" where
  "resize n v = take n v @ replicate (n - length v) None"

partial_function (option) SetTip_loop :: "store \<Rightarrow> CChain \<Rightarrow> ptr \<Rightarrow> CChain option" where
  "SetTip_loop s v pindex =
     (case pindex of
        None \<Rightarrow> Some v
      | Some p \<Rightarrow>
          (if nHeight (s p) < 0 \<or> nHeight (s p) \<ge> int (length v) then None
           else if v ! nat (nHeight (s p)) \<noteq> Some p
           then SetTip_loop s (v[nat (nHeight (s p)) := Some p]) (pprev (s p))
           else Some v))"

definition SetTip :: "store \<Rightarrow> CChain \<Rightarrow> ptr \<Rightarrow> CChain option" where
  "SetTip s v pindex =
     (case pindex of
        None \<Rightarrow> Some []
      | Some p \<Rightarrow> SetTip_loop s (resize (nat (nHeight (s p) + 1)) v) pindex)"

partial_function (option) locator_loop ::
    "store \<Rightarrow> CChain \<Rightarrow> ptr \<Rightarrow> int \<Rightarrow> bytes list \<Rightarrow> bytes list option" where
  "locator_loop s v pindex nStep vHave =
     (case pindex of
        None \<Rightarrow> Some vHave
      | Some p \<Rightarrow>
          (let vHave' = vHave @ [phashBlock (s p)] in
           if nHeight (s p) = 0 then Some vHave'
           else let h = max (nHeight (s p) - nStep) 0;
                    nStep' = (if length vHave' > 10 then nStep * 2 else nStep)
                in if Contains s v p then locator_loop s v (chain_at v h) nStep' vHave'
                   else case GetAncestor s p h of
                          None \<Rightarrow> None
                        | Some q \<Rightarrow> locator_loop s v q nStep' vHave'))"

definition GetLocator :: "store \<Rightarrow> CChain \<Rightarrow> ptr \<Rightarrow> bytes list option" where
  "GetLocator s v pindex = locator_loop s v (if pindex = None then Tip v else pindex) 1 []"

partial_function (option) fork_loop :: "store \<Rightarrow> CChain \<Rightarrow> ptr \<Rightarrow> ptr option" where
  "fork_loop s v pindex =
     (case pindex of
        None \<Rightarrow> Some None
      | Some p \<Rightarrow> (if Contains s v p then Some (Some p) else fork_loop s v (pprev (s p))))"

definition FindFork :: "store \<Rightarrow> CChain \<Rightarrow> ptr \<Rightarrow> ptr option" where
  "FindFork s v pindex =
     (case pindex of
        None \<Rightarrow> Some None
      | Some p \<Rightarrow> (if nHeight (s p) > Height v
                   then (case GetAncestor s p (Height v) of None \<Rightarrow> None | Some q \<Rightarrow> fork_loop s v q)
                   else fork_loop s v pindex))"

section \<open>Well-formed trees\<close>

text \<open>The entry \<open>n\<close> steps back along \<^verbatim>\<open>pprev\<close>.\<close>

fun nth_prev :: "store \<Rightarrow> nat \<Rightarrow> addr \<Rightarrow> ptr" where
  "nth_prev s 0 p = Some p"
| "nth_prev s (Suc n) p = (case pprev (s p) of None \<Rightarrow> None | Some q \<Rightarrow> nth_prev s n q)"

definition wf_heights :: "store \<Rightarrow> bool" where
  "wf_heights s \<longleftrightarrow> (\<forall>p. case pprev (s p) of None \<Rightarrow> nHeight (s p) = 0
                       | Some q \<Rightarrow> 0 < nHeight (s p) \<and> nHeight (s q) = nHeight (s p) - 1)"

definition skip_ok :: "store \<Rightarrow> addr \<Rightarrow> bool" where
  "skip_ok s p \<longleftrightarrow> (case pskip (s p) of None \<Rightarrow> True
     | Some q \<Rightarrow> nth_prev s (nat (nHeight (s p) - GetSkipHeight (nHeight (s p)))) p = Some q)"

definition wf_index :: "store \<Rightarrow> bool" where
  "wf_index s \<longleftrightarrow> wf_heights s \<and> (\<forall>p. skip_ok s p)"

lemma InvertLowestOne_bounds: "0 < n \<Longrightarrow> 0 \<le> InvertLowestOne n \<and> InvertLowestOne n < n"
  using AND_upper2 [of "n - 1" n] by (simp add: InvertLowestOne_def)

lemma GetSkipHeight_bounds: "0 < h \<Longrightarrow> 0 \<le> GetSkipHeight h \<and> GetSkipHeight h < h"
proof -
  assume h: "0 < h"
  have "InvertLowestOne (InvertLowestOne (h - 1)) \<le> InvertLowestOne (h - 1)
        \<and> 0 \<le> InvertLowestOne (InvertLowestOne (h - 1))" if "2 \<le> h"
  proof (cases "InvertLowestOne (h - 1) = 0")
    case False
    then show ?thesis
      using InvertLowestOne_bounds [of "InvertLowestOne (h - 1)"] InvertLowestOne_bounds [of "h - 1"] that by simp
  qed (simp add: InvertLowestOne_def)
  then show ?thesis
    using h InvertLowestOne_bounds [of "h - 1"] InvertLowestOne_bounds [of h]
    by (auto simp: GetSkipHeight_def)
qed

lemma nth_prev_add: "nth_prev s (m + n) p = (case nth_prev s m p of None \<Rightarrow> None | Some q \<Rightarrow> nth_prev s n q)"
  by (induction m arbitrary: p) (auto split: option.split)

lemma wf_height_nonneg: "wf_heights s \<Longrightarrow> 0 \<le> nHeight (s p)"
  unfolding wf_heights_def by (drule spec [of _ p]) (auto split: option.splits)

lemma wf_pprev: "wf_heights s \<Longrightarrow> pprev (s p) = Some q \<Longrightarrow> nHeight (s p) = nHeight (s q) + 1"
  unfolding wf_heights_def by (drule spec [of _ p]) (auto split: option.splits)

lemma wf_pprev_None: "wf_heights s \<Longrightarrow> pprev (s p) = None \<longleftrightarrow> nHeight (s p) = 0"
  unfolding wf_heights_def by (drule spec [of _ p]) (auto split: option.splits)

lemma nth_prev_Some:
  assumes "wf_heights s" and "n \<le> nat (nHeight (s p))"
  shows "\<exists>q. nth_prev s n p = Some q \<and> nHeight (s q) = nHeight (s p) - int n"
  using assms(2)
proof (induction n arbitrary: p)
  case (Suc n)
  have "0 < nHeight (s p)" using Suc.prems by simp
  then obtain r where r: "pprev (s p) = Some r" using wf_pprev_None [OF assms(1), of p] by (cases "pprev (s p)") auto
  then have h: "nHeight (s p) = nHeight (s r) + 1" by (rule wf_pprev [OF assms(1)])
  with Suc.prems have "n \<le> nat (nHeight (s r))" by simp
  then show ?case using Suc.IH [of r] r h by auto
qed simp

lemma nth_prev_height:
  assumes "wf_heights s" and "nth_prev s n p = Some q"
  shows "nHeight (s q) = nHeight (s p) - int n"
  using assms(2)
proof (induction n arbitrary: p)
  case (Suc n)
  then obtain r where "pprev (s p) = Some r" "nth_prev s n r = Some q" by (auto split: option.splits)
  then show ?case using Suc.IH [of r] wf_pprev [OF assms(1), of p r] by simp
qed simp

lemma ancestor_walk_correct:
  assumes "wf_index s" and "0 \<le> h" and "h \<le> nHeight (s p)"
  shows "ancestor_walk s h p (nHeight (s p)) = nth_prev s (nat (nHeight (s p) - h)) p"
  using assms(3)
proof (induction "nat (nHeight (s p))" arbitrary: p rule: less_induct)
  case less
  have wf: "wf_heights s" and sk: "\<And>p. skip_ok s p" using assms(1) by (simp_all add: wf_index_def)
  define w where "w = nHeight (s p)"
  show ?case
  proof (cases "h < w")
    case False
    then show ?thesis using less.prems by (simp add: ancestor_walk.simps w_def)
  next
    case True
    note b = GetSkipHeight_bounds [of w]
    show ?thesis
    proof (cases "prefer_skip w h \<and> pskip (s p) \<noteq> None")
      case skip: True
      then obtain q where q: "pskip (s p) = Some q" by blast
      have le: "h \<le> GetSkipHeight w" using skip by (auto simp: prefer_skip_def Let_def)
      have np: "nth_prev s (nat (w - GetSkipHeight w)) p = Some q" using sk [of p] q by (simp add: skip_ok_def w_def)
      have hq: "nHeight (s q) = GetSkipHeight w"
        using nth_prev_height [OF wf np] b True assms(2) by (simp add: w_def)
      have "ancestor_walk s h p w = ancestor_walk s h q (nHeight (s q))"
        using True skip q hq by (subst ancestor_walk.simps) simp
      also have "\<dots> = nth_prev s (nat (GetSkipHeight w - h)) q"
        using less.hyps [of q] le hq b True assms(2) by (simp add: w_def)
      also have "\<dots> = nth_prev s (nat (w - GetSkipHeight w) + nat (GetSkipHeight w - h)) p"
        by (simp add: nth_prev_add np)
      also have "nat (w - GetSkipHeight w) + nat (GetSkipHeight w - h) = nat (w - h)"
        using le b True assms(2) by simp
      finally show ?thesis by (simp add: w_def)
    next
      case noskip: False
      then have c: "(if prefer_skip w h then pskip (s p) else None) = None" by simp
      obtain q where q: "pprev (s p) = Some q"
        using wf_pprev_None [OF wf, of p] True assms(2) by (cases "pprev (s p)") (auto simp: w_def)
      have hq: "nHeight (s q) = w - 1" using wf_pprev [OF wf q] by (simp add: w_def)
      have "ancestor_walk s h p w = ancestor_walk s h q (nHeight (s q))"
        using True c q hq by (subst ancestor_walk.simps) simp
      also have "\<dots> = nth_prev s (nat (w - 1 - h)) q"
        using less.hyps [of q] hq True assms(2) by (simp add: w_def)
      also have "\<dots> = nth_prev s (Suc (nat (w - 1 - h))) p" by (simp add: q)
      also have "Suc (nat (w - 1 - h)) = nat (w - h)" using True by simp
      finally show ?thesis by (simp add: w_def)
    qed
  qed
qed

lemma GetAncestor_nth_prev:
  assumes "wf_index s" and "0 \<le> h" and "h \<le> nHeight (s p)"
  shows "GetAncestor s p h = Some (nth_prev s (nat (nHeight (s p) - h)) p)"
proof -
  obtain q where "nth_prev s (nat (nHeight (s p) - h)) p = Some q"
    using nth_prev_Some [of s "nat (nHeight (s p) - h)" p] assms by (fastforce simp: wf_index_def)
  then show ?thesis using assms ancestor_walk_correct [OF assms] by (simp add: GetAncestor_def)
qed

lemma GetAncestor_Some:
  assumes "wf_index s" and "0 \<le> h" and "h \<le> nHeight (s p)"
  shows "\<exists>q. GetAncestor s p h = Some (Some q) \<and> nth_prev s (nat (nHeight (s p) - h)) p = Some q \<and> nHeight (s q) = h"
proof -
  have "wf_heights s" using assms(1) by (simp add: wf_index_def)
  moreover have "nat (nHeight (s p) - h) \<le> nat (nHeight (s p))" using assms(2) by simp
  ultimately obtain q where "nth_prev s (nat (nHeight (s p) - h)) p = Some q"
    "nHeight (s q) = nHeight (s p) - int (nat (nHeight (s p) - h))"
    using nth_prev_Some by blast
  then show ?thesis using GetAncestor_nth_prev [OF assms] assms(3) by simp
qed

section \<open>Setting the tip\<close>

lemma nth_prev_last: "nth_prev s (Suc n) p = (case nth_prev s n p of None \<Rightarrow> None | Some q \<Rightarrow> pprev (s q))"
  using nth_prev_add [of s n 1 p] by (auto split: option.splits)

text \<open>What the vector may hold at heights up to \<open>n\<close> before the loop: holes, or entries linked downwards.\<close>

definition linked :: "store \<Rightarrow> CChain \<Rightarrow> nat \<Rightarrow> bool" where
  "linked s v n \<longleftrightarrow> (\<forall>i \<le> n. \<forall>b. v ! i = Some b \<longrightarrow> nHeight (s b) = int i \<and> (0 < i \<longrightarrow> v ! (i - 1) = pprev (s b)))"

lemma linked_nth_prev:
  assumes "wf_heights s" and "linked s v n" and "v ! n = Some p" and "i \<le> n"
  shows "v ! (n - i) = nth_prev s i p"
  using assms(4)
proof (induction i)
  case (Suc i)
  have hp: "nHeight (s p) = int n" using assms(2,3) by (simp add: linked_def)
  obtain q where q: "nth_prev s i p = Some q"
    using nth_prev_Some [OF assms(1), of i p] hp Suc.prems by auto
  then have "v ! (n - i) = Some q" using Suc by simp
  moreover have "0 < n - i" "n - i \<le> n" using Suc.prems by simp_all
  ultimately have "v ! (n - i - 1) = pprev (s q)" using assms(2) unfolding linked_def by blast
  then show ?case by (simp only: nth_prev_last q option.case) simp
qed (use assms(3) in simp)

lemma SetTip_loop_correct:
  assumes "wf_heights s" and "nHeight (s p) = int n" and "n < length v" and "linked s v n"
  shows "\<exists>v'. SetTip_loop s v (Some p) = Some v' \<and> length v' = length v
           \<and> (\<forall>i \<le> n. v' ! (n - i) = nth_prev s i p) \<and> (\<forall>i. n < i \<longrightarrow> i < length v \<longrightarrow> v' ! i = v ! i)"
  using assms(2-4)
proof (induction n arbitrary: p v)
  case (0 p v)
  then have "pprev (s p) = None" using wf_pprev_None [OF assms(1)] by simp
  with 0 show ?case
    by (cases "v ! 0 = Some p") (auto simp: SetTip_loop.simps)
next
  case (Suc n p v)
  show ?case
  proof (cases "v ! Suc n = Some p")
    case True
    moreover have "nat (nHeight (s p)) = Suc n" using Suc.prems(1) by simp
    ultimately have "SetTip_loop s v (Some p) = Some v"
      using Suc.prems by (subst SetTip_loop.simps) simp
    then show ?thesis using linked_nth_prev [OF assms(1) Suc.prems(3) True] by auto
  next
    case False
    obtain q where q: "pprev (s p) = Some q"
      using wf_pprev_None [OF assms(1), of p] Suc.prems(1) by (cases "pprev (s p)") auto
    then have hq: "nHeight (s q) = int n" using wf_pprev [OF assms(1) q] Suc.prems(1) by simp
    define u where "u = v[Suc n := Some p]"
    have "linked s u n" using Suc.prems(3) by (auto simp: u_def linked_def)
    then obtain v' where v': "SetTip_loop s u (Some q) = Some v'" "length v' = length u"
      "\<forall>i \<le> n. v' ! (n - i) = nth_prev s i q" "\<forall>i. n < i \<longrightarrow> i < length u \<longrightarrow> v' ! i = u ! i"
      using Suc.IH [OF hq, of u] Suc.prems(2) by (auto simp: u_def)
    have "SetTip_loop s v (Some p) = SetTip_loop s u (Some q)"
      using Suc.prems False q by (subst SetTip_loop.simps) (simp add: u_def nat_add_distrib)
    moreover have "v' ! (Suc n - i) = nth_prev s i p" if "i \<le> Suc n" for i
      using that v'(3,4) Suc.prems(2) q by (cases i) (auto simp: u_def)
    ultimately show ?thesis using v' by (auto simp: u_def)
  qed
qed

text \<open>The vector that lists the ancestors of \<open>p\<close> by height.\<close>

definition chain_of :: "store \<Rightarrow> addr \<Rightarrow> CChain" where
  "chain_of s p = map (\<lambda>i. nth_prev s (nat (nHeight (s p)) - i) p) [0..<Suc (nat (nHeight (s p)))]"

definition is_chain :: "store \<Rightarrow> CChain \<Rightarrow> bool" where
  "is_chain s v \<longleftrightarrow> v = [] \<or> (\<exists>p. v = chain_of s p)"

lemma length_chain_of: "length (chain_of s p) = Suc (nat (nHeight (s p)))"
  by (simp add: chain_of_def)

lemma nth_chain_of: "i \<le> nat (nHeight (s p)) \<Longrightarrow> chain_of s p ! i = nth_prev s (nat (nHeight (s p)) - i) p"
  by (simp add: chain_of_def del: upt_Suc)

lemma chain_of_linked: "wf_heights s \<Longrightarrow> linked s (chain_of s p) (nat (nHeight (s p)))"
proof -
  assume wf: "wf_heights s"
  have "nHeight (s b) = int i \<and> (0 < i \<longrightarrow> chain_of s p ! (i - 1) = pprev (s b))"
    if i: "i \<le> nat (nHeight (s p))" and b: "chain_of s p ! i = Some b" for i b
  proof -
    have nb: "nth_prev s (nat (nHeight (s p)) - i) p = Some b"
      using i b by (simp add: nth_chain_of)
    then have h: "nHeight (s b) = int i"
      using nth_prev_height [OF wf nb] i wf_height_nonneg [OF wf, of p] by simp
    have "chain_of s p ! (i - 1) = nth_prev s (Suc (nat (nHeight (s p)) - i)) p" if "0 < i"
    proof -
      have "nat (nHeight (s p)) - (i - 1) = Suc (nat (nHeight (s p)) - i)" using i that by simp
      then show ?thesis using i nth_chain_of [of "i - 1" s p] by simp
    qed
    then show ?thesis using h nb by (simp only: nth_prev_last option.case) simp
  qed
  then show ?thesis unfolding linked_def by blast
qed

lemma linked_resize:
  assumes "wf_heights s" and "is_chain s v"
  shows "linked s (resize (Suc n) v) n"
proof (cases "v = []")
  case True
  then show ?thesis by (simp add: linked_def resize_def del: replicate_Suc)
next
  case False
  then obtain t where t: "v = chain_of s t" using assms(2) by (auto simp: is_chain_def)
  have l: "linked s v (nat (nHeight (s t)))" unfolding t by (rule chain_of_linked [OF assms(1)])
  have nth: "resize (Suc n) v ! i = (if i < length v then v ! i else None)" if "i \<le> n" for i
    using that by (auto simp: resize_def nth_append)
  show ?thesis
    unfolding linked_def
  proof (intro allI impI)
    fix i b assume i: "i \<le> n" and b: "resize (Suc n) v ! i = Some b"
    then have iv: "i < length v" "v ! i = Some b" using nth [OF i] by (auto split: if_splits)
    then have "i \<le> nat (nHeight (s t))" by (simp add: t length_chain_of)
    then have "nHeight (s b) = int i \<and> (0 < i \<longrightarrow> v ! (i - 1) = pprev (s b))"
      using l iv(2) unfolding linked_def by blast
    then show "nHeight (s b) = int i \<and> (0 < i \<longrightarrow> resize (Suc n) v ! (i - 1) = pprev (s b))"
      using nth [of "i - 1"] i iv(1) by auto
  qed
qed

lemma SetTip_spec:
  assumes "wf_heights s" and "is_chain s v"
  shows "SetTip s v (Some p) = Some (chain_of s p)"
proof -
  define n where "n = nat (nHeight (s p))"
  have h: "nHeight (s p) = int n" using wf_height_nonneg [OF assms(1), of p] by (simp add: n_def)
  have len: "length (resize (Suc n) v) = Suc n" by (simp add: resize_def)
  obtain v' where v': "SetTip_loop s (resize (Suc n) v) (Some p) = Some v'" "length v' = Suc n"
    "\<forall>i \<le> n. v' ! (n - i) = nth_prev s i p"
    using SetTip_loop_correct [OF assms(1) h, of "resize (Suc n) v"] linked_resize [OF assms] len by auto
  have "v' = chain_of s p"
  proof (rule nth_equalityI)
    show "length v' = length (chain_of s p)" using v'(2) by (simp add: length_chain_of n_def)
    fix i assume "i < length v'"
    then have "i \<le> n" using v'(2) by simp
    then show "v' ! i = chain_of s p ! i"
      using v'(3) [rule_format, of "n - i"] by (simp add: nth_chain_of n_def)
  qed
  moreover have "nat (nHeight (s p) + 1) = Suc n" by (simp add: h)
  ultimately show ?thesis using v'(1) by (simp add: SetTip_def)
qed

section \<open>Membership, forks and locators on a chain\<close>

lemma Contains_Nil [simp]: "\<not> Contains s [] p"
  by (cases "nHeight (s p) < 0") (simp_all add: Contains_def chain_at_def)

lemma Contains_chain_of:
  assumes "wf_heights s"
  shows "Contains s (chain_of s t) p \<longleftrightarrow> (\<exists>n. nth_prev s n t = Some p)"
proof
  assume "Contains s (chain_of s t) p"
  then show "\<exists>n. nth_prev s n t = Some p"
    by (auto simp: Contains_def chain_at_def length_chain_of nth_chain_of split: if_splits)
next
  assume "\<exists>n. nth_prev s n t = Some p"
  then obtain n where n: "nth_prev s n t = Some p" ..
  then have h: "nHeight (s p) = nHeight (s t) - int n" by (rule nth_prev_height [OF assms])
  have "0 \<le> nHeight (s p)" by (rule wf_height_nonneg [OF assms])
  then have "nat (nHeight (s t)) - nat (nHeight (s p)) = n" "nHeight (s p) \<le> nHeight (s t)" using h by simp_all
  then show "Contains s (chain_of s t) p"
    using n \<open>0 \<le> nHeight (s p)\<close> by (simp add: Contains_def chain_at_def length_chain_of nth_chain_of nat_mono)
qed

lemma fork_loop_correct:
  assumes "wf_heights s"
  shows "\<exists>r. fork_loop s v (Some p) = Some r
     \<and> (case r of None \<Rightarrow> \<forall>n q. nth_prev s n p = Some q \<longrightarrow> \<not> Contains s v q
        | Some q \<Rightarrow> Contains s v q \<and> (\<exists>n. nth_prev s n p = Some q \<and> (\<forall>m < n. \<forall>a. nth_prev s m p = Some a \<longrightarrow> \<not> Contains s v a)))"
proof (induction "nat (nHeight (s p))" arbitrary: p)
  case 0
  then have "pprev (s p) = None"
    using wf_pprev_None [OF assms, of p] wf_height_nonneg [OF assms, of p] by simp
  moreover from this have "nth_prev s n p = Some q \<Longrightarrow> q = p" for n q by (cases n) auto
  ultimately show ?case
    by (cases "Contains s v p") (auto simp: fork_loop.simps intro: exI [of _ 0])
next
  case (Suc k)
  show ?case
  proof (cases "Contains s v p")
    case True
    then show ?thesis by (auto simp: fork_loop.simps intro: exI [of _ 0])
  next
    case False
    obtain q where q: "pprev (s p) = Some q"
      using wf_pprev_None [OF assms, of p] Suc.hyps(2) by (cases "pprev (s p)") auto
    then have "k = nat (nHeight (s q))" using wf_pprev [OF assms q] Suc.hyps(2) by simp
    then obtain r where r: "fork_loop s v (Some q) = Some r"
      "case r of None \<Rightarrow> \<forall>n a. nth_prev s n q = Some a \<longrightarrow> \<not> Contains s v a
        | Some a \<Rightarrow> Contains s v a \<and> (\<exists>n. nth_prev s n q = Some a \<and> (\<forall>m < n. \<forall>b. nth_prev s m q = Some b \<longrightarrow> \<not> Contains s v b))"
      using Suc.hyps(1) by blast
    have step: "fork_loop s v (Some p) = fork_loop s v (Some q)" using False q by (subst fork_loop.simps) simp
    have split_prev: "nth_prev s n p = Some a \<Longrightarrow> n = 0 \<and> a = p \<or> (\<exists>m. n = Suc m \<and> nth_prev s m q = Some a)" for n a
      using q by (cases n) auto
    show ?thesis
    proof (cases r)
      case None
      then show ?thesis using r step False split_prev by fastforce
    next
      case (Some a)
      then obtain n where n: "Contains s v a" "nth_prev s n q = Some a"
        "\<forall>m < n. \<forall>b. nth_prev s m q = Some b \<longrightarrow> \<not> Contains s v b" using r by auto
      have "nth_prev s (Suc n) p = Some a" using n(2) q by simp
      moreover have "\<not> Contains s v b" if "m < Suc n" "nth_prev s m p = Some b" for m b
        using split_prev [OF that(2)] that(1) n(3) False by auto
      ultimately have "\<exists>n. nth_prev s n p = Some a
          \<and> (\<forall>m < n. \<forall>b. nth_prev s m p = Some b \<longrightarrow> \<not> Contains s v b)" by blast
      then show ?thesis using Some n(1) r(1) step by simp
    qed
  qed
qed

lemma FindFork_spec:
  assumes "wf_index s" and "is_chain s v"
  shows "\<exists>r. FindFork s v (Some p) = Some r
     \<and> (case r of None \<Rightarrow> \<forall>n q. nth_prev s n p = Some q \<longrightarrow> \<not> Contains s v q
        | Some q \<Rightarrow> Contains s v q \<and> (\<exists>n. nth_prev s n p = Some q \<and> (\<forall>m < n. \<forall>a. nth_prev s m p = Some a \<longrightarrow> \<not> Contains s v a)))"
proof -
  have wf: "wf_heights s" using assms(1) by (simp add: wf_index_def)
  have high: "\<not> Contains s v a" if "nHeight (s a) > Height v" for a
    using that by (simp add: Contains_def chain_at_def Height_def)
  show ?thesis
  proof (cases "nHeight (s p) > Height v")
    case False
    then show ?thesis using fork_loop_correct [OF wf, of v p] by (simp add: FindFork_def)
  next
    case True
    show ?thesis
    proof (cases "v = []")
      case empty: True
      then have "FindFork s v (Some p) = Some None"
        using True by (simp add: FindFork_def GetAncestor_def Height_def fork_loop.simps)
      then show ?thesis using empty by simp
    next
      case False
      then have H: "0 \<le> Height v" by (simp add: Height_def Suc_le_eq)
      define k where "k = nat (nHeight (s p) - Height v)"
      obtain q where q: "GetAncestor s p (Height v) = Some (Some q)" "nth_prev s k p = Some q"
        using GetAncestor_Some [OF assms(1) H, of p] True by (auto simp: k_def)
      obtain r where r: "fork_loop s v (Some q) = Some r"
        "case r of None \<Rightarrow> \<forall>n a. nth_prev s n q = Some a \<longrightarrow> \<not> Contains s v a
        | Some a \<Rightarrow> Contains s v a \<and> (\<exists>n. nth_prev s n q = Some a \<and> (\<forall>m < n. \<forall>b. nth_prev s m q = Some b \<longrightarrow> \<not> Contains s v b))"
        using fork_loop_correct [OF wf] by blast
      have below: "\<not> Contains s v a" if "m < k" "nth_prev s m p = Some a" for m a
        using nth_prev_height [OF wf that(2)] that(1) by (intro high) (simp add: k_def)
      have above: "nth_prev s (k + n) p = nth_prev s n q" for n using q(2) by (simp add: nth_prev_add)
      have all: "\<not> Contains s v a" if "m < k + n" "nth_prev s m p = Some a"
        "\<forall>m < n. \<forall>b. nth_prev s m q = Some b \<longrightarrow> \<not> Contains s v b" for m n a
      proof (cases "m < k")
        case False
        then have "nth_prev s (m - k) q = Some a" "m - k < n" using that(1,2) above [of "m - k"] by simp_all
        then show ?thesis using that(3) by blast
      qed (use that(2) below in blast)
      have "FindFork s v (Some p) = Some r" using True q(1) r(1) by (simp add: FindFork_def)
      then show ?thesis
      proof (cases r)
        case None
        then have "\<not> Contains s v a" if "nth_prev s n p = Some a" for n a
          using r(2) all [of n "Suc n" a] that by auto
        then show ?thesis using None \<open>FindFork s v (Some p) = Some r\<close> by auto
      next
        case (Some a)
        then obtain n where "Contains s v a" "nth_prev s n q = Some a"
          "\<forall>m < n. \<forall>b. nth_prev s m q = Some b \<longrightarrow> \<not> Contains s v b" using r(2) by auto
        then show ?thesis
          using Some \<open>FindFork s v (Some p) = Some r\<close> all [of _ n] above [of n] by fastforce
      qed
    qed
  qed
qed

lemma locator_loop_correct:
  assumes "wf_index s" and "is_chain s v" and "1 \<le> nStep"
  shows "\<exists>hs. locator_loop s v (Some p) nStep vHave = Some (vHave @ phashBlock (s p) # hs)
     \<and> (\<forall>h \<in> set hs. \<exists>n q. nth_prev s n p = Some q \<and> h = phashBlock (s q))
     \<and> (\<exists>g. nth_prev s (nat (nHeight (s p))) p = Some g \<and> last (phashBlock (s p) # hs) = phashBlock (s g))"
  using assms(3)
proof (induction "nat (nHeight (s p))" arbitrary: p nStep vHave rule: less_induct)
  case less
  have wf: "wf_heights s" using assms(1) by (simp add: wf_index_def)
  show ?case
  proof (cases "nHeight (s p) = 0")
    case True
    then show ?thesis by (subst locator_loop.simps) (simp add: Let_def)
  next
    case False
    then have pos: "0 < nHeight (s p)" using wf_height_nonneg [OF wf, of p] by simp
    define h where "h = max (nHeight (s p) - nStep) 0"
    have h: "0 \<le> h" "h < nHeight (s p)" using pos less.prems by (auto simp: h_def)
    obtain q where q: "GetAncestor s p h = Some (Some q)" "nth_prev s (nat (nHeight (s p) - h)) p = Some q" "nHeight (s q) = h"
      using GetAncestor_Some [OF assms(1) h(1), of p] h(2) by auto
    have at_chain: "chain_at v h = Some q" if "Contains s v p"
    proof -
      have "v \<noteq> []" using that by auto
      then obtain t where t: "v = chain_of s t" using assms(2) by (auto simp: is_chain_def)
      then have "Contains s (chain_of s t) p" using \<open>Contains s v p\<close> by simp
      then obtain m where "nth_prev s m t = Some p" using Contains_chain_of [OF wf] by blast
      then have "nth_prev s (m + nat (nHeight (s p) - h)) t = Some q" using q(2) by (simp add: nth_prev_add)
      then have "Contains s v q" using t Contains_chain_of [OF wf] by blast
      then show ?thesis using q(3) by (simp add: Contains_def)
    qed
    define vHave' where "vHave' = vHave @ [phashBlock (s p)]"
    define nStep' where "nStep' = (if length vHave' > 10 then nStep * 2 else nStep)"
    have step: "locator_loop s v (Some p) nStep vHave = locator_loop s v (Some q) nStep' vHave'"
      using False at_chain q(1) by (subst locator_loop.simps) (simp add: Let_def h_def [symmetric] vHave'_def nStep'_def)
    have "1 \<le> nStep'" using less.prems by (simp add: nStep'_def)
    then obtain hs g where IH: "locator_loop s v (Some q) nStep' vHave' = Some (vHave' @ phashBlock (s q) # hs)"
      "\<forall>x \<in> set hs. \<exists>n r. nth_prev s n q = Some r \<and> x = phashBlock (s r)"
      "nth_prev s (nat (nHeight (s q))) q = Some g" "last (phashBlock (s q) # hs) = phashBlock (s g)"
      using less.hyps [of q nStep' vHave'] q(3) h by auto
    have up: "nth_prev s (nat (nHeight (s p) - h) + n) p = nth_prev s n q" for n using q(2) by (simp add: nth_prev_add)
    have "nth_prev s (nat (nHeight (s p))) p = Some g"
      using up [of "nat h"] IH(3) q(3) h by (simp add: nat_add_distrib [symmetric])
    moreover have "\<exists>n r. nth_prev s n p = Some r \<and> x = phashBlock (s r)" if "x \<in> set (phashBlock (s q) # hs)" for x
      using that IH(2) up q(2) by (auto, metis)
    ultimately show ?thesis using IH(1,4) step by (auto simp: vHave'_def)
  qed
qed

section \<open>Medians\<close>

lemma sorted_count_le:
  assumes "sorted xs" and "k < length xs"
  shows "Suc k \<le> length (filter (\<lambda>x. x \<le> xs ! k) xs)"
proof -
  have "filter (\<lambda>x. x \<le> xs ! k) (take (Suc k) xs) = take (Suc k) xs"
    using assms by (intro filter_True) (auto simp: in_set_conv_nth sorted_nth_mono)
  then have "length (filter (\<lambda>x. x \<le> xs ! k) (take (Suc k) xs)) = Suc k" using assms(2) by simp
  moreover have "length (filter (\<lambda>x. x \<le> xs ! k) xs)
      = length (filter (\<lambda>x. x \<le> xs ! k) (take (Suc k) xs)) + length (filter (\<lambda>x. x \<le> xs ! k) (drop (Suc k) xs))"
    by (metis append_take_drop_id filter_append length_append)
  ultimately show ?thesis by simp
qed

lemma sorted_count_ge:
  assumes "sorted xs" and "k < length xs"
  shows "length xs - k \<le> length (filter (\<lambda>x. xs ! k \<le> x) xs)"
proof -
  have "filter (\<lambda>x. xs ! k \<le> x) (drop k xs) = drop k xs"
    using assms by (intro filter_True) (auto simp: in_set_conv_nth sorted_nth_mono)
  then have "length (filter (\<lambda>x. xs ! k \<le> x) (drop k xs)) = length xs - k" by simp
  moreover have "length (filter (\<lambda>x. xs ! k \<le> x) xs)
      = length (filter (\<lambda>x. xs ! k \<le> x) (take k xs)) + length (filter (\<lambda>x. xs ! k \<le> x) (drop k xs))"
    by (metis append_take_drop_id filter_append length_append)
  ultimately show ?thesis by simp
qed

lemma length_filter_sort: "length (filter P (sort xs)) = length (filter P xs)"
  by (metis filter_sort length_sort)

lemma past_times_nonempty: "past_times s nMedianTimeSpan (Some p) \<noteq> []"
  by (simp add: nMedianTimeSpan_def eval_nat_numeral)

section \<open>Properties of the block tree and the active chain\<close>

lemma median_laws:
  shows "GetMedianTimePast s p \<in> set (past_times s nMedianTimeSpan (Some p))"
    and "length (past_times s nMedianTimeSpan (Some p)) <
         2 * length (filter (\<lambda>t. t \<le> GetMedianTimePast s p) (past_times s nMedianTimeSpan (Some p)))"
    and "length (past_times s nMedianTimeSpan (Some p)) \<le>
         2 * length (filter (\<lambda>t. GetMedianTimePast s p \<le> t) (past_times s nMedianTimeSpan (Some p)))"
proof -
  define ts where "ts = past_times s nMedianTimeSpan (Some p)"
  have k: "length ts div 2 < length (sort ts)"
    using past_times_nonempty [of s p] by (simp add: ts_def)
  have m: "GetMedianTimePast s p = sort ts ! (length ts div 2)" by (simp add: GetMedianTimePast_def ts_def Let_def)
  show "GetMedianTimePast s p \<in> set (past_times s nMedianTimeSpan (Some p))"
    unfolding m using nth_mem [OF k] by (simp add: ts_def)
  show "length (past_times s nMedianTimeSpan (Some p)) <
         2 * length (filter (\<lambda>t. t \<le> GetMedianTimePast s p) (past_times s nMedianTimeSpan (Some p)))"
    using sorted_count_le [OF sorted_sort k] by (simp add: m length_filter_sort flip: ts_def)
  show "length (past_times s nMedianTimeSpan (Some p)) \<le>
         2 * length (filter (\<lambda>t. GetMedianTimePast s p \<le> t) (past_times s nMedianTimeSpan (Some p)))"
    using sorted_count_ge [OF sorted_sort k] by (simp add: m length_filter_sort flip: ts_def)
qed

text \<open>
  \<^verbatim>\<open>GetMedianTimePast\<close> is a true median of the times of the entry and its up to ten
  predecessors: more than half of them are not later, and at least half are not earlier.
\<close>

theorem GetMedianTimePast_median:
  shows "GetMedianTimePast s p \<in> set (past_times s nMedianTimeSpan (Some p))
    \<and> length (past_times s nMedianTimeSpan (Some p)) <
         2 * length (filter (\<lambda>t. t \<le> GetMedianTimePast s p) (past_times s nMedianTimeSpan (Some p)))
    \<and> length (past_times s nMedianTimeSpan (Some p)) \<le>
         2 * length (filter (\<lambda>t. GetMedianTimePast s p \<le> t) (past_times s nMedianTimeSpan (Some p)))"
  by (intro conjI impI median_laws )

lemma valid_mask: "BLOCK_VALID_MASK = mask 3"
  by (simp add: BLOCK_VALID_MASK_def BLOCK_VALID_HEADER_def BLOCK_VALID_TREE_def
      BLOCK_VALID_TRANSACTIONS_def BLOCK_VALID_CHAIN_def BLOCK_VALID_SCRIPTS_def mask_numeral)

lemma status_replace:
  fixes st n :: u32
  assumes "n AND NOT (mask 3) = 0"
  shows "((st AND NOT (mask 3)) OR n) AND mask 3 = n"
    and "((st AND NOT (mask 3)) OR n) AND NOT (mask 3) = st AND NOT (mask 3)"
proof -
  have "bit n j \<Longrightarrow> j < 3" for j
    using assms bit_lt32 [of n j] by (auto simp: bit_eq_iff bit_simps)
  then show "((st AND NOT (mask 3)) OR n) AND mask 3 = n"
    and "((st AND NOT (mask 3)) OR n) AND NOT (mask 3) = st AND NOT (mask 3)"
    by (auto simp: bit_eq_iff bit_simps)
qed

text \<open>
  Raising the validity of an entry that has not failed makes it valid to that level
  and touches nothing but the validity bits; it reports a change exactly when the level
  was not reached before, and a failed entry is never raised.
\<close>

theorem RaiseValidity_correct:
  assumes "n AND NOT BLOCK_VALID_MASK = 0"
  shows "\<exists>ch b'. RaiseValidity b n = Some (ch, b')
     \<and> (ch \<longleftrightarrow> nStatus b AND BLOCK_FAILED_MASK = 0 \<and> IsValid b n = Some False)
     \<and> (nStatus b AND BLOCK_FAILED_MASK = 0 \<longrightarrow> IsValid b' n = Some True)
     \<and> b' = b\<lparr>nStatus := nStatus b'\<rparr>
     \<and> nStatus b' AND NOT BLOCK_VALID_MASK = nStatus b AND NOT BLOCK_VALID_MASK"
proof (cases "nStatus b AND BLOCK_FAILED_MASK = 0 \<and> nStatus b AND BLOCK_VALID_MASK < n")
  case True
  let ?V = BLOCK_VALID_MASK and ?F = BLOCK_FAILED_MASK
  define st where "st = (nStatus b AND NOT ?V) OR n"
  have r: "st AND ?V = n" "st AND NOT ?V = nStatus b AND NOT ?V"
    using status_replace [OF assms [unfolded valid_mask], of "nStatus b"] by (simp_all only: st_def valid_mask)
  have f: "NOT ?V AND ?F = ?F" by (simp add: BLOCK_FAILED_MASK_def valid_mask mask_numeral)
  have "st AND ?F = (st AND NOT ?V) AND ?F" by (simp only: and.assoc f)
  also have "\<dots> = nStatus b AND ?F" by (simp only: r(2) and.assoc f)
  finally have z: "st AND ?F = 0" using True by simp
  have "RaiseValidity b n = Some (True, b\<lparr>nStatus := st\<rparr>)"
    using True assms by (simp add: RaiseValidity_def st_def)
  moreover have "IsValid (b\<lparr>nStatus := st\<rparr>) n = Some True" using z r(1) assms by (simp add: IsValid_def)
  moreover have "IsValid b n = Some False" using True assms by (simp add: IsValid_def not_le)
  ultimately show ?thesis using True r(2) by auto
next
  case False
  then show ?thesis using assms by (auto simp: RaiseValidity_def IsValid_def)
qed


text \<open>
  C24. On a well-formed tree the skip-list walk of \<^verbatim>\<open>GetAncestor\<close> ends, never trips its
  assertion, and returns the entry that following \<^verbatim>\<open>pprev\<close> down to the requested height
  gives; for a height outside the branch it returns \<^verbatim>\<open>NULL\<close>.
\<close>

theorem GetAncestor_correct:
  assumes "wf_index s"
  shows "GetAncestor s p h =
    Some (if 0 \<le> h \<and> h \<le> nHeight (s p) then nth_prev s (nat (nHeight (s p) - h)) p else None)"
  using GetAncestor_nth_prev [OF assms, of h p] by (auto simp: GetAncestor_def)

text \<open>
  Building the skip pointer of a new entry keeps the tree well-formed: the entry gets
  its ancestor at \<^verbatim>\<open>GetSkipHeight\<close>, which is strictly below it.
\<close>

theorem BuildSkip_wf:
  assumes "wf_index s" and "pprev (s p) = Some q" and "pskip (s p) = None"
  shows "\<exists>k. BuildSkip s p = Some (s(p := (s p)\<lparr>pskip := Some k\<rparr>))
           \<and> wf_index (s(p := (s p)\<lparr>pskip := Some k\<rparr>))
           \<and> nHeight (s k) = GetSkipHeight (nHeight (s p)) \<and> nHeight (s k) < nHeight (s p)"
proof -
  have wf: "wf_heights s" using assms(1) by (simp add: wf_index_def)
  define g where "g = GetSkipHeight (nHeight (s p))"
  have hq: "nHeight (s p) = nHeight (s q) + 1" by (rule wf_pprev [OF wf assms(2)])
  then have pos: "0 < nHeight (s p)" using wf_height_nonneg [OF wf, of q] by simp
  then have g: "0 \<le> g" "g < nHeight (s p)" using GetSkipHeight_bounds by (simp_all add: g_def)
  obtain k where k: "GetAncestor s q g = Some (Some k)" "nth_prev s (nat (nHeight (s q) - g)) q = Some k" "nHeight (s k) = g"
    using GetAncestor_Some [OF assms(1) g(1), of q] g(2) hq by auto
  define s' where "s' = s(p := (s p)\<lparr>pskip := Some k\<rparr>)"
  have same: "nHeight (s' a) = nHeight (s a)" "pprev (s' a) = pprev (s a)" for a by (simp_all add: s'_def)
  then have np: "nth_prev s' n a = nth_prev s n a" for n a
    by (induction n arbitrary: a) (auto split: option.split)
  have "nat (nHeight (s p) - g) = Suc (nat (nHeight (s q) - g))" using hq g(2) by simp
  then have "nth_prev s (nat (nHeight (s p) - g)) p = Some k" using assms(2) k(2) by simp
  moreover have "pskip (s' p) = Some k" by (simp add: s'_def)
  ultimately have "skip_ok s' p" by (simp add: skip_ok_def same np g_def)
  moreover have "skip_ok s' a" if "a \<noteq> p" for a
  proof -
    have "pskip (s' a) = pskip (s a)" using that by (simp add: s'_def)
    then have "skip_ok s' a \<longleftrightarrow> skip_ok s a" by (simp add: skip_ok_def same np split: option.split)
    then show ?thesis using assms(1) by (simp add: wf_index_def)
  qed
  moreover have "wf_heights s'" using wf unfolding wf_heights_def same .
  ultimately have "wf_index s'" unfolding wf_index_def by (metis (no_types))
  then show ?thesis using k g assms(2) by (auto simp: BuildSkip_def g_def s'_def)
qed

lemma tip_laws:
  assumes "wf_heights s" and "is_chain s v"
  shows "SetTip s v (Some p) = Some (chain_of s p)" and "SetTip s v None = Some []"
    and "Tip (chain_of s p) = Some p" and "Height (chain_of s p) = nHeight (s p)"
    and "Contains s (chain_of s p) q \<longleftrightarrow> (\<exists>n. nth_prev s n p = Some q)"
  using SetTip_spec [OF assms] Contains_chain_of [OF assms(1)] wf_height_nonneg [OF assms(1), of p]
    nth_chain_of [of "nat (nHeight (s p))" s p]
  by (simp_all add: SetTip_def Tip_def Height_def length_chain_of nth_append)
     (simp add: chain_of_def)

text \<open>
  C23. \<^verbatim>\<open>SetTip\<close> turns any chain of the tree into the chain of the new tip: afterwards
  the vector lists exactly the ancestors of the tip, each at its height, whatever was in
  it before.
\<close>

theorem SetTip_correct:
  assumes "wf_heights s" and "is_chain s v"
  shows "SetTip s v (Some p) = Some (chain_of s p)
    \<and> SetTip s v None = Some []
    \<and> Tip (chain_of s p) = Some p
    \<and> Height (chain_of s p) = nHeight (s p)
    \<and> (Contains s (chain_of s p) q \<longleftrightarrow> (\<exists>n. nth_prev s n p = Some q))"
  by (intro conjI impI tip_laws [OF assms])

text \<open>
  \<^verbatim>\<open>FindFork\<close> always returns, and returns the last common block: an ancestor of the
  given entry that is on the chain while no later ancestor is, or \<^verbatim>\<open>NULL\<close> when no
  ancestor is on the chain.
\<close>

theorem FindFork_correct:
  assumes "wf_index s" and "is_chain s v"
  shows "\<exists>r. FindFork s v (Some p) = Some r
     \<and> (case r of None \<Rightarrow> \<forall>n q. nth_prev s n p = Some q \<longrightarrow> \<not> Contains s v q
        | Some q \<Rightarrow> Contains s v q \<and> (\<exists>n. nth_prev s n p = Some q
                     \<and> (\<forall>m < n. \<forall>a. nth_prev s m p = Some a \<longrightarrow> \<not> Contains s v a)))"
  by (rule FindFork_spec [OF assms])

text \<open>
  \<^verbatim>\<open>GetLocator\<close> always returns; the locator starts with the block itself, lists only
  its ancestors and ends with the genesis block of its branch.
\<close>

theorem GetLocator_correct:
  assumes "wf_index s" and "is_chain s v"
  shows "\<exists>hs g. GetLocator s v (Some p) = Some (phashBlock (s p) # hs)
     \<and> (\<forall>h \<in> set hs. \<exists>n q. nth_prev s n p = Some q \<and> h = phashBlock (s q))
     \<and> nth_prev s (nat (nHeight (s p))) p = Some g \<and> last (phashBlock (s p) # hs) = phashBlock (s g)"
  using locator_loop_correct [OF assms, of 1 p "[]"] by (auto simp: GetLocator_def)


text \<open>A concrete tree for the witnesses: one branch with the entry of height \<open>i\<close> at address \<open>i\<close>.\<close>

definition line_store :: store where
  "line_store i = \<lparr>phashBlock = [of_nat i], pprev = (if i = 0 then None else Some (i - 1)), pskip = None,
     nHeight = int i, nFile = 0, nDataPos = 0, nUndoPos = 0, nChainWork = base_uint_zero, nTx = 0,
     nChainTx = 0, nStatus = 0, nVersion = 0, hashMerkleRoot = [], nTime = of_nat i, nBits = 0x1d00ffff,
     nNonce = 0, nSequenceId = 0\<rparr>"

lemma line_store_wf: "wf_index line_store"
  by (auto simp: wf_index_def wf_heights_def skip_ok_def line_store_def)

lemma chain_of_line_3: "chain_of line_store 3 = [Some 0, Some 1, Some 2, Some 3]"
  by (simp add: chain_of_def line_store_def eval_nat_numeral)

theorem GetAncestor_correct_witness: "wf_index line_store \<and> GetAncestor line_store 9 4 = Some (Some 4)"
  using GetAncestor_correct [OF line_store_wf, of 9 4] line_store_wf
  by (simp add: line_store_def eval_nat_numeral)

theorem BuildSkip_wf_witness:
  "pprev (line_store 5) = Some 4 \<and> pskip (line_store 5) = None
   \<and> (\<exists>k. BuildSkip line_store 5 = Some (line_store(5 := (line_store 5)\<lparr>pskip := Some k\<rparr>)))"
proof -
  have "pprev (line_store 5) = Some 4" "pskip (line_store 5) = None" by (simp_all add: line_store_def)
  then show ?thesis using BuildSkip_wf [OF line_store_wf] by blast
qed

theorem SetTip_correct_witness:
  "SetTip line_store [] (Some 3) = Some [Some 0, Some 1, Some 2, Some 3]"
  using SetTip_correct [of line_store "[]" 3] line_store_wf chain_of_line_3
  by (simp add: wf_index_def is_chain_def)

lemma is_chain_line_3: "is_chain line_store [Some 0, Some 1, Some 2, Some 3]"
  unfolding chain_of_line_3 [symmetric] by (auto simp: is_chain_def)

theorem FindFork_correct_witness: "\<exists>r. FindFork line_store [Some 0, Some 1, Some 2, Some 3] (Some 6) = Some r"
  using FindFork_correct [OF line_store_wf is_chain_line_3, of 6] by blast

theorem GetLocator_correct_witness:
  "\<exists>hs. GetLocator line_store [Some 0, Some 1, Some 2, Some 3] (Some 3) = Some (phashBlock (line_store 3) # hs)"
  using GetLocator_correct [OF line_store_wf is_chain_line_3, of 3] by blast

theorem RaiseValidity_correct_witness:
  "(3 :: u32) AND NOT BLOCK_VALID_MASK = 0 \<and> nStatus (line_store 2) AND BLOCK_FAILED_MASK = 0
   \<and> (\<exists>ch b'. RaiseValidity (line_store 2) 3 = Some (ch, b') \<and> IsValid b' 3 = Some True)"
proof -
  have h: "(3 :: u32) AND NOT BLOCK_VALID_MASK = 0" by (simp add: valid_mask mask_numeral)
  moreover have "nStatus (line_store 2) AND BLOCK_FAILED_MASK = 0" by (simp add: line_store_def)
  ultimately show ?thesis using RaiseValidity_correct [OF h, of "line_store 2"] by blast
qed

end
