(* ===== verification/Pow.thy ===== *)
theory Pow
  imports Chain
begin

text \<open>
  \<^verbatim>\<open>pow.cpp\<close>: difficulty retargeting (Dark Gravity Wave and the Bitcoin rule), the proof
  of work check and the work a block contributes. Every function that can abort, throw
  or follow a null pointer returns \<open>option\<close>, \<open>None\<close> for that. The Kimoto Gravity Well
  computes with \<^verbatim>\<open>double\<close> and the library's \<^verbatim>\<open>pow\<close>; it is a parameter of
  \<open>GetNextWorkRequired\<close>.
\<close>

record ConsensusParams =
  powLimit :: bytes
  fPowAllowMinDifficultyBlocks :: bool
  fPowNoRetargeting :: bool
  nPowTargetSpacing :: int
  nPowTargetTimespan :: int
  nPowKGWHeight :: int
  nPowDGWHeight :: int

text \<open>C's division of signed integers truncates towards zero.\<close>

definition cdiv :: "int \<Rightarrow> int \<Rightarrow> int" where
  "cdiv a b = sgn a * sgn b * (\<bar>a\<bar> div \<bar>b\<bar>)"

definition cmod :: "int \<Rightarrow> int \<Rightarrow> int" where
  "cmod a b = a - b * cdiv a b"

definition DifficultyAdjustmentInterval :: "ConsensusParams \<Rightarrow> int" where
  "DifficultyAdjustmentInterval params = cdiv (nPowTargetTimespan params) (nPowTargetSpacing params)"

text \<open>
  \<^verbatim>\<open>bnNew *= t; bnNew /= d; if (bnNew > bnPowLimit) bnNew = bnPowLimit; return
  bnNew.GetCompact();\<close> with \<^verbatim>\<open>int64_t\<close> operands: overload resolution takes the 32-bit
  product, so \<open>t\<close> is truncated to 32 bits, while the divisor goes through the 64-bit
  constructor.
\<close>

definition retarget :: "base_uint \<Rightarrow> int \<Rightarrow> int \<Rightarrow> base_uint \<Rightarrow> u32 option" where
  "retarget bnNew t d bnPowLimit =
     (case base_uint_div (base_uint_mul32 bnNew (word_of_int t)) (base_uint_of_u64 (word_of_int d)) of
        Inl _ \<Rightarrow> None
      | Inr bn \<Rightarrow> GetCompact (if CompareTo bn bnPowLimit > 0 then bnPowLimit else bn) False)"

section \<open>Dark Gravity Wave\<close>

definition nPastBlocks :: nat where
  "nPastBlocks = 24"

definition dgw_average :: "nat \<Rightarrow> base_uint \<Rightarrow> base_uint \<Rightarrow> uint_error + base_uint" where
  "dgw_average nCountBlocks bnPastTargetAvg bnTarget =
     (if nCountBlocks = 1 then Inr bnTarget
      else base_uint_div
             (base_uint_add (base_uint_mul32 bnPastTargetAvg (of_nat nCountBlocks)) bnTarget)
             (base_uint_of_u64 (ucast (of_nat nCountBlocks + 1 :: u32))))"

function dgw_loop :: "store \<Rightarrow> nat \<Rightarrow> addr \<Rightarrow> base_uint \<Rightarrow> (addr \<times> base_uint) option" where
  "dgw_loop s nCountBlocks pindex bnPastTargetAvg =
     (if nCountBlocks \<le> nPastBlocks
      then case dgw_average nCountBlocks bnPastTargetAvg (fst (SetCompact (nBits (s pindex)))) of
             Inl _ \<Rightarrow> None
           | Inr avg \<Rightarrow>
               (if nCountBlocks \<noteq> nPastBlocks
                then case pprev (s pindex) of
                       None \<Rightarrow> None
                     | Some q \<Rightarrow> dgw_loop s (Suc nCountBlocks) q avg
                else dgw_loop s (Suc nCountBlocks) pindex avg)
      else Some (pindex, bnPastTargetAvg))"
  by pat_completeness auto
termination
  by (relation "measure (\<lambda>(s, n, p, a). Suc nPastBlocks - n)") auto

definition DarkGravityWave :: "store \<Rightarrow> ptr \<Rightarrow> ConsensusParams \<Rightarrow> u32 option" where
  "DarkGravityWave s pindexLast params =
     (let bnPowLimit = UintToArith256 (powLimit params)
      in case pindexLast of
           None \<Rightarrow> GetCompact bnPowLimit False
         | Some lst \<Rightarrow>
             (if nHeight (s lst) < int nPastBlocks then GetCompact bnPowLimit False
              else case dgw_loop s 1 lst base_uint_zero of
                     None \<Rightarrow> None
                   | Some (pindex, bnPastTargetAvg) \<Rightarrow>
                       (let nActualTimespan = GetBlockTime (s lst) - GetBlockTime (s pindex);
                            nTargetTimespan = int nPastBlocks * nPowTargetSpacing params;
                            nActualTimespan = (if nActualTimespan < cdiv nTargetTimespan 3
                                               then cdiv nTargetTimespan 3 else nActualTimespan);
                            nActualTimespan = (if nActualTimespan > nTargetTimespan * 3
                                               then nTargetTimespan * 3 else nActualTimespan)
                        in retarget bnPastTargetAvg nActualTimespan nTargetTimespan bnPowLimit)))"

section \<open>The Bitcoin rule\<close>

definition CalculateNextWorkRequired :: "store \<Rightarrow> addr \<Rightarrow> int \<Rightarrow> ConsensusParams \<Rightarrow> u32 option" where
  "CalculateNextWorkRequired s pindexLast nFirstBlockTime params =
     (if fPowNoRetargeting params then Some (nBits (s pindexLast))
      else let nActualTimespan = GetBlockTime (s pindexLast) - nFirstBlockTime;
               nActualTimespan = (if nActualTimespan < cdiv (nPowTargetTimespan params) 4
                                  then cdiv (nPowTargetTimespan params) 4 else nActualTimespan);
               nActualTimespan = (if nActualTimespan > nPowTargetTimespan params * 4
                                  then nPowTargetTimespan params * 4 else nActualTimespan)
           in retarget (fst (SetCompact (nBits (s pindexLast)))) nActualTimespan
                (nPowTargetTimespan params) (UintToArith256 (powLimit params)))"

partial_function (option) last_non_special :: "store \<Rightarrow> int \<Rightarrow> u32 \<Rightarrow> addr \<Rightarrow> addr option" where
  "last_non_special s interval nProofOfWorkLimit pindex =
     (case pprev (s pindex) of
        Some q \<Rightarrow> (if cmod (nHeight (s pindex)) interval \<noteq> 0 \<and> nBits (s pindex) = nProofOfWorkLimit
                   then last_non_special s interval nProofOfWorkLimit q
                   else Some pindex)
      | None \<Rightarrow> Some pindex)"

text \<open>\<open>blockTime\<close> is \<^verbatim>\<open>pblock->GetBlockTime()\<close>, all this function reads of the new header.\<close>

definition GetNextWorkRequiredBTC :: "store \<Rightarrow> ptr \<Rightarrow> int \<Rightarrow> ConsensusParams \<Rightarrow> u32 option" where
  "GetNextWorkRequiredBTC s pindexLast blockTime params =
     (case GetCompact (UintToArith256 (powLimit params)) False of
        None \<Rightarrow> None
      | Some nProofOfWorkLimit \<Rightarrow>
        (case pindexLast of
           None \<Rightarrow> Some nProofOfWorkLimit
         | Some lst \<Rightarrow>
             (if cmod (nHeight (s lst) + 1) (DifficultyAdjustmentInterval params) \<noteq> 0
              then if fPowAllowMinDifficultyBlocks params
                   then if blockTime > GetBlockTime (s lst) + nPowTargetSpacing params * 2
                        then Some nProofOfWorkLimit
                        else map_option (\<lambda>p. nBits (s p))
                               (last_non_special s (DifficultyAdjustmentInterval params) nProofOfWorkLimit lst)
                   else Some (nBits (s lst))
              else let nHeightFirst = nHeight (s lst) - (DifficultyAdjustmentInterval params - 1)
                   in if nHeightFirst < 0 then None
                      else case GetAncestor s lst nHeightFirst of
                             Some (Some first) \<Rightarrow>
                               CalculateNextWorkRequired s lst (GetBlockTime (s first)) params
                           | _ \<Rightarrow> None)))"

definition GetNextWorkRequired ::
    "(store \<Rightarrow> ptr \<Rightarrow> ConsensusParams \<Rightarrow> u32 option) \<Rightarrow> store \<Rightarrow> addr \<Rightarrow> int \<Rightarrow> ConsensusParams \<Rightarrow> u32 option" where
  "GetNextWorkRequired kimotoGravityWell s pindexLast blockTime params =
     (if nHeight (s pindexLast) + 1 \<ge> nPowDGWHeight params
      then DarkGravityWave s (Some pindexLast) params
      else if nHeight (s pindexLast) + 1 \<ge> nPowKGWHeight params
      then kimotoGravityWell s (Some pindexLast) params
      else GetNextWorkRequiredBTC s (Some pindexLast) blockTime params)"

section \<open>Proof of work and block proof\<close>

definition CheckProofOfWork :: "bytes \<Rightarrow> u32 \<Rightarrow> ConsensusParams \<Rightarrow> bool" where
  "CheckProofOfWork hash bits params =
     (let (bnTarget, fNegative, fOverflow) = SetCompact bits
      in if fNegative \<or> EqualTo bnTarget 0 \<or> fOverflow
            \<or> CompareTo bnTarget (UintToArith256 (powLimit params)) > 0 then False
         else if CompareTo (UintToArith256 hash) bnTarget > 0 then False
         else True)"

definition GetBlockProof :: "CBlockIndex \<Rightarrow> uint_error + base_uint" where
  "GetBlockProof block =
     (let (bnTarget, fNegative, fOverflow) = SetCompact (nBits block)
      in if fNegative \<or> fOverflow \<or> EqualTo bnTarget 0 then Inr (base_uint_of_u64 0)
         else case base_uint_div (base_uint_not bnTarget) (base_uint_add bnTarget (base_uint_of_u64 1)) of
                Inl e \<Rightarrow> Inl e
              | Inr q \<Rightarrow> Inr (base_uint_add q (base_uint_of_u64 1)))"

definition GetBlockProofEquivalentTime ::
    "CBlockIndex \<Rightarrow> CBlockIndex \<Rightarrow> CBlockIndex \<Rightarrow> ConsensusParams \<Rightarrow> uint_error + int" where
  "GetBlockProofEquivalentTime to from tip params =
     (let (r, sign) = (if CompareTo (nChainWork to) (nChainWork from) > 0
                      then (base_uint_sub (nChainWork to) (nChainWork from), 1 :: int)
                      else (base_uint_sub (nChainWork from) (nChainWork to), - 1))
      in case GetBlockProof tip of
           Inl e \<Rightarrow> Inl e
         | Inr bp \<Rightarrow>
             (case base_uint_div (base_uint_mul r (base_uint_of_u64 (word_of_int (nPowTargetSpacing params)))) bp of
                Inl e \<Rightarrow> Inl e
              | Inr r \<Rightarrow> (if base_uint_bits r > 63 then Inr (sign * (2 ^ 63 - 1))
                          else Inr (sint (word_of_int sign * GetLow64 r :: u64)))))"

section \<open>Retargeting is total and bounded\<close>

lemma retarget_correct:
  assumes "wf_uint bn" and "wf_uint lim" and "0 \<le> t" and "t < 2 ^ 32" and "0 < d" and "d < 2 ^ 64"
  shows "\<exists>x. wf_uint x \<and> uval x = min ((uval bn * nat t) mod 2 ^ 256 div nat d) (uval lim)
             \<and> retarget bn t d lim = GetCompact x False"
proof -
  have t: "unat (word_of_int t :: u32) = nat t" using assms(3,4) by (simp add: unat_eq_nat_uint uint_word_of_int)
  have d: "unat (word_of_int d :: u64) = nat d" using assms(5,6) by (simp add: unat_eq_nat_uint uint_word_of_int)
  have "(word_of_int d :: u64) \<noteq> 0" using d assms(5) by (auto simp: unat_eq_0 [symmetric])
  then obtain q where q: "base_uint_div (base_uint_mul32 bn (word_of_int t)) (base_uint_of_u64 (word_of_int d)) = Inr q"
    "wf_uint q" "uval q = (uval bn * nat t) mod 2 ^ 256 div nat d"
    using uint256.scale_val [OF assms(1), of "word_of_int d" "word_of_int t"] by (auto simp: t d)
  show ?thesis
    using uint256.clamp_val [OF q(2) assms(2)] q by (auto simp: retarget_def)
qed

lemma GetCompact_bounded:
  assumes "wf_uint x" and "uval x \<le> L"
  shows "\<exists>c t. GetCompact x False = Some c \<and> SetCompact c = (t, False, False) \<and> uval t \<le> L"
  using compact_decode_encode [OF assms(1)] assms(2) by (meson order_trans)

declare dgw_loop.simps [simp del]

lemma dgw_average_wf:
  assumes "wf_uint avg" and "wf_uint t" and "1 \<le> n" and "n \<le> 24"
  shows "\<exists>q. dgw_average n avg t = Inr q \<and> wf_uint q"
proof (cases "n = 1")
  case False
  have "unat (of_nat n + 1 :: u32) = n + 1" using assms(4) by (simp add: unat_word_ariths unat_of_nat)
  then have "uval (base_uint_of_u64 (ucast (of_nat n + 1 :: u32))) \<noteq> 0" by simp
  then show ?thesis
    using div_Inr [of "base_uint_add (base_uint_mul32 avg (of_nat n)) t"
        "base_uint_of_u64 (ucast (of_nat n + 1 :: u32))"] assms(1,2) False
    by (auto simp: dgw_average_def)
qed (use assms in \<open>simp add: dgw_average_def\<close>)

lemma dgw_loop_total:
  assumes "wf_heights s"
  shows "1 \<le> n \<Longrightarrow> n \<le> 24 \<Longrightarrow> wf_uint avg \<Longrightarrow> int (24 - n) \<le> nHeight (s p) \<Longrightarrow>
    \<exists>q a. dgw_loop s n p avg = Some (q, a) \<and> wf_uint a \<and> nth_prev s (24 - n) p = Some q"
proof (induction "24 - n" arbitrary: n p avg)
  case 0
  then have n: "n = 24" by simp
  obtain q where q: "dgw_average 24 avg (fst (SetCompact (nBits (s p)))) = Inr q" "wf_uint q"
    using dgw_average_wf [of avg "fst (SetCompact (nBits (s p)))" 24] "0.prems" by auto
  then show ?case
    by (simp add: n dgw_loop.simps [of s 24] dgw_loop.simps [of s 25] nPastBlocks_def)
next
  case (Suc k)
  then have n: "n < 24" "24 - n = Suc (24 - Suc n)" by simp_all
  obtain a where a: "dgw_average n avg (fst (SetCompact (nBits (s p)))) = Inr a" "wf_uint a"
    using dgw_average_wf [of avg "fst (SetCompact (nBits (s p)))" n] Suc.prems by auto
  obtain q where q: "pprev (s p) = Some q"
    using wf_pprev_None [OF assms, of p] Suc.prems(4) n by (cases "pprev (s p)") auto
  have "int (24 - Suc n) \<le> nHeight (s q)" using wf_pprev [OF assms q] Suc.prems(4) n by simp
  then obtain r b where "dgw_loop s (Suc n) q a = Some (r, b)" "wf_uint b" "nth_prev s (24 - Suc n) q = Some r"
    using Suc.hyps(1) [of "Suc n" a q] Suc.hyps(2) n a by auto
  then show ?case using a q n by (simp add: dgw_loop.simps [of s n] nPastBlocks_def)
qed

lemma cdiv_pos: "0 \<le> a \<Longrightarrow> 0 < b \<Longrightarrow> cdiv a b = a div b"
  by (cases "a = 0") (simp_all add: cdiv_def)

text \<open>The clamped timespan of both rules stays within the two bounds.\<close>

lemma clamp_timespan:
  fixes t lo hi :: int
  assumes "lo \<le> hi"
  shows "(if hi < (if t < lo then lo else t) then hi else if t < lo then lo else t) = max lo (min t hi)"
  using assms by auto

lemma DarkGravityWave_form:
  assumes "wf_heights s" and "int nPastBlocks \<le> nHeight (s p)"
    and "0 < nPowTargetSpacing params" and "nPowTargetSpacing params < 2 ^ 25"
  defines "T \<equiv> 24 * nPowTargetSpacing params"
  shows "\<exists>q a x. dgw_loop s 1 p base_uint_zero = Some (q, a) \<and> wf_uint a \<and> nth_prev s 23 p = Some q \<and> wf_uint x
    \<and> uval x = min ((uval a * nat (max (T div 3) (min (GetBlockTime (s p) - GetBlockTime (s q)) (T * 3)))) mod 2 ^ 256 div nat T)
                   (uval (UintToArith256 (powLimit params)))
    \<and> DarkGravityWave s (Some p) params = GetCompact x False"
proof -
  obtain q a where qa: "dgw_loop s 1 p base_uint_zero = Some (q, a)" "wf_uint a" "nth_prev s 23 p = Some q"
    using dgw_loop_total [OF assms(1), of 1 base_uint_zero p] assms(2) by (auto simp: nPastBlocks_def)
  define t where "t = max (T div 3) (min (GetBlockTime (s p) - GetBlockTime (s q)) (T * 3))"
  have T: "0 < T" "T < 2 ^ 30" using assms(3,4) by (simp_all add: T_def)
  have t: "0 \<le> t" "t < 2 ^ 32" and T64: "T < 2 ^ 64" using T by (auto simp: t_def)
  from retarget_correct [OF qa(2) wf_UintToArith256 t T(1) T64, of "powLimit params"]
  obtain x where x: "wf_uint x \<and> uval x = min ((uval a * nat t) mod 2 ^ 256 div nat T) (uval (UintToArith256 (powLimit params)))
    \<and> retarget a t T (UintToArith256 (powLimit params)) = GetCompact x False" ..
  have "DarkGravityWave s (Some p) params = retarget a t T (UintToArith256 (powLimit params))"
    using assms(2,3) T qa(1)
    by (simp add: DarkGravityWave_def Let_def nPastBlocks_def cdiv_pos t_def T_def clamp_timespan del: if_split)
  then have "DarkGravityWave s (Some p) params = GetCompact x False" using x by simp
  then show ?thesis using qa x unfolding t_def by blast
qed

definition target_at :: "store \<Rightarrow> addr \<Rightarrow> nat" where
  "target_at s p = uval (fst (SetCompact (nBits (s p))))"

text \<open>The targets of a block and of up to \<open>n - 1\<close> blocks before it, newest first.\<close>

fun past_targets :: "store \<Rightarrow> nat \<Rightarrow> addr \<Rightarrow> nat list" where
  "past_targets s 0 p = []"
| "past_targets s (Suc n) p =
     target_at s p # (case pprev (s p) of None \<Rightarrow> [] | Some q \<Rightarrow> past_targets s n q)"

lemma length_past_targets:
  "wf_heights s \<Longrightarrow> int n \<le> nHeight (s p) + 1 \<Longrightarrow> length (past_targets s n p) = n"
proof (induction n arbitrary: p)
  case (Suc n)
  show ?case
  proof (cases "pprev (s p)")
    case None
    then have "nHeight (s p) = 0" using wf_pprev_None [OF Suc.prems(1)] by blast
    then show ?thesis using None Suc.prems(2) by simp
  next
    case (Some q)
    then have "nHeight (s q) = nHeight (s p) - 1" using wf_pprev [OF Suc.prems(1) Some] by simp
    then show ?thesis using Some Suc.IH [OF Suc.prems(1), of q] Suc.prems(2) by simp
  qed
qed simp

text \<open>
  One step of the running value: \<open>n + 1\<close> times the new value is \<open>n\<close> times the old one plus the target, less a
  remainder of at most \<open>n\<close>.
\<close>

lemma dgw_average_step:
  assumes "wf_uint avg" and "wf_uint t" and "2 \<le> n" and "n \<le> 24"
    and "uval avg \<le> hi" and "uval t \<le> hi" and "hi * 25 < 2 ^ 256" and "dgw_average n avg t = Inr q"
  shows "wf_uint q \<and> uval q \<le> hi \<and> (\<exists>r \<le> n. n * uval avg + uval t = (n + 1) * uval q + r)"
    and "lo \<le> uval avg \<Longrightarrow> lo \<le> uval t \<Longrightarrow> lo \<le> uval q"
proof -
  define k :: u32 where "k = of_nat n"
  have k: "unat k = n" using assms(4) by (simp add: k_def unat_of_nat)
  have "unat (k + 1) = n + 1" using k assms(4) by (simp add: unat_word_ariths)
  then have nz: "k + 1 \<noteq> 0" by (auto simp: unat_eq_0 [symmetric])
  have "uval avg * n + uval t \<le> hi * 24 + hi"
    using assms(4-6) by (intro add_mono mult_le_mono) auto
  then have "uval avg * unat k + uval t < 2 ^ 256" using assms(7) k by simp
  then obtain r where r: "base_uint_div (base_uint_add (base_uint_mul32 avg k) t) (base_uint_of_u64 (ucast (k + 1))) = Inr r"
    "wf_uint r" "uval r = (uval avg * unat k + uval t) div (unat k + 1)"
    using uint256.mean_val [OF assms(1,2) nz] by blast
  have q: "q = r" using assms(3,8) r(1) by (simp add: dgw_average_def k_def)
  let ?m = "n * uval avg + uval t"
  have uq: "uval q = ?m div (n + 1)" using r(3) k q by (simp add: mult.commute)
  have "?m = (n + 1) * uval q + ?m mod (n + 1)" unfolding uq by (simp only: mult_div_mod_eq)
  moreover have "?m mod (n + 1) \<le> n" using mod_less_divisor [of "n + 1" ?m] by simp
  ultimately have "\<exists>r \<le> n. ?m = (n + 1) * uval q + r" by blast
  then show "wf_uint q \<and> uval q \<le> hi \<and> (\<exists>r \<le> n. ?m = (n + 1) * uval q + r)"
    using r(2) q uq uint256.mean_between(2) [of 0 "uval avg" hi "uval t" n] assms(5,6) by (simp add: mult.commute)
  show "lo \<le> uval q" if "lo \<le> uval avg" "lo \<le> uval t"
    using uq uint256.mean_between(1) [of lo "uval avg" hi "uval t" n] assms(5,6) that by (simp add: mult.commute)
qed

text \<open>The whole loop from its second round on: the remainders add up.\<close>

lemma dgw_loop_weighted:
  assumes "wf_heights s" and "hi * 25 < 2 ^ 256"
  shows "2 \<le> n \<Longrightarrow> n \<le> 24 \<Longrightarrow> wf_uint avg \<Longrightarrow> int (24 - n) \<le> nHeight (s p) \<Longrightarrow> lo \<le> uval avg \<Longrightarrow> uval avg \<le> hi \<Longrightarrow>
    \<forall>t \<in> set (past_targets s (25 - n) p). lo \<le> t \<and> t \<le> hi \<Longrightarrow> dgw_loop s n p avg = Some (b, a) \<Longrightarrow>
    lo \<le> uval a \<and> uval a \<le> hi \<and>
    (\<exists>r \<le> \<Sum>{n..24}. n * uval avg + sum_list (past_targets s (25 - n) p) = 25 * uval a + r)"
proof (induction "24 - n" arbitrary: n p avg)
  case 0
  then have n: "n = 24" by simp
  let ?t = "fst (SetCompact (nBits (s p)))"
  obtain q where q: "dgw_average 24 avg ?t = Inr q" "wf_uint q"
    using dgw_average_wf [of avg ?t 24] "0.prems" by auto
  then have a: "a = q"
    using "0.prems"(8) by (simp add: n dgw_loop.simps [of s 24] dgw_loop.simps [of s 25] nPastBlocks_def)
  have one: "25 - n = Suc 0" using n by simp
  have t: "lo \<le> uval ?t" "uval ?t \<le> hi" "sum_list (past_targets s (25 - n) p) = uval ?t"
    using "0.prems"(7) unfolding one by (auto simp: target_at_def split: option.splits)
  then show ?case
    using dgw_average_step [OF "0.prems"(3) wf_SetCompact _ _ "0.prems"(6) t(2) assms(2) q(1)] "0.prems"(5) n a by auto
next
  case (Suc k)
  let ?t = "fst (SetCompact (nBits (s p)))"
  have n: "n < 24" "25 - n = Suc (25 - Suc n)" "24 - n = Suc (24 - Suc n)" using Suc by simp_all
  obtain c where c: "dgw_average n avg ?t = Inr c" "wf_uint c"
    using dgw_average_wf [of avg ?t n] Suc.prems by auto
  obtain q where q: "pprev (s p) = Some q"
    using wf_pprev_None [OF assms(1), of p] Suc.prems(4) n by (cases "pprev (s p)") auto
  have h: "int (24 - Suc n) \<le> nHeight (s q)" using wf_pprev [OF assms(1) q] Suc.prems(4) n by simp
  have pt: "past_targets s (25 - n) p = uval ?t # past_targets s (25 - Suc n) q"
    unfolding n(2) using q by (simp add: target_at_def)
  then have t: "lo \<le> uval ?t" "uval ?t \<le> hi" using Suc.prems(7) by auto
  note st = dgw_average_step [OF Suc.prems(3) wf_SetCompact Suc.prems(1,2,6) t(2) assms(2) c(1)]
  obtain r1 where r1: "r1 \<le> n" "n * uval avg + uval ?t = (n + 1) * uval c + r1" using st(1) by blast
  have "dgw_loop s (Suc n) q c = Some (b, a)"
    using Suc.prems(8) c q n by (simp add: dgw_loop.simps [of s n] nPastBlocks_def)
  then have IH: "lo \<le> uval a \<and> uval a \<le> hi \<and>
      (\<exists>r \<le> \<Sum>{Suc n..24}. Suc n * uval c + sum_list (past_targets s (25 - Suc n) q) = 25 * uval a + r)"
  proof (intro Suc.hyps(1))
    show "\<forall>t \<in> set (past_targets s (25 - Suc n) q). lo \<le> t \<and> t \<le> hi" using Suc.prems(7) unfolding pt by simp
    show "lo \<le> uval c" by (rule st(2) [OF Suc.prems(5) t(1)])
  qed (use Suc.hyps(2) Suc.prems(1) n(1) c(2) h st(1) in auto)
  obtain r2 where r2: "lo \<le> uval a" "uval a \<le> hi" "r2 \<le> \<Sum>{Suc n..24}"
    "Suc n * uval c + sum_list (past_targets s (25 - Suc n) q) = 25 * uval a + r2" using IH by blast
  have "\<Sum>{n..24} = n + \<Sum>{Suc n..24}" using n(1) by (simp add: sum.atLeast_Suc_atMost)
  then have "r1 + r2 \<le> \<Sum>{n..24}" using r1(1) r2(3) by simp
  moreover have "n * uval avg + sum_list (past_targets s (25 - n) p) = 25 * uval a + (r1 + r2)"
    using r1(2) r2(4) unfolding pt by simp
  ultimately show ?case using r2(1,2) by blast
qed

lemma sum_from_2_to_24: "\<Sum>{2..24::nat} = 299"
  by (simp add: sum.atLeast_Suc_atMost numeral_eq_Suc)

lemma dgw_loop_mean:
  assumes "wf_heights s" and "hi * 25 < 2 ^ 256" and "23 \<le> nHeight (s p)"
    and "\<forall>t \<in> set (past_targets s 24 p). lo \<le> t \<and> t \<le> hi" and "dgw_loop s 1 p base_uint_zero = Some (b, a)"
  shows "lo \<le> uval a \<and> uval a \<le> hi \<and>
    (\<exists>r \<le> 299. target_at s p + sum_list (past_targets s 24 p) = 25 * uval a + r)"
proof -
  let ?t = "fst (SetCompact (nBits (s p)))"
  obtain q where q: "pprev (s p) = Some q"
    using wf_pprev_None [OF assms(1), of p] assms(3) by (cases "pprev (s p)") auto
  have h: "22 \<le> nHeight (s q)" using wf_pprev [OF assms(1) q] assms(3) by simp
  have "24 = Suc 23" by simp
  then have pt: "past_targets s 24 p = uval ?t # past_targets s 23 q"
    using q by (simp only: past_targets.simps option.case target_at_def)
  have "dgw_loop s 2 q ?t = Some (b, a)"
    using assms(5) q by (subst (asm) dgw_loop.simps) (simp add: dgw_average_def nPastBlocks_def numeral_2_eq_2)
  then show ?thesis
    using dgw_loop_weighted [OF assms(1,2), of 2 ?t q lo b a] h assms(4) pt
    by (simp add: target_at_def sum_from_2_to_24 mult_2 add.assoc)
qed

section \<open>What a compact target means\<close>

text \<open>The number a compact word denotes, before it is cut to 256 bits.\<close>

definition compact_number :: "u32 \<Rightarrow> nat" where
  "compact_number c = (let n = unat (drop_bit 24 c); m = unat (c AND 0x007fffff)
                       in if n \<le> 3 then m div 256 ^ (3 - n) else m * 256 ^ (n - 3))"

lemma compact_overflow_iff:
  fixes w :: u32
  assumes "unat w < 2 ^ 23"
  shows "(w \<noteq> 0 \<and> (n > 34 \<or> (w > 0xff \<and> n > 33) \<or> (w > 0xffff \<and> n > 32)))
         \<longleftrightarrow> 2 ^ 256 \<le> unat w * 256 ^ (n - 3)"
proof -
  consider "n \<le> 32" | "n = 33" | "n = 34" | "35 \<le> n" by linarith
  then show ?thesis
  proof cases
    case 1
    then have "(256::nat) ^ (n - 3) \<le> 256 ^ 29" by (intro power_increasing) auto
    then have "unat w * 256 ^ (n - 3) \<le> 2 ^ 23 * 256 ^ 29" using assms by (intro mult_le_mono) auto
    then show ?thesis using 1 by simp
  next
    case 2
    then show ?thesis by (auto simp: word_less_nat_alt unat_eq_0 [symmetric])
  next
    case 3
    then show ?thesis by (auto simp: word_less_nat_alt unat_eq_0 [symmetric])
  next
    case 4
    then have p: "(256::nat) ^ 32 \<le> 256 ^ (n - 3)" by (intro power_increasing) auto
    show ?thesis
    proof (cases "w = 0")
      case False
      then have "1 \<le> unat w" by (simp add: Suc_le_eq unat_gt_0)
      then have "1 * 256 ^ 32 \<le> unat w * 256 ^ (n - 3)" using p by (intro mult_le_mono) auto
      then show ?thesis using False 4 by simp
    qed simp
  qed
qed

lemma SetCompact_meaning:
  obtains t where "SetCompact c = (t, compact_number c \<noteq> 0 \<and> c AND 0x00800000 \<noteq> 0, 2 ^ 256 \<le> compact_number c)"
    and "wf_uint t" and "uval t = compact_number c mod 2 ^ 256"
proof -
  define n w where "n = unat (drop_bit 24 c)" and "w = c AND 0x007fffff"
  have pow: "(2::nat) ^ (8 * k) = 256 ^ k" for k by (simp add: power_mult)
  have "unat w \<le> unat (0x007fffff :: u32)"
    unfolding w_def by (rule word_le_nat_alt [THEN iffD1]) (rule word_and_le1)
  then have w: "unat w < 2 ^ 23" by simp
  show ?thesis
  proof (cases "n \<le> 3")
    case True
    define x where "x = drop_bit (8 * (3 - n)) w"
    have x: "unat x = compact_number c"
      using True unat_drop_bit_div [of "8 * (3 - n)" w] by (simp add: compact_number_def n_def w_def x_def pow)
    have lt: "compact_number c < 2 ^ 256" using x unat_lt32 [of x] by (simp del: unat_lt32)
    have "SetCompact c = (base_uint_of_u64 (ucast x), x \<noteq> 0 \<and> c AND 0x00800000 \<noteq> 0, False)"
      using True by (simp add: SetCompact_def Let_def n_def w_def x_def)
    then show ?thesis
      using that [of "base_uint_of_u64 (ucast x)"] x lt by (simp add: unat_eq_0 [symmetric])
  next
    case False
    define t where "t = base_uint_shl (base_uint_of_u64 (ucast w)) (8 * (n - 3))"
    have v: "compact_number c = unat w * 256 ^ (n - 3)" using False by (simp add: compact_number_def n_def w_def)
    have ut: "uval t = compact_number c mod 2 ^ 256"
      unfolding t_def uval_shl [OF wf_of_u64] by (simp only: take_bit_eq_mod push_bit_eq_mult pow v uval_of_u64 unat_ucast_32_64)
    have nz: "w \<noteq> 0 \<longleftrightarrow> compact_number c \<noteq> 0" by (simp add: v unat_eq_0)
    have ov: "(w \<noteq> 0 \<and> (n > 34 \<or> (w > 0xff \<and> n > 33) \<or> (w > 0xffff \<and> n > 32))) \<longleftrightarrow> 2 ^ 256 \<le> compact_number c"
      unfolding v by (rule compact_overflow_iff [OF w])
    have "SetCompact c = (t, w \<noteq> 0 \<and> c AND 0x00800000 \<noteq> 0,
        w \<noteq> 0 \<and> (n > 34 \<or> (w > 0xff \<and> n > 33) \<or> (w > 0xffff \<and> n > 32)))"
      using False by (simp add: SetCompact_def Let_def n_def w_def t_def)
    then show ?thesis using that [of t] ut nz ov by (simp add: t_def)
  qed
qed

lemma compact_number_Suc_lt: "compact_number c < 2 ^ 256 \<Longrightarrow> compact_number c + 1 < 2 ^ 256"
proof (cases "unat (drop_bit 24 c) \<le> 3")
  case True
  have "unat (c AND 0x007fffff) div k \<le> unat (c AND 0x007fffff)" for k by simp
  moreover have "unat (c AND 0x007fffff) < 2 ^ 32" using unat_lt32 [of "c AND 0x007fffff"] by (simp del: unat_lt32)
  ultimately have "compact_number c < 2 ^ 32"
    using True by (simp add: compact_number_def Let_def le_less_trans [OF div_le_dividend])
  then show ?thesis by simp
next
  case False
  assume lt: "compact_number c < 2 ^ 256"
  have "even (compact_number c)" using False by (simp add: compact_number_def Let_def)
  moreover have "even ((2::nat) ^ 256)" by simp
  ultimately have "compact_number c + 1 \<noteq> 2 ^ 256" by (metis even_plus_one_iff)
  then show ?thesis using lt by linarith
qed

lemma complement_div:
  fixes M v :: nat
  assumes "v + 1 \<le> M"
  shows "M div (v + 1) = (M - 1 - v) div (v + 1) + 1"
proof -
  have "M = (M - 1 - v) + (v + 1)" using assms by simp
  then have "M div (v + 1) = ((M - 1 - v) + (v + 1)) div (v + 1)" by (rule arg_cong)
  also have "\<dots> = (M - 1 - v) div (v + 1) + 1" by (rule div_add_self2) simp
  finally show ?thesis .
qed

lemma GetBlockProof_value:
  "\<exists>w. GetBlockProof b = Inr w \<and> wf_uint w
     \<and> uval w = (if nBits b AND 0x00800000 = 0 \<and> 0 < compact_number (nBits b) \<and> compact_number (nBits b) < 2 ^ 256
                 then 2 ^ 256 div (compact_number (nBits b) + 1) else 0)"
proof -
  define v where "v = compact_number (nBits b)"
  obtain t where t: "SetCompact (nBits b) = (t, v \<noteq> 0 \<and> nBits b AND 0x00800000 \<noteq> 0, 2 ^ 256 \<le> v)"
    "wf_uint t" "uval t = v mod 2 ^ 256" using SetCompact_meaning [of "nBits b"] unfolding v_def .
  show ?thesis
  proof (cases "nBits b AND 0x00800000 = 0 \<and> 0 < v \<and> v < 2 ^ 256")
    case True
    then have ut: "uval t = v" using t(3) by (simp only: mod_less)
    have v1: "v + 1 < 2 ^ 256" using compact_number_Suc_lt [of "nBits b"] True by (simp only: v_def)
    define d where "d = base_uint_add t (base_uint_of_u64 1)"
    have d: "wf_uint d" "uval d = v + 1" using v1 t(2) by (simp_all add: d_def uval_add ut)
    have dn: "uval d \<noteq> 0" using d(2) by simp
    from div_Inr [OF wf_not [OF t(2)] d(1) dn] obtain q
      where q: "base_uint_div (base_uint_not t) d = Inr q \<and> wf_uint q \<and> uval q = uval (base_uint_not t) div uval d" ..
    have uq: "uval q = (2 ^ 256 - 1 - v) div (v + 1)" using q by (simp only: uval_not_256 [OF t(2)] ut d(2))
    have "2 ^ 256 div (v + 1) < (2::nat) ^ 256" using True by (intro div_less_dividend) simp_all
    then have "uval (base_uint_add q (base_uint_of_u64 1)) = 2 ^ 256 div (v + 1)"
      unfolding uval_add [OF conjunct1 [OF conjunct2 [OF q]] wf_of_u64] uq uval_of_u64 unat_1
        complement_div [OF less_imp_le [OF v1], symmetric] by (rule mod_less)
    moreover have "GetBlockProof b = Inr (base_uint_add q (base_uint_of_u64 1))"
      using True t q ut by (simp add: GetBlockProof_def EqualTo_uval d_def)
    ultimately show ?thesis using True q unfolding v_def by (metis wf_add wf_of_u64)
  next
    case False
    have "EqualTo t 0 \<longleftrightarrow> uval t = 0" using EqualTo_uval [OF t(2)] by simp
    then have "GetBlockProof b = Inr (base_uint_of_u64 0)"
      using False t by (auto simp: GetBlockProof_def)
    moreover have "uval (base_uint_of_u64 0) = 0" by simp
    ultimately show ?thesis using False unfolding v_def by (metis wf_of_u64)
  qed
qed


section \<open>Properties\<close>

lemma CheckProofOfWork_char:
  "CheckProofOfWork hash bits params \<longleftrightarrow>
     bits AND 0x00800000 = 0 \<and> 0 < compact_number bits
     \<and> compact_number bits \<le> uval (UintToArith256 (powLimit params))
     \<and> uval (UintToArith256 hash) \<le> compact_number bits"
proof -
  obtain t where t: "SetCompact bits = (t, compact_number bits \<noteq> 0 \<and> bits AND 0x00800000 \<noteq> 0, 2 ^ 256 \<le> compact_number bits)"
    "wf_uint t" "uval t = compact_number bits mod 2 ^ 256" by (rule SetCompact_meaning)
  have lim: "uval (UintToArith256 (powLimit params)) < 2 ^ 256" using uval_lt [OF wf_UintToArith256] .
  show ?thesis
  proof (cases "compact_number bits < 2 ^ 256")
    case True
    then have ut: "uval t = compact_number bits" using t(3) by simp
    have "EqualTo t 0 \<longleftrightarrow> compact_number bits = 0" using EqualTo_uval [OF t(2), of 0] ut by simp
    then show ?thesis
      using t(1,2) True ut by (auto simp: CheckProofOfWork_def CompareTo_uval)
  next
    case False
    then show ?thesis using t(1) lim by (auto simp: CheckProofOfWork_def)
  qed
qed


lemma last_non_special_total:
  assumes "wf_heights s"
  shows "\<exists>q. last_non_special s interval lim p = Some q"
proof (induction "nat (nHeight (s p))" arbitrary: p rule: less_induct)
  case less
  show ?case
  proof (cases "pprev (s p)")
    case None
    then show ?thesis by (simp add: last_non_special.simps)
  next
    case (Some q)
    then have "nat (nHeight (s q)) < nat (nHeight (s p))" using wf_pprev [OF assms Some] wf_height_nonneg [OF assms, of q] by simp
    then show ?thesis using less Some by (subst last_non_special.simps) auto
  qed
qed

lemma CalculateNextWorkRequired_total:
  assumes "0 < nPowTargetTimespan params" and "nPowTargetTimespan params < 2 ^ 30"
  shows "\<exists>c. CalculateNextWorkRequired s p t0 params = Some c
    \<and> (\<not> fPowNoRetargeting params \<longrightarrow>
         (\<exists>t. SetCompact c = (t, False, False) \<and> uval t \<le> uval (UintToArith256 (powLimit params))))"
proof (cases "fPowNoRetargeting params")
  case False
  define T where "T = nPowTargetTimespan params"
  define t where "t = max (T div 4) (min (GetBlockTime (s p) - t0) (T * 4))"
  have T: "0 < T" "T < 2 ^ 30" using assms by (simp_all add: T_def)
  have t: "0 \<le> t" "t < 2 ^ 32" and T64: "T < 2 ^ 64" using T by (auto simp: t_def)
  from retarget_correct [OF wf_SetCompact wf_UintToArith256 t T(1) T64, of "nBits (s p)" "powLimit params"]
  obtain x where x: "wf_uint x" "uval x \<le> uval (UintToArith256 (powLimit params))"
    "retarget (fst (SetCompact (nBits (s p)))) t T (UintToArith256 (powLimit params)) = GetCompact x False" by auto
  have le: "T div 4 \<le> T * 4" using T by linarith
  have "CalculateNextWorkRequired s p t0 params
        = retarget (fst (SetCompact (nBits (s p)))) t T (UintToArith256 (powLimit params))"
    unfolding CalculateNextWorkRequired_def Let_def T_def [symmetric] cdiv_pos [OF less_imp_le [OF T(1)], of 4, simplified]
      clamp_timespan [OF le] t_def using False by (simp only: if_False)
  then show ?thesis using GetCompact_bounded [OF x(1,2)] x(3) by auto
qed (simp add: CalculateNextWorkRequired_def)

lemma cmod_pos: "0 \<le> a \<Longrightarrow> 0 < b \<Longrightarrow> cmod a b = a mod b"
  by (simp add: cmod_def cdiv_pos minus_mult_div_eq_mod)

lemma first_height_nonneg:
  fixes h d :: int
  assumes "0 \<le> h" and "0 < d" and "(h + 1) mod d = 0"
  shows "0 \<le> h - (d - 1)"
proof -
  have "d dvd h + 1" using assms(3) by (simp add: mod_eq_0_iff_dvd)
  then have "d \<le> h + 1" using assms(1) by (intro zdvd_imp_le) auto
  then show ?thesis by simp
qed

lemma GetNextWorkRequiredBTC_defined:
  assumes "wf_index s" and "0 < nPowTargetSpacing params"
    and "nPowTargetSpacing params \<le> nPowTargetTimespan params" and "nPowTargetTimespan params < 2 ^ 30"
  shows "\<exists>c. GetNextWorkRequiredBTC s pindexLast blockTime params = Some c"
proof -
  define d where "d = DifficultyAdjustmentInterval params"
  have d: "0 < d"
    using assms(2,3) by (simp add: d_def DifficultyAdjustmentInterval_def cdiv_pos pos_imp_zdiv_pos_iff)
  obtain L where L: "GetCompact (UintToArith256 (powLimit params)) False = Some L"
    using GetCompact_bounded [OF wf_UintToArith256 order_refl] by blast
  have wfh: "wf_heights s" using assms(1) by (simp add: wf_index_def)
  show ?thesis
  proof (cases pindexLast)
    case (Some p)
    have h: "0 \<le> nHeight (s p)" using wfh by (rule wf_height_nonneg)
    have cm: "cmod (nHeight (s p) + 1) d = (nHeight (s p) + 1) mod d" using h d by (simp add: cmod_pos)
    show ?thesis
    proof (cases "(nHeight (s p) + 1) mod d = 0")
      case True
      then have f: "0 \<le> nHeight (s p) - (d - 1)" using first_height_nonneg [OF h d] by simp
      then obtain q where "GetAncestor s p (nHeight (s p) - (d - 1)) = Some (Some q)"
        using GetAncestor_Some [OF assms(1) f, of p] d by auto
      moreover obtain c where "CalculateNextWorkRequired s p (GetBlockTime (s q)) params = Some c"
        using CalculateNextWorkRequired_total [of params s p] assms(2,3,4) by fastforce
      ultimately show ?thesis
        using Some L True f cm by (simp add: GetNextWorkRequiredBTC_def d_def [symmetric] Let_def)
    next
      case False
      then show ?thesis
        using Some L cm last_non_special_total [OF wfh, of d L p]
        by (auto simp: GetNextWorkRequiredBTC_def d_def [symmetric])
    qed
  qed (simp add: GetNextWorkRequiredBTC_def L)
qed


text \<open>A 256-bit value read as a signed 64-bit number, saturated at the largest one.\<close>

lemma saturated_low64:
  assumes "wf_uint q" and "sign = 1 \<or> sign = - 1"
  shows "(if base_uint_bits q > 63 then Inr (sign * (2 ^ 63 - 1)) else Inr (sint (word_of_int sign * GetLow64 q :: u64)))
         = (Inr (sign * min (int (uval q)) (2 ^ 63 - 1)) :: uint_error + int)"
proof (cases "base_uint_bits q > 63")
  case True
  then have "uval q \<noteq> 0" using bits_zero_iff [OF assms(1)] by auto
  then have "2 ^ (base_uint_bits q - 1) \<le> uval q" by (rule bits_bounds(1) [OF assms(1)])
  moreover have "(2::nat) ^ 63 \<le> 2 ^ (base_uint_bits q - 1)" using True by (intro power_increasing) auto
  ultimately have "(2::nat) ^ 63 \<le> uval q" by linarith
  then have "int (2 ^ 63) \<le> int (uval q)" by (rule of_nat_mono)
  then have "2 ^ 63 \<le> int (uval q)" by (simp only: of_nat_power of_nat_numeral)
  then show ?thesis using True by simp
next
  case False
  have lt: "uval q < 2 ^ 63"
  proof (cases "uval q = 0")
    case False
    then have "uval q < 2 ^ base_uint_bits q" by (rule bits_bounds(2) [OF assms(1)])
    also have "(2::nat) ^ base_uint_bits q \<le> 2 ^ 63" using \<open>\<not> 63 < base_uint_bits q\<close> by (intro power_increasing) auto
    finally show ?thesis .
  qed simp
  then have low: "unat (GetLow64 q) = uval q" using GetLow64_uval [OF assms(1)] by (simp add: take_bit_nat_eq_self)
  have "GetLow64 q = of_nat (unat (GetLow64 q))" by simp
  then have g: "GetLow64 q = of_nat (uval q)" by (simp only: low)
  define z where "z = sign * int (uval q)"
  have "word_of_int sign * GetLow64 q = (word_of_int z :: u64)" by (simp add: g z_def)
  moreover have "- (2 ^ 63) \<le> z" "z < 2 ^ 63" using lt assms(2) by (auto simp: z_def)
  ultimately have "sint (word_of_int sign * GetLow64 q :: u64) = z"
    by (simp add: sint_sbintrunc' signed_take_bit_int_eq_self)
  then show ?thesis using False lt by (simp add: z_def)
qed

lemma EquivalentTime_value:
  assumes "wf_uint (nChainWork to)" and "wf_uint (nChainWork from)"
    and "0 \<le> nPowTargetSpacing params" and "nPowTargetSpacing params < 2 ^ 63"
    and "GetBlockProof tip = Inr w" and "wf_uint w" and "uval w \<noteq> 0"
    and "\<bar>int (uval (nChainWork to)) - int (uval (nChainWork from))\<bar> * nPowTargetSpacing params < 2 ^ 256"
  shows "GetBlockProofEquivalentTime to from tip params =
    Inr (sgn (int (uval (nChainWork to)) - int (uval (nChainWork from)))
         * min (\<bar>int (uval (nChainWork to)) - int (uval (nChainWork from))\<bar> * nPowTargetSpacing params div int (uval w))
               (2 ^ 63 - 1))"
proof -
  define A B sp where "A = uval (nChainWork to)" and "B = uval (nChainWork from)" and "sp = nat (nPowTargetSpacing params)"
  have sp: "nPowTargetSpacing params = int sp" using assms(3) by (simp add: sp_def)
  have u: "uval (base_uint_of_u64 (word_of_int (nPowTargetSpacing params))) = sp"
    using assms(4) by (simp add: sp unat_of_nat)
  define r sign where "r = (if B < A then base_uint_sub (nChainWork to) (nChainWork from) else base_uint_sub (nChainWork from) (nChainWork to))"
    and "sign = (if B < A then 1 else - 1 :: int)"
  have r: "wf_uint r" "uval r = nat \<bar>int A - int B\<bar>"
    using assms(1,2) by (auto simp: r_def A_def B_def uval_sub_le nat_diff_distrib)
  have "uval r * sp < 2 ^ 256"
  proof -
    have "int (uval r * sp) < 2 ^ 256" using assms(8) by (simp add: r(2) sp A_def B_def)
    then show ?thesis by (simp del: of_nat_mult)
  qed
  then have m: "wf_uint (base_uint_mul r (base_uint_of_u64 (word_of_int (nPowTargetSpacing params))))"
    "uval (base_uint_mul r (base_uint_of_u64 (word_of_int (nPowTargetSpacing params)))) = uval r * sp"
    using r(1) by (simp_all only: wf_mul wf_of_u64 uval_mul u mod_less)
  obtain q where q: "base_uint_div (base_uint_mul r (base_uint_of_u64 (word_of_int (nPowTargetSpacing params)))) w = Inr q"
    "wf_uint q" "uval q = uval r * sp div uval w"
    using div_Inr [OF m(1) assms(6,7)] m(2) by auto
  have "GetBlockProofEquivalentTime to from tip params =
      (if base_uint_bits q > 63 then Inr (sign * (2 ^ 63 - 1)) else Inr (sint (word_of_int sign * GetLow64 q :: u64)))"
    using assms(1,2,5) q(1) by (cases "B < A")
      (simp_all add: GetBlockProofEquivalentTime_def CompareTo_uval A_def [symmetric] B_def [symmetric] r_def sign_def)
  also have "\<dots> = Inr (sign * min (int (uval q)) (2 ^ 63 - 1))"
    using saturated_low64 [OF q(2)] by (simp add: sign_def)
  finally show ?thesis
    using q(3) r(2) unfolding A_def [symmetric] B_def [symmetric] sp
    by (auto simp: sign_def sgn_if zdiv_int)
qed


text \<open>
  C28. Dark Gravity Wave always returns a target: on every tree with consistent heights it
  reaches the blocks it needs, never divides by zero, and the compact word it returns
  decodes without sign or overflow to a target that is not easier than the limit.
\<close>

theorem DarkGravityWave_bounded:
  assumes "wf_heights s" and "0 < nPowTargetSpacing params" and "nPowTargetSpacing params < 2 ^ 25"
  shows "\<exists>c t. DarkGravityWave s pindexLast params = Some c \<and> SetCompact c = (t, False, False)
               \<and> uval t \<le> uval (UintToArith256 (powLimit params))"
proof (cases "\<exists>p. pindexLast = Some p \<and> int nPastBlocks \<le> nHeight (s p)")
  case True
  then obtain p where p: "pindexLast = Some p" "int nPastBlocks \<le> nHeight (s p)" by blast
  from DarkGravityWave_form [OF assms(1) p(2) assms(2,3)] obtain x m where
    x: "wf_uint x" "uval x = min m (uval (UintToArith256 (powLimit params)))"
    "DarkGravityWave s (Some p) params = GetCompact x False" by blast
  have "uval x \<le> uval (UintToArith256 (powLimit params))" unfolding x(2) by (rule min.cobounded2)
  then show ?thesis using GetCompact_bounded [OF x(1)] p(1) x(3) by simp
next
  case False
  then have "DarkGravityWave s pindexLast params = GetCompact (UintToArith256 (powLimit params)) False"
    by (cases pindexLast) (auto simp: DarkGravityWave_def Let_def)
  then show ?thesis using GetCompact_bounded [OF wf_UintToArith256 order_refl] by simp
qed

text \<open>
  C29. Dark Gravity Wave does not quite average: writing \<open>S\<close> for the sum of the last 24 targets plus
  once more the newest, its running value ends within the accumulated rounding of \<open>S / 25\<close>, that is at
  \<open>a\<close> with \<open>25 a \<le> S \<le> 25 a + 299\<close>, and between the smallest and the largest of the targets. The
  target returned is the compact form of \<open>a\<close> times the time those blocks took, clamped to a third and three
  times the planned time, over the planned time, cut at the limit; no intermediate product
  leaves 256 bits as long as the largest target times three planned timespans does not.
\<close>

theorem DarkGravityWave_average:
  assumes "wf_heights s" and "24 \<le> nHeight (s p)"
    and "0 < nPowTargetSpacing params" and "nPowTargetSpacing params < 2 ^ 25"
    and "\<forall>t \<in> set (past_targets s 24 p). lo \<le> t \<and> t \<le> hi"
    and "hi * nat (72 * nPowTargetSpacing params) < 2 ^ 256"
  defines "T \<equiv> 24 * nPowTargetSpacing params" and "S \<equiv> target_at s p + sum_list (past_targets s 24 p)"
  shows "length (past_targets s 24 p) = 24 \<and>
    (\<exists>q a x. nth_prev s 23 p = Some q \<and> 25 * a \<le> S \<and> S \<le> 25 * a + 299 \<and> lo \<le> a \<and> a \<le> hi \<and> wf_uint x
    \<and> uval x = min (a * nat (max (T div 3) (min (GetBlockTime (s p) - GetBlockTime (s q)) (T * 3))) div nat T)
                   (uval (UintToArith256 (powLimit params)))
    \<and> DarkGravityWave s (Some p) params = GetCompact x False)"
proof -
  have h: "int nPastBlocks \<le> nHeight (s p)" using assms(2) by (simp add: nPastBlocks_def)
  from DarkGravityWave_form [OF assms(1) h assms(3,4)] obtain q a x where
    d: "dgw_loop s 1 p base_uint_zero = Some (q, a)" "nth_prev s 23 p = Some q" "wf_uint x"
    "uval x = min ((uval a * nat (max (T div 3) (min (GetBlockTime (s p) - GetBlockTime (s q)) (T * 3)))) mod 2 ^ 256 div nat T)
                   (uval (UintToArith256 (powLimit params)))"
    "DarkGravityWave s (Some p) params = GetCompact x False" unfolding T_def by blast
  have "hi * 25 \<le> hi * nat (72 * nPowTargetSpacing params)" using assms(3) by (intro mult_le_mono) auto
  then have hi: "hi * 25 < 2 ^ 256" using assms(6) by linarith
  obtain r where ab: "lo \<le> uval a" "uval a \<le> hi" "r \<le> 299" "S = 25 * uval a + r"
    using dgw_loop_mean [OF assms(1) hi _ assms(5) d(1)] assms(2) unfolding S_def by auto
  have "uval a * nat (max (T div 3) (min (GetBlockTime (s p) - GetBlockTime (s q)) (T * 3)))
        \<le> hi * nat (72 * nPowTargetSpacing params)"
    using ab assms(3) by (intro mult_le_mono) (auto simp: T_def)
  then have "uval a * nat (max (T div 3) (min (GetBlockTime (s p) - GetBlockTime (s q)) (T * 3))) < 2 ^ 256"
    using assms(6) by linarith
  then have "uval x = min (uval a * nat (max (T div 3) (min (GetBlockTime (s p) - GetBlockTime (s q)) (T * 3))) div nat T)
      (uval (UintToArith256 (powLimit params)))" using d(4) by (simp only: mod_less)
  moreover have "25 * uval a \<le> S" "S \<le> 25 * uval a + 299" using ab(3,4) by simp_all
  moreover have "length (past_targets s 24 p) = 24" using length_past_targets [OF assms(1), of 24 p] assms(2) by simp
  ultimately show ?thesis using d(2,3,5) ab(1,2) by blast
qed

text \<open>
  The Bitcoin rule always returns a target: on a well-formed tree and with a spacing
  that does not exceed the timespan, neither assertion of the code can fail and no loop runs
  forever.
\<close>

theorem GetNextWorkRequiredBTC_total:
  assumes "wf_index s" and "0 < nPowTargetSpacing params"
    and "nPowTargetSpacing params \<le> nPowTargetTimespan params" and "nPowTargetTimespan params < 2 ^ 30"
  shows "\<exists>c. GetNextWorkRequiredBTC s pindexLast blockTime params = Some c"
  using assms by (rule GetNextWorkRequiredBTC_defined)

text \<open>
  The proof of work check accepts a hash exactly when the compact target is positive,
  carries no sign, does not exceed the limit and is not below the hash; a target of more
  than 256 bits is refused because it exceeds every limit.
\<close>

theorem CheckProofOfWork_iff:
  "CheckProofOfWork hash bits params \<longleftrightarrow>
     bits AND 0x00800000 = 0 \<and> 0 < compact_number bits
     \<and> compact_number bits \<le> uval (UintToArith256 (powLimit params))
     \<and> uval (UintToArith256 hash) \<le> compact_number bits"
  by (rule CheckProofOfWork_char)

text \<open>
  The work of a block is \<open>2^256 div (target + 1)\<close>, although the code cannot represent
  \<open>2^256\<close> and computes it as \<^verbatim>\<open>~target / (target + 1) + 1\<close>; a target that is zero, signed or
  too large counts as no work, and the division never throws.
\<close>

theorem GetBlockProof_correct:
  "\<exists>w. GetBlockProof b = Inr w \<and> wf_uint w
     \<and> uval w = (if nBits b AND 0x00800000 = 0 \<and> 0 < compact_number (nBits b) \<and> compact_number (nBits b) < 2 ^ 256
                 then 2 ^ 256 div (compact_number (nBits b) + 1) else 0)"
  by (rule GetBlockProof_value)

text \<open>
  The time equivalent to the work between two blocks is the difference of their chain
  work at the rate of the tip, rounded towards zero, with its sign, and saturated at the
  largest signed 64-bit number.
\<close>

theorem GetBlockProofEquivalentTime_correct:
  assumes "wf_uint (nChainWork to)" and "wf_uint (nChainWork from)"
    and "0 \<le> nPowTargetSpacing params" and "nPowTargetSpacing params < 2 ^ 63"
    and "GetBlockProof tip = Inr w" and "uval w \<noteq> 0"
    and "\<bar>int (uval (nChainWork to)) - int (uval (nChainWork from))\<bar> * nPowTargetSpacing params < 2 ^ 256"
  shows "GetBlockProofEquivalentTime to from tip params =
    Inr (sgn (int (uval (nChainWork to)) - int (uval (nChainWork from)))
         * min (\<bar>int (uval (nChainWork to)) - int (uval (nChainWork from))\<bar> * nPowTargetSpacing params div int (uval w))
               (2 ^ 63 - 1))"
  using EquivalentTime_value [OF assms(1-5) _ assms(6,7)] GetBlockProof_value [of tip] assms(5) by force

section \<open>Witnesses\<close>

definition mainParams :: ConsensusParams where
  "mainParams = \<lparr>powLimit = replicate 29 0xff @ [0, 0, 0], fPowAllowMinDifficultyBlocks = False,
     fPowNoRetargeting = False, nPowTargetSpacing = 150, nPowTargetTimespan = 86400,
     nPowKGWHeight = 15200, nPowDGWHeight = 1000\<rparr>"

theorem DarkGravityWave_bounded_witness:
  "wf_heights line_store \<and> (\<exists>c t. DarkGravityWave line_store (Some 30) mainParams = Some c \<and> SetCompact c = (t, False, False)
               \<and> uval t \<le> uval (UintToArith256 (powLimit mainParams)))"
  using DarkGravityWave_bounded [of line_store mainParams "Some 30"] line_store_wf
  by (simp add: wf_index_def mainParams_def)

lemma target_at_line_store: "target_at line_store q = 0xffff * 2 ^ 208"
proof -
  obtain t where "SetCompact 0x1d00ffff = (t, compact_number 0x1d00ffff \<noteq> 0 \<and> (0x1d00ffff :: u32) AND 0x00800000 \<noteq> 0, 2 ^ 256 \<le> compact_number 0x1d00ffff)"
    "uval t = compact_number 0x1d00ffff mod 2 ^ 256" using SetCompact_meaning [of "0x1d00ffff"] by blast
  moreover have "compact_number 0x1d00ffff = 0xffff * 2 ^ 208" by (simp add: compact_number_def)
  ultimately show ?thesis by (simp add: target_at_def line_store_def)
qed

lemma past_targets_line_store: "past_targets line_store 24 30 = replicate 24 (0xffff * 2 ^ 208)"
proof -
  have "past_targets line_store n p = replicate n (0xffff * 2 ^ 208)" if "n \<le> p" for n p
    using that by (induction n arbitrary: p) (auto simp: target_at_line_store, auto simp: line_store_def)
  from this [of 24 30] show ?thesis by simp
qed

theorem DarkGravityWave_average_witness:
  "\<exists>q a x. nth_prev line_store 23 30 = Some q \<and> a = 0xffff * 2 ^ 208
    \<and> uval x = min (a * nat (max (3600 div 3) (min (GetBlockTime (line_store 30) - GetBlockTime (line_store q)) (3600 * 3))) div 3600)
                   (uval (UintToArith256 (powLimit mainParams)))
    \<and> DarkGravityWave line_store (Some 30) mainParams = GetCompact x False"
proof -
  have w: "wf_heights line_store" using line_store_wf by (simp add: wf_index_def)
  have h: "24 \<le> nHeight (line_store 30)" by (simp add: line_store_def)
  have sp: "nPowTargetSpacing mainParams = 150" by (simp add: mainParams_def)
  have p1: "0 < nPowTargetSpacing mainParams" and p2: "nPowTargetSpacing mainParams < 2 ^ 25" unfolding sp by simp_all
  have t: "\<forall>t \<in> set (past_targets line_store 24 30). 0xffff * 2 ^ 208 \<le> t \<and> t \<le> 0xffff * 2 ^ 208"
    unfolding past_targets_line_store by simp
  have b: "0xffff * 2 ^ 208 * nat (72 * nPowTargetSpacing mainParams) < 2 ^ 256" unfolding sp by simp
  have n: "24 * 150 = (3600::int)" "nat 3600 = 3600" by simp_all
  obtain q a x where "nth_prev line_store 23 30 = Some q" and a: "0xffff * 2 ^ 208 \<le> a" "a \<le> 0xffff * 2 ^ 208"
    and "uval x = min (a * nat (max (3600 div 3) (min (GetBlockTime (line_store 30) - GetBlockTime (line_store q)) (3600 * 3))) div 3600)
                   (uval (UintToArith256 (powLimit mainParams)))"
    and "DarkGravityWave line_store (Some 30) mainParams = GetCompact x False"
    using DarkGravityWave_average [OF w h p1 p2 t b] unfolding sp n by blast
  moreover have "a = 0xffff * 2 ^ 208" using a by (rule order_antisym [rotated])
  ultimately show ?thesis by blast
qed

theorem GetNextWorkRequiredBTC_total_witness: "\<exists>c. GetNextWorkRequiredBTC line_store (Some 575) 0 mainParams = Some c"
  using GetNextWorkRequiredBTC_total [OF line_store_wf, of mainParams "Some 575" 0] by (simp add: mainParams_def)

theorem GetBlockProofEquivalentTime_correct_witness:
  "GetBlockProofEquivalentTime ((line_store 1)\<lparr>nChainWork := base_uint_of_u64 0x200020002\<rparr>)
     ((line_store 1)\<lparr>nChainWork := base_uint_of_u64 0x100010001\<rparr>) (line_store 2) mainParams = Inr 150"
proof -
  have c: "compact_number 0x1d00ffff = 0xffff * 2 ^ 208" by (simp add: compact_number_def)
  obtain w where w: "GetBlockProof (line_store 2) = Inr w" "uval w = 0x100010001"
    using GetBlockProof_value [of "line_store 2"] by (auto simp: line_store_def c)
  show ?thesis
    using GetBlockProofEquivalentTime_correct [OF _ _ _ _ w(1), of
        "(line_store 1)\<lparr>nChainWork := base_uint_of_u64 0x200020002\<rparr>"
        "(line_store 1)\<lparr>nChainWork := base_uint_of_u64 0x100010001\<rparr>" mainParams] w(2)
    by (simp add: mainParams_def)
qed

end
