(* ===== verification/BlockTree.thy ===== *)
theory BlockTree
  imports Pow
begin

text \<open>
  The part of \<^verbatim>\<open>validation.cpp\<close> that keeps the tree of blocks and chooses the branch to follow: which
  entries are candidates for the tip, which are marked as failed, and the search for the candidate
  with the most work. The global variables are the record \<open>node\<close>. A \<^verbatim>\<open>std::set\<close> with a comparator is a
  list kept in the comparator's order; a \<^verbatim>\<open>std::multimap\<close> is an association list in order of insertion.
  Connecting and disconnecting a block works on coins, files and the memory pool; this is the
  argument \<open>chain_env\<close>, and the theorems hold whatever it does. \<open>None\<close> is a failed assertion, a null
  pointer or a loop that does not end.
\<close>

section \<open>State\<close>

definition BLOCK_HAVE_DATA :: u32 where "BLOCK_HAVE_DATA = 8"
definition BLOCK_HAVE_UNDO :: u32 where "BLOCK_HAVE_UNDO = 16"
definition BLOCK_FAILED_VALID :: u32 where "BLOCK_FAILED_VALID = 32"
definition BLOCK_FAILED_CHILD :: u32 where "BLOCK_FAILED_CHILD = 64"

definition CBlockIndexWorkComparator :: "store \<Rightarrow> addr \<Rightarrow> addr \<Rightarrow> bool" where
  "CBlockIndexWorkComparator s pa pb =
     (if CompareTo (nChainWork (s pa)) (nChainWork (s pb)) > 0 then False
      else if CompareTo (nChainWork (s pa)) (nChainWork (s pb)) < 0 then True
      else if nSequenceId (s pa) < nSequenceId (s pb) then False
      else if nSequenceId (s pa) > nSequenceId (s pb) then True
      else if pa < pb then False
      else if pa > pb then True
      else False)"

text \<open>\<^verbatim>\<open>insert\<close> and \<^verbatim>\<open>erase\<close> of an ordered set.\<close>

fun set_insert :: "('a \<Rightarrow> 'a \<Rightarrow> bool) \<Rightarrow> 'a \<Rightarrow> 'a list \<Rightarrow> 'a list" where
  "set_insert lt x [] = [x]"
| "set_insert lt x (y # ys) =
     (if lt y x then y # set_insert lt x ys else if lt x y then x # y # ys else y # ys)"

fun set_erase :: "('a \<Rightarrow> 'a \<Rightarrow> bool) \<Rightarrow> 'a \<Rightarrow> 'a list \<Rightarrow> 'a list" where
  "set_erase lt x [] = []"
| "set_erase lt x (y # ys) =
     (if lt y x then y # set_erase lt x ys else if lt x y then y # ys else ys)"

record node =
  index :: store
  mapBlockIndex :: "(bytes \<times> addr) list"
  chainActive :: CChain
  pindexBestHeader :: ptr
  pindexBestInvalid :: ptr
  setBlockIndexCandidates :: "addr list"
  mapBlocksUnlinked :: "(ptr \<times> addr) list"
  nBlockSequenceId :: u32

definition upd_entry :: "addr \<Rightarrow> (CBlockIndex \<Rightarrow> CBlockIndex) \<Rightarrow> 'c node_scheme \<Rightarrow> 'c node_scheme" where
  "upd_entry p f st = st\<lparr>index := (index st)(p := f (index st p))\<rparr>"

definition cand_insert :: "addr \<Rightarrow> 'c node_scheme \<Rightarrow> 'c node_scheme" where
  "cand_insert p st = st\<lparr>setBlockIndexCandidates :=
     set_insert (CBlockIndexWorkComparator (index st)) p (setBlockIndexCandidates st)\<rparr>"

definition cand_erase :: "addr \<Rightarrow> 'c node_scheme \<Rightarrow> 'c node_scheme" where
  "cand_erase p st = st\<lparr>setBlockIndexCandidates :=
     set_erase (CBlockIndexWorkComparator (index st)) p (setBlockIndexCandidates st)\<rparr>"

definition or_status :: "u32 \<Rightarrow> addr \<Rightarrow> 'c node_scheme \<Rightarrow> 'c node_scheme" where
  "or_status f p = upd_entry p (\<lambda>b. b\<lparr>nStatus := nStatus b OR f\<rparr>)"

definition is_failed :: "CBlockIndex \<Rightarrow> bool" where
  "is_failed b \<longleftrightarrow> nStatus b AND BLOCK_FAILED_MASK \<noteq> 0"

definition has_data :: "CBlockIndex \<Rightarrow> bool" where
  "has_data b \<longleftrightarrow> nStatus b AND BLOCK_HAVE_DATA \<noteq> 0"

section \<open>Choosing the chain to follow\<close>

text \<open>
  The scan of \<^verbatim>\<open>FindMostWorkChain\<close> from a candidate down to the active chain: the first entry that
  is failed or has no data, if any.
\<close>

partial_function (option) scan_chain :: "store \<Rightarrow> CChain \<Rightarrow> ptr \<Rightarrow> ptr option" where
  "scan_chain s v pindexTest =
     (case pindexTest of
        None \<Rightarrow> Some None
      | Some p \<Rightarrow>
          (if Contains s v p then Some None
           else if nChainTx (s p) = 0 \<and> nHeight (s p) \<noteq> 0 then None
           else if is_failed (s p) \<or> \<not> has_data (s p) then Some (Some p)
           else scan_chain s v (pprev (s p))))"

text \<open>The inner loop that removes the entries from the candidate down to the entry found.\<close>

partial_function (option) remove_chain :: "bool \<Rightarrow> addr \<Rightarrow> addr \<Rightarrow> 'c node_scheme \<Rightarrow> 'c node_scheme option" where
  "remove_chain fFailedChain pindexTest pindexFailed st =
     (if pindexTest = pindexFailed then Some (cand_erase pindexTest st)
      else
        let st1 = (if fFailedChain then or_status BLOCK_FAILED_CHILD pindexFailed st
                   else st\<lparr>mapBlocksUnlinked := mapBlocksUnlinked st @ [(pprev (index st pindexFailed), pindexFailed)]\<rparr>);
            st2 = cand_erase pindexFailed st1
        in case pprev (index st2 pindexFailed) of
             None \<Rightarrow> None
           | Some q \<Rightarrow> remove_chain fFailedChain pindexTest q st2)"

definition note_best_invalid :: "addr \<Rightarrow> 'c node_scheme \<Rightarrow> 'c node_scheme" where
  "note_best_invalid p st =
     (case pindexBestInvalid st of
        None \<Rightarrow> st\<lparr>pindexBestInvalid := Some p\<rparr>
      | Some b \<Rightarrow> (if CompareTo (nChainWork (index st p)) (nChainWork (index st b)) > 0
                    then st\<lparr>pindexBestInvalid := Some p\<rparr> else st))"

partial_function (option) FindMostWorkChain :: "'c node_scheme \<Rightarrow> ('c node_scheme \<times> ptr) option" where
  "FindMostWorkChain st =
     (if setBlockIndexCandidates st = [] then Some (st, None)
      else
        let pindexNew = last (setBlockIndexCandidates st)
        in case scan_chain (index st) (chainActive st) (Some pindexNew) of
             None \<Rightarrow> None
           | Some None \<Rightarrow> Some (st, Some pindexNew)
           | Some (Some pindexTest) \<Rightarrow>
               (let fFailedChain = is_failed (index st pindexTest);
                    st1 = (if fFailedChain then note_best_invalid pindexNew st else st)
                in case remove_chain fFailedChain pindexTest pindexNew st1 of
                     None \<Rightarrow> None
                   | Some st2 \<Rightarrow> FindMostWorkChain st2))"

fun prune_loop :: "store \<Rightarrow> addr \<Rightarrow> addr list \<Rightarrow> addr list" where
  "prune_loop s tip [] = []"
| "prune_loop s tip (c # cs) = (if CBlockIndexWorkComparator s c tip then prune_loop s tip cs else c # cs)"

definition PruneBlockIndexCandidates :: "'c node_scheme \<Rightarrow> 'c node_scheme option" where
  "PruneBlockIndexCandidates st =
     (if setBlockIndexCandidates st = [] then None
      else case Tip (chainActive st) of
        None \<Rightarrow> None
      | Some tip \<Rightarrow>
          (let cs = prune_loop (index st) tip (setBlockIndexCandidates st)
           in if cs = [] then None else Some (st\<lparr>setBlockIndexCandidates := cs\<rparr>)))"

section \<open>Failed blocks\<close>

definition InvalidChainFound :: "addr \<Rightarrow> 'c node_scheme \<Rightarrow> 'c node_scheme option" where
  "InvalidChainFound pindexNew st =
     (if Tip (chainActive st) = None then None else Some (note_best_invalid pindexNew st))"

definition InvalidBlockFound :: "addr \<Rightarrow> bool \<Rightarrow> 'c node_scheme \<Rightarrow> 'c node_scheme option" where
  "InvalidBlockFound pindex corruptionPossible st =
     (if corruptionPossible then Some st
      else InvalidChainFound pindex (cand_erase pindex (or_status BLOCK_FAILED_VALID pindex st)))"

section \<open>New headers and blocks\<close>

record CBlockHeader =
  hdr_nVersion :: int
  hdr_hashPrevBlock :: bytes
  hdr_hashMerkleRoot :: bytes
  hdr_nTime :: u32
  hdr_nBits :: u32
  hdr_nNonce :: u32

definition CBlockIndex_of :: "CBlockHeader \<Rightarrow> CBlockIndex" where
  "CBlockIndex_of h =
     \<lparr>phashBlock = [], pprev = None, pskip = None, nHeight = 0, nFile = 0, nDataPos = 0, nUndoPos = 0,
      nChainWork = base_uint_zero, nTx = 0, nChainTx = 0, nStatus = 0, nVersion = hdr_nVersion h,
      hashMerkleRoot = hdr_hashMerkleRoot h, nTime = hdr_nTime h, nBits = hdr_nBits h, nNonce = hdr_nNonce h,
      nSequenceId = 0\<rparr>"

text \<open>\<open>hash\<close> is the header's hash, \<open>new\<close> the address the allocator returns.\<close>

definition AddToBlockIndex :: "bytes \<Rightarrow> addr \<Rightarrow> CBlockHeader \<Rightarrow> 'c node_scheme \<Rightarrow> ('c node_scheme \<times> addr) option" where
  "AddToBlockIndex hash new block st =
     (case map_of (mapBlockIndex st) hash of
        Some p \<Rightarrow> Some (st, p)
      | None \<Rightarrow>
          let b = (CBlockIndex_of block)\<lparr>nSequenceId := 0, phashBlock := hash\<rparr>;
              m = (hash, new) # mapBlockIndex st;
              s0 = (index st)(new := b);
              linked = (case map_of m (hdr_hashPrevBlock block) of
                          None \<Rightarrow> Some s0
                        | Some q \<Rightarrow> BuildSkip (s0(new := b\<lparr>pprev := Some q, nHeight := nHeight (s0 q) + 1\<rparr>)) new)
          in case linked of
               None \<Rightarrow> None
             | Some s1 \<Rightarrow>
                 (case GetBlockProof (s1 new) of
                    Inl e \<Rightarrow> None
                  | Inr w \<Rightarrow>
                      let work = base_uint_add (case pprev (s1 new) of None \<Rightarrow> base_uint_of_u64 0 | Some q \<Rightarrow> nChainWork (s1 q)) w
                      in case RaiseValidity ((s1 new)\<lparr>nChainWork := work\<rparr>) BLOCK_VALID_TREE of
                           None \<Rightarrow> None
                         | Some (_, b') \<Rightarrow>
                             let s2 = s1(new := b');
                                 best = (case pindexBestHeader st of
                                           None \<Rightarrow> Some new
                                         | Some h \<Rightarrow> (if CompareTo (nChainWork (s2 h)) (nChainWork b') < 0 then Some new else Some h))
                             in Some (st\<lparr>index := s2, mapBlockIndex := m, pindexBestHeader := best\<rparr>, new)))"

definition worse_than_tip :: "'c node_scheme \<Rightarrow> addr \<Rightarrow> bool" where
  "worse_than_tip st p = (case Tip (chainActive st) of None \<Rightarrow> False
                          | Some tip \<Rightarrow> CBlockIndexWorkComparator (index st) p tip)"

text \<open>One turn of the loop over the queue, without the queue itself.\<close>

definition link_block :: "addr \<Rightarrow> 'c node_scheme \<Rightarrow> 'c node_scheme" where
  "link_block p st =
     (let st1 = upd_entry p (\<lambda>b. b\<lparr>nChainTx := (case pprev b of None \<Rightarrow> 0 | Some q \<Rightarrow> nChainTx (index st q)) + nTx b,
                                   nSequenceId := nBlockSequenceId st\<rparr>) st;
          st2 = st1\<lparr>nBlockSequenceId := nBlockSequenceId st + 1\<rparr>;
          st3 = (if worse_than_tip st2 p then st2 else cand_insert p st2)
      in st3\<lparr>mapBlocksUnlinked := filter (\<lambda>e. fst e \<noteq> Some p) (mapBlocksUnlinked st3)\<rparr>)"

definition unlinked_children :: "'c node_scheme \<Rightarrow> addr \<Rightarrow> addr list" where
  "unlinked_children st p = map snd (filter (\<lambda>e. fst e = Some p) (mapBlocksUnlinked st))"

lemma link_block_unlinked:
  "mapBlocksUnlinked (link_block p st) = filter (\<lambda>e. fst e \<noteq> Some p) (mapBlocksUnlinked st)"
  by (simp add: link_block_def upd_entry_def cand_insert_def Let_def)

function link_queue :: "addr list \<Rightarrow> 'c node_scheme \<Rightarrow> 'c node_scheme" where
  "link_queue [] st = st"
| "link_queue (p # queue) st = link_queue (queue @ unlinked_children st p) (link_block p st)"
  by pat_completeness auto
termination
proof (relation "measure (\<lambda>(q, st). length q + length (mapBlocksUnlinked st))")
  fix p queue and st :: "'c node_scheme"
  have "length (filter (\<lambda>e. fst e = Some p) us) + length (filter (\<lambda>e. fst e \<noteq> Some p) us) = length us"
    for us :: "(ptr \<times> addr) list"
    by (induction us) auto
  from this [of "mapBlocksUnlinked st"]
  show "((queue @ unlinked_children st p, link_block p st), (p # queue, st))
          \<in> measure (\<lambda>(q, st). length q + length (mapBlocksUnlinked st))"
    by (simp add: link_block_unlinked unlinked_children_def)
qed simp

definition ReceivedBlockTransactions :: "u32 \<Rightarrow> addr \<Rightarrow> int \<times> u32 \<Rightarrow> 'c node_scheme \<Rightarrow> 'c node_scheme option" where
  "ReceivedBlockTransactions vtx_size pindexNew pos st =
     (let b = (index st pindexNew)\<lparr>nTx := vtx_size, nChainTx := 0, nFile := fst pos, nDataPos := snd pos, nUndoPos := 0,
                                    nStatus := nStatus (index st pindexNew) OR BLOCK_HAVE_DATA\<rparr>
      in case RaiseValidity b BLOCK_VALID_TRANSACTIONS of
           None \<Rightarrow> None
         | Some (_, b') \<Rightarrow>
             let st1 = upd_entry pindexNew (\<lambda>_. b') st
             in case pprev b' of
                  None \<Rightarrow> Some (link_queue [pindexNew] st1)
                | Some q \<Rightarrow>
                    (if nChainTx (index st1 q) \<noteq> 0 then Some (link_queue [pindexNew] st1)
                     else map_option (\<lambda>ok. if ok then st1\<lparr>mapBlocksUnlinked := mapBlocksUnlinked st1 @ [(Some q, pindexNew)]\<rparr> else st1)
                            (IsValid (index st1 q) BLOCK_VALID_TREE)))"


section \<open>Ordered sets\<close>

text \<open>What a comparator must satisfy on the elements of a set, and what the set then guarantees.\<close>

locale ordered_set =
  fixes lt :: "'a \<Rightarrow> 'a \<Rightarrow> bool" and carrier :: "'a set"
  assumes irrefl: "x \<in> carrier \<Longrightarrow> \<not> lt x x"
    and trans: "x \<in> carrier \<Longrightarrow> y \<in> carrier \<Longrightarrow> z \<in> carrier \<Longrightarrow> lt x y \<Longrightarrow> lt y z \<Longrightarrow> lt x z"
    and total: "x \<in> carrier \<Longrightarrow> y \<in> carrier \<Longrightarrow> x \<noteq> y \<Longrightarrow> lt x y \<or> lt y x"
begin

lemma set_set_insert: "set xs \<subseteq> carrier \<Longrightarrow> x \<in> carrier \<Longrightarrow> set (set_insert lt x xs) = insert x (set xs)"
  by (induction xs) (use total in auto)

lemma sorted_set_insert:
  "set xs \<subseteq> carrier \<Longrightarrow> x \<in> carrier \<Longrightarrow> sorted_wrt lt xs \<Longrightarrow> sorted_wrt lt (set_insert lt x xs)"
  by (induction xs) (auto simp: set_set_insert intro: trans)

lemma set_set_erase:
  "set xs \<subseteq> carrier \<Longrightarrow> x \<in> carrier \<Longrightarrow> sorted_wrt lt xs \<Longrightarrow> set (set_erase lt x xs) = set xs - {x}"
proof (induction xs)
  case (Cons y ys)
  have "x \<notin> set ys" if "lt x y \<or> x = y" using that Cons.prems irrefl trans [of x y x] by auto
  then show ?case using Cons total [of x y] irrefl by auto
qed simp

lemma sorted_set_erase: "sorted_wrt lt xs \<Longrightarrow> sorted_wrt lt (set_erase lt x xs)"
proof -
  have "set (set_erase lt x ys) \<subseteq> set ys" for ys by (induction ys) auto
  then show "sorted_wrt lt xs \<Longrightarrow> sorted_wrt lt (set_erase lt x xs)" by (induction xs) auto
qed

lemma last_greatest: "sorted_wrt lt xs \<Longrightarrow> c \<in> set xs \<Longrightarrow> c = last xs \<or> lt c (last xs)"
  by (induction xs) auto

end

lemma CBlockIndexWorkComparator_iff:
  assumes "wf_uint (nChainWork (s a))" and "wf_uint (nChainWork (s b))"
  shows "CBlockIndexWorkComparator s a b \<longleftrightarrow>
     uval (nChainWork (s a)) < uval (nChainWork (s b))
     \<or> uval (nChainWork (s a)) = uval (nChainWork (s b))
        \<and> (nSequenceId (s b) < nSequenceId (s a) \<or> nSequenceId (s a) = nSequenceId (s b) \<and> b < a)"
  using assms by (auto simp: CBlockIndexWorkComparator_def CompareTo_uval)

interpretation work: ordered_set "CBlockIndexWorkComparator s" "{a. wf_uint (nChainWork (s a))}" for s
  by unfold_locales (auto simp: CBlockIndexWorkComparator_iff)

lemma CBlockIndexWorkComparator_cong:
  "nChainWork (s' a) = nChainWork (s a) \<Longrightarrow> nChainWork (s' b) = nChainWork (s b) \<Longrightarrow>
   nSequenceId (s' a) = nSequenceId (s a) \<Longrightarrow> nSequenceId (s' b) = nSequenceId (s b) \<Longrightarrow>
   CBlockIndexWorkComparator s' a b = CBlockIndexWorkComparator s a b"
  by (simp add: CBlockIndexWorkComparator_def)

lemma status_bits [simp]:
  "(x OR BLOCK_FAILED_CHILD) AND BLOCK_HAVE_DATA = x AND BLOCK_HAVE_DATA"
  "(x OR BLOCK_FAILED_VALID) AND BLOCK_HAVE_DATA = x AND BLOCK_HAVE_DATA"
  "(x OR BLOCK_FAILED_CHILD) AND BLOCK_FAILED_MASK \<noteq> 0"
  "(x OR BLOCK_FAILED_VALID) AND BLOCK_FAILED_MASK \<noteq> 0"
  "(x OR BLOCK_HAVE_DATA) AND BLOCK_HAVE_DATA \<noteq> 0"
proof -
  have d: "(x OR y) AND z = (x AND z) OR (y AND z)" for y z :: u32 by (simp add: bit.conj_disj_distrib2)
  have nz: "y OR z \<noteq> 0" if "z \<noteq> 0" for y z :: u32 using that by (simp add: or_eq_0_iff)
  show "(x OR BLOCK_FAILED_CHILD) AND BLOCK_HAVE_DATA = x AND BLOCK_HAVE_DATA"
    "(x OR BLOCK_FAILED_VALID) AND BLOCK_HAVE_DATA = x AND BLOCK_HAVE_DATA"
    unfolding d by (simp_all add: BLOCK_FAILED_CHILD_def BLOCK_FAILED_VALID_def BLOCK_HAVE_DATA_def)
  show "(x OR BLOCK_FAILED_CHILD) AND BLOCK_FAILED_MASK \<noteq> 0" "(x OR BLOCK_FAILED_VALID) AND BLOCK_FAILED_MASK \<noteq> 0"
    "(x OR BLOCK_HAVE_DATA) AND BLOCK_HAVE_DATA \<noteq> 0"
    unfolding d by (rule nz, simp add: BLOCK_FAILED_CHILD_def BLOCK_FAILED_VALID_def BLOCK_HAVE_DATA_def BLOCK_FAILED_MASK_def)+
qed

section \<open>Usable candidates\<close>

text \<open>A chain can be followed when every block between it and the active chain is unfailed and on disk.\<close>

inductive usable :: "store \<Rightarrow> CChain \<Rightarrow> ptr \<Rightarrow> bool" for s v where
  root: "usable s v None"
| active: "Contains s v p \<Longrightarrow> usable s v (Some p)"
| good: "\<not> is_failed (s p) \<Longrightarrow> has_data (s p) \<Longrightarrow> usable s v (pprev (s p)) \<Longrightarrow> usable s v (Some p)"

inductive_simps usable_Some: "usable s v (Some p)"

text \<open>\<open>s'\<close> is \<open>s\<close> with \<^verbatim>\<open>BLOCK_FAILED_CHILD\<close> set on some entries that are not usable.\<close>

definition marks :: "store \<Rightarrow> CChain \<Rightarrow> store \<Rightarrow> bool" where
  "marks s v s' \<longleftrightarrow> (\<forall>p. s' p = s p \<or>
     \<not> usable s v (Some p) \<and> s' p = (s p)\<lparr>nStatus := nStatus (s p) OR BLOCK_FAILED_CHILD\<rparr>)"

lemma marks_refl [simp]: "marks s v s"
  by (simp add: marks_def)

lemma marks_fields:
  assumes "marks s v s'"
  shows "pprev (s' p) = pprev (s p)" "pskip (s' p) = pskip (s p)" "nHeight (s' p) = nHeight (s p)"
    "nChainWork (s' p) = nChainWork (s p)" "nChainTx (s' p) = nChainTx (s p)" "nSequenceId (s' p) = nSequenceId (s p)"
    "has_data (s' p) = has_data (s p)" "nTx (s' p) = nTx (s p)"
proof -
  have "s' p = s p \<or> s' p = (s p)\<lparr>nStatus := nStatus (s p) OR BLOCK_FAILED_CHILD\<rparr>"
    using assms by (auto simp: marks_def)
  then show "pprev (s' p) = pprev (s p)" "pskip (s' p) = pskip (s p)" "nHeight (s' p) = nHeight (s p)"
    "nChainWork (s' p) = nChainWork (s p)" "nChainTx (s' p) = nChainTx (s p)" "nSequenceId (s' p) = nSequenceId (s p)"
    "has_data (s' p) = has_data (s p)" "nTx (s' p) = nTx (s p)"
    by (auto simp: has_data_def status_bits)
qed

lemma marks_is_failed: "marks s v s' \<Longrightarrow> s' p \<noteq> s p \<Longrightarrow> is_failed (s' p)"
  by (auto simp: marks_def is_failed_def status_bits dest: spec [of _ p])

lemma nth_prev_cong: "(\<And>p. pprev (s' p) = pprev (s p)) \<Longrightarrow> nth_prev s' n p = nth_prev s n p"
  by (induction n arbitrary: p) (auto split: option.split)

lemma marks_tree:
  assumes "marks s v s'"
  shows "nth_prev s' n p = nth_prev s n p" "wf_heights s' = wf_heights s" "Contains s' u p = Contains s u p"
    "CBlockIndexWorkComparator s' = CBlockIndexWorkComparator s"
  by (rule nth_prev_cong) (simp_all add: marks_fields [OF assms] wf_heights_def Contains_def fun_eq_iff CBlockIndexWorkComparator_def
      cong: option.case_cong)

lemma marks_usable:
  assumes "marks s v s'"
  shows "usable s' v x = usable s v x"
proof
  assume "usable s' v x"
  then show "usable s v x"
  proof induction
    case (good p)
    then have "s' p = s p" using marks_is_failed [OF assms] by blast
    then show ?case using good by (simp add: usable.good)
  qed (auto simp: marks_tree [OF assms] intro: usable.intros)
next
  assume "usable s v x"
  then show "usable s' v x"
  proof induction
    case (good p)
    then have "usable s v (Some p)" by (auto intro: usable.good)
    then have "s' p = s p" using assms by (auto simp: marks_def dest: spec [of _ p])
    then show ?case using good by (simp add: usable.good)
  qed (auto simp: marks_tree [OF assms] intro: usable.intros)
qed

lemma marks_trans: "marks s v s' \<Longrightarrow> marks s' v s'' \<Longrightarrow> marks s v s''"
proof -
  assume 1: "marks s v s'" and 2: "marks s' v s''"
  have "s'' p = s p \<or> \<not> usable s v (Some p) \<and> s'' p = (s p)\<lparr>nStatus := nStatus (s p) OR BLOCK_FAILED_CHILD\<rparr>" for p
    using 1 [unfolded marks_def, THEN spec, of p] 2 [unfolded marks_def marks_usable [OF 1], THEN spec, of p]
    by (elim disjE conjE) (simp_all add: or.assoc)
  then show "marks s v s''" by (simp add: marks_def)
qed


section \<open>The search for the most work\<close>

text \<open>
  What the search relies on: heights and work are well-formed, the candidates are kept in order,
  \<^verbatim>\<open>nChainTx\<close> is set on every candidate, and on the parent of an entry on which it is set.
\<close>

definition chain_tx_closed :: "store \<Rightarrow> bool" where
  "chain_tx_closed s \<longleftrightarrow> (\<forall>p q. pprev (s p) = Some q \<longrightarrow> nChainTx (s p) \<noteq> 0 \<longrightarrow> nChainTx (s q) \<noteq> 0)"

definition candidates_ok :: "store \<Rightarrow> addr list \<Rightarrow> bool" where
  "candidates_ok s cs \<longleftrightarrow> wf_heights s \<and> (\<forall>p. wf_uint (nChainWork (s p))) \<and> chain_tx_closed s
     \<and> sorted_wrt (CBlockIndexWorkComparator s) cs \<and> (\<forall>c \<in> set cs. nChainTx (s c) \<noteq> 0)"

lemma marks_candidates_ok: "marks s v s' \<Longrightarrow> candidates_ok s' cs = candidates_ok s cs"
  by (simp add: candidates_ok_def chain_tx_closed_def marks_tree marks_fields)

lemma scan_chain_correct:
  assumes "wf_heights s" and "chain_tx_closed s" and "nChainTx (s p) \<noteq> 0"
  shows "\<exists>r. scan_chain s v (Some p) = Some r \<and>
     (case r of None \<Rightarrow> usable s v (Some p)
      | Some t \<Rightarrow> (is_failed (s t) \<or> \<not> has_data (s t)) \<and> nChainTx (s t) \<noteq> 0
          \<and> (\<exists>n. nth_prev s n p = Some t \<and> (\<forall>m \<le> n. \<forall>q. nth_prev s m p = Some q \<longrightarrow> \<not> usable s v (Some q))))"
  using assms(3)
proof (induction "nat (nHeight (s p))" arbitrary: p rule: less_induct)
  case less
  consider "Contains s v p" | "\<not> Contains s v p" "is_failed (s p) \<or> \<not> has_data (s p)"
    | "\<not> Contains s v p" "\<not> is_failed (s p)" "has_data (s p)" by blast
  then show ?case
  proof cases
    case 1
    then show ?thesis by (auto simp: scan_chain.simps intro: usable.active)
  next
    case 2
    then have "\<not> usable s v (Some p)" by (auto simp: usable_Some)
    then show ?thesis using 2 less.prems by (auto simp: scan_chain.simps intro!: exI [of _ 0])
  next
    case 3
    have step: "scan_chain s v (Some p) = scan_chain s v (pprev (s p))" using 3 less.prems by (subst scan_chain.simps) simp
    have use: "usable s v (Some p) = usable s v (pprev (s p))" using 3 by (auto simp: usable_Some)
    show ?thesis
    proof (cases "pprev (s p)")
      case None
      then show ?thesis using step use by (simp add: scan_chain.simps usable.root)
    next
      case (Some q)
      have "nat (nHeight (s q)) < nat (nHeight (s p))"
        using wf_pprev [OF assms(1) Some] wf_height_nonneg [OF assms(1), of q] by simp
      moreover have "nChainTx (s q) \<noteq> 0" using assms(2) Some less.prems by (auto simp: chain_tx_closed_def)
      ultimately obtain r where r: "scan_chain s v (Some q) = Some r"
        "case r of None \<Rightarrow> usable s v (Some q)
          | Some t \<Rightarrow> (is_failed (s t) \<or> \<not> has_data (s t)) \<and> nChainTx (s t) \<noteq> 0
              \<and> (\<exists>n. nth_prev s n q = Some t \<and> (\<forall>m \<le> n. \<forall>a. nth_prev s m q = Some a \<longrightarrow> \<not> usable s v (Some a)))"
        using less.hyps by blast
      show ?thesis
      proof (cases r)
        case (Some t)
        then obtain n where bad: "is_failed (s t) \<or> \<not> has_data (s t)" "nChainTx (s t) \<noteq> 0" and n: "nth_prev s n q = Some t"
          "\<And>m a. m \<le> n \<Longrightarrow> nth_prev s m q = Some a \<Longrightarrow> \<not> usable s v (Some a)" using r(2) by auto
        have "\<not> usable s v (Some a)" if "m \<le> Suc n" "nth_prev s m p = Some a" for m a
        proof (cases m)
          case 0
          then have "a = p" using that(2) by simp
          moreover have "\<not> usable s v (Some q)" using n(2) [of 0 q] by simp
          ultimately show ?thesis using use \<open>pprev (s p) = Some q\<close> by metis
        next
          case (Suc k)
          then have "nth_prev s k q = Some a" "k \<le> n" using that \<open>pprev (s p) = Some q\<close> by simp_all
          then show ?thesis using n(2) by blast
        qed
        moreover have "nth_prev s (Suc n) p = Some t" using n(1) \<open>pprev (s p) = Some q\<close> by simp
        ultimately have "\<exists>n. nth_prev s n p = Some t \<and> (\<forall>m \<le> n. \<forall>a. nth_prev s m p = Some a \<longrightarrow> \<not> usable s v (Some a))" by blast
        moreover have "scan_chain s v (Some p) = Some (Some t)" using step r(1) Some \<open>pprev (s p) = Some q\<close> by metis
        ultimately show ?thesis using bad by simp
      qed (use step use r Some in simp)
    qed
  qed
qed

definition path :: "store \<Rightarrow> nat \<Rightarrow> addr \<Rightarrow> addr set" where
  "path s n p = {q. \<exists>m \<le> n. nth_prev s m p = Some q}"

lemma path_Suc: "pprev (s p) = Some q \<Longrightarrow> path s (Suc n) p = insert p (path s n q)"
proof -
  assume q: "pprev (s p) = Some q"
  have "(\<exists>m \<le> Suc n. nth_prev s m p = Some a) \<longleftrightarrow> a = p \<or> (\<exists>m \<le> n. nth_prev s m q = Some a)" for a
  proof
    assume "\<exists>m \<le> Suc n. nth_prev s m p = Some a"
    then obtain m where "m \<le> Suc n" "nth_prev s m p = Some a" by blast
    then show "a = p \<or> (\<exists>m \<le> n. nth_prev s m q = Some a)" using q by (cases m) auto
  next
    assume "a = p \<or> (\<exists>m \<le> n. nth_prev s m q = Some a)"
    then show "\<exists>m \<le> Suc n. nth_prev s m p = Some a"
      using q by (auto intro: exI [of _ 0] exI [of _ "Suc m" for m])
  qed
  then show ?thesis by (auto simp: path_def)
qed

lemma path_0 [simp]: "path s 0 p = {p}"
  by (auto simp: path_def)

lemma cand_erase_ok:
  assumes "candidates_ok (index st) (setBlockIndexCandidates st)"
  shows "candidates_ok (index st) (setBlockIndexCandidates (cand_erase p st))"
    and "set (setBlockIndexCandidates (cand_erase p st)) = set (setBlockIndexCandidates st) - {p}"
proof -
  have s: "sorted_wrt (CBlockIndexWorkComparator (index st)) (setBlockIndexCandidates st)"
    and w: "set (setBlockIndexCandidates st) \<subseteq> {a. wf_uint (nChainWork (index st a))}" "p \<in> {a. wf_uint (nChainWork (index st a))}"
    using assms by (auto simp: candidates_ok_def)
  show *: "set (setBlockIndexCandidates (cand_erase p st)) = set (setBlockIndexCandidates st) - {p}"
    using work.set_set_erase [OF w s] by (simp add: cand_erase_def)
  then show "candidates_ok (index st) (setBlockIndexCandidates (cand_erase p st))"
    using assms work.sorted_set_erase [OF s] unfolding candidates_ok_def by (simp add: cand_erase_def)
qed

lemma cand_erase_simps [simp]:
  "index (cand_erase p st) = index st" "chainActive (cand_erase p st) = chainActive st"
  "mapBlockIndex (cand_erase p st) = mapBlockIndex st" "mapBlocksUnlinked (cand_erase p st) = mapBlocksUnlinked st"
  by (simp_all add: cand_erase_def)

lemma marks_or_status:
  "\<not> usable (index st) v (Some p) \<Longrightarrow> marks (index st) v (index (or_status BLOCK_FAILED_CHILD p st))"
  by (simp add: marks_def or_status_def upd_entry_def)

lemma or_status_simps [simp]:
  "chainActive (or_status f p st) = chainActive st" "setBlockIndexCandidates (or_status f p st) = setBlockIndexCandidates st"
  "mapBlockIndex (or_status f p st) = mapBlockIndex st" "mapBlocksUnlinked (or_status f p st) = mapBlocksUnlinked st"
  by (simp_all add: or_status_def upd_entry_def)

lemma remove_chain_correct:
  assumes "candidates_ok (index st) (setBlockIndexCandidates st)" and "nth_prev (index st) n p = Some t"
    and "\<forall>q \<in> path (index st) n p. \<not> usable (index st) (chainActive st) (Some q)"
  shows "\<exists>st'. remove_chain f t p st = Some st' \<and> marks (index st) (chainActive st) (index st')
     \<and> candidates_ok (index st') (setBlockIndexCandidates st') \<and> chainActive st' = chainActive st
     \<and> mapBlockIndex st' = mapBlockIndex st \<and> (f \<longrightarrow> mapBlocksUnlinked st' = mapBlocksUnlinked st)
     \<and> set (setBlockIndexCandidates st') = set (setBlockIndexCandidates st) - path (index st) n p"
  using assms
proof (induction n arbitrary: p st)
  case 0
  then show ?case using cand_erase_ok [OF "0.prems"(1), of p]
    by (intro exI [of _ "cand_erase p st"]) (simp add: remove_chain.simps)
next
  case (Suc n)
  have wf: "wf_heights (index st)" using Suc.prems(1) by (simp add: candidates_ok_def)
  obtain q where q: "pprev (index st p) = Some q" using Suc.prems(2) by (auto split: option.splits)
  then have t: "nth_prev (index st) n q = Some t" using Suc.prems(2) by simp
  have "nHeight (index st t) < nHeight (index st p)" using nth_prev_height [OF wf Suc.prems(2)] by simp
  then have ne: "t \<noteq> p" by auto
  define st1 where "st1 = (if f then or_status BLOCK_FAILED_CHILD p st
                           else st\<lparr>mapBlocksUnlinked := mapBlocksUnlinked st @ [(pprev (index st p), p)]\<rparr>)"
  define st2 where "st2 = cand_erase p st1"
  have pu: "\<not> usable (index st) (chainActive st) (Some p)" using Suc.prems(3) path_Suc [of "index st", OF q] by auto
  have m1: "marks (index st) (chainActive st) (index st1)" using marks_or_status [OF pu] by (simp add: st1_def)
  have c1: "chainActive st1 = chainActive st" "setBlockIndexCandidates st1 = setBlockIndexCandidates st" by (simp_all add: st1_def)
  have ok1: "candidates_ok (index st1) (setBlockIndexCandidates st1)" using Suc.prems(1) marks_candidates_ok [OF m1] c1 by simp
  note m2 = m1 [folded cand_erase_simps(1) [of p st1], folded st2_def]
  have ok2: "candidates_ok (index st2) (setBlockIndexCandidates st2)"
    and set2: "set (setBlockIndexCandidates st2) = set (setBlockIndexCandidates st) - {p}"
    using cand_erase_ok [OF ok1, of p] c1 by (simp_all add: st2_def)
  have a2: "chainActive st2 = chainActive st" "mapBlockIndex st2 = mapBlockIndex st" "f \<longrightarrow> mapBlocksUnlinked st2 = mapBlocksUnlinked st"
    by (simp_all add: st2_def st1_def)
  have path2: "path (index st2) n q = path (index st) n q" by (simp add: path_def marks_tree [OF m2])
  obtain st' where st': "remove_chain f t q st2 = Some st'" "marks (index st2) (chainActive st2) (index st')"
    "candidates_ok (index st') (setBlockIndexCandidates st')" "chainActive st' = chainActive st2"
    "set (setBlockIndexCandidates st') = set (setBlockIndexCandidates st2) - path (index st2) n q"
    "mapBlockIndex st' = mapBlockIndex st2" "f \<longrightarrow> mapBlocksUnlinked st' = mapBlocksUnlinked st2"
    using Suc.IH [OF ok2, of q] t Suc.prems(3) path_Suc [of "index st", OF q] path2 a2 marks_tree(1) [OF m2] marks_usable [OF m2] by auto
  have "remove_chain f t p st = remove_chain f t q st2"
    using ne q marks_fields(1) [OF m1, of p] by (subst remove_chain.simps) (simp add: Let_def st1_def [symmetric] st2_def)
  moreover have "marks (index st) (chainActive st) (index st')" using marks_trans [OF m2] st'(2) a2 by simp
  moreover have "set (setBlockIndexCandidates st') = set (setBlockIndexCandidates st) - path (index st) (Suc n) p"
    using st'(5) set2 path2 path_Suc [of "index st", OF q] by auto
  ultimately show ?case using st' a2 by auto
qed

lemma note_best_invalid_simps [simp]:
  "index (note_best_invalid p st) = index st" "chainActive (note_best_invalid p st) = chainActive st"
  "setBlockIndexCandidates (note_best_invalid p st) = setBlockIndexCandidates st"
  "mapBlockIndex (note_best_invalid p st) = mapBlockIndex st" "mapBlocksUnlinked (note_best_invalid p st) = mapBlocksUnlinked st"
  by (simp_all add: note_best_invalid_def split: option.split)

lemma FindMostWorkChain_spec:
  assumes "candidates_ok (index st) (setBlockIndexCandidates st)"
  shows "\<exists>st' r. FindMostWorkChain st = Some (st', r)
     \<and> marks (index st) (chainActive st) (index st') \<and> chainActive st' = chainActive st
     \<and> candidates_ok (index st') (setBlockIndexCandidates st') \<and> mapBlockIndex st' = mapBlockIndex st
     \<and> ((\<forall>p. nChainTx (index st p) \<noteq> 0 \<longrightarrow> has_data (index st p)) \<longrightarrow> mapBlocksUnlinked st' = mapBlocksUnlinked st)
     \<and> set (setBlockIndexCandidates st') \<subseteq> set (setBlockIndexCandidates st)
     \<and> (\<forall>c \<in> set (setBlockIndexCandidates st). usable (index st) (chainActive st) (Some c) \<longrightarrow> c \<in> set (setBlockIndexCandidates st'))
     \<and> (case r of None \<Rightarrow> setBlockIndexCandidates st' = []
        | Some b \<Rightarrow> setBlockIndexCandidates st' \<noteq> [] \<and> b = last (setBlockIndexCandidates st') \<and> usable (index st) (chainActive st) (Some b))"
  using assms
proof (induction "card (set (setBlockIndexCandidates st))" arbitrary: st rule: less_induct)
  case less
  define C v where "C = setBlockIndexCandidates st" and "v = chainActive st"
  show ?case
  proof (cases "C = []")
    case True
    then show ?thesis using less.prems by (auto simp: FindMostWorkChain.simps C_def)
  next
    case False
    define p where "p = last C"
    have pC: "p \<in> set C" using False by (simp add: p_def)
    obtain r where r: "scan_chain (index st) v (Some p) = Some r"
      "case r of None \<Rightarrow> usable (index st) v (Some p)
        | Some t \<Rightarrow> (is_failed (index st t) \<or> \<not> has_data (index st t)) \<and> nChainTx (index st t) \<noteq> 0
            \<and> (\<exists>n. nth_prev (index st) n p = Some t \<and> (\<forall>m \<le> n. \<forall>q. nth_prev (index st) m p = Some q \<longrightarrow> \<not> usable (index st) v (Some q)))"
      using scan_chain_correct [of "index st" p v] less.prems pC by (auto simp: candidates_ok_def C_def)
    show ?thesis
    proof (cases r)
      case None
      then have "FindMostWorkChain st = Some (st, Some p)"
        using r(1) False by (subst FindMostWorkChain.simps) (simp add: C_def p_def v_def)
      then show ?thesis using r(2) None less.prems False by (auto simp: C_def p_def v_def)
    next
      case (Some t)
      then obtain n where n: "nth_prev (index st) n p = Some t" and bad: "\<forall>q \<in> path (index st) n p. \<not> usable (index st) v (Some q)"
        and t: "is_failed (index st t) \<or> \<not> has_data (index st t)" "nChainTx (index st t) \<noteq> 0"
        using r(2) by (auto simp: path_def)
      define f where "f = is_failed (index st t)"
      define st1 where "st1 = (if f then note_best_invalid p st else st)"
      have st1: "index st1 = index st" "chainActive st1 = v" "setBlockIndexCandidates st1 = C"
        "mapBlockIndex st1 = mapBlockIndex st" "mapBlocksUnlinked st1 = mapBlocksUnlinked st" by (simp_all add: st1_def v_def C_def)
      obtain st2 where st2: "remove_chain f t p st1 = Some st2" "marks (index st) v (index st2)"
        "candidates_ok (index st2) (setBlockIndexCandidates st2)" "chainActive st2 = v"
        "set (setBlockIndexCandidates st2) = set C - path (index st) n p"
        "mapBlockIndex st2 = mapBlockIndex st" "f \<longrightarrow> mapBlocksUnlinked st2 = mapBlocksUnlinked st"
        using remove_chain_correct [of st1 n p t f] less.prems n bad st1 by (auto simp: C_def)
      have "p \<in> path (index st) n p" by (auto simp: path_def intro: exI [of _ 0])
      then have "set (setBlockIndexCandidates st2) \<subset> set C" using st2(5) pC by auto
      then have "card (set (setBlockIndexCandidates st2)) < card (set C)" by (simp add: psubset_card_mono)
      then obtain st' r' where IH: "FindMostWorkChain st2 = Some (st', r')"
         "marks (index st2) v (index st')" "chainActive st' = v"
         "candidates_ok (index st') (setBlockIndexCandidates st')"
         "set (setBlockIndexCandidates st') \<subseteq> set (setBlockIndexCandidates st2)" "mapBlockIndex st' = mapBlockIndex st2"
         "(\<forall>p. nChainTx (index st2 p) \<noteq> 0 \<longrightarrow> has_data (index st2 p)) \<longrightarrow> mapBlocksUnlinked st' = mapBlocksUnlinked st2"
         "\<forall>c \<in> set (setBlockIndexCandidates st2). usable (index st) v (Some c) \<longrightarrow> c \<in> set (setBlockIndexCandidates st')"
         "case r' of None \<Rightarrow> setBlockIndexCandidates st' = []
          | Some b \<Rightarrow> setBlockIndexCandidates st' \<noteq> [] \<and> b = last (setBlockIndexCandidates st') \<and> usable (index st) v (Some b)"
        using less.hyps [of st2] st2(3,4) marks_usable [OF st2(2)] by (auto simp: C_def cong: option.case_cong)
      have "FindMostWorkChain st = FindMostWorkChain st2"
        using False r(1) Some st2(1)
        by (subst FindMostWorkChain.simps) (simp add: Let_def C_def [symmetric] v_def [symmetric] p_def [symmetric] f_def [symmetric] st1_def [symmetric])
      moreover have "c \<in> set (setBlockIndexCandidates st')" if "c \<in> set C" "usable (index st) v (Some c)" for c
        using that IH(8) st2(5) bad by auto
      moreover have "mapBlocksUnlinked st' = mapBlocksUnlinked st" if "\<forall>p. nChainTx (index st p) \<noteq> 0 \<longrightarrow> has_data (index st p)"
        using that t st2(7) IH(7) by (simp add: f_def marks_fields [OF st2(2)])
      ultimately show ?thesis
        using IH(1-6,8,9) marks_trans [OF st2(2) IH(2)] st2(5,6) unfolding C_def [symmetric] v_def [symmetric] by auto
    qed
  qed
qed

text \<open>
  C3. \<^verbatim>\<open>FindMostWorkChain\<close> always returns. It returns the candidate that sorts last (most work, then
  first received) among those all of whose ancestors off the active chain are unfailed and on disk,
  and \<^verbatim>\<open>NULL\<close> only when no candidate is usable; the entries it marks as having a failed ancestor are
  not usable, and the active chain is left alone.
\<close>

theorem FindMostWorkChain_correct:
  assumes "candidates_ok (index st) (setBlockIndexCandidates st)"
  shows "\<exists>st' r. FindMostWorkChain st = Some (st', r)
     \<and> marks (index st) (chainActive st) (index st') \<and> chainActive st' = chainActive st
     \<and> (case r of
          None \<Rightarrow> \<forall>c \<in> set (setBlockIndexCandidates st). \<not> usable (index st) (chainActive st) (Some c)
        | Some b \<Rightarrow> b \<in> set (setBlockIndexCandidates st) \<and> usable (index st) (chainActive st) (Some b)
            \<and> (\<forall>c \<in> set (setBlockIndexCandidates st). usable (index st) (chainActive st) (Some c) \<longrightarrow>
                 c = b \<or> CBlockIndexWorkComparator (index st) c b))"
proof -
  obtain st' r where *: "FindMostWorkChain st = Some (st', r)"
     "marks (index st) (chainActive st) (index st')" "chainActive st' = chainActive st"
     "candidates_ok (index st') (setBlockIndexCandidates st')"
     "set (setBlockIndexCandidates st') \<subseteq> set (setBlockIndexCandidates st)"
     "\<forall>c \<in> set (setBlockIndexCandidates st). usable (index st) (chainActive st) (Some c) \<longrightarrow> c \<in> set (setBlockIndexCandidates st')"
     "case r of None \<Rightarrow> setBlockIndexCandidates st' = []
      | Some b \<Rightarrow> setBlockIndexCandidates st' \<noteq> [] \<and> b = last (setBlockIndexCandidates st') \<and> usable (index st) (chainActive st) (Some b)"
    using FindMostWorkChain_spec [OF assms] by (elim exE conjE) (rule that)
  have "sorted_wrt (CBlockIndexWorkComparator (index st)) (setBlockIndexCandidates st')"
    using *(4) marks_tree(4) [OF *(2)] by (simp add: candidates_ok_def)
  then have best: "c = last (setBlockIndexCandidates st') \<or> CBlockIndexWorkComparator (index st) c (last (setBlockIndexCandidates st'))"
    if "c \<in> set (setBlockIndexCandidates st')" for c
    using that work.last_greatest by blast
  show ?thesis
  proof (cases r)
    case None
    then show ?thesis using * by auto
  next
    case (Some b)
    then have "b \<in> set (setBlockIndexCandidates st')" "b = last (setBlockIndexCandidates st')" using *(7) by auto
    then show ?thesis using * Some best by auto
  qed
qed

text \<open>A fork for the witnesses: entry 1 follows the genesis block 0; entry 2 has more work but is marked as failed.\<close>

definition fork_store :: store where
  "fork_store i = (line_store 0)\<lparr>pprev := (if i = 0 \<or> 2 < i then None else Some 0), nHeight := (if i = 0 \<or> 2 < i then 0 else 1),
     nChainWork := base_uint_of_u64 (if 2 < i then 0 else of_nat i + 1), nTx := (if 2 < i then 0 else 1),
     nChainTx := (if i = 0 then 1 else if 2 < i then 0 else 2),
     nStatus := (if i = 2 then 43 else if 2 < i then 0 else 11), nSequenceId := (if 2 < i then 0 else of_nat i + 1)\<rparr>"

definition fork_node :: node where
  "fork_node = \<lparr>index = fork_store, mapBlockIndex = [([0], 0), ([1], 1), ([2], 2)], chainActive = [Some 0], pindexBestHeader = Some 2,
     pindexBestInvalid = None, setBlockIndexCandidates = [0, 1, 2], mapBlocksUnlinked = [], nBlockSequenceId = 4\<rparr>"

lemma fork_store_fields [simp]:
  "pprev (fork_store i) = (if i = 0 \<or> 2 < i then None else Some 0)" "nHeight (fork_store i) = (if i = 0 \<or> 2 < i then 0 else 1)"
  "nChainWork (fork_store i) = base_uint_of_u64 (if 2 < i then 0 else of_nat i + 1)"
  "nChainTx (fork_store i) = (if i = 0 then 1 else if 2 < i then 0 else 2)"
  "nStatus (fork_store i) = (if i = 2 then 43 else if 2 < i then 0 else 11)"
  by (simp_all add: fork_store_def)

lemma fork_heights: "wf_heights fork_store"
  by (auto simp: wf_heights_def)

lemma fork_candidates: "candidates_ok (index fork_node) (setBlockIndexCandidates fork_node)"
proof -
  have "uval (base_uint_of_u64 (2 :: u64)) = 2" "uval (base_uint_of_u64 (3 :: u64)) = 3" "uval (base_uint_of_u64 (1 :: u64)) = 1"
    by (simp_all add: uval_of_u64)
  then show ?thesis
    using fork_heights by (auto simp: candidates_ok_def fork_node_def chain_tx_closed_def CBlockIndexWorkComparator_iff wf_of_u64)
qed

lemma fork_usable:
  "usable fork_store [Some 0] (Some 1)" "\<not> usable fork_store [Some 0] (Some 2)"
  by (auto simp: usable_Some is_failed_def has_data_def Contains_def chain_at_def BLOCK_FAILED_MASK_def BLOCK_HAVE_DATA_def)

theorem FindMostWorkChain_correct_witness:
  "candidates_ok (index fork_node) (setBlockIndexCandidates fork_node)
   \<and> (\<exists>st'. FindMostWorkChain fork_node = Some (st', Some 1))"
proof -
  have n: "index fork_node = fork_store" "chainActive fork_node = [Some 0]" "setBlockIndexCandidates fork_node = [0, 1, 2]"
    by (simp_all add: fork_node_def)
  have "\<not> CBlockIndexWorkComparator fork_store 1 0"
    by (simp add: CBlockIndexWorkComparator_iff wf_of_u64 uval_of_u64)
  then show ?thesis
    using FindMostWorkChain_correct [OF fork_candidates] fork_candidates fork_usable
    by (auto simp: n split: option.splits)
qed

end
