(* ===== verification/ActiveChain.thy ===== *)
theory ActiveChain
  imports BlockTree
begin

text \<open>
  How the active chain moves in \<^verbatim>\<open>validation.cpp\<close>: connecting and disconnecting the tip, the steps
  towards the best candidate, and the commands that declare a block invalid or take that back. The
  work on coins, files and the memory pool is the argument \<open>chain_env\<close>, over a state of its own that
  extends the record \<open>node\<close>; the theorems hold whatever it answers. Notifications, warnings and
  statistics are left out, and so is \<^verbatim>\<open>setDirtyBlockIndex\<close>, which only says what the next flush writes. Block files
  are not pruned.
\<close>

section \<open>Connecting and disconnecting the tip\<close>

text \<open>
  The outcome of connecting a block: done, with the position of undo data that was written; a consensus
  rule is violated, with whether the data may be corrupt; or a system error, possibly after the undo data was written.
\<close>

datatype connect_outcome = Connected u32 | BlockInvalid bool | SystemError "u32 option"

record 'e chain_env =
  hashGenesisBlock :: bytes
  env_disconnect :: "addr \<Rightarrow> 'e \<Rightarrow> bool \<times> 'e"
  env_connect :: "addr \<Rightarrow> 'e \<Rightarrow> connect_outcome \<times> 'e"
  env_reorg :: "'e \<Rightarrow> 'e"
  env_flush :: "'e \<Rightarrow> bool \<times> 'e"
  env_shutdown :: "'e \<Rightarrow> bool"

definition DisconnectTip :: "'e chain_env \<Rightarrow> 'e node_scheme \<Rightarrow> (bool \<times> 'e node_scheme) option" where
  "DisconnectTip env st =
     (case Tip (chainActive st) of
        None \<Rightarrow> None
      | Some pindexDelete \<Rightarrow>
          (case env_disconnect env pindexDelete (node.more st) of
             (ok, e) \<Rightarrow>
               if \<not> ok then Some (False, node.more_update (\<lambda>_. e) st)
               else map_option (\<lambda>v. (True, node.more_update (\<lambda>_. e) (st\<lparr>chainActive := v\<rparr>)))
                      (SetTip (index st) (chainActive st) (pprev (index st pindexDelete)))))"

definition undo_null :: "CBlockIndex \<Rightarrow> bool" where
  "undo_null b \<longleftrightarrow> nStatus b AND BLOCK_HAVE_UNDO = 0 \<or> nFile b = - 1"

text \<open>What \<^verbatim>\<open>ConnectBlock\<close> does to the index entry; the genesis block returns before that.\<close>

definition entry_connected :: "bytes \<Rightarrow> u32 \<Rightarrow> CBlockIndex \<Rightarrow> CBlockIndex option" where
  "entry_connected genesis undoPos b =
     (if phashBlock b = genesis then Some b
      else case IsValid b BLOCK_VALID_SCRIPTS of
             None \<Rightarrow> None
           | Some valid \<Rightarrow>
               (if undo_null b \<or> \<not> valid
                then map_option snd
                       (RaiseValidity (if undo_null b then b\<lparr>nUndoPos := undoPos, nStatus := nStatus b OR BLOCK_HAVE_UNDO\<rparr> else b)
                                      BLOCK_VALID_SCRIPTS)
                else Some b))"

definition ConnectTip :: "'e chain_env \<Rightarrow> addr \<Rightarrow> 'e node_scheme \<Rightarrow> (connect_outcome \<times> 'e node_scheme) option" where
  "ConnectTip env pindexNew st =
     (if pprev (index st pindexNew) \<noteq> Tip (chainActive st) then None
      else case env_connect env pindexNew (node.more st) of
        (SystemError None, e) \<Rightarrow> Some (SystemError None, node.more_update (\<lambda>_. e) st)
      | (SystemError (Some pos), e) \<Rightarrow>
          map_option (\<lambda>b. (SystemError (Some pos), upd_entry pindexNew (\<lambda>_. b) (node.more_update (\<lambda>_. e) st)))
            (entry_connected (hashGenesisBlock env) pos (index st pindexNew))
      | (BlockInvalid corrupt, e) \<Rightarrow>
          map_option (Pair (BlockInvalid corrupt)) (InvalidBlockFound pindexNew corrupt (node.more_update (\<lambda>_. e) st))
      | (Connected pos, e) \<Rightarrow>
          (case entry_connected (hashGenesisBlock env) pos (index st pindexNew) of
             None \<Rightarrow> None
           | Some b \<Rightarrow>
               (let st1 = upd_entry pindexNew (\<lambda>_. b) (node.more_update (\<lambda>_. e) st)
                in map_option (\<lambda>v. (Connected pos, st1\<lparr>chainActive := v\<rparr>))
                     (SetTip (index st1) (chainActive st1) (Some pindexNew)))))"

section \<open>Steps towards the best chain\<close>

partial_function (option) disconnect_to :: "'e chain_env \<Rightarrow> ptr \<Rightarrow> 'e node_scheme \<Rightarrow> (bool \<times> 'e node_scheme) option" where
  "disconnect_to env pindexFork st =
     (if Tip (chainActive st) = None \<or> Tip (chainActive st) = pindexFork then Some (True, st)
      else case DisconnectTip env st of
             None \<Rightarrow> None
           | Some (ok, st1) \<Rightarrow> (if ok then disconnect_to env pindexFork st1 else Some (False, st1)))"

text \<open>The list \<^verbatim>\<open>vpindexToConnect\<close>, from the highest block down.\<close>

partial_function (option) blocks_down_to :: "store \<Rightarrow> int \<Rightarrow> ptr \<Rightarrow> addr list \<Rightarrow> addr list option" where
  "blocks_down_to s h pindexIter vpindexToConnect =
     (case pindexIter of
        None \<Rightarrow> Some vpindexToConnect
      | Some p \<Rightarrow> (if nHeight (s p) = h then Some vpindexToConnect
                   else blocks_down_to s h (pprev (s p)) (vpindexToConnect @ [p])))"

datatype step_outcome = StepFailed | InvalidFound | Improved | AllConnected

fun connect_blocks :: "'e chain_env \<Rightarrow> ptr \<Rightarrow> addr \<Rightarrow> addr list \<Rightarrow> 'e node_scheme \<Rightarrow> (step_outcome \<times> 'e node_scheme) option" where
  "connect_blocks env oldTip lowest [] st = Some (AllConnected, st)"
| "connect_blocks env oldTip lowest (p # ps) st =
     (case ConnectTip env p st of
        None \<Rightarrow> None
      | Some (SystemError _, st1) \<Rightarrow> Some (StepFailed, st1)
      | Some (BlockInvalid corrupt, st1) \<Rightarrow>
          (if corrupt then Some (InvalidFound, st1) else map_option (Pair InvalidFound) (InvalidChainFound lowest st1))
      | Some (Connected _, st1) \<Rightarrow>
          (case PruneBlockIndexCandidates st1 of
             None \<Rightarrow> None
           | Some st2 \<Rightarrow>
               (case oldTip of
                  None \<Rightarrow> Some (Improved, st2)
                | Some old \<Rightarrow>
                    (case Tip (chainActive st2) of
                       None \<Rightarrow> None
                     | Some tip \<Rightarrow>
                         (if CompareTo (nChainWork (index st2 tip)) (nChainWork (index st2 old)) > 0 then Some (Improved, st2)
                          else connect_blocks env oldTip lowest ps st2)))))"

partial_function (option) connect_batches ::
    "'e chain_env \<Rightarrow> ptr \<Rightarrow> addr \<Rightarrow> int \<Rightarrow> 'e node_scheme \<Rightarrow> (step_outcome \<times> 'e node_scheme) option" where
  "connect_batches env oldTip pindexMostWork height st =
     (if height = nHeight (index st pindexMostWork) then Some (AllConnected, st)
      else
        let nTargetHeight = min (height + 32) (nHeight (index st pindexMostWork))
        in case GetAncestor (index st) pindexMostWork nTargetHeight of
             None \<Rightarrow> None
           | Some q \<Rightarrow>
               (case blocks_down_to (index st) height q [] of
                  None \<Rightarrow> None
                | Some ps \<Rightarrow>
                    (case connect_blocks env oldTip (last ps) (rev ps) st of
                       None \<Rightarrow> None
                     | Some (AllConnected, st1) \<Rightarrow> connect_batches env oldTip pindexMostWork nTargetHeight st1
                     | Some r \<Rightarrow> Some r)))"

definition ActivateBestChainStep :: "'e chain_env \<Rightarrow> addr \<Rightarrow> 'e node_scheme \<Rightarrow> (step_outcome \<times> 'e node_scheme) option" where
  "ActivateBestChainStep env pindexMostWork st =
     (case FindFork (index st) (chainActive st) (Some pindexMostWork) of
        None \<Rightarrow> None
      | Some pindexFork \<Rightarrow>
          (case disconnect_to env pindexFork st of
             None \<Rightarrow> None
           | Some (ok, st1) \<Rightarrow>
               if \<not> ok then Some (StepFailed, st1)
               else
                 (case connect_batches env (Tip (chainActive st)) pindexMostWork
                         (case pindexFork of None \<Rightarrow> - 1 | Some f \<Rightarrow> nHeight (index st f)) st1 of
                    None \<Rightarrow> None
                  | Some (r, st2) \<Rightarrow>
                      if r = StepFailed \<or> Tip (chainActive st) = None \<or> Tip (chainActive st) = pindexFork then Some (r, st2)
                      else if Tip (chainActive st2) = None then None
                      else Some (r, node.more_update (env_reorg env) st2))))"

definition finish_activation :: "'e chain_env \<Rightarrow> 'e node_scheme \<Rightarrow> bool \<times> 'e node_scheme" where
  "finish_activation env st = (case env_flush env (node.more st) of (ok, e) \<Rightarrow> (ok, node.more_update (\<lambda>_. e) st))"

partial_function (option) ActivateBestChain :: "'e chain_env \<Rightarrow> ptr \<Rightarrow> 'e node_scheme \<Rightarrow> (bool \<times> 'e node_scheme) option" where
  "ActivateBestChain env pindexMostWork st =
     (if env_shutdown env (node.more st) then Some (finish_activation env st)
      else case (case pindexMostWork of None \<Rightarrow> FindMostWorkChain st | Some m \<Rightarrow> Some (st, Some m)) of
        None \<Rightarrow> None
      | Some (st1, None) \<Rightarrow> Some (True, st1)
      | Some (st1, Some m) \<Rightarrow>
          (if Tip (chainActive st1) = Some m then Some (True, st1)
           else case ActivateBestChainStep env m st1 of
                  None \<Rightarrow> None
                | Some (r, st2) \<Rightarrow>
                    if r = StepFailed then Some (False, st2)
                    else let mostWork = (if r = InvalidFound then None else Some m)
                         in if Tip (chainActive st2) = mostWork then Some (finish_activation env st2)
                            else ActivateBestChain env mostWork st2))"

section \<open>Invalidating and reconsidering blocks\<close>

partial_function (option) invalidate_loop :: "'e chain_env \<Rightarrow> addr \<Rightarrow> 'e node_scheme \<Rightarrow> (bool \<times> 'e node_scheme) option" where
  "invalidate_loop env pindex st =
     (if \<not> Contains (index st) (chainActive st) pindex then Some (True, st)
      else case Tip (chainActive st) of
        None \<Rightarrow> None
      | Some pindexWalk \<Rightarrow>
          (case DisconnectTip env (cand_erase pindexWalk (or_status BLOCK_FAILED_CHILD pindexWalk st)) of
             None \<Rightarrow> None
           | Some (ok, st1) \<Rightarrow> (if ok then invalidate_loop env pindex st1 else Some (False, st1))))"

text \<open>The pass over \<^verbatim>\<open>mapBlockIndex\<close> that adds the entries at least as good as the tip again.\<close>

fun readd_candidates :: "addr \<Rightarrow> addr list \<Rightarrow> 'e node_scheme \<Rightarrow> 'e node_scheme option" where
  "readd_candidates tip [] st = Some st"
| "readd_candidates tip (p # ps) st =
     (case IsValid (index st p) BLOCK_VALID_TRANSACTIONS of
        None \<Rightarrow> None
      | Some valid \<Rightarrow>
          readd_candidates tip ps
            (if valid \<and> nChainTx (index st p) \<noteq> 0 \<and> \<not> CBlockIndexWorkComparator (index st) p tip then cand_insert p st else st))"

definition InvalidateBlock :: "'e chain_env \<Rightarrow> addr \<Rightarrow> 'e node_scheme \<Rightarrow> (bool \<times> 'e node_scheme) option" where
  "InvalidateBlock env pindex st =
     (case invalidate_loop env pindex (cand_erase pindex (or_status BLOCK_FAILED_VALID pindex st)) of
        None \<Rightarrow> None
      | Some (ok, st1) \<Rightarrow>
          (case Tip (chainActive st1) of
             None \<Rightarrow> None
           | Some tip \<Rightarrow>
               if \<not> ok then Some (False, node.more_update (env_reorg env) st1)
               else (case readd_candidates tip (map snd (mapBlockIndex st1)) st1 of
                       None \<Rightarrow> None
                     | Some st2 \<Rightarrow> map_option (\<lambda>st3. (True, node.more_update (env_reorg env) st3)) (InvalidChainFound pindex st2))))"

definition clear_failed :: "addr \<Rightarrow> 'e node_scheme \<Rightarrow> 'e node_scheme" where
  "clear_failed p = upd_entry p (\<lambda>b. b\<lparr>nStatus := nStatus b AND NOT BLOCK_FAILED_MASK\<rparr>)"

text \<open>The body of the loop over \<^verbatim>\<open>mapBlockIndex\<close> in \<^verbatim>\<open>ReconsiderBlock\<close>.\<close>

definition reconsider_entry :: "int \<Rightarrow> addr \<Rightarrow> addr \<Rightarrow> 'e node_scheme \<Rightarrow> 'e node_scheme option" where
  "reconsider_entry h pindex p st =
     (case IsValid (index st p) BLOCK_VALID_TRANSACTIONS of
        None \<Rightarrow> None
      | Some True \<Rightarrow> Some st
      | Some False \<Rightarrow>
          (case GetAncestor (index st) p h of
             None \<Rightarrow> None
           | Some anc \<Rightarrow>
               if anc \<noteq> Some pindex then Some st
               else
                 let st1 = clear_failed p st;
                     forget = (\<lambda>st2. if pindexBestInvalid st2 = Some p then st2\<lparr>pindexBestInvalid := None\<rparr> else st2)
                 in case IsValid (index st1 p) BLOCK_VALID_TRANSACTIONS of
                      None \<Rightarrow> None
                    | Some valid \<Rightarrow>
                        if valid \<and> nChainTx (index st1 p) \<noteq> 0
                        then (case Tip (chainActive st1) of
                                None \<Rightarrow> None
                              | Some tip \<Rightarrow>
                                  Some (forget (if CBlockIndexWorkComparator (index st1) tip p then cand_insert p st1 else st1)))
                        else Some (forget st1)))"

fun reconsider_pass :: "int \<Rightarrow> addr \<Rightarrow> addr list \<Rightarrow> 'e node_scheme \<Rightarrow> 'e node_scheme option" where
  "reconsider_pass h pindex [] st = Some st"
| "reconsider_pass h pindex (p # ps) st =
     (case reconsider_entry h pindex p st of None \<Rightarrow> None | Some st1 \<Rightarrow> reconsider_pass h pindex ps st1)"

partial_function (option) clear_ancestors :: "ptr \<Rightarrow> 'e node_scheme \<Rightarrow> 'e node_scheme option" where
  "clear_ancestors pindex st =
     (case pindex of
        None \<Rightarrow> Some st
      | Some p \<Rightarrow>
          clear_ancestors (pprev (index st p)) (if is_failed (index st p) then clear_failed p st else st))"

definition ReconsiderBlock :: "addr \<Rightarrow> 'e node_scheme \<Rightarrow> 'e node_scheme option" where
  "ReconsiderBlock pindex st =
     (case reconsider_pass (nHeight (index st pindex)) pindex (map snd (mapBlockIndex st)) st of
        None \<Rightarrow> None
      | Some st1 \<Rightarrow> clear_ancestors (Some pindex) st1)"

section \<open>The invariant\<close>

definition ancestors :: "store \<Rightarrow> addr \<Rightarrow> addr set" where
  "ancestors s p = {q. \<exists>n. nth_prev s n p = Some q}"

definition addrs :: "'e node_scheme \<Rightarrow> addr set" where
  "addrs st = snd ` set (mapBlockIndex st)"

definition tx_total :: "'e node_scheme \<Rightarrow> nat" where
  "tx_total st = (\<Sum>p \<in> addrs st. unat (nTx (index st p)))"

text \<open>Entries that were not allocated are null, and parents are allocated.\<close>

definition tree_ok :: "store \<Rightarrow> addr set \<Rightarrow> bool" where
  "tree_ok s A \<longleftrightarrow> wf_index s
     \<and> (\<forall>p. p \<notin> A \<longrightarrow> pprev (s p) = None \<and> pskip (s p) = None \<and> nChainTx (s p) = 0 \<and> \<not> has_data (s p))
     \<and> (\<forall>p q. pprev (s p) = Some q \<longrightarrow> q \<in> A)"

text \<open>\<^verbatim>\<open>nChainTx\<close>, where it is set, is the number of transactions in the chain up to the entry.\<close>

definition tx_ok :: "store \<Rightarrow> bool" where
  "tx_ok s \<longleftrightarrow> (\<forall>p. (nChainTx (s p) \<noteq> 0 \<longrightarrow> has_data (s p) \<and> unat (nChainTx (s p)) = (\<Sum>q \<in> ancestors s p. unat (nTx (s q))))
                  \<and> (has_data (s p) \<longrightarrow> nTx (s p) \<noteq> 0))"

definition unlinked_ok :: "store \<Rightarrow> (ptr \<times> addr) list \<Rightarrow> bool" where
  "unlinked_ok s ul \<longleftrightarrow> distinct (map snd ul)
     \<and> (\<forall>(k, p) \<in> set ul. k = pprev (s p) \<and> k \<noteq> None \<and> nChainTx (s p) = 0 \<and> has_data (s p))"

definition active_ok :: "store \<Rightarrow> addr set \<Rightarrow> CChain \<Rightarrow> bool" where
  "active_ok s A v \<longleftrightarrow> v = [] \<or> (\<exists>p \<in> A. v = chain_of s p)"

definition node_ok :: "'e node_scheme \<Rightarrow> bool" where
  "node_ok st \<longleftrightarrow> tree_ok (index st) (addrs st) \<and> tx_ok (index st) \<and> unlinked_ok (index st) (mapBlocksUnlinked st)
     \<and> candidates_ok (index st) (setBlockIndexCandidates st) \<and> active_ok (index st) (addrs st) (chainActive st)"

text \<open>The fields the invariant depends on.\<close>

definition same_links :: "store \<Rightarrow> store \<Rightarrow> bool" where
  "same_links s s' \<longleftrightarrow> (\<forall>p. pprev (s' p) = pprev (s p) \<and> pskip (s' p) = pskip (s p) \<and> nHeight (s' p) = nHeight (s p)
     \<and> nChainWork (s' p) = nChainWork (s p) \<and> nTx (s' p) = nTx (s p) \<and> nChainTx (s' p) = nChainTx (s p)
     \<and> nSequenceId (s' p) = nSequenceId (s p) \<and> has_data (s' p) = has_data (s p))"

lemma same_links_refl [simp]: "same_links s s"
  by (simp add: same_links_def)

lemma same_links_trans: "same_links s s' \<Longrightarrow> same_links s' s'' \<Longrightarrow> same_links s s''"
  by (simp add: same_links_def)

lemma tree_cong:
  assumes "\<And>p. pprev (s' p) = pprev (s p)" and "\<And>p. pskip (s' p) = pskip (s p)" and "\<And>p. nHeight (s' p) = nHeight (s p)"
  shows "wf_heights s' = wf_heights s" "wf_index s' = wf_index s" "chain_of s' p = chain_of s p" "ancestors s' p = ancestors s p"
    "Contains s' v p = Contains s v p"
proof -
  have np: "nth_prev s' n p = nth_prev s n p" for n p by (rule nth_prev_cong [OF assms(1)])
  show wf: "wf_heights s' = wf_heights s" by (simp add: wf_heights_def assms cong: option.case_cong)
  show "wf_index s' = wf_index s" by (simp add: wf_index_def wf skip_ok_def assms np cong: option.case_cong)
  show "chain_of s' p = chain_of s p" "ancestors s' p = ancestors s p" "Contains s' v p = Contains s v p"
    by (simp_all add: chain_of_def ancestors_def assms np Contains_def)
qed

lemma same_links_wf:
  assumes "same_links s s'"
  shows "wf_heights s' = wf_heights s" "wf_index s' = wf_index s" "chain_of s' p = chain_of s p" "ancestors s' p = ancestors s p"
    "Contains s' v p = Contains s v p" "CBlockIndexWorkComparator s' = CBlockIndexWorkComparator s"
  by (rule tree_cong; use assms in \<open>simp add: same_links_def\<close>)+
     (use assms in \<open>simp add: same_links_def fun_eq_iff CBlockIndexWorkComparator_def\<close>)

lemma node_ok_same_links:
  assumes "same_links (index st) s'"
  shows "node_ok (st\<lparr>index := s'\<rparr>) = node_ok st"
proof -
  have f: "pprev (s' p) = pprev (index st p)" "pskip (s' p) = pskip (index st p)" "nTx (s' p) = nTx (index st p)"
    "nChainTx (s' p) = nChainTx (index st p)" "has_data (s' p) = has_data (index st p)" "nChainWork (s' p) = nChainWork (index st p)" for p
    using assms by (simp_all add: same_links_def)
  show ?thesis
    by (simp add: node_ok_def tree_ok_def tx_ok_def unlinked_ok_def candidates_ok_def active_ok_def addrs_def chain_tx_closed_def f
        same_links_wf [OF assms])
qed

lemma node_ok_simps [simp]:
  "node_ok (node.more_update f st) = node_ok st" "node_ok (st\<lparr>pindexBestInvalid := b\<rparr>) = node_ok st"
  "node_ok (st\<lparr>pindexBestHeader := b\<rparr>) = node_ok st" "node_ok (note_best_invalid p st) = node_ok st"
  by (simp_all add: node_ok_def addrs_def note_best_invalid_def split: option.split)

lemma node_okD:
  assumes "node_ok st"
  shows "tree_ok (index st) (addrs st)" "tx_ok (index st)" "unlinked_ok (index st) (mapBlocksUnlinked st)"
    "candidates_ok (index st) (setBlockIndexCandidates st)" "active_ok (index st) (addrs st) (chainActive st)"
    "wf_index (index st)" "wf_heights (index st)" "is_chain (index st) (chainActive st)"
    "nChainTx (index st p) \<noteq> 0 \<Longrightarrow> p \<in> addrs st" "wf_uint (nChainWork (index st p))"
    "pprev (index st p) = Some q \<Longrightarrow> q \<in> addrs st"
  using assms by (auto simp: node_ok_def tree_ok_def wf_index_def active_ok_def is_chain_def candidates_ok_def)

section \<open>Each operation keeps the invariant\<close>

lemma node_ok_candidates:
  "node_ok st \<Longrightarrow> candidates_ok (index st) cs \<Longrightarrow> node_ok (st\<lparr>setBlockIndexCandidates := cs\<rparr>)"
  by (simp add: node_ok_def addrs_def)

lemma node_ok_cand_erase [wf_intros]: "node_ok st \<Longrightarrow> node_ok (cand_erase p st)"
  using cand_erase_ok(1) [OF node_okD(4), of st p] node_ok_candidates [of st] by (simp add: cand_erase_def)

lemma node_ok_cand_insert [wf_intros]:
  assumes "node_ok st" and "nChainTx (index st p) \<noteq> 0"
  shows "node_ok (cand_insert p st)"
proof -
  have ok: "candidates_ok (index st) (setBlockIndexCandidates st)" by (rule node_okD(4) [OF assms(1)])
  then have s: "sorted_wrt (CBlockIndexWorkComparator (index st)) (setBlockIndexCandidates st)"
    and w: "set (setBlockIndexCandidates st) \<subseteq> {a. wf_uint (nChainWork (index st a))}" "p \<in> {a. wf_uint (nChainWork (index st a))}"
    by (auto simp: candidates_ok_def)
  have "candidates_ok (index st) (set_insert (CBlockIndexWorkComparator (index st)) p (setBlockIndexCandidates st))"
    using ok work.sorted_set_insert [OF w s] work.set_set_insert [OF w] assms(2) by (auto simp: candidates_ok_def)
  then show ?thesis using node_ok_candidates [OF assms(1)] by (simp add: cand_insert_def)
qed

lemma node_ok_upd_entry:
  assumes "node_ok st" and "same_links (index st) ((index st)(p := b))"
  shows "node_ok (upd_entry p (\<lambda>_. b) st)"
  using node_ok_same_links [OF assms(2)] assms(1) by (simp add: upd_entry_def)

lemma node_ok_status:
  assumes "node_ok st" and "f (nStatus (index st p)) AND BLOCK_HAVE_DATA = nStatus (index st p) AND BLOCK_HAVE_DATA"
  shows "node_ok (upd_entry p (\<lambda>b. b\<lparr>nStatus := f (nStatus b)\<rparr>) st)"
  using node_ok_upd_entry [OF assms(1), of p "(index st p)\<lparr>nStatus := f (nStatus (index st p))\<rparr>"] assms(2)
  by (simp add: upd_entry_def same_links_def has_data_def)

lemma node_ok_or_status [wf_intros]:
  "node_ok st \<Longrightarrow> node_ok (or_status BLOCK_FAILED_VALID p st)" "node_ok st \<Longrightarrow> node_ok (or_status BLOCK_FAILED_CHILD p st)"
  unfolding or_status_def by (rule node_ok_status; simp)+

lemma node_ok_clear_failed [wf_intros]: "node_ok st \<Longrightarrow> node_ok (clear_failed p st)"
  unfolding clear_failed_def
  by (rule node_ok_status) (simp_all add: and.assoc BLOCK_FAILED_MASK_def BLOCK_HAVE_DATA_def)

lemma addrs_simps [simp]:
  "addrs (cand_erase p st) = addrs st" "addrs (cand_insert p st) = addrs st" "addrs (or_status f p st) = addrs st"
  "addrs (clear_failed p st) = addrs st" "addrs (note_best_invalid p st) = addrs st" "addrs (upd_entry p g st) = addrs st"
  "addrs (node.more_update h st) = addrs st" "addrs (st\<lparr>chainActive := v\<rparr>) = addrs st"
  "addrs (st\<lparr>setBlockIndexCandidates := cs\<rparr>) = addrs st" "addrs (st\<lparr>pindexBestInvalid := b\<rparr>) = addrs st"
  "addrs (st\<lparr>index := s\<rparr>) = addrs st"
  by (simp_all add: addrs_def cand_insert_def clear_failed_def upd_entry_def)

lemma node_ok_SetTip:
  assumes "node_ok st" and "SetTip (index st) (chainActive st) x = Some v" and "\<And>p. x = Some p \<Longrightarrow> p \<in> addrs st"
  shows "node_ok (st\<lparr>chainActive := v\<rparr>)"
proof -
  have "active_ok (index st) (addrs st) v"
    using assms(2,3) tip_laws(1,2) [OF node_okD(7,8) [OF assms(1)]] by (cases x) (auto simp: active_ok_def)
  then show ?thesis using assms(1) by (simp add: node_ok_def addrs_def)
qed

lemma DisconnectTip_ok [wf_intros]:
  assumes "node_ok st" and "DisconnectTip env st = Some (ok, st')"
  shows "node_ok st' \<and> addrs st' = addrs st"
proof -
  obtain p where p: "Tip (chainActive st) = Some p" using assms(2) by (auto simp: DisconnectTip_def split: option.splits)
  obtain good e where e: "env_disconnect env p (node.more st) = (good, e)" by fastforce
  show ?thesis
  proof (cases good)
    case False
    then show ?thesis using assms p e by (auto simp: DisconnectTip_def)
  next
    case True
    then obtain v where "SetTip (index st) (chainActive st) (pprev (index st p)) = Some v"
      "st' = node.more_update (\<lambda>_. e) (st\<lparr>chainActive := v\<rparr>)"
      using assms(2) p e by (auto simp: DisconnectTip_def)
    then show ?thesis using node_ok_SetTip [OF assms(1)] node_okD(11) [OF assms(1)] by auto
  qed
qed

lemma RaiseValidity_links:
  assumes "RaiseValidity b f = Some (r, b')" and "f AND BLOCK_HAVE_DATA = 0"
  shows "b' = b\<lparr>nStatus := nStatus b'\<rparr>" "has_data b' = has_data b"
proof -
  have "(x AND NOT BLOCK_VALID_MASK OR f) AND BLOCK_HAVE_DATA = (x AND (NOT BLOCK_VALID_MASK AND BLOCK_HAVE_DATA)) OR (f AND BLOCK_HAVE_DATA)" for x :: u32
    by (simp add: bit.conj_disj_distrib2 and.assoc)
  moreover have "NOT BLOCK_VALID_MASK AND BLOCK_HAVE_DATA = (BLOCK_HAVE_DATA :: u32)"
    by (simp add: valid_mask mask_numeral BLOCK_HAVE_DATA_def)
  ultimately have "(x AND NOT BLOCK_VALID_MASK OR f) AND BLOCK_HAVE_DATA = x AND BLOCK_HAVE_DATA" for x :: u32
    using assms(2) by simp
  then show "b' = b\<lparr>nStatus := nStatus b'\<rparr>" "has_data b' = has_data b"
    using assms(1) by (auto simp: RaiseValidity_def has_data_def split: if_splits)
qed

lemma entry_connected_links:
  assumes "entry_connected g pos b = Some b'"
  shows "\<exists>u n. b' = b\<lparr>nUndoPos := u, nStatus := n\<rparr>" "has_data b' = has_data b"
proof -
  have un: "has_data (b\<lparr>nUndoPos := pos, nStatus := nStatus b OR BLOCK_HAVE_UNDO\<rparr>) = has_data b"
    by (simp add: has_data_def bit.conj_disj_distrib2 BLOCK_HAVE_UNDO_def BLOCK_HAVE_DATA_def)
  have sc: "BLOCK_VALID_SCRIPTS AND BLOCK_HAVE_DATA = 0" by (simp add: BLOCK_VALID_SCRIPTS_def BLOCK_HAVE_DATA_def)
  define c where "c = (if undo_null b then b\<lparr>nUndoPos := pos, nStatus := nStatus b OR BLOCK_HAVE_UNDO\<rparr> else b)"
  have c: "\<exists>u n. c = b\<lparr>nUndoPos := u, nStatus := n\<rparr>" "has_data c = has_data b"
  proof -
    have "b = b\<lparr>nUndoPos := nUndoPos b, nStatus := nStatus b\<rparr>" by simp
    then show "\<exists>u n. c = b\<lparr>nUndoPos := u, nStatus := n\<rparr>" unfolding c_def by metis
  qed (simp add: c_def un)
  consider "b' = b" | r where "RaiseValidity c BLOCK_VALID_SCRIPTS = Some (r, b')"
    using assms by (auto simp: entry_connected_def c_def split: if_splits option.splits)
  then have "(\<exists>u n. b' = b\<lparr>nUndoPos := u, nStatus := n\<rparr>) \<and> has_data b' = has_data b"
  proof cases
    case 1
    have "b = b\<lparr>nUndoPos := nUndoPos b, nStatus := nStatus b\<rparr>" by simp
    with 1 show ?thesis by metis
  next
    case 2
    obtain u n where "c = b\<lparr>nUndoPos := u, nStatus := n\<rparr>" using c(1) by blast
    then have "b' = b\<lparr>nUndoPos := u, nStatus := nStatus b'\<rparr>" using RaiseValidity_links(1) [OF 2 sc] by simp
    then show ?thesis using RaiseValidity_links(2) [OF 2 sc] c(2) by blast
  qed
  then show "\<exists>u n. b' = b\<lparr>nUndoPos := u, nStatus := n\<rparr>" "has_data b' = has_data b" by blast+
qed

lemma node_ok_entry_connected:
  assumes "node_ok st" and "entry_connected g pos (index st p) = Some b"
  shows "node_ok (upd_entry p (\<lambda>_. b) st)"
proof (rule node_ok_upd_entry [OF assms(1)])
  obtain u n where "b = (index st p)\<lparr>nUndoPos := u, nStatus := n\<rparr>" using entry_connected_links(1) [OF assms(2)] by blast
  then show "same_links (index st) ((index st)(p := b))"
    using entry_connected_links(2) [OF assms(2)] by (simp add: same_links_def)
qed

lemma InvalidChainFound_ok [wf_intros]:
  "node_ok st \<Longrightarrow> InvalidChainFound p st = Some st' \<Longrightarrow> node_ok st' \<and> addrs st' = addrs st"
  by (auto simp: InvalidChainFound_def split: if_splits)

lemma InvalidBlockFound_ok [wf_intros]:
  "node_ok st \<Longrightarrow> InvalidBlockFound p c st = Some st' \<Longrightarrow> node_ok st' \<and> addrs st' = addrs st"
  using InvalidChainFound_ok [of "cand_erase p (or_status BLOCK_FAILED_VALID p st)" p st']
    node_ok_cand_erase node_ok_or_status(1) [of st p]
  by (auto simp: InvalidBlockFound_def split: if_splits)

lemma prune_loop_dropWhile: "prune_loop s tip cs = dropWhile (\<lambda>c. CBlockIndexWorkComparator s c tip) cs"
  by (induction cs) simp_all

lemma PruneBlockIndexCandidates_ok [wf_intros]:
  assumes "node_ok st" and "PruneBlockIndexCandidates st = Some st'"
  shows "node_ok st' \<and> addrs st' = addrs st"
proof -
  obtain tip where st': "st' = st\<lparr>setBlockIndexCandidates := dropWhile (\<lambda>c. CBlockIndexWorkComparator (index st) c tip) (setBlockIndexCandidates st)\<rparr>"
    using assms(2) by (auto simp: PruneBlockIndexCandidates_def Let_def prune_loop_dropWhile split: if_splits option.splits)
  have "candidates_ok (index st) (dropWhile P (setBlockIndexCandidates st))" for P
    using node_okD(4) [OF assms(1)] by (auto simp: candidates_ok_def sorted_wrt_dropWhile dest: set_dropWhileD)
  then show ?thesis using node_ok_candidates [OF assms(1)] st' by simp
qed

lemma ConnectTip_ok [wf_intros]:
  assumes "node_ok st" and "p \<in> addrs st" and "ConnectTip env p st = Some (r, st')"
  shows "node_ok st' \<and> addrs st' = addrs st"
proof -
  obtain out e where e: "env_connect env p (node.more st) = (out, e)" by fastforce
  have par: "pprev (index st p) = Tip (chainActive st)" using assms(3) by (auto simp: ConnectTip_def split: if_splits)
  show ?thesis
  proof (cases out)
    case (Connected pos)
    then obtain b v where b: "entry_connected (hashGenesisBlock env) pos (index st p) = Some b"
      and v: "SetTip (index (upd_entry p (\<lambda>_. b) st)) (chainActive st) (Some p) = Some v"
      and st': "st' = (upd_entry p (\<lambda>_. b) (node.more_update (\<lambda>_. e) st))\<lparr>chainActive := v\<rparr>"
      using assms(3) par e by (auto simp: ConnectTip_def Let_def upd_entry_def split: option.splits)
    have "node_ok (upd_entry p (\<lambda>_. b) (node.more_update (\<lambda>_. e) st))"
      by (rule node_ok_entry_connected) (use assms(1) b in simp_all)
    then have "node_ok st'" unfolding st' by (rule node_ok_SetTip) (use v assms(2) in \<open>auto simp: upd_entry_def addrs_def\<close>)
    then show ?thesis by (simp add: st')
  next
    case (BlockInvalid c)
    then show ?thesis using assms par e InvalidBlockFound_ok [of "node.more_update (\<lambda>_. e) st" p c st'] by (auto simp: ConnectTip_def)
  next
    case (SystemError po)
    show ?thesis
    proof (cases po)
      case None
      then show ?thesis using SystemError assms par e by (auto simp: ConnectTip_def)
    next
      case (Some pos)
      then obtain b where b: "entry_connected (hashGenesisBlock env) pos (index st p) = Some b"
        and st': "st' = upd_entry p (\<lambda>_. b) (node.more_update (\<lambda>_. e) st)"
        using assms(3) par e SystemError by (auto simp: ConnectTip_def)
      have "node_ok st'" unfolding st' by (rule node_ok_entry_connected) (use assms(1) b in simp_all)
      then show ?thesis by (simp add: st')
    qed
  qed
qed

lemma FindMostWorkChain_ok:
  assumes "node_ok st"
  shows "\<exists>st' r. FindMostWorkChain st = Some (st', r) \<and> node_ok st' \<and> addrs st' = addrs st \<and> (\<forall>b. r = Some b \<longrightarrow> b \<in> addrs st)"
proof -
  obtain st' r where f: "FindMostWorkChain st = Some (st', r)"
     "marks (index st) (chainActive st) (index st')" "chainActive st' = chainActive st"
     "candidates_ok (index st') (setBlockIndexCandidates st')" "mapBlockIndex st' = mapBlockIndex st"
     "(\<forall>p. nChainTx (index st p) \<noteq> 0 \<longrightarrow> has_data (index st p)) \<longrightarrow> mapBlocksUnlinked st' = mapBlocksUnlinked st"
     "set (setBlockIndexCandidates st') \<subseteq> set (setBlockIndexCandidates st)"
     "case r of None \<Rightarrow> setBlockIndexCandidates st' = []
      | Some b \<Rightarrow> setBlockIndexCandidates st' \<noteq> [] \<and> b = last (setBlockIndexCandidates st') \<and> usable (index st) (chainActive st) (Some b)"
    using FindMostWorkChain_spec [OF node_okD(4) [OF assms]] by (elim exE conjE) (rule that)
  have same: "same_links (index st) (index st')" by (simp add: same_links_def marks_fields [OF f(2)])
  have ul: "mapBlocksUnlinked st' = mapBlocksUnlinked st" using f(6) node_okD(2) [OF assms] by (auto simp: tx_ok_def)
  have "node_ok (st\<lparr>index := index st'\<rparr>)" using node_ok_same_links [OF same] assms by simp
  then have "node_ok st'" using f(3-5) ul by (simp add: node_ok_def addrs_def)
  moreover have "b \<in> addrs st" if "r = Some b" for b
  proof -
    have "b \<in> set (setBlockIndexCandidates st)" using f(7,8) that by auto
    then show ?thesis using node_okD(4) [OF assms] node_okD(9) [OF assms] by (auto simp: candidates_ok_def)
  qed
  ultimately show ?thesis using f(1,5) by (auto simp: addrs_def)
qed

lemma disconnect_to_ok:
  "disconnect_to env x st = Some r \<Longrightarrow> node_ok st \<Longrightarrow> node_ok (snd r) \<and> addrs (snd r) = addrs st"
proof (induction rule: disconnect_to.raw_induct [rotated, consumes 1])
  case (1 f env x st r)
  show ?case
  proof (cases "Tip (chainActive st) = None \<or> Tip (chainActive st) = x")
    case False
    then obtain ok st1 where d: "DisconnectTip env st = Some (ok, st1)" "(if ok then f env x st1 else Some (False, st1)) = Some r"
      using "1.hyps" by (auto split: option.splits)
    then show ?thesis using DisconnectTip_ok [OF "1.prems" d(1)] "1.IH" by (cases ok) auto
  qed (use 1 in auto)
qed

lemma blocks_down_to_addrs:
  "blocks_down_to s h x acc = Some r \<Longrightarrow> (\<forall>p q. pprev (s p) = Some q \<longrightarrow> q \<in> A) \<Longrightarrow> (\<forall>p. x = Some p \<longrightarrow> p \<in> A) \<Longrightarrow>
   set acc \<subseteq> A \<Longrightarrow> set r \<subseteq> A"
proof (induction rule: blocks_down_to.raw_induct [rotated, consumes 1])
  case (1 f s h x acc r)
  then show ?case by (auto split: option.splits if_splits)
qed

lemma connect_blocks_ok:
  "connect_blocks env old l ps st = Some r \<Longrightarrow> node_ok st \<Longrightarrow> set ps \<subseteq> addrs st \<Longrightarrow> node_ok (snd r) \<and> addrs (snd r) = addrs st"
proof (induction ps arbitrary: st)
  case (Cons p ps)
  obtain out st1 where c: "ConnectTip env p st = Some (out, st1)" using Cons.prems(1) by (auto split: option.splits)
  have ok1: "node_ok st1" "addrs st1 = addrs st" using ConnectTip_ok [OF Cons.prems(2) _ c] Cons.prems(3) by simp_all
  show ?case
  proof (cases out)
    case (Connected pos)
    note step = Cons.prems(1) [unfolded connect_blocks.simps c option.case prod.case Connected connect_outcome.case]
    obtain st2 where st2: "PruneBlockIndexCandidates st1 = Some st2" using step by (cases "PruneBlockIndexCandidates st1") simp_all
    have ok2: "node_ok st2" "addrs st2 = addrs st" using PruneBlockIndexCandidates_ok [OF ok1(1) st2] ok1(2) by simp_all
    have "r = (Improved, st2) \<or> connect_blocks env old l ps st2 = Some r"
      using step [unfolded st2 option.case] by (auto split: option.splits if_splits)
    then show ?thesis using ok2 Cons.IH [of st2] Cons.prems(3) by (elim disjE) simp_all
  next
    case (BlockInvalid cr)
    then show ?thesis using Cons.prems(1) c ok1 InvalidChainFound_ok [OF ok1(1)] by (auto split: if_splits)
  next
    case (SystemError po)
    then have "r = (StepFailed, st1)" using Cons.prems(1) c by simp
    then show ?thesis using ok1 by simp
  qed
qed auto

lemma nth_prev_addrs: "node_ok st \<Longrightarrow> p \<in> addrs st \<Longrightarrow> nth_prev (index st) n p = Some q \<Longrightarrow> q \<in> addrs st"
  by (induction n arbitrary: p) (auto dest: node_okD(11) split: option.splits)

lemma GetAncestor_addrs:
  assumes "node_ok st" and "p \<in> addrs st" and "GetAncestor (index st) p h = Some (Some q)"
  shows "q \<in> addrs st"
proof -
  have "0 \<le> h \<and> h \<le> nHeight (index st p)" using assms(3) by (auto simp: GetAncestor_def split: if_splits)
  then show ?thesis
    using GetAncestor_Some [OF node_okD(6) [OF assms(1)], of h p] assms(3) nth_prev_addrs [OF assms(1,2)] by auto
qed

lemma connect_batches_ok:
  "connect_batches env old m h st = Some r \<Longrightarrow> node_ok st \<Longrightarrow> m \<in> addrs st \<Longrightarrow> node_ok (snd r) \<and> addrs (snd r) = addrs st"
proof (induction rule: connect_batches.raw_induct [rotated, consumes 1])
  case (1 f env old m h st r)
  show ?case
  proof (cases "h = nHeight (index st m)")
    case False
    define t where "t = min (h + 32) (nHeight (index st m))"
    obtain q ps out st1 where q: "GetAncestor (index st) m t = Some q" "blocks_down_to (index st) h q [] = Some ps"
      "connect_blocks env old (last ps) (rev ps) st = Some (out, st1)"
      using "1.hyps" False by (auto simp: Let_def t_def split: option.splits)
    have "set ps \<subseteq> addrs st"
      using blocks_down_to_addrs [OF q(2), of "addrs st"] node_okD(11) [OF "1.prems"(1)] GetAncestor_addrs [OF "1.prems"] q(1)
      by auto
    then have ok1: "node_ok st1" "addrs st1 = addrs st" using connect_blocks_ok [OF q(3) "1.prems"(1)] by simp_all
    show ?thesis
    proof (cases "out = AllConnected")
      case True
      then have "f env old m t st1 = Some r" using "1.hyps" False q by (simp add: Let_def t_def)
      then show ?thesis using "1.IH" ok1 "1.prems"(2) by simp
    next
      case out: False
      then have "r = (out, st1)" using "1.hyps" False q by (cases out) (auto simp: Let_def t_def)
      then show ?thesis using ok1 by simp
    qed
  qed (use 1 in auto)
qed

lemma ActivateBestChainStep_ok:
  assumes "node_ok st" and "m \<in> addrs st" and "ActivateBestChainStep env m st = Some (r, st')"
  shows "node_ok st' \<and> addrs st' = addrs st"
proof -
  obtain x ok st1 where x: "FindFork (index st) (chainActive st) (Some m) = Some x" "disconnect_to env x st = Some (ok, st1)"
    using assms(3) by (auto simp: ActivateBestChainStep_def split: option.splits)
  have ok1: "node_ok st1" "addrs st1 = addrs st" using disconnect_to_ok [OF x(2) assms(1)] by simp_all
  show ?thesis
  proof (cases ok)
    case False
    then show ?thesis using assms(3) x ok1 by (auto simp: ActivateBestChainStep_def)
  next
    case True
    define h where "h = (case x of None \<Rightarrow> - 1 | Some f \<Rightarrow> nHeight (index st f))"
    have step: "(case connect_batches env (Tip (chainActive st)) m h st1 of None \<Rightarrow> None
        | Some (r2, st2) \<Rightarrow>
            if r2 = StepFailed \<or> Tip (chainActive st) = None \<or> Tip (chainActive st) = x then Some (r2, st2)
            else if Tip (chainActive st2) = None then None else Some (r2, node.more_update (env_reorg env) st2)) = Some (r, st')"
      using assms(3) x True by (simp add: ActivateBestChainStep_def h_def)
    then obtain r2 st2 where b: "connect_batches env (Tip (chainActive st)) m h st1 = Some (r2, st2)"
      by (cases "connect_batches env (Tip (chainActive st)) m h st1") auto
    have ok2: "node_ok st2" "addrs st2 = addrs st" using connect_batches_ok [OF b ok1(1)] ok1(2) assms(2) by simp_all
    have "st' = st2 \<or> st' = node.more_update (env_reorg env) st2"
      using step [unfolded b option.case prod.case]
      by (auto simp only: option.inject prod.inject option.distinct split: if_split_asm)
    then show ?thesis using ok2 by (elim disjE) (simp_all only: node_ok_simps addrs_simps)
  qed
qed

lemma ActivateBestChain_ok:
  "ActivateBestChain env x st = Some r \<Longrightarrow> node_ok st \<Longrightarrow> (\<forall>m. x = Some m \<longrightarrow> m \<in> addrs st) \<Longrightarrow>
   node_ok (snd r) \<and> addrs (snd r) = addrs st"
proof (induction rule: ActivateBestChain.raw_induct [rotated, consumes 1])
  case (1 f env x st r)
  have fin: "node_ok (snd (finish_activation env st2)) = node_ok st2" "addrs (snd (finish_activation env st2)) = addrs st2" for st2
    by (simp_all add: finish_activation_def split: prod.split)
  show ?case
  proof (cases "env_shutdown env (node.more st)")
    case False
    obtain st1 y where y: "(case x of None \<Rightarrow> FindMostWorkChain st | Some m \<Rightarrow> Some (st, Some m)) = Some (st1, y)"
      using "1.hyps" False by (auto split: option.splits prod.splits)
    have ok1: "node_ok st1" "addrs st1 = addrs st" "\<forall>m. y = Some m \<longrightarrow> m \<in> addrs st"
    proof -
      have "node_ok st1 \<and> addrs st1 = addrs st \<and> (\<forall>m. y = Some m \<longrightarrow> m \<in> addrs st)"
      proof (cases x)
        case None
        then show ?thesis using y FindMostWorkChain_ok [OF "1.prems"(1)] by force
      next
        case (Some m)
        then show ?thesis using y "1.prems" by force
      qed
      then show "node_ok st1" "addrs st1 = addrs st" "\<forall>m. y = Some m \<longrightarrow> m \<in> addrs st" by blast+
    qed
    show ?thesis
    proof (cases y)
      case None
      then have "r = (True, st1)" using "1.hyps" False y by simp
      then show ?thesis using ok1 by simp
    next
      case (Some m)
      show ?thesis
      proof (cases "Tip (chainActive st1) = Some m")
        case True
        then have "r = (True, st1)" using "1.hyps" False y Some by simp
        then show ?thesis using ok1 by simp
      next
        case tip: False
        obtain o2 st2 where s: "ActivateBestChainStep env m st1 = Some (o2, st2)"
          using "1.hyps" False y Some tip by (auto split: option.splits)
        have ok2: "node_ok st2" "addrs st2 = addrs st" using ActivateBestChainStep_ok [OF ok1(1) _ s] ok1(2,3) Some by simp_all
        define w where "w = (if o2 = InvalidFound then None else Some m)"
        have "r = (False, st2) \<or> r = finish_activation env st2 \<or> f env w st2 = Some r"
          using "1.hyps" False y Some tip s by (simp add: Let_def w_def [symmetric] split: if_splits)
        moreover have "\<forall>m. w = Some m \<longrightarrow> m \<in> addrs st2" using ok1(3) ok2(2) Some by (simp add: w_def)
        ultimately show ?thesis using ok2 fin "1.IH" [of env w st2 r] by (elim disjE) simp_all
      qed
    qed
  qed (use 1 fin in auto)
qed

lemma invalidate_loop_ok:
  "invalidate_loop env p st = Some r \<Longrightarrow> node_ok st \<Longrightarrow> node_ok (snd r) \<and> addrs (snd r) = addrs st"
proof (induction rule: invalidate_loop.raw_induct [rotated, consumes 1])
  case (1 f env p st r)
  show ?case
  proof (cases "Contains (index st) (chainActive st) p")
    case True
    then obtain w where w: "Tip (chainActive st) = Some w" using "1.hyps" by (cases "Tip (chainActive st)") simp_all
    define st0 where "st0 = cand_erase w (or_status BLOCK_FAILED_CHILD w st)"
    have ok0: "node_ok st0" "addrs st0 = addrs st" using "1.prems" by (simp_all add: st0_def node_ok_cand_erase node_ok_or_status)
    obtain ok st1 where d: "DisconnectTip env st0 = Some (ok, st1)"
      using "1.hyps" True w by (cases "DisconnectTip env st0") (auto simp: st0_def)
    have ok1: "node_ok st1" "addrs st1 = addrs st" using DisconnectTip_ok [OF ok0(1) d] ok0(2) by simp_all
    have "(if ok then f env p st1 else Some (False, st1)) = Some r" using "1.hyps" True w d by (simp add: st0_def)
    then have "f env p st1 = Some r \<or> r = (False, st1)" by (simp split: if_splits)
    then show ?thesis using ok1 "1.IH" [of env p st1 r] by (elim disjE) simp_all
  next
    case False
    then have "r = (True, st)" using "1.hyps" by simp
    then show ?thesis using "1.prems" by simp
  qed
qed

lemma readd_candidates_ok:
  "readd_candidates t ps st = Some st' \<Longrightarrow> node_ok st \<Longrightarrow> node_ok st' \<and> addrs st' = addrs st"
proof (induction ps arbitrary: st)
  case (Cons p ps)
  obtain v where v: "IsValid (index st p) BLOCK_VALID_TRANSACTIONS = Some v"
    using Cons.prems(1) by (cases "IsValid (index st p) BLOCK_VALID_TRANSACTIONS") simp_all
  define st1 where "st1 = (if v \<and> nChainTx (index st p) \<noteq> 0 \<and> \<not> CBlockIndexWorkComparator (index st) p t then cand_insert p st else st)"
  have "readd_candidates t ps st1 = Some st'" using Cons.prems(1) v by (simp add: st1_def)
  moreover have "node_ok st1" "addrs st1 = addrs st" using Cons.prems(2) by (simp_all add: st1_def node_ok_cand_insert)
  ultimately show ?case using Cons.IH by simp
qed simp

lemma InvalidateBlock_ok [wf_intros]:
  assumes "node_ok st" and "InvalidateBlock env p st = Some (r, st')"
  shows "node_ok st' \<and> addrs st' = addrs st"
proof -
  define st0 where "st0 = cand_erase p (or_status BLOCK_FAILED_VALID p st)"
  have ok0: "node_ok st0" "addrs st0 = addrs st" using assms(1) by (simp_all add: st0_def node_ok_cand_erase node_ok_or_status)
  note step = assms(2) [unfolded InvalidateBlock_def, folded st0_def]
  obtain ok st1 where l: "invalidate_loop env p st0 = Some (ok, st1)"
    using step by (cases "invalidate_loop env p st0") auto
  have ok1: "node_ok st1" "addrs st1 = addrs st" using invalidate_loop_ok [OF l ok0(1)] ok0(2) by simp_all
  obtain tip where t: "Tip (chainActive st1) = Some tip" using step l by (cases "Tip (chainActive st1)") simp_all
  show ?thesis
  proof (cases ok)
    case False
    then have "st' = node.more_update (env_reorg env) st1" using step l t by simp
    then show ?thesis using ok1 by simp
  next
    case True
    obtain st2 where a: "readd_candidates tip (map snd (mapBlockIndex st1)) st1 = Some st2"
      using step l t True by (cases "readd_candidates tip (map snd (mapBlockIndex st1)) st1") simp_all
    have ok2: "node_ok st2" "addrs st2 = addrs st" using readd_candidates_ok [OF a ok1(1)] ok1(2) by simp_all
    obtain st3 where i: "InvalidChainFound p st2 = Some st3"
      using step l t True a by (cases "InvalidChainFound p st2") simp_all
    then have "st' = node.more_update (env_reorg env) st3" using step l t True a by simp
    then show ?thesis using InvalidChainFound_ok [OF ok2(1) i] ok2(2) by simp
  qed
qed

lemma reconsider_entry_ok:
  assumes "node_ok st" and "reconsider_entry h x p st = Some st'"
  shows "node_ok st' \<and> addrs st' = addrs st"
proof -
  define st1 where "st1 = clear_failed p st"
  have ok1: "node_ok st1" "addrs st1 = addrs st" using assms(1) by (simp_all add: st1_def node_ok_clear_failed)
  define good where "good y \<longleftrightarrow> node_ok y \<and> addrs y = addrs st" for y :: "'a node_scheme"
  have g: "good st" "good st1" "nChainTx (index st1 p) \<noteq> 0 \<Longrightarrow> good (cand_insert p st1)"
    using assms(1) ok1 node_ok_cand_insert by (simp_all add: good_def)
  have f: "good (if pindexBestInvalid y = Some p then y\<lparr>pindexBestInvalid := None\<rparr> else y) = good y" for y by (simp add: good_def)
  note step = assms(2) [unfolded reconsider_entry_def Let_def, folded st1_def]
  obtain v where v: "IsValid (index st p) BLOCK_VALID_TRANSACTIONS = Some v"
    using step by (cases "IsValid (index st p) BLOCK_VALID_TRANSACTIONS") simp_all
  have "good st'"
  proof (cases v)
    case True
    then show ?thesis using step v g(1) by simp
  next
    case False
    obtain anc where anc: "GetAncestor (index st) p h = Some anc" using step v False by (cases "GetAncestor (index st) p h") simp_all
    show ?thesis
    proof (cases "anc = Some x")
      case False
      then show ?thesis using step v \<open>\<not> v\<close> anc g(1) by simp
    next
      case True
      obtain v1 where v1: "IsValid (index st1 p) BLOCK_VALID_TRANSACTIONS = Some v1"
        using step v False anc True by (cases "IsValid (index st1 p) BLOCK_VALID_TRANSACTIONS") simp_all
      show ?thesis
      proof (cases "v1 \<and> nChainTx (index st1 p) \<noteq> 0")
        case linked: True
        obtain tip where tip: "Tip (chainActive st1) = Some tip"
          using step v False anc True v1 linked by (cases "Tip (chainActive st1)") simp_all
        define y where "y = (if CBlockIndexWorkComparator (index st1) tip p then cand_insert p st1 else st1)"
        have "st' = (if pindexBestInvalid y = Some p then y\<lparr>pindexBestInvalid := None\<rparr> else y)"
          using step v False anc True v1 linked tip by (simp only: y_def option.case bool.case option.inject if_True if_False simp_thms)
        moreover have "good y" using g linked by (simp add: y_def)
        ultimately show ?thesis using f [of y] by (simp only:)
      next
        case unlinked: False
        have "st' = (if pindexBestInvalid st1 = Some p then st1\<lparr>pindexBestInvalid := None\<rparr> else st1)"
          using step v False anc True v1 unlinked by (simp only: option.case bool.case option.inject if_False simp_thms)
        then show ?thesis using f g by simp
      qed
    qed
  qed
  then show ?thesis by (simp add: good_def)
qed

lemma reconsider_pass_ok:
  "reconsider_pass h x ps st = Some st' \<Longrightarrow> node_ok st \<Longrightarrow> node_ok st' \<and> addrs st' = addrs st"
proof (induction ps arbitrary: st)
  case (Cons p ps)
  obtain st1 where s: "reconsider_entry h x p st = Some st1" "reconsider_pass h x ps st1 = Some st'"
    using Cons.prems(1) by (cases "reconsider_entry h x p st") simp_all
  then show ?case using reconsider_entry_ok [OF Cons.prems(2) s(1)] Cons.IH [OF s(2)] by simp
qed simp

lemma clear_ancestors_ok:
  "clear_ancestors x st = Some st' \<Longrightarrow> node_ok st \<Longrightarrow> node_ok st' \<and> addrs st' = addrs st"
proof (induction rule: clear_ancestors.raw_induct [rotated, consumes 1])
  case (1 f x st r)
  show ?case
  proof (cases x)
    case (Some p)
    define st1 where "st1 = (if is_failed (index st p) then clear_failed p st else st)"
    have "node_ok st1" "addrs st1 = addrs st" using "1.prems" by (simp_all add: st1_def node_ok_clear_failed)
    moreover have "f (pprev (index st p)) st1 = Some r" using "1.hyps" Some by (simp add: st1_def)
    ultimately show ?thesis using "1.IH" by simp
  qed (use 1 in simp)
qed

lemma ReconsiderBlock_ok [wf_intros]:
  assumes "node_ok st" and "ReconsiderBlock p st = Some st'"
  shows "node_ok st' \<and> addrs st' = addrs st"
proof -
  obtain st1 where s: "reconsider_pass (nHeight (index st p)) p (map snd (mapBlockIndex st)) st = Some st1" "clear_ancestors (Some p) st1 = Some st'"
    using assms(2) by (cases "reconsider_pass (nHeight (index st p)) p (map snd (mapBlockIndex st)) st") (simp_all add: ReconsiderBlock_def)
  then show ?thesis using reconsider_pass_ok [OF s(1) assms(1)] clear_ancestors_ok [OF s(2)] by simp
qed

section \<open>New headers\<close>

lemma nth_prev_insert:
  assumes "\<And>p q. pprev (s p) = Some q \<Longrightarrow> q \<noteq> new" and "p \<noteq> new"
  shows "nth_prev (s(new := b)) n p = nth_prev s n p"
  using assms(2) by (induction n arbitrary: p) (auto dest: assms(1) split: option.split)

lemma insert_tree:
  assumes "\<And>p q. pprev (s p) = Some q \<Longrightarrow> q \<noteq> new" and "p \<noteq> new"
  shows "chain_of (s(new := b)) p = chain_of s p" "ancestors (s(new := b)) p = ancestors s p"
  by (simp_all add: chain_of_def ancestors_def nth_prev_insert [OF assms] assms(2))

lemma wf_index_insert:
  assumes "wf_index s" and new: "\<And>p q. pprev (s p) = Some q \<Longrightarrow> q \<noteq> new" and "pskip b = None"
    and "pprev b = None \<and> nHeight b = 0 \<or> (\<exists>q. q \<noteq> new \<and> pprev b = Some q \<and> nHeight b = nHeight (s q) + 1)"
  shows "wf_index (s(new := b))"
proof -
  have wf: "wf_heights s" using assms(1) by (simp add: wf_index_def)
  have "case pprev ((s(new := b)) p) of None \<Rightarrow> nHeight ((s(new := b)) p) = 0
         | Some q \<Rightarrow> 0 < nHeight ((s(new := b)) p) \<and> nHeight ((s(new := b)) q) = nHeight ((s(new := b)) p) - 1" for p
  proof (cases "p = new")
    case True
    then show ?thesis using assms(4) wf_height_nonneg [OF wf] by (auto simp: add_pos_nonneg add_nonneg_pos)
  next
    case False
    then show ?thesis
      using new [of p] wf_pprev_None [OF wf, of p] wf_pprev [OF wf, of p] wf_height_nonneg [OF wf]
      by (cases "pprev (s p)") (auto simp: add_nonneg_pos)
  qed
  then have "wf_heights (s(new := b))" unfolding wf_heights_def by blast
  moreover have "skip_ok (s(new := b)) p" for p
  proof (cases "p = new")
    case False
    then have "skip_ok (s(new := b)) p = skip_ok s p" by (simp add: skip_ok_def nth_prev_insert [OF new] split: option.split)
    then show ?thesis using assms(1) by (simp add: wf_index_def)
  qed (simp add: skip_ok_def assms(3))
  ultimately show ?thesis by (simp add: wf_index_def)
qed

lemma sorted_candidates_cong:
  assumes "\<And>c. c \<in> set cs \<Longrightarrow> nChainWork (s' c) = nChainWork (s c) \<and> nSequenceId (s' c) = nSequenceId (s c)"
    and "sorted_wrt (CBlockIndexWorkComparator s) cs"
  shows "sorted_wrt (CBlockIndexWorkComparator s') cs"
proof (rule sorted_wrt_mono_rel [OF _ assms(2)])
  fix a b assume "a \<in> set cs" "b \<in> set cs" "CBlockIndexWorkComparator s a b"
  then show "CBlockIndexWorkComparator s' a b" using assms(1) CBlockIndexWorkComparator_cong [of s' a s b] by simp
qed

lemma node_ok_insert:
  assumes ok: "node_ok st" and new: "new \<notin> addrs st" and wf: "wf_index ((index st)(new := b))"
    and b: "nChainTx b = 0" "\<not> has_data b" "wf_uint (nChainWork b)" "\<And>q. pprev b = Some q \<Longrightarrow> q \<in> addrs st"
  shows "node_ok (st\<lparr>index := (index st)(new := b), mapBlockIndex := (hash, new) # mapBlockIndex st, pindexBestHeader := best\<rparr>)"
proof -
  define s s' where "s = index st" and "s' = (index st)(new := b)"
  have par: "q \<in> addrs st" "q \<noteq> new" if "pprev (s p) = Some q" for p q
    using node_okD(11) [OF ok, of p q] that new by (auto simp: s_def)
  have A: "addrs (st\<lparr>index := (index st)(new := b), mapBlockIndex := (hash, new) # mapBlockIndex st, pindexBestHeader := best\<rparr>) = insert new (addrs st)"
    by (simp add: addrs_def)
  have linked: "p \<in> addrs st" if "nChainTx (s p) \<noteq> 0 \<or> has_data (s p)" for p
    using node_okD(1) [OF ok] that by (auto simp: tree_ok_def s_def)
  then have out: "nChainTx (s new) = 0" "\<not> has_data (s new)" using new by auto
  have tree: "tree_ok s' (insert new (addrs st))"
    using node_okD(1) [OF ok] wf b(4) by (auto simp: tree_ok_def s'_def)
  have anc: "ancestors s' p = ancestors s p" "new \<notin> ancestors s p" if "p \<in> addrs st" for p
    using insert_tree(2) [of s new p b] par(2) that new nth_prev_addrs [OF ok that] by (auto simp: s'_def s_def ancestors_def)
  have tx: "tx_ok s'"
  proof -
    have "(nChainTx (s' p) \<noteq> 0 \<longrightarrow> has_data (s' p) \<and> unat (nChainTx (s' p)) = (\<Sum>q \<in> ancestors s' p. unat (nTx (s' q))))
          \<and> (has_data (s' p) \<longrightarrow> nTx (s' p) \<noteq> 0)" for p
    proof (cases "p = new")
      case False
      then have same: "s' p = s p" by (simp add: s'_def s_def)
      have "(\<Sum>q \<in> ancestors s' p. unat (nTx (s' q))) = (\<Sum>q \<in> ancestors s p. unat (nTx (s q)))" if "p \<in> addrs st"
        using anc [OF that] by (auto simp: s'_def s_def intro!: sum.cong)
      then show ?thesis using node_okD(2) [OF ok] linked [of p] same by (auto simp: tx_ok_def s_def)
    qed (simp add: s'_def b)
    then show ?thesis by (simp add: tx_ok_def)
  qed
  have ul: "unlinked_ok s' (mapBlocksUnlinked st)"
    using node_okD(3) [OF ok] out(2) by (fastforce simp: unlinked_ok_def s'_def s_def)
  have c: "candidates_ok s (setBlockIndexCandidates st)" using node_okD(4) [OF ok] by (simp add: s_def)
  then have cn: "c \<noteq> new" if "c \<in> set (setBlockIndexCandidates st)" for c using that out(1) by (auto simp: candidates_ok_def)
  have "sorted_wrt (CBlockIndexWorkComparator s') (setBlockIndexCandidates st)"
    by (rule sorted_candidates_cong [of _ _ s]) (use c cn in \<open>auto simp: candidates_ok_def s'_def s_def\<close>)
  moreover have "chain_tx_closed s'" using c b par(2) out by (auto simp: candidates_ok_def chain_tx_closed_def s'_def s_def)
  ultimately have cand: "candidates_ok s' (setBlockIndexCandidates st)"
    using c cn wf b by (auto simp: candidates_ok_def s'_def s_def wf_index_def)
  have act: "active_ok s' (insert new (addrs st)) (chainActive st)"
  proof (cases "chainActive st = []")
    case False
    then obtain p where p: "p \<in> addrs st" "chainActive st = chain_of s p" using node_okD(5) [OF ok] by (auto simp: active_ok_def s_def)
    then have "chain_of s' p = chain_of s p"
      unfolding s'_def s_def [symmetric] using new par(2) by (intro insert_tree(1)) auto
    then have "chainActive st = chain_of s' p" using p by simp
    then show ?thesis using p(1) unfolding active_ok_def by blast
  qed (simp add: active_ok_def)
  show ?thesis
    using tree tx ul cand act unfolding node_ok_def A by (simp add: s'_def)
qed

text \<open>The entry that \<^verbatim>\<open>AddToBlockIndex\<close> links: without a parent, or below a known entry with its skip pointer.\<close>

lemma link_header:
  assumes ok: "node_ok st" and new: "new \<notin> addrs st" and prev: "\<And>q. prev = Some q \<Longrightarrow> q \<in> addrs st"
    and b: "pprev b = None" "pskip b = None" "nHeight b = 0"
  shows "\<exists>s1. (case prev of None \<Rightarrow> Some ((index st)(new := b))
              | Some q \<Rightarrow> BuildSkip ((index st)(new := b, new := b\<lparr>pprev := Some q, nHeight := nHeight (((index st)(new := b)) q) + 1\<rparr>)) new) = Some s1
          \<and> wf_index s1 \<and> (\<exists>h k. s1 = (index st)(new := b\<lparr>pprev := prev, nHeight := h, pskip := k\<rparr>))"
proof -
  have un: "q \<noteq> new" if "pprev (index st p) = Some q" for p q using node_okD(11) [OF ok that] new by auto
  show ?thesis
  proof (cases prev)
    case None
    define sb where "sb = (index st)(new := b)"
    have "b = b\<lparr>pprev := prev, nHeight := 0, pskip := None\<rparr>" using b None by simp
    then have "\<exists>h k. sb = (index st)(new := b\<lparr>pprev := prev, nHeight := h, pskip := k\<rparr>)" unfolding sb_def by metis
    moreover have "wf_index sb" unfolding sb_def by (rule wf_index_insert [OF node_okD(6) [OF ok] un]) (use b in auto)
    ultimately show ?thesis unfolding None option.case sb_def [symmetric] by blast
  next
    case (Some q)
    have q: "q \<noteq> new" using prev [OF Some] new by auto
    define c where "c = b\<lparr>pprev := Some q, nHeight := nHeight (index st q) + 1\<rparr>"
    define sa where "sa = (index st)(new := c)"
    have "wf_index sa" unfolding sa_def by (rule wf_index_insert [OF node_okD(6) [OF ok] un]) (use b q in \<open>auto simp: c_def\<close>)
    moreover have "pprev (sa new) = Some q" "pskip (sa new) = None" using b by (simp_all add: sa_def c_def)
    ultimately obtain k where k: "BuildSkip sa new = Some (sa(new := (sa new)\<lparr>pskip := Some k\<rparr>))"
      "wf_index (sa(new := (sa new)\<lparr>pskip := Some k\<rparr>))" using BuildSkip_wf by blast
    moreover have "sa(new := (sa new)\<lparr>pskip := Some k\<rparr>) = (index st)(new := b\<lparr>pprev := prev, nHeight := nHeight (index st q) + 1, pskip := Some k\<rparr>)"
      by (simp add: sa_def c_def Some)
    moreover have "nHeight (((index st)(new := b)) q) = nHeight (index st q)" using q by simp
    ultimately show ?thesis using Some unfolding sa_def c_def by auto
  qed
qed

lemma AddToBlockIndex_ok:
  assumes ok: "node_ok st" and new: "new \<notin> addrs st" and hash: "hdr_hashPrevBlock block \<noteq> hash"
  shows "\<exists>st' p. AddToBlockIndex hash new block st = Some (st', p) \<and> node_ok st' \<and> map_of (mapBlockIndex st') hash = Some p
           \<and> tx_total st' = tx_total st"
proof (cases "map_of (mapBlockIndex st) hash")
  case (Some p)
  then show ?thesis using ok by (simp add: AddToBlockIndex_def)
next
  case None
  define b where "b = (CBlockIndex_of block)\<lparr>nSequenceId := 0, phashBlock := hash\<rparr>"
  define prev where "prev = map_of (mapBlockIndex st) (hdr_hashPrevBlock block)"
  have known: "q \<in> addrs st" if "prev = Some q" for q
    using that by (auto simp: prev_def addrs_def dest!: map_of_SomeD intro: rev_image_eqI)
  have "\<exists>s1. (case prev of None \<Rightarrow> Some ((index st)(new := b))
              | Some q \<Rightarrow> BuildSkip ((index st)(new := b, new := b\<lparr>pprev := Some q, nHeight := nHeight (((index st)(new := b)) q) + 1\<rparr>)) new) = Some s1
          \<and> wf_index s1 \<and> (\<exists>h k. s1 = (index st)(new := b\<lparr>pprev := prev, nHeight := h, pskip := k\<rparr>))"
    by (rule link_header [OF ok new known]) (simp_all add: b_def CBlockIndex_of_def)
  then obtain s1 h k where link: "(case prev of None \<Rightarrow> Some ((index st)(new := b))
        | Some q \<Rightarrow> BuildSkip ((index st)(new := b, new := b\<lparr>pprev := Some q, nHeight := nHeight (((index st)(new := b)) q) + 1\<rparr>)) new) = Some s1"
    and wf1: "wf_index s1" and s1: "s1 = (index st)(new := b\<lparr>pprev := prev, nHeight := h, pskip := k\<rparr>)"
    by blast
  obtain w where w: "GetBlockProof (s1 new) = Inr w" "wf_uint w" using GetBlockProof_value by blast
  define work where "work = base_uint_add (case pprev (s1 new) of None \<Rightarrow> base_uint_of_u64 0 | Some q \<Rightarrow> nChainWork (s1 q)) w"
  have "wf_uint (case pprev (s1 new) of None \<Rightarrow> base_uint_of_u64 0 | Some q \<Rightarrow> nChainWork (s1 q))"
  proof (cases prev)
    case (Some q)
    then have "q \<noteq> new" using known new by blast
    then show ?thesis using Some node_okD(10) [OF ok] by (simp add: s1)
  qed (simp add: s1 wf_of_u64)
  then have work: "wf_uint work" using w(2) by (simp add: work_def)
  define b1 where "b1 = (s1 new)\<lparr>nChainWork := work\<rparr>"
  have st0: "nStatus b1 = 0" "nChainTx b1 = 0" by (simp_all add: b1_def s1 b_def CBlockIndex_of_def)
  obtain ch b2 where r: "RaiseValidity b1 BLOCK_VALID_TREE = Some (ch, b2)"
    by (auto simp: RaiseValidity_def BLOCK_VALID_TREE_def valid_mask mask_numeral st0)
  have "BLOCK_VALID_TREE AND BLOCK_HAVE_DATA = 0" by (simp add: BLOCK_VALID_TREE_def BLOCK_HAVE_DATA_def)
  note b2 = RaiseValidity_links [OF r this]
  obtain n where n: "b2 = b1\<lparr>nStatus := n\<rparr>" using b2(1) by blast
  have fields: "pprev b2 = prev" "pskip b2 = k" "nHeight b2 = h" "nChainWork b2 = work" "nChainTx b2 = 0" "nTx b2 = 0"
    using st0 by (simp_all add: n) (simp_all add: b1_def s1 b_def CBlockIndex_of_def)
  have nodata: "\<not> has_data b2" unfolding b2(2) by (simp add: has_data_def st0)
  have s2: "s1(new := b2) = (index st)(new := b2)" by (simp add: s1)
  have "wf_index ((index st)(new := b2)) = wf_index s1"
    by (rule tree_cong) (simp_all add: s1 fields)
  then have wf2: "wf_index ((index st)(new := b2))" using wf1 by simp
  define best where "best = (case pindexBestHeader st of None \<Rightarrow> Some new
      | Some h \<Rightarrow> (if CompareTo (nChainWork ((s1(new := b2)) h)) (nChainWork b2) < 0 then Some new else Some h))"
  define st' where "st' = st\<lparr>index := (index st)(new := b2), mapBlockIndex := (hash, new) # mapBlockIndex st, pindexBestHeader := best\<rparr>"
  have "node_ok st'" unfolding st'_def
    by (rule node_ok_insert [OF ok new wf2]) (use fields nodata work known in auto)
  moreover have "tx_total st' = tx_total st"
  proof -
    have "addrs st' = insert new (addrs st)" "finite (addrs st)" by (simp_all add: st'_def addrs_def)
    moreover have "(\<Sum>p \<in> addrs st. unat (nTx (((index st)(new := b2)) p))) = (\<Sum>p \<in> addrs st. unat (nTx (index st p)))"
      using new by (intro sum.cong) auto
    ultimately show ?thesis using new fields(6) by (simp add: tx_total_def st'_def)
  qed
  moreover have "AddToBlockIndex hash new block st = Some (st', new)"
    unfolding AddToBlockIndex_def None option.case Let_def b_def [symmetric]
    using hash link w(1) r
    by (simp add: prev_def [symmetric] work_def [symmetric] b1_def [symmetric] s2 best_def [symmetric] st'_def)
  ultimately show ?thesis by (auto simp: st'_def)
qed

section \<open>Block data\<close>

lemma ancestors_rec:
  "ancestors s p = insert p (case pprev (s p) of None \<Rightarrow> {} | Some q \<Rightarrow> ancestors s q)"
proof -
  have "(\<exists>n. nth_prev s n p = Some a) \<longleftrightarrow> a = p \<or> (\<exists>q n. pprev (s p) = Some q \<and> nth_prev s n q = Some a)" for a
  proof
    assume "\<exists>n. nth_prev s n p = Some a"
    then obtain n where "nth_prev s n p = Some a" by blast
    then show "a = p \<or> (\<exists>q n. pprev (s p) = Some q \<and> nth_prev s n q = Some a)" by (cases n) (auto split: option.splits)
  next
    assume "a = p \<or> (\<exists>q n. pprev (s p) = Some q \<and> nth_prev s n q = Some a)"
    then show "\<exists>n. nth_prev s n p = Some a"
      by (elim disjE exE conjE) (auto intro: exI [of _ 0] exI [of _ "Suc n" for n])
  qed
  then show ?thesis by (auto simp: ancestors_def split: option.split)
qed

lemma not_own_ancestor: "wf_heights s \<Longrightarrow> pprev (s p) = Some q \<Longrightarrow> p \<notin> ancestors s q"
  using nth_prev_height [of s _ q p] wf_pprev [of s p q] by (force simp: ancestors_def)

lemma ancestors_linked: "chain_tx_closed s \<Longrightarrow> nChainTx (s p) \<noteq> 0 \<Longrightarrow> q \<in> ancestors s p \<Longrightarrow> nChainTx (s q) \<noteq> 0"
proof -
  have "chain_tx_closed s \<Longrightarrow> nChainTx (s p) \<noteq> 0 \<Longrightarrow> nth_prev s n p = Some q \<Longrightarrow> nChainTx (s q) \<noteq> 0" for n
    by (induction n arbitrary: p) (auto simp: chain_tx_closed_def split: option.splits)
  then show "chain_tx_closed s \<Longrightarrow> nChainTx (s p) \<noteq> 0 \<Longrightarrow> q \<in> ancestors s p \<Longrightarrow> nChainTx (s q) \<noteq> 0"
    by (auto simp: ancestors_def)
qed

text \<open>The number of transactions of the chain up to \<open>p\<close>, computed as \<^verbatim>\<open>link_block\<close> does, does not wrap around.\<close>

lemma chain_tx_sum:
  assumes ok: "node_ok st" and p: "p \<in> addrs st" and total: "tx_total st < 2 ^ 32"
    and par: "\<And>q. pprev (index st p) = Some q \<Longrightarrow> nChainTx (index st q) \<noteq> 0"
  shows "unat ((case pprev (index st p) of None \<Rightarrow> 0 | Some q \<Rightarrow> nChainTx (index st q)) + nTx (index st p))
         = (\<Sum>q \<in> ancestors (index st) p. unat (nTx (index st q)))"
proof (cases "pprev (index st p)")
  case None
  then have "ancestors (index st) p = {p}" using ancestors_rec [of "index st" p] by simp
  then show ?thesis using None by simp
next
  case (Some q)
  have sub: "ancestors (index st) p \<subseteq> addrs st" using nth_prev_addrs [OF ok p] by (auto simp: ancestors_def)
  have fin: "finite (addrs st)" by (simp add: addrs_def)
  have anc: "ancestors (index st) p = insert p (ancestors (index st) q)" using ancestors_rec [of "index st" p] Some by simp
  then have "finite (ancestors (index st) q)" using finite_subset [OF sub fin] by simp
  moreover have "p \<notin> ancestors (index st) q" by (rule not_own_ancestor [OF node_okD(7) [OF ok] Some])
  moreover have "unat (nChainTx (index st q)) = (\<Sum>q \<in> ancestors (index st) q. unat (nTx (index st q)))"
    using par [OF Some] node_okD(2) [OF ok] unfolding tx_ok_def by blast
  ultimately have sum: "(\<Sum>q \<in> ancestors (index st) p. unat (nTx (index st q))) = unat (nChainTx (index st q)) + unat (nTx (index st p))"
    by (simp add: anc)
  have "(\<Sum>q \<in> ancestors (index st) p. unat (nTx (index st q))) \<le> tx_total st"
    unfolding tx_total_def by (rule sum_mono2 [OF fin sub]) simp
  then have "unat (nChainTx (index st q)) + unat (nTx (index st p)) < 2 ^ LENGTH(32)" using sum total by simp
  then have "unat (nChainTx (index st q) + nTx (index st p)) = unat (nChainTx (index st q)) + unat (nTx (index st p))"
    by (rule unat_add_lem [THEN iffD1])
  then show ?thesis using sum Some by simp
qed

text \<open>An entry the queue may hold.\<close>

definition linkable :: "'e node_scheme \<Rightarrow> addr \<Rightarrow> bool" where
  "linkable st p \<longleftrightarrow> p \<in> addrs st \<and> nChainTx (index st p) = 0 \<and> has_data (index st p)
     \<and> (\<forall>q. pprev (index st p) = Some q \<longrightarrow> nChainTx (index st q) \<noteq> 0)"

lemma link_block_ok:
  assumes ok: "node_ok st" and p: "linkable st p" "p \<notin> snd ` set (mapBlocksUnlinked st)" and total: "tx_total st < 2 ^ 32"
  shows "node_ok (link_block p st)" and "addrs (link_block p st) = addrs st" and "tx_total (link_block p st) = tx_total st"
    and "nChainTx (index (link_block p st) p) \<noteq> 0" and "\<And>a. a \<noteq> p \<Longrightarrow> index (link_block p st) a = index st a"
    and "\<And>a. pprev (index (link_block p st) a) = pprev (index st a)" and "\<And>a. has_data (index (link_block p st) a) = has_data (index st a)"
proof -
  define s where "s = index st"
  define X where "X = (case pprev (s p) of None \<Rightarrow> 0 | Some q \<Rightarrow> nChainTx (s q)) + nTx (s p)"
  define s' where "s' = s(p := (s p)\<lparr>nChainTx := X, nSequenceId := nBlockSequenceId st\<rparr>)"
  define us where "us = filter (\<lambda>e. fst e \<noteq> Some p) (mapBlocksUnlinked st)"
  have lp: "p \<in> addrs st" "nChainTx (s p) = 0" "has_data (s p)" "\<And>q. pprev (s p) = Some q \<Longrightarrow> nChainTx (s q) \<noteq> 0"
    using p(1) by (auto simp: linkable_def s_def)
  have same: "pprev (s' a) = pprev (s a)" "pskip (s' a) = pskip (s a)" "nHeight (s' a) = nHeight (s a)" "nTx (s' a) = nTx (s a)"
    "nChainWork (s' a) = nChainWork (s a)" "has_data (s' a) = has_data (s a)" for a
    by (simp_all add: s'_def has_data_def)
  note cong = tree_cong [of s' s, OF same(1-3)]
  have X: "unat X = (\<Sum>q \<in> ancestors s p. unat (nTx (s q)))"
    unfolding X_def s_def by (rule chain_tx_sum [OF ok lp(1) total]) (use lp(4) in \<open>simp add: s_def\<close>)
  have "finite (ancestors s p)" "p \<in> ancestors s p"
    using nth_prev_addrs [OF ok lp(1)] finite_subset [of "ancestors s p" "addrs st"] by (auto simp: ancestors_def s_def addrs_def intro: exI [of _ 0])
  then have "unat (nTx (s p)) \<le> unat X" unfolding X by (intro member_le_sum) auto
  moreover have "nTx (s p) \<noteq> 0" using node_okD(2) [OF ok] lp(3) by (simp add: tx_ok_def s_def)
  ultimately have X0: "X \<noteq> 0" by (auto simp: unat_eq_0)
  have tx: "tx_ok s'"
    using node_okD(2) [OF ok] X lp(3) by (simp add: tx_ok_def cong same s_def [symmetric]) (simp add: s'_def)
  have ul: "unlinked_ok s' us"
    using node_okD(3) [OF ok] p(2) by (force simp: unlinked_ok_def us_def same distinct_map_filter s'_def s_def [symmetric])
  have c: "candidates_ok s (setBlockIndexCandidates st)" using node_okD(4) [OF ok] by (simp add: s_def)
  then have cn: "a \<noteq> p" if "a \<in> set (setBlockIndexCandidates st)" for a using that lp(2) by (auto simp: candidates_ok_def)
  have "sorted_wrt (CBlockIndexWorkComparator s') (setBlockIndexCandidates st)"
    by (rule sorted_candidates_cong [of _ _ s]) (use c cn in \<open>auto simp: candidates_ok_def s'_def\<close>)
  moreover have "chain_tx_closed s'" using c X0 lp(4) by (auto simp: candidates_ok_def chain_tx_closed_def s'_def)
  ultimately have cand: "candidates_ok s' (setBlockIndexCandidates st)"
    using c cn by (auto simp: candidates_ok_def cong same) (auto simp: s'_def)
  define st1 where "st1 = st\<lparr>index := s', nBlockSequenceId := nBlockSequenceId st + 1, mapBlocksUnlinked := us\<rparr>"
  have "tree_ok s' (addrs st)" using node_okD(1) [OF ok] lp(1) by (auto simp: tree_ok_def cong same s_def [symmetric]) (auto simp: s'_def)
  moreover have "active_ok s' (addrs st) (chainActive st)" using node_okD(5) [OF ok] by (simp add: active_ok_def cong s_def)
  ultimately have ok1: "node_ok st1" using tx ul cand by (simp add: node_ok_def st1_def addrs_def)
  have eq: "link_block p st = (if worse_than_tip st1 p then st1 else cand_insert p st1)"
  proof -
    define st0 where "st0 = st\<lparr>index := s', nBlockSequenceId := nBlockSequenceId st + 1\<rparr>"
    have u: "upd_entry p (\<lambda>b. b\<lparr>nChainTx := (case pprev b of None \<Rightarrow> 0 | Some q \<Rightarrow> nChainTx (index st q)) + nTx b,
          nSequenceId := nBlockSequenceId st\<rparr>) st\<lparr>nBlockSequenceId := nBlockSequenceId st + 1\<rparr> = st0"
      unfolding st0_def s'_def X_def s_def upd_entry_def ..
    have "worse_than_tip st0 p = worse_than_tip st1 p" by (simp add: worse_than_tip_def st0_def st1_def cong: option.case_cong)
    moreover have "st1 = st0\<lparr>mapBlocksUnlinked := us\<rparr>" by (simp add: st0_def st1_def)
    moreover have "mapBlocksUnlinked st0 = mapBlocksUnlinked st" by (simp add: st0_def)
    ultimately show ?thesis unfolding link_block_def Let_def u by (simp add: cand_insert_def us_def)
  qed
  have "nChainTx (index st1 p) \<noteq> 0" using X0 by (simp add: st1_def s'_def)
  then show "node_ok (link_block p st)" using ok1 by (simp add: eq node_ok_cand_insert)
  have ix: "index (link_block p st) = s'" by (simp add: eq st1_def cand_insert_def)
  show ad: "addrs (link_block p st) = addrs st" by (simp add: eq st1_def addrs_def cand_insert_def)
  then show "tx_total (link_block p st) = tx_total st" by (simp add: tx_total_def ix same s_def)
  show "nChainTx (index (link_block p st) p) \<noteq> 0" using X0 by (simp add: ix s'_def)
  show "\<And>a. a \<noteq> p \<Longrightarrow> index (link_block p st) a = index st a" by (simp add: ix s'_def s_def)
  show "\<And>a. pprev (index (link_block p st) a) = pprev (index st a)" "\<And>a. has_data (index (link_block p st) a) = has_data (index st a)"
    by (simp_all add: ix same s_def)
qed

lemma distinct_split: "distinct (map g xs) \<Longrightarrow> distinct (map g (filter P xs) @ map g (filter (\<lambda>x. \<not> P x) xs))"
  by (induction xs) auto

lemma unlinked_children_linkable:
  assumes ok: "node_ok st" and c: "c \<in> set (unlinked_children st p)"
  shows "c \<in> addrs st" "pprev (index st c) = Some p" "nChainTx (index st c) = 0" "has_data (index st c)"
proof -
  have "(Some p, c) \<in> set (mapBlocksUnlinked st)" using c by (auto simp: unlinked_children_def)
  then show "pprev (index st c) = Some p" "nChainTx (index st c) = 0" "has_data (index st c)"
    using node_okD(3) [OF ok] by (auto simp: unlinked_ok_def)
  then show "c \<in> addrs st" using node_okD(1) [OF ok] by (auto simp: tree_ok_def)
qed

lemma link_queue_ok:
  assumes "node_ok st" and "\<forall>p \<in> set queue. linkable st p" and "distinct (queue @ map snd (mapBlocksUnlinked st))"
    and "tx_total st < 2 ^ 32"
  shows "node_ok (link_queue queue st) \<and> addrs (link_queue queue st) = addrs st"
  using assms
proof (induction queue st rule: link_queue.induct)
  case (2 p queue st)
  let ?st = "link_block p st" and ?cs = "unlinked_children st p"
  have p: "linkable st p" "p \<notin> snd ` set (mapBlocksUnlinked st)" using "2.prems"(2,3) by auto
  note lb = link_block_ok [OF "2.prems"(1) p "2.prems"(4)]
  have ul: "distinct (?cs @ map snd (mapBlocksUnlinked ?st))" "set (?cs @ map snd (mapBlocksUnlinked ?st)) \<subseteq> snd ` set (mapBlocksUnlinked st)"
    using distinct_split [of snd "mapBlocksUnlinked st" "\<lambda>e. fst e = Some p"] "2.prems"(3)
    by (auto simp: unlinked_children_def link_block_unlinked)
  have "set queue \<inter> snd ` set (mapBlocksUnlinked st) = {}" "distinct queue" using "2.prems"(3) by auto
  then have "distinct ((queue @ ?cs) @ map snd (mapBlocksUnlinked ?st))"
    using ul unfolding append_assoc distinct_append [of queue] by blast
  moreover have "linkable ?st c" if "c \<in> set (queue @ ?cs)" for c
  proof -
    have "c \<noteq> p" using that "2.prems"(3) ul(2) by auto
    moreover have "c \<in> addrs st \<and> nChainTx (index st c) = 0 \<and> has_data (index st c)
        \<and> (\<forall>q. pprev (index st c) = Some q \<longrightarrow> q = p \<or> nChainTx (index st q) \<noteq> 0)"
      using that "2.prems"(2) unlinked_children_linkable [OF "2.prems"(1)] by (auto simp: linkable_def)
    ultimately show ?thesis using lb(2,4,5) by (auto simp: linkable_def) metis
  qed
  ultimately show ?case using "2.IH" lb(1-3) "2.prems"(4) by simp
qed simp

text \<open>
  \<^verbatim>\<open>AcceptBlock\<close> calls this for a known header whose data it does not have, with at least one
  transaction. \<^verbatim>\<open>nChainTx\<close> has 32 bits; all transactions known so far are assumed to fit.
\<close>

lemma ReceivedBlockTransactions_ok:
  assumes ok: "node_ok st" and p: "p \<in> addrs st" "\<not> has_data (index st p)" and n: "n \<noteq> 0"
    and total: "tx_total (upd_entry p (\<lambda>b. b\<lparr>nTx := n\<rparr>) st) < 2 ^ 32"
  shows "\<exists>st'. ReceivedBlockTransactions n p pos st = Some st' \<and> node_ok st' \<and> addrs st' = addrs st"
proof -
  define s where "s = index st"
  define b where "b = (s p)\<lparr>nTx := n, nChainTx := 0, nFile := fst pos, nDataPos := snd pos, nUndoPos := 0, nStatus := nStatus (s p) OR BLOCK_HAVE_DATA\<rparr>"
  obtain ch b' where r: "RaiseValidity b BLOCK_VALID_TRANSACTIONS = Some (ch, b')"
    by (cases "RaiseValidity b BLOCK_VALID_TRANSACTIONS")
       (auto simp: RaiseValidity_def BLOCK_VALID_TRANSACTIONS_def valid_mask mask_numeral split: if_splits)
  have z: "BLOCK_VALID_TRANSACTIONS AND BLOCK_HAVE_DATA = 0" by (simp add: BLOCK_VALID_TRANSACTIONS_def BLOCK_HAVE_DATA_def)
  obtain m where b': "b' = b\<lparr>nStatus := m\<rparr>" using RaiseValidity_links(1) [OF r z] by blast
  have data: "has_data b'" using RaiseValidity_links(2) [OF r z] by (simp add: has_data_def b_def BLOCK_HAVE_DATA_def)
  define s' where "s' = s(p := b')"
  have zero: "nChainTx (s p) = 0" using node_okD(2) [OF ok] p(2) by (auto simp: tx_ok_def s_def)
  have same: "pprev (s' a) = pprev (s a)" "pskip (s' a) = pskip (s a)" "nHeight (s' a) = nHeight (s a)"
    "nChainWork (s' a) = nChainWork (s a)" "nChainTx (s' a) = nChainTx (s a)" "nSequenceId (s' a) = nSequenceId (s a)" for a
    using zero by (simp_all add: s'_def b' b_def)
  have other: "s' a = s a" if "a \<noteq> p" for a using that by (simp add: s'_def)
  have at: "has_data (s' p)" "nTx (s' p) = n" using data by (simp_all add: s'_def b' b_def)
  note cong = tree_cong [of s' s, OF same(1-3)]
  have c: "candidates_ok s (setBlockIndexCandidates st)" using node_okD(4) [OF ok] by (simp add: s_def)
  have tx: "tx_ok s'"
  proof -
    have "(nChainTx (s' a) \<noteq> 0 \<longrightarrow> has_data (s' a) \<and> unat (nChainTx (s' a)) = (\<Sum>q \<in> ancestors s' a. unat (nTx (s' q))))
          \<and> (has_data (s' a) \<longrightarrow> nTx (s' a) \<noteq> 0)" for a
    proof (cases "a = p")
      case True
      then show ?thesis using zero n at by (simp add: same)
    next
      case False
      have "(\<Sum>q \<in> ancestors s a. unat (nTx (s' q))) = (\<Sum>q \<in> ancestors s a. unat (nTx (s q)))" if "nChainTx (s a) \<noteq> 0"
        using ancestors_linked [of s a] c that zero other by (intro sum.cong refl) (metis candidates_ok_def)
      then show ?thesis using node_okD(2) [OF ok] other [OF False] by (simp add: tx_ok_def s_def [symmetric] cong)
    qed
    then show ?thesis by (simp add: tx_ok_def)
  qed
  have ul: "unlinked_ok s' (mapBlocksUnlinked st)" "p \<notin> snd ` set (mapBlocksUnlinked st)"
    using node_okD(3) [OF ok] p(2) other by (force simp: unlinked_ok_def same s_def [symmetric])+
  define st1 where "st1 = upd_entry p (\<lambda>_. b') st"
  have st1: "index st1 = s'" "addrs st1 = addrs st" "mapBlocksUnlinked st1 = mapBlocksUnlinked st"
    "chainActive st1 = chainActive st" "setBlockIndexCandidates st1 = setBlockIndexCandidates st"
    by (simp_all add: st1_def upd_entry_def s'_def s_def addrs_def)
  have cmp: "CBlockIndexWorkComparator s' = CBlockIndexWorkComparator s" by (simp add: fun_eq_iff CBlockIndexWorkComparator_def same)
  have "tree_ok s' (addrs st)" using node_okD(1) [OF ok] p(1) other
    by (auto simp: tree_ok_def cong same s_def [symmetric]) metis
  moreover have "active_ok s' (addrs st) (chainActive st)" using node_okD(5) [OF ok] by (simp add: active_ok_def cong s_def)
  moreover have "candidates_ok s' (setBlockIndexCandidates st)" using c by (simp add: candidates_ok_def chain_tx_closed_def cong same cmp)
  ultimately have ok1: "node_ok st1" using tx ul(1) by (simp add: node_ok_def st1)
  have tot: "tx_total st1 < 2 ^ 32"
    using total unfolding tx_total_def st1 by (simp add: upd_entry_def s'_def s_def b' b_def if_distrib cong: if_cong)
  have "linkable st1 p" if "\<And>q. pprev (s p) = Some q \<Longrightarrow> nChainTx (s q) \<noteq> 0"
    using that p(1) at zero by (simp add: linkable_def st1 same)
  then have link: "node_ok (link_queue [p] st1) \<and> addrs (link_queue [p] st1) = addrs st"
    if "\<And>q. pprev (s p) = Some q \<Longrightarrow> nChainTx (s q) \<noteq> 0"
    using link_queue_ok [OF ok1, of "[p]"] that ul(2) node_okD(3) [OF ok1] tot by (simp add: st1 unlinked_ok_def)
  have add: "node_ok (st1\<lparr>mapBlocksUnlinked := mapBlocksUnlinked st1 @ [(Some q, p)]\<rparr>)" if "pprev (s p) = Some q" for q
    using ok1 ul that at zero by (auto simp: node_ok_def st1 unlinked_ok_def same addrs_def)
  have pp: "pprev b' = pprev (s p)" by (simp add: b' b_def)
  have tree: "\<exists>v. IsValid (s' q) BLOCK_VALID_TREE = Some v" for q
    by (auto simp: IsValid_def BLOCK_VALID_TREE_def valid_mask mask_numeral)
  have "ReceivedBlockTransactions n p pos st =
    (case pprev (s p) of None \<Rightarrow> Some (link_queue [p] st1)
     | Some q \<Rightarrow> (if nChainTx (s q) \<noteq> 0 then Some (link_queue [p] st1)
         else map_option (\<lambda>ok. if ok then st1\<lparr>mapBlocksUnlinked := mapBlocksUnlinked st1 @ [(Some q, p)]\<rparr> else st1)
                (IsValid (s' q) BLOCK_VALID_TREE)))"
    unfolding ReceivedBlockTransactions_def s_def [symmetric] b_def [symmetric] Let_def r option.case prod.case st1_def [symmetric] pp st1(1) same(5) ..
  note eq = this
  show ?thesis
  proof (cases "\<exists>q. pprev (s p) = Some q \<and> nChainTx (s q) = 0")
    case False
    then show ?thesis using eq link by (cases "pprev (s p)") simp_all
  next
    case True
    then obtain q v where q: "pprev (s p) = Some q" "nChainTx (s q) = 0" "IsValid (s' q) BLOCK_VALID_TREE = Some v" using tree by blast
    then show ?thesis using eq add [OF q(1)] ok1 st1(2) by (cases v) (simp_all add: addrs_def)
  qed
qed

section \<open>Reachable states\<close>

text \<open>
  What the node does with its block tree: headers and block data arrive (\<^verbatim>\<open>AcceptBlockHeader\<close> and
  \<^verbatim>\<open>AcceptBlock\<close> call these operations under these conditions), a block fails its checks, the best
  chain is activated, an operator invalidates or reconsiders a block, or the rest of the state changes.
\<close>

inductive node_step :: "'e chain_env \<Rightarrow> 'e node_scheme \<Rightarrow> 'e node_scheme \<Rightarrow> bool" for env where
  header: "new \<notin> addrs st \<Longrightarrow> hdr_hashPrevBlock block \<noteq> hash \<Longrightarrow> AddToBlockIndex hash new block st = Some (st', p) \<Longrightarrow>
    node_step env st st'"
| data: "p \<in> addrs st \<Longrightarrow> \<not> has_data (index st p) \<Longrightarrow> n \<noteq> 0 \<Longrightarrow> tx_total (upd_entry p (\<lambda>b. b\<lparr>nTx := n\<rparr>) st) < 2 ^ 32 \<Longrightarrow>
    ReceivedBlockTransactions n p pos st = Some st' \<Longrightarrow> node_step env st st'"
| reject: "node_step env st (or_status BLOCK_FAILED_VALID p st)"
| activate: "ActivateBestChain env None st = Some (r, st') \<Longrightarrow> node_step env st st'"
| invalidate: "InvalidateBlock env p st = Some (r, st') \<Longrightarrow> node_step env st st'"
| reconsider: "ReconsiderBlock p st = Some st' \<Longrightarrow> node_step env st st'"
| outside: "node_step env st (node.more_update f st)"

definition null_entry :: CBlockIndex where
  "null_entry = CBlockIndex_of \<lparr>hdr_nVersion = 0, hdr_hashPrevBlock = [], hdr_hashMerkleRoot = [], hdr_nTime = 0, hdr_nBits = 0, hdr_nNonce = 0\<rparr>"

definition node_init :: "'e \<Rightarrow> 'e node_scheme" where
  "node_init e = \<lparr>index = (\<lambda>_. null_entry), mapBlockIndex = [], chainActive = [], pindexBestHeader = None, pindexBestInvalid = None,
     setBlockIndexCandidates = [], mapBlocksUnlinked = [], nBlockSequenceId = 1, \<dots> = e\<rparr>"

lemma node_init_ok: "node_ok (node_init e)"
proof -
  have f: "pprev null_entry = None" "pskip null_entry = None" "nHeight null_entry = 0" "nChainTx null_entry = 0" "\<not> has_data null_entry"
    "wf_uint (nChainWork null_entry)"
    by (simp_all add: null_entry_def CBlockIndex_of_def has_data_def base_uint_zero_def wf_uint_def)
  then show ?thesis
    by (simp add: node_ok_def node_init_def tree_ok_def wf_index_def wf_heights_def skip_ok_def tx_ok_def unlinked_ok_def
        candidates_ok_def chain_tx_closed_def active_ok_def)
qed

lemma node_step_ok: "node_step env st st' \<Longrightarrow> node_ok st \<Longrightarrow> node_ok st'"
proof (induction rule: node_step.induct)
  case (header new st block hash st' p)
  then show ?case using AddToBlockIndex_ok [of st new block hash] by auto
next
  case (data p st n pos st')
  then show ?case using ReceivedBlockTransactions_ok [of st p n pos] by auto
next
  case (activate st r st')
  then show ?case using ActivateBestChain_ok [of env None st "(r, st')"] by simp
qed (auto simp: node_ok_or_status dest: InvalidateBlock_ok ReconsiderBlock_ok)

lemma reachable_node_ok: "(node_step env)\<^sup>*\<^sup>* st st' \<Longrightarrow> node_ok st \<Longrightarrow> node_ok st'"
  by (induction rule: rtranclp_induct) (auto intro: node_step_ok)

text \<open>
  C1. In every state the node reaches, whatever blocks, operator commands and outcomes of connecting blocks
  come, the block tree is consistent: entries form a tree with correct heights and skip pointers, the active
  chain is a branch of it, \<^verbatim>\<open>nChainTx\<close> counts the transactions of the branch wherever it is set and is set on
  parents first, blocks that wait for a parent are listed once under that parent, and the candidates stay in the order
  of the comparator although the entries change.
\<close>

theorem node_invariant:
  assumes "(node_step env)\<^sup>*\<^sup>* (node_init e) st"
  shows "node_ok st"
  using reachable_node_ok [OF assms node_init_ok] .

text \<open>
  C8. In every reachable state the operations on the block tree return: no assertion fails, no null pointer is
  followed and no loop runs forever when a header is added, when the data of a known block arrives, or when the best
  chain is searched; the candidate that is found is an allocated entry.
\<close>

theorem node_operations_return:
  assumes "(node_step env)\<^sup>*\<^sup>* (node_init e) st"
  shows "(new \<notin> addrs st \<longrightarrow> hdr_hashPrevBlock block \<noteq> hash \<longrightarrow>
            (\<exists>st' p. AddToBlockIndex hash new block st = Some (st', p) \<and> map_of (mapBlockIndex st') hash = Some p))
       \<and> (p \<in> addrs st \<longrightarrow> \<not> has_data (index st p) \<longrightarrow> n \<noteq> 0 \<longrightarrow> tx_total (upd_entry p (\<lambda>b. b\<lparr>nTx := n\<rparr>) st) < 2 ^ 32 \<longrightarrow>
            (\<exists>st'. ReceivedBlockTransactions n p pos st = Some st'))
       \<and> (\<exists>st' r. FindMostWorkChain st = Some (st', r) \<and> (\<forall>b. r = Some b \<longrightarrow> b \<in> addrs st))"
proof -
  have ok: "node_ok st" using reachable_node_ok [OF assms node_init_ok] .
  show ?thesis
    using AddToBlockIndex_ok [OF ok, of new block hash] ReceivedBlockTransactions_ok [OF ok, of p n pos] FindMostWorkChain_ok [OF ok]
    by blast
qed

text \<open>Witnesses: a node that receives its genesis header.\<close>

definition idle_env :: "unit chain_env" where
  "idle_env = \<lparr>hashGenesisBlock = [1], env_disconnect = (\<lambda>_ e. (True, e)), env_connect = (\<lambda>_ e. (Connected 0, e)),
     env_reorg = id, env_flush = (\<lambda>e. (True, e)), env_shutdown = (\<lambda>_. False)\<rparr>"

definition genesis_header :: CBlockHeader where
  "genesis_header = \<lparr>hdr_nVersion = 1, hdr_hashPrevBlock = [0], hdr_hashMerkleRoot = [], hdr_nTime = 0, hdr_nBits = 0x1d00ffff, hdr_nNonce = 0\<rparr>"

lemma genesis_step:
  obtains st p where "AddToBlockIndex [1] 0 genesis_header (node_init ()) = Some (st, p)"
    and "(node_step idle_env)\<^sup>*\<^sup>* (node_init ()) st"
proof -
  have new: "0 \<notin> addrs (node_init ())" "hdr_hashPrevBlock genesis_header \<noteq> [1]" by (simp_all add: addrs_def node_init_def genesis_header_def)
  then obtain st p where a: "AddToBlockIndex [1] 0 genesis_header (node_init ()) = Some (st, p)"
    using AddToBlockIndex_ok [OF node_init_ok new] by blast
  then show thesis using that node_step.header [OF new a, of idle_env] by blast
qed

theorem node_invariant_witness:
  "\<exists>st p. AddToBlockIndex [1] 0 genesis_header (node_init ()) = Some (st, p) \<and> (node_step idle_env)\<^sup>*\<^sup>* (node_init ()) st \<and> node_ok st"
  using genesis_step node_invariant by metis

theorem node_operations_return_witness:
  "(node_step idle_env)\<^sup>*\<^sup>* (node_init ()) (node_init ())
   \<and> (\<exists>st' p. AddToBlockIndex [1] 0 genesis_header (node_init ()) = Some (st', p))
   \<and> (\<exists>st' r. FindMostWorkChain (node_init ()) = Some (st', r))"
proof -
  have "(node_step idle_env)\<^sup>*\<^sup>* (node_init ()) (node_init ())" by simp
  moreover have "0 \<notin> addrs (node_init ())" "hdr_hashPrevBlock genesis_header \<noteq> [1]" by (simp_all add: addrs_def node_init_def genesis_header_def)
  ultimately show ?thesis
    using node_operations_return [of idle_env "()" "node_init ()" 0 genesis_header "[1]"] by blast
qed

end
