(* ===== verification/Script.thy ===== *)
theory Script
  imports ArithUint256
begin

text \<open>
  \<^verbatim>\<open>script/script.h\<close> and \<^verbatim>\<open>script/script.cpp\<close>: opcodes, the numbers of the script
  language (\<open>CScriptNum\<close>), and the byte-level operations on scripts. An iterator into a
  script is modelled by the suffix of the script it points at, so \<^verbatim>\<open>end() - pc\<close> is the
  length of the suffix. An opcode is a byte, as the C++ enum is only a set of names for
  bytes: the values \<^verbatim>\<open>0x01\<close> to \<^verbatim>\<open>0x4b\<close> are the direct pushes.
\<close>

type_synonym opcodetype = u8
type_synonym CScript = bytes

abbreviation (input) OP_0 :: u8 where "OP_0 \<equiv> 0x00"
abbreviation (input) OP_FALSE :: u8 where "OP_FALSE \<equiv> 0x00"
abbreviation (input) OP_PUSHDATA1 :: u8 where "OP_PUSHDATA1 \<equiv> 0x4c"
abbreviation (input) OP_PUSHDATA2 :: u8 where "OP_PUSHDATA2 \<equiv> 0x4d"
abbreviation (input) OP_PUSHDATA4 :: u8 where "OP_PUSHDATA4 \<equiv> 0x4e"
abbreviation (input) OP_1NEGATE :: u8 where "OP_1NEGATE \<equiv> 0x4f"
abbreviation (input) OP_RESERVED :: u8 where "OP_RESERVED \<equiv> 0x50"
abbreviation (input) OP_1 :: u8 where "OP_1 \<equiv> 0x51"
abbreviation (input) OP_TRUE :: u8 where "OP_TRUE \<equiv> 0x51"
abbreviation (input) OP_2 :: u8 where "OP_2 \<equiv> 0x52"
abbreviation (input) OP_3 :: u8 where "OP_3 \<equiv> 0x53"
abbreviation (input) OP_4 :: u8 where "OP_4 \<equiv> 0x54"
abbreviation (input) OP_5 :: u8 where "OP_5 \<equiv> 0x55"
abbreviation (input) OP_6 :: u8 where "OP_6 \<equiv> 0x56"
abbreviation (input) OP_7 :: u8 where "OP_7 \<equiv> 0x57"
abbreviation (input) OP_8 :: u8 where "OP_8 \<equiv> 0x58"
abbreviation (input) OP_9 :: u8 where "OP_9 \<equiv> 0x59"
abbreviation (input) OP_10 :: u8 where "OP_10 \<equiv> 0x5a"
abbreviation (input) OP_11 :: u8 where "OP_11 \<equiv> 0x5b"
abbreviation (input) OP_12 :: u8 where "OP_12 \<equiv> 0x5c"
abbreviation (input) OP_13 :: u8 where "OP_13 \<equiv> 0x5d"
abbreviation (input) OP_14 :: u8 where "OP_14 \<equiv> 0x5e"
abbreviation (input) OP_15 :: u8 where "OP_15 \<equiv> 0x5f"
abbreviation (input) OP_16 :: u8 where "OP_16 \<equiv> 0x60"
abbreviation (input) OP_NOP :: u8 where "OP_NOP \<equiv> 0x61"
abbreviation (input) OP_VER :: u8 where "OP_VER \<equiv> 0x62"
abbreviation (input) OP_IF :: u8 where "OP_IF \<equiv> 0x63"
abbreviation (input) OP_NOTIF :: u8 where "OP_NOTIF \<equiv> 0x64"
abbreviation (input) OP_VERIF :: u8 where "OP_VERIF \<equiv> 0x65"
abbreviation (input) OP_VERNOTIF :: u8 where "OP_VERNOTIF \<equiv> 0x66"
abbreviation (input) OP_ELSE :: u8 where "OP_ELSE \<equiv> 0x67"
abbreviation (input) OP_ENDIF :: u8 where "OP_ENDIF \<equiv> 0x68"
abbreviation (input) OP_VERIFY :: u8 where "OP_VERIFY \<equiv> 0x69"
abbreviation (input) OP_RETURN :: u8 where "OP_RETURN \<equiv> 0x6a"
abbreviation (input) OP_TOALTSTACK :: u8 where "OP_TOALTSTACK \<equiv> 0x6b"
abbreviation (input) OP_FROMALTSTACK :: u8 where "OP_FROMALTSTACK \<equiv> 0x6c"
abbreviation (input) OP_2DROP :: u8 where "OP_2DROP \<equiv> 0x6d"
abbreviation (input) OP_2DUP :: u8 where "OP_2DUP \<equiv> 0x6e"
abbreviation (input) OP_3DUP :: u8 where "OP_3DUP \<equiv> 0x6f"
abbreviation (input) OP_2OVER :: u8 where "OP_2OVER \<equiv> 0x70"
abbreviation (input) OP_2ROT :: u8 where "OP_2ROT \<equiv> 0x71"
abbreviation (input) OP_2SWAP :: u8 where "OP_2SWAP \<equiv> 0x72"
abbreviation (input) OP_IFDUP :: u8 where "OP_IFDUP \<equiv> 0x73"
abbreviation (input) OP_DEPTH :: u8 where "OP_DEPTH \<equiv> 0x74"
abbreviation (input) OP_DROP :: u8 where "OP_DROP \<equiv> 0x75"
abbreviation (input) OP_DUP :: u8 where "OP_DUP \<equiv> 0x76"
abbreviation (input) OP_NIP :: u8 where "OP_NIP \<equiv> 0x77"
abbreviation (input) OP_OVER :: u8 where "OP_OVER \<equiv> 0x78"
abbreviation (input) OP_PICK :: u8 where "OP_PICK \<equiv> 0x79"
abbreviation (input) OP_ROLL :: u8 where "OP_ROLL \<equiv> 0x7a"
abbreviation (input) OP_ROT :: u8 where "OP_ROT \<equiv> 0x7b"
abbreviation (input) OP_SWAP :: u8 where "OP_SWAP \<equiv> 0x7c"
abbreviation (input) OP_TUCK :: u8 where "OP_TUCK \<equiv> 0x7d"
abbreviation (input) OP_CAT :: u8 where "OP_CAT \<equiv> 0x7e"
abbreviation (input) OP_SUBSTR :: u8 where "OP_SUBSTR \<equiv> 0x7f"
abbreviation (input) OP_LEFT :: u8 where "OP_LEFT \<equiv> 0x80"
abbreviation (input) OP_RIGHT :: u8 where "OP_RIGHT \<equiv> 0x81"
abbreviation (input) OP_SIZE :: u8 where "OP_SIZE \<equiv> 0x82"
abbreviation (input) OP_INVERT :: u8 where "OP_INVERT \<equiv> 0x83"
abbreviation (input) OP_AND :: u8 where "OP_AND \<equiv> 0x84"
abbreviation (input) OP_OR :: u8 where "OP_OR \<equiv> 0x85"
abbreviation (input) OP_XOR :: u8 where "OP_XOR \<equiv> 0x86"
abbreviation (input) OP_EQUAL :: u8 where "OP_EQUAL \<equiv> 0x87"
abbreviation (input) OP_EQUALVERIFY :: u8 where "OP_EQUALVERIFY \<equiv> 0x88"
abbreviation (input) OP_RESERVED1 :: u8 where "OP_RESERVED1 \<equiv> 0x89"
abbreviation (input) OP_RESERVED2 :: u8 where "OP_RESERVED2 \<equiv> 0x8a"
abbreviation (input) OP_1ADD :: u8 where "OP_1ADD \<equiv> 0x8b"
abbreviation (input) OP_1SUB :: u8 where "OP_1SUB \<equiv> 0x8c"
abbreviation (input) OP_2MUL :: u8 where "OP_2MUL \<equiv> 0x8d"
abbreviation (input) OP_2DIV :: u8 where "OP_2DIV \<equiv> 0x8e"
abbreviation (input) OP_NEGATE :: u8 where "OP_NEGATE \<equiv> 0x8f"
abbreviation (input) OP_ABS :: u8 where "OP_ABS \<equiv> 0x90"
abbreviation (input) OP_NOT :: u8 where "OP_NOT \<equiv> 0x91"
abbreviation (input) OP_0NOTEQUAL :: u8 where "OP_0NOTEQUAL \<equiv> 0x92"
abbreviation (input) OP_ADD :: u8 where "OP_ADD \<equiv> 0x93"
abbreviation (input) OP_SUB :: u8 where "OP_SUB \<equiv> 0x94"
abbreviation (input) OP_MUL :: u8 where "OP_MUL \<equiv> 0x95"
abbreviation (input) OP_DIV :: u8 where "OP_DIV \<equiv> 0x96"
abbreviation (input) OP_MOD :: u8 where "OP_MOD \<equiv> 0x97"
abbreviation (input) OP_LSHIFT :: u8 where "OP_LSHIFT \<equiv> 0x98"
abbreviation (input) OP_RSHIFT :: u8 where "OP_RSHIFT \<equiv> 0x99"
abbreviation (input) OP_BOOLAND :: u8 where "OP_BOOLAND \<equiv> 0x9a"
abbreviation (input) OP_BOOLOR :: u8 where "OP_BOOLOR \<equiv> 0x9b"
abbreviation (input) OP_NUMEQUAL :: u8 where "OP_NUMEQUAL \<equiv> 0x9c"
abbreviation (input) OP_NUMEQUALVERIFY :: u8 where "OP_NUMEQUALVERIFY \<equiv> 0x9d"
abbreviation (input) OP_NUMNOTEQUAL :: u8 where "OP_NUMNOTEQUAL \<equiv> 0x9e"
abbreviation (input) OP_LESSTHAN :: u8 where "OP_LESSTHAN \<equiv> 0x9f"
abbreviation (input) OP_GREATERTHAN :: u8 where "OP_GREATERTHAN \<equiv> 0xa0"
abbreviation (input) OP_LESSTHANOREQUAL :: u8 where "OP_LESSTHANOREQUAL \<equiv> 0xa1"
abbreviation (input) OP_GREATERTHANOREQUAL :: u8 where "OP_GREATERTHANOREQUAL \<equiv> 0xa2"
abbreviation (input) OP_MIN :: u8 where "OP_MIN \<equiv> 0xa3"
abbreviation (input) OP_MAX :: u8 where "OP_MAX \<equiv> 0xa4"
abbreviation (input) OP_WITHIN :: u8 where "OP_WITHIN \<equiv> 0xa5"
abbreviation (input) OP_RIPEMD160 :: u8 where "OP_RIPEMD160 \<equiv> 0xa6"
abbreviation (input) OP_SHA1 :: u8 where "OP_SHA1 \<equiv> 0xa7"
abbreviation (input) OP_SHA256 :: u8 where "OP_SHA256 \<equiv> 0xa8"
abbreviation (input) OP_HASH160 :: u8 where "OP_HASH160 \<equiv> 0xa9"
abbreviation (input) OP_HASH256 :: u8 where "OP_HASH256 \<equiv> 0xaa"
abbreviation (input) OP_CODESEPARATOR :: u8 where "OP_CODESEPARATOR \<equiv> 0xab"
abbreviation (input) OP_CHECKSIG :: u8 where "OP_CHECKSIG \<equiv> 0xac"
abbreviation (input) OP_CHECKSIGVERIFY :: u8 where "OP_CHECKSIGVERIFY \<equiv> 0xad"
abbreviation (input) OP_CHECKMULTISIG :: u8 where "OP_CHECKMULTISIG \<equiv> 0xae"
abbreviation (input) OP_CHECKMULTISIGVERIFY :: u8 where "OP_CHECKMULTISIGVERIFY \<equiv> 0xaf"
abbreviation (input) OP_NOP1 :: u8 where "OP_NOP1 \<equiv> 0xb0"
abbreviation (input) OP_CHECKLOCKTIMEVERIFY :: u8 where "OP_CHECKLOCKTIMEVERIFY \<equiv> 0xb1"
abbreviation (input) OP_NOP2 :: u8 where "OP_NOP2 \<equiv> 0xb1"
abbreviation (input) OP_CHECKSEQUENCEVERIFY :: u8 where "OP_CHECKSEQUENCEVERIFY \<equiv> 0xb2"
abbreviation (input) OP_NOP3 :: u8 where "OP_NOP3 \<equiv> 0xb2"
abbreviation (input) OP_NOP4 :: u8 where "OP_NOP4 \<equiv> 0xb3"
abbreviation (input) OP_NOP5 :: u8 where "OP_NOP5 \<equiv> 0xb4"
abbreviation (input) OP_NOP6 :: u8 where "OP_NOP6 \<equiv> 0xb5"
abbreviation (input) OP_NOP7 :: u8 where "OP_NOP7 \<equiv> 0xb6"
abbreviation (input) OP_NOP8 :: u8 where "OP_NOP8 \<equiv> 0xb7"
abbreviation (input) OP_NOP9 :: u8 where "OP_NOP9 \<equiv> 0xb8"
abbreviation (input) OP_NOP10 :: u8 where "OP_NOP10 \<equiv> 0xb9"
abbreviation (input) OP_SMALLINTEGER :: u8 where "OP_SMALLINTEGER \<equiv> 0xfa"
abbreviation (input) OP_PUBKEYS :: u8 where "OP_PUBKEYS \<equiv> 0xfb"
abbreviation (input) OP_PUBKEYHASH :: u8 where "OP_PUBKEYHASH \<equiv> 0xfd"
abbreviation (input) OP_PUBKEY :: u8 where "OP_PUBKEY \<equiv> 0xfe"
abbreviation (input) OP_INVALIDOPCODE :: u8 where "OP_INVALIDOPCODE \<equiv> 0xff"

definition MAX_SCRIPT_ELEMENT_SIZE :: nat where "MAX_SCRIPT_ELEMENT_SIZE = 520"

definition MAX_OPS_PER_SCRIPT :: int where "MAX_OPS_PER_SCRIPT = 201"

definition MAX_PUBKEYS_PER_MULTISIG :: int where "MAX_PUBKEYS_PER_MULTISIG = 20"

definition MAX_SCRIPT_SIZE :: nat where "MAX_SCRIPT_SIZE = 10000"

definition LOCKTIME_THRESHOLD :: int where "LOCKTIME_THRESHOLD = 500000000"

section \<open>Script numbers\<close>

text \<open>
  A \<^verbatim>\<open>CScriptNum\<close> is its \<^verbatim>\<open>int64_t m_value\<close>, here an \<open>int\<close>. The constructor from bytes
  throws \<^verbatim>\<open>scriptnum_error\<close>, which is \<open>None\<close>.
\<close>

fun vch_or :: "nat \<Rightarrow> bytes \<Rightarrow> u64 \<Rightarrow> u64" where
  "vch_or i [] result = result"
| "vch_or i (b # vch) result = vch_or (Suc i) vch (result OR push_bit (8 * i) (ucast b))"

definition set_vch :: "bytes \<Rightarrow> int" where
  "set_vch vch =
     (if vch = [] then 0
      else let result = vch_or 0 vch 0
           in if last vch AND 0x80 \<noteq> 0
              then - sint (result AND NOT (push_bit (8 * (length vch - 1)) 0x80))
              else sint result)"

definition minimal_vch :: "bytes \<Rightarrow> bool" where
  "minimal_vch vch =
     (if vch \<noteq> [] \<and> last vch AND 0x7f = 0
      then \<not> (length vch \<le> 1 \<or> vch ! (length vch - 2) AND 0x80 = 0)
      else True)"

definition CScriptNum :: "bytes \<Rightarrow> bool \<Rightarrow> nat \<Rightarrow> int option" where
  "CScriptNum vch fRequireMinimal nMaxNumSize =
     (if length vch > nMaxNumSize then None
      else if fRequireMinimal \<and> \<not> minimal_vch vch then None
      else Some (set_vch vch))"

definition nDefaultMaxNumSize :: nat where "nDefaultMaxNumSize = 4"

function abs_bytes :: "u64 \<Rightarrow> bytes" where
  "abs_bytes absvalue =
     (if absvalue \<noteq> 0 then ucast (absvalue AND 0xff) # abs_bytes (drop_bit 8 absvalue) else [])"
  by pat_completeness auto
termination
  by (relation "measure unat") (simp_all add: unat_drop_bit_div unat_gt_0)

definition serialize_num :: "int \<Rightarrow> bytes" where
  "serialize_num value =
     (if value = 0 then []
      else let neg = value < 0;
               absvalue = (if neg then word_of_int (- value) else word_of_int value);
               result = abs_bytes absvalue
           in if last result AND 0x80 \<noteq> 0 then result @ [if neg then 0x80 else 0]
              else if neg then butlast result @ [last result OR 0x80]
              else result)"

definition getint :: "int \<Rightarrow> int" where
  "getint v = (if v > 2 ^ 31 - 1 then 2 ^ 31 - 1 else if v < - (2 ^ 31) then - (2 ^ 31) else v)"

text \<open>The compound operators assert that the result fits; \<open>None\<close> is the abort.\<close>

definition num_add_assign :: "int \<Rightarrow> int \<Rightarrow> int option" where
  "num_add_assign v rhs =
     (if rhs = 0 \<or> (rhs > 0 \<and> v \<le> (2 ^ 63 - 1) - rhs) \<or> (rhs < 0 \<and> v \<ge> - (2 ^ 63) - rhs)
      then Some (v + rhs) else None)"

definition num_sub_assign :: "int \<Rightarrow> int \<Rightarrow> int option" where
  "num_sub_assign v rhs =
     (if rhs = 0 \<or> (rhs > 0 \<and> v \<ge> - (2 ^ 63) + rhs) \<or> (rhs < 0 \<and> v \<le> (2 ^ 63 - 1) + rhs)
      then Some (v - rhs) else None)"

definition num_neg :: "int \<Rightarrow> int option" where
  "num_neg v = (if v \<noteq> - (2 ^ 63) then Some (- v) else None)"

section \<open>Building and reading scripts\<close>

fun WriteLE16 :: "u16 \<Rightarrow> bytes" where
  "WriteLE16 x = [ucast x, ucast (drop_bit 8 x)]"

fun ReadLE16 :: "bytes \<Rightarrow> u16" where
  "ReadLE16 (a # b # rest) = ucast a OR push_bit 8 (ucast b)"
| "ReadLE16 _ = 0"

definition push_data :: "CScript \<Rightarrow> bytes \<Rightarrow> CScript" where
  "push_data s b =
     s @ (if length b < unat OP_PUSHDATA1 then [of_nat (length b)]
          else if length b \<le> 0xff then [OP_PUSHDATA1, of_nat (length b)]
          else if length b \<le> 0xffff then OP_PUSHDATA2 # WriteLE16 (of_nat (length b))
          else OP_PUSHDATA4 # WriteLE32 (of_nat (length b))) @ b"

definition push_int64 :: "CScript \<Rightarrow> int \<Rightarrow> CScript" where
  "push_int64 s n =
     (if n = - 1 \<or> (n \<ge> 1 \<and> n \<le> 16) then s @ [word_of_int (n + (uint OP_1 - 1))]
      else if n = 0 then s @ [OP_0]
      else push_data s (serialize_num n))"

text \<open>
  \<^verbatim>\<open>GetOp2\<close> returns what it stores through its references: the opcode and the pushed
  bytes, or \<open>None\<close> when it returns \<^verbatim>\<open>false\<close>, and the new value of \<^verbatim>\<open>pc\<close>, which has moved
  past the bytes read even on failure.
\<close>

definition push_size :: "u8 \<Rightarrow> bytes \<Rightarrow> nat option \<times> bytes" where
  "push_size opcode pc =
     (if opcode < OP_PUSHDATA1 then (Some (unat opcode), pc)
      else if opcode = OP_PUSHDATA1
      then if length pc < 1 then (None, pc) else (Some (unat (hd pc)), tl pc)
      else if opcode = OP_PUSHDATA2
      then if length pc < 2 then (None, pc) else (Some (unat (ReadLE16 pc)), drop 2 pc)
      else if length pc < 4 then (None, pc) else (Some (unat (ReadLE32 pc)), drop 4 pc))"

fun GetOp2 :: "bytes \<Rightarrow> (opcodetype \<times> bytes) option \<times> bytes" where
  "GetOp2 [] = (None, [])"
| "GetOp2 (opcode # pc) =
     (if opcode \<le> OP_PUSHDATA4
      then case push_size opcode pc of
             (None, pc) \<Rightarrow> (None, pc)
           | (Some nSize, pc) \<Rightarrow>
               if length pc < nSize then (None, pc)
               else (Some (opcode, take nSize pc), drop nSize pc)
      else (Some (opcode, []), pc))"

definition DecodeOP_N :: "opcodetype \<Rightarrow> int option" where
  "DecodeOP_N opcode =
     (if opcode = OP_0 then Some 0
      else if OP_1 \<le> opcode \<and> opcode \<le> OP_16 then Some (uint opcode - (uint OP_1 - 1))
      else None)"

definition EncodeOP_N :: "int \<Rightarrow> opcodetype option" where
  "EncodeOP_N n =
     (if 0 \<le> n \<and> n \<le> 16
      then Some (if n = 0 then OP_0 else word_of_int (uint OP_1 + n - 1))
      else None)"

lemma push_size_length: "push_size opcode pc = (r, pc') \<Longrightarrow> length pc' \<le> length pc"
  by (auto simp: push_size_def split: if_splits)

lemma GetOp2_length: "GetOp2 pc = (Some r, pc') \<Longrightarrow> length pc' < length pc"
  by (cases pc) (auto split: if_splits prod.splits option.splits dest!: push_size_length)

function (sequential) skip_matches :: "bytes \<Rightarrow> bytes \<Rightarrow> int \<times> bytes" where
  "skip_matches [] pc = (0, pc)"
| "skip_matches b pc =
     (if length pc \<ge> length b \<and> take (length b) pc = b
      then let (n, pc') = skip_matches b (drop (length b) pc) in (n + 1, pc')
      else (0, pc))"
  by pat_completeness auto
termination
  by (relation "measure (\<lambda>(b, pc). length pc)") auto

declare skip_matches.simps(2) [simp del] abs_bytes.simps [simp del]

lemma skip_matches_length: "skip_matches b pc = (n, pc') \<Longrightarrow> length pc' \<le> length pc"
proof (induction b pc arbitrary: n pc' rule: skip_matches.induct)
  case (2 v va pc)
  show ?case
  proof (cases "length pc \<ge> length (v # va) \<and> take (length (v # va)) pc = v # va")
    case True
    obtain m q where r: "skip_matches (v # va) (drop (length (v # va)) pc) = (m, q)" by fastforce
    then show ?thesis using "2.IH" [OF True r] "2.prems" True by (simp add: skip_matches.simps(2))
  next
    case False
    then show ?thesis using "2.prems" by (simp add: skip_matches.simps(2) split: if_splits)
  qed
qed simp

text \<open>
  The \<^verbatim>\<open>do ... while (GetOp(pc, opcode))\<close> loop of \<^verbatim>\<open>FindAndDelete\<close>: it returns the number
  of matches and what the loop and the final insertion append to \<^verbatim>\<open>result\<close> from \<^verbatim>\<open>pc\<close> on.
\<close>

function delete_loop :: "bytes \<Rightarrow> bytes \<Rightarrow> int \<times> bytes" where
  "delete_loop b pc =
     (let (n, pc2) = skip_matches b pc
      in case GetOp2 pc2 of
           (None, _) \<Rightarrow> (n, pc2)
         | (Some _, pc) \<Rightarrow>
             (let (m, result) = delete_loop b pc
              in (n + m, take (length pc2 - length pc) pc2 @ result)))"
  by pat_completeness auto
termination
  by (relation "measure (\<lambda>(b, pc). length pc)")
     (auto dest!: skip_matches_length [OF sym] GetOp2_length [OF sym])

declare delete_loop.simps [simp del]

definition FindAndDelete :: "CScript \<Rightarrow> CScript \<Rightarrow> int \<times> CScript" where
  "FindAndDelete s b =
     (if b = [] then (0, s)
      else let (nFound, result) = delete_loop b s
           in if nFound > 0 then (nFound, result) else (nFound, s))"


function Find_op :: "opcodetype \<Rightarrow> bytes \<Rightarrow> nat" where
  "Find_op op pc =
     (case GetOp2 pc of
        (None, _) \<Rightarrow> 0
      | (Some (opcode, _), pc) \<Rightarrow> (if opcode = op then 1 else 0) + Find_op op pc)"
  by pat_completeness auto
termination
  by (relation "measure (\<lambda>(op, pc). length pc)") (auto dest!: GetOp2_length [OF sym])

definition IsPayToPublicKeyHash :: "CScript \<Rightarrow> bool" where
  "IsPayToPublicKeyHash s \<longleftrightarrow>
     length s = 25 \<and> s ! 0 = OP_DUP \<and> s ! 1 = OP_HASH160 \<and> s ! 2 = 0x14
     \<and> s ! 23 = OP_EQUALVERIFY \<and> s ! 24 = OP_CHECKSIG"

definition IsPayToScriptHash :: "CScript \<Rightarrow> bool" where
  "IsPayToScriptHash s \<longleftrightarrow>
     length s = 23 \<and> s ! 0 = OP_HASH160 \<and> s ! 1 = 0x14 \<and> s ! 22 = OP_EQUAL"

function IsPushOnly :: "bytes \<Rightarrow> bool" where
  "IsPushOnly pc =
     (if pc = [] then True
      else case GetOp2 pc of
             (None, _) \<Rightarrow> False
           | (Some (opcode, _), pc) \<Rightarrow> if opcode > OP_16 then False else IsPushOnly pc)"
  by pat_completeness auto
termination
  by (relation "measure length") (auto dest!: GetOp2_length [OF sym])

definition IsUnspendable :: "CScript \<Rightarrow> bool" where
  "IsUnspendable s \<longleftrightarrow> (length s > 0 \<and> hd s = OP_RETURN) \<or> length s > MAX_SCRIPT_SIZE"

section \<open>Counting signature operations\<close>

text \<open>
  \<open>lastOpcode\<close> is the opcode before \<open>pc\<close>. Between \<^verbatim>\<open>OP_1\<close> and \<^verbatim>\<open>OP_16\<close> the assertion of
  \<^verbatim>\<open>DecodeOP_N\<close> holds, so its value is written out.
\<close>

function sigop_loop :: "bool \<Rightarrow> opcodetype \<Rightarrow> bytes \<Rightarrow> nat" where
  "sigop_loop fAccurate lastOpcode pc =
     (case GetOp2 pc of
        (None, _) \<Rightarrow> 0
      | (Some (opcode, _), pc) \<Rightarrow>
          (if opcode = OP_CHECKSIG \<or> opcode = OP_CHECKSIGVERIFY then 1
           else if opcode = OP_CHECKMULTISIG \<or> opcode = OP_CHECKMULTISIGVERIFY
           then if fAccurate \<and> lastOpcode \<ge> OP_1 \<and> lastOpcode \<le> OP_16
                then unat lastOpcode - (unat OP_1 - 1)
                else nat MAX_PUBKEYS_PER_MULTISIG
           else 0) + sigop_loop fAccurate opcode pc)"
  by pat_completeness auto
termination
  by (relation "measure (\<lambda>(a, l, pc). length pc)") (auto dest!: GetOp2_length [OF sym])

text \<open>
  The count is a natural number; the source's \<^verbatim>\<open>unsigned int\<close> could wrap only for a script of more than \<open>2 ^ 32 / 20\<close>
  bytes.
\<close>

definition GetSigOpCount :: "bool \<Rightarrow> CScript \<Rightarrow> nat" where
  "GetSigOpCount fAccurate s = sigop_loop fAccurate OP_INVALIDOPCODE s"

function last_push :: "bytes \<Rightarrow> bytes \<Rightarrow> bytes option" where
  "last_push data pc =
     (if pc = [] then Some data
      else case GetOp2 pc of
             (None, _) \<Rightarrow> None
           | (Some (opcode, data), pc) \<Rightarrow> if opcode > OP_16 then None else last_push data pc)"
  by pat_completeness auto
termination
  by (relation "measure (\<lambda>(d, pc). length pc)") (auto dest!: GetOp2_length [OF sym])

declare Find_op.simps [simp del] IsPushOnly.simps [simp del] sigop_loop.simps [simp del] last_push.simps [simp del]

definition GetSigOpCount_p2sh :: "CScript \<Rightarrow> CScript \<Rightarrow> nat" where
  "GetSigOpCount_p2sh s scriptSig =
     (if \<not> IsPayToScriptHash s then GetSigOpCount True s
      else case last_push [] scriptSig of
             None \<Rightarrow> 0
           | Some subscript \<Rightarrow> GetSigOpCount True subscript)"

section \<open>Script numbers: values and round trip\<close>

text \<open>The little-endian value of a byte string.\<close>

fun lendian :: "bytes \<Rightarrow> nat" where
  "lendian [] = 0"
| "lendian (b # bs) = unat b + 256 * lendian bs"

lemma lendian_bound: "lendian bs < 256 ^ length bs"
proof (induction bs)
  case (Cons b bs)
  have "unat b < 256" by simp
  then have "lendian (b # bs) < 256 + 256 * lendian bs" by simp
  also have "\<dots> \<le> 256 * 256 ^ length bs" using Cons by simp
  finally show ?case by simp
qed simp

lemma lendian_append: "lendian (xs @ ys) = lendian xs + 256 ^ length xs * lendian ys"
  by (induction xs) (simp_all add: algebra_simps)

lemma or_disjoint_add:
  fixes r :: u64 and b :: u8
  assumes "unat r < 2 ^ (8 * i)" and "i < 8"
  shows "unat (r OR push_bit (8 * i) (ucast b)) = unat r + unat b * 2 ^ (8 * i)"
proof -
  have "unat b < 2 ^ 8" using unat_lt8 [of b] by simp
  then have lt: "unat b * 2 ^ (8 * i) < 2 ^ 64"
  proof -
    have "unat b * 2 ^ (8 * i) < 2 ^ 8 * 2 ^ (8 * i)" using \<open>unat b < 2 ^ 8\<close> by simp
    also have "\<dots> = 2 ^ (8 + 8 * i)" by (simp add: power_add)
    also have "\<dots> \<le> (2::nat) ^ 64" using assms(2) by (intro power_increasing) auto
    finally show ?thesis .
  qed
  have sh: "unat (push_bit (8 * i) (ucast b :: u64)) = unat b * 2 ^ (8 * i)"
    using lt unat_push_bit_no_wrap [of "ucast b :: u64" "8 * i"] by simp
  have "r AND push_bit (8 * i) (ucast b) = 0"
  proof (rule bit_word_eqI)
    fix n assume "n < LENGTH(64)"
    have "\<not> bit r n" if "8 * i \<le> n"
    proof -
      have "unat r < 2 ^ n" using assms(1) that by (meson less_le_trans one_le_numeral power_increasing)
      then have "take_bit n (unat r) = unat r" by (rule take_bit_nat_eq_self)
      then have "\<not> bit (unat r) n" by (metis bit_take_bit_iff less_irrefl_nat)
      then show ?thesis by (simp add: bit_unsigned_iff)
    qed
    then show "bit (r AND push_bit (8 * i) (ucast b)) n = bit (0 :: u64) n"
      by (auto simp: bit_and_iff bit_push_bit_iff)
  qed
  then have "r OR push_bit (8 * i) (ucast b) = r + push_bit (8 * i) (ucast b)"
    by (simp add: disjunctive_add_eq_or [symmetric])
  moreover have "unat r + unat (push_bit (8 * i) (ucast b :: u64)) < 2 ^ 64"
  proof -
    have "unat r + unat b * 2 ^ (8 * i) < (1 + unat b) * 2 ^ (8 * i)" using assms(1) by simp
    also have "\<dots> \<le> 2 ^ 8 * 2 ^ (8 * i)" using \<open>unat b < 2 ^ 8\<close> by (intro mult_le_mono1) linarith
    also have "\<dots> = 2 ^ (8 + 8 * i)" by (simp add: power_add)
    also have "\<dots> \<le> (2::nat) ^ 64" using assms(2) by (intro power_increasing) auto
    finally show ?thesis by (simp add: sh)
  qed
  ultimately show ?thesis by (simp add: sh unat_add_no_wrap unat_word_ariths)
qed


lemma vch_or_lendian:
  "unat r < 2 ^ (8 * i) \<Longrightarrow> i + length vch \<le> 8 \<Longrightarrow> unat (vch_or i vch r) = unat r + 2 ^ (8 * i) * lendian vch"
proof (induction i vch r rule: vch_or.induct)
  case (2 i b vch r)
  have e: "unat (r OR push_bit (8 * i) (ucast b)) = unat r + unat b * 2 ^ (8 * i)"
    using "2.prems" by (intro or_disjoint_add) auto
  have "unat r + unat b * 2 ^ (8 * i) < (1 + unat b) * 2 ^ (8 * i)" using "2.prems"(1) by simp
  also have "\<dots> \<le> 2 ^ 8 * 2 ^ (8 * i)" using unat_lt8 [of b] by (intro mult_le_mono1) (simp del: unat_lt8)
  also have "\<dots> = 2 ^ (8 * Suc i)" by (simp add: power_add)
  finally have "unat (r OR push_bit (8 * i) (ucast b)) < 2 ^ (8 * Suc i)" by (simp only: e)
  then have "unat (vch_or i (b # vch) r) = unat r + unat b * 2 ^ (8 * i) + 2 ^ (8 * Suc i) * lendian vch"
    using "2.IH" "2.prems"(2) e by simp
  also have "(2::nat) ^ (8 * Suc i) = 256 * 2 ^ (8 * i)" by (simp add: power_add)
  finally show ?case by (simp add: algebra_simps)
qed simp

lemma byte_sign: "(b :: u8) AND 0x80 \<noteq> 0 \<longleftrightarrow> 128 \<le> unat b"
proof -
  have "b AND 0x80 \<noteq> 0 \<longleftrightarrow> bit b 7" using and_push_bit_1 [of b 7] by (simp add: push_bit_of_1)
  also have "\<dots> \<longleftrightarrow> bit (unat b) 7" by (simp add: bit_unsigned_iff)
  also have "\<dots> \<longleftrightarrow> 128 \<le> unat b" using bit_top_iff [of "unat b" 7] by simp
  finally show ?thesis .
qed

lemma byte_low7: "unat ((b :: u8) AND 0x7f) = unat b mod 128"
  using unat_and_mask_mod [of b 7] by (simp add: mask_numeral)

lemma byte_or_sign: "unat b < 128 \<Longrightarrow> unat ((b :: u8) OR 0x80) = unat b + 128"
proof -
  assume b: "unat b < 128"
  then have "b AND 0x80 = 0" using byte_sign [of b] by simp
  then have "b OR 0x80 = b + 0x80" by (simp add: disjunctive_add_eq_or [symmetric])
  then show ?thesis using b by (simp add: unat_add_no_wrap unat_word_ariths)
qed

lemma clear_top_bit:
  fixes w :: u64
  assumes "k < 64" and "unat w = x + 2 ^ k" and "x < 2 ^ k"
  shows "unat (w AND NOT (push_bit k 1)) = x"
proof -
  have "bit (unat w) k" using bit_top_iff [of "unat w" k] assms(2,3) by simp
  then have bw: "bit w k" using assms(1) by (simp add: bit_unsigned_iff)
  have m: "unat (push_bit k 1 :: u64) = 2 ^ k" 
    using power_strict_increasing [OF assms(1), of "2 :: nat"] unat_push_bit_no_wrap [of "1 :: u64" k] by simp
  have "w = (w AND NOT (push_bit k 1)) OR push_bit k 1"
    using bw by (intro bit_word_eqI) (auto simp: bit_and_iff bit_or_iff bit_not_iff bit_exp_iff)
  also have "\<dots> = (w AND NOT (push_bit k 1)) + push_bit k 1"
  proof -
    have "(w AND NOT (push_bit k 1)) AND push_bit k 1 = 0"
      by (intro bit_word_eqI) (auto simp: bit_and_iff bit_not_iff)
    then show ?thesis by (rule disjunctive_add_eq_or [symmetric])
  qed
  finally have "w - push_bit k 1 = w AND NOT (push_bit k 1)" by (simp add: diff_eq_eq)
  moreover have "push_bit k 1 \<le> w" using m assms(2) by (simp add: word_le_nat_alt)
  ultimately show ?thesis using m assms(2) by (metis add_diff_cancel_right' unat_sub)
qed

lemma top_digits: "x < 2 ^ m \<Longrightarrow> x + 2 ^ m * (y mod 128) < (2::nat) ^ (m + 7)"
proof -
  assume "x < 2 ^ m"
  moreover have "2 ^ m * (y mod 128) \<le> 2 ^ m * (127 :: nat)" by (intro mult_le_mono2) (simp add: less_Suc_eq_le [symmetric])
  ultimately have "x + 2 ^ m * (y mod 128) < 2 ^ m * 128" by linarith
  then show ?thesis by (simp add: power_add)
qed

text \<open>What a nonempty byte string of at most eight bytes denotes.\<close>

lemma set_vch_value:
  assumes "length vch < 8"
  shows "set_vch (vch @ [b]) =
    (let m = int (lendian vch + 256 ^ length vch * (unat b mod 128)) in if 128 \<le> unat b then - m else m)"
proof -
  define w where "w = vch_or 0 (vch @ [b]) 0"
  define n where "n = length vch"
  have w: "unat w = lendian vch + 2 ^ (8 * n) * unat b"
    using vch_or_lendian [of 0 0 "vch @ [b]"] assms by (simp add: w_def n_def lendian_append power_mult)
  have lt: "lendian vch < 2 ^ (8 * n)" using lendian_bound [of vch] by (simp add: n_def power_mult)
  have pn: "(2::nat) ^ (8 * n) \<le> 2 ^ 56" using assms by (intro power_increasing) (auto simp: n_def)
  have p: "(256::nat) ^ n = 2 ^ (8 * n)" by (simp add: power_mult)
  have small: "lendian vch + 2 ^ (8 * n) * (unat b mod 128) < 2 ^ 63"
    by (rule less_le_trans [OF top_digits [OF lt]]) (use assms in \<open>intro power_increasing, auto simp: n_def\<close>)
  show ?thesis
  proof (cases "128 \<le> unat b")
    case True
    have b: "unat b = 128 + unat b mod 128" using True by (simp add: le_mod_geq less_diff_conv2)
    have "(0x80 :: u64) = push_bit 7 1" by simp
    then have c: "push_bit (8 * n) 0x80 = (push_bit (8 * n + 7) 1 :: u64)" by (simp only: push_bit_push_bit)
    have k: "8 * n + 7 < 64" using assms by (simp add: n_def)
    have d: "unat w = lendian vch + 2 ^ (8 * n) * (unat b mod 128) + 2 ^ (8 * n + 7)"
      unfolding w by (subst b) (simp add: power_add algebra_simps)
    have "unat (w AND NOT (push_bit (8 * n) 0x80)) = lendian vch + 2 ^ (8 * n) * (unat b mod 128)"
      unfolding c using clear_top_bit [OF k, of w "lendian vch + 2 ^ (8 * n) * (unat b mod 128)"] d lt
      by (simp add: top_digits)
    then show ?thesis
      using True small sint_small [of "w AND NOT (push_bit (8 * n) 0x80)"] byte_sign [of b]
      by (simp add: set_vch_def w_def [symmetric] n_def [symmetric] p Let_def)
  next
    case False
    then have "unat b mod 128 = unat b" by simp
    then show ?thesis
      using False small sint_small [of w] byte_sign [of b] w
      by (simp add: set_vch_def w_def [symmetric] n_def [symmetric] p Let_def)
  qed
qed


lemma abs_bytes_laws:
  "lendian (abs_bytes w) = unat w \<and> (w \<noteq> 0 \<longrightarrow> abs_bytes w \<noteq> [] \<and> last (abs_bytes w) \<noteq> 0)"
proof (induction w rule: abs_bytes.induct)
  case (1 w)
  show ?case
  proof (cases "w = 0")
    case True
    then show ?thesis by (simp add: abs_bytes.simps)
  next
    case False
    have b: "unat (ucast (w AND 0xff) :: u8) = unat w mod 256"
      using unat_and_mask_mod [of w 8] by (simp add: mask_numeral unsigned_ucast_eq take_bit_eq_mod)
    have d: "unat (drop_bit 8 w) = unat w div 256" by (simp add: unat_drop_bit_div)
    have e: "abs_bytes w = ucast (w AND 0xff) # abs_bytes (drop_bit 8 w)" using False by (simp add: abs_bytes.simps [of w])
    have v: "lendian (abs_bytes w) = unat w" using "1.IH" [OF False] by (simp add: e b d mult_div_mod_eq [of 256, simplified mult.commute])
    have "last (abs_bytes w) \<noteq> 0"
    proof (cases "drop_bit 8 w = 0")
      case True
      then have "unat w div 256 = 0" using d by simp
      then have "unat w mod 256 = unat w" by simp
      then have "unat (ucast (w AND 0xff) :: u8) \<noteq> 0" using b False by (simp add: unat_eq_0)
      then show ?thesis using True by (auto simp: e abs_bytes.simps [of 0])
    next
      case False
      then show ?thesis using "1.IH" [OF \<open>w \<noteq> 0\<close>] by (simp add: e)
    qed
    then show ?thesis using v by (simp add: e)
  qed
qed

lemma lendian_inj:
  "length xs = length ys \<Longrightarrow> lendian xs = lendian ys \<Longrightarrow> xs = ys"
proof (induction xs ys rule: list_induct2)
  case (Cons x xs y ys)
  have "(unat x + 256 * lendian xs) mod 256 = unat x" "(unat y + 256 * lendian ys) mod 256 = unat y" by simp_all
  then have "unat x = unat y" using Cons.prems unfolding lendian.simps by metis
  then show ?case using Cons by (simp add: word_unat_eq_iff)
qed simp

lemma lendian_length:
  assumes "xs \<noteq> []" and "last xs \<noteq> 0"
  shows "256 ^ (length xs - 1) \<le> lendian xs"
proof -
  have "xs = butlast xs @ [last xs]" using assms(1) by simp
  then have "lendian xs = lendian (butlast xs) + 256 ^ (length xs - 1) * unat (last xs)"
    using lendian_append [of "butlast xs" "[last xs]"] by simp
  moreover have "1 \<le> unat (last xs)" using assms(2) by (simp add: Suc_le_eq unat_gt_0)
  ultimately show ?thesis by (metis mult.right_neutral mult_le_mono2 trans_le_add2)
qed

text \<open>A number has one representation without a leading zero byte.\<close>

lemma lendian_unique:
  assumes "lendian xs = lendian ys" and "xs = [] \<or> last xs \<noteq> 0" and "ys = [] \<or> last ys \<noteq> 0"
  shows "xs = ys"
proof -
  have len: "length as \<le> length bs" if "as = [] \<or> last as \<noteq> 0" "lendian as = lendian bs" for as bs
  proof (rule ccontr)
    assume "\<not> length as \<le> length bs"
    then have "as \<noteq> []" and le: "length bs \<le> length as - 1" by auto
    then have "256 ^ (length as - 1) \<le> lendian as" using that(1) lendian_length by simp
    moreover have "(256::nat) ^ length bs \<le> 256 ^ (length as - 1)" using le by (intro power_increasing) auto
    ultimately show False using lendian_bound [of bs] that(2) by linarith
  qed
  show ?thesis using lendian_inj len [of xs ys] len [of ys xs] assms by (metis le_antisym)
qed

lemma abs_bytes_lendian:
  assumes "length xs \<le> 8" and "xs = [] \<or> last xs \<noteq> 0"
  shows "abs_bytes (of_nat (lendian xs)) = xs"
proof -
  have "lendian xs < 2 ^ 64"
    using lendian_bound [of xs] power_increasing [of "8 * length xs" 64 "2 :: nat"] assms(1) by (simp add: power_mult)
  then have "unat (of_nat (lendian xs) :: u64) = lendian xs" by (simp add: unat_of_nat)
  then show ?thesis
    using lendian_unique [of "abs_bytes (of_nat (lendian xs))" xs] abs_bytes_laws [of "of_nat (lendian xs)"] assms(2)
    by (metis abs_bytes.simps)
qed


lemma unat_word_of_int_64: "0 \<le> v \<Longrightarrow> v < 2 ^ 64 \<Longrightarrow> unat (word_of_int v :: u64) = nat v"
  by (simp add: unat_eq_nat_uint uint_word_of_int)

lemma serialize_form:
  assumes "\<bar>v\<bar> < 2 ^ 63" and "v \<noteq> 0"
  obtains bs b where "abs_bytes (word_of_int \<bar>v\<bar>) = bs @ [b]" and "b \<noteq> 0" and "length bs < 8"
    and "int (lendian bs + 256 ^ length bs * unat b) = \<bar>v\<bar>"
    and "length bs = 7 \<Longrightarrow> unat b < 128"
    and "serialize_num v = (if 128 \<le> unat b then bs @ [b, if v < 0 then 0x80 else 0]
                            else bs @ [if v < 0 then b OR 0x80 else b])"
proof -
  define w :: u64 where "w = word_of_int \<bar>v\<bar>"
  have w: "unat w = nat \<bar>v\<bar>" using assms(1) by (simp add: w_def unat_word_of_int_64)
  then have "w \<noteq> 0" using assms(2) by (auto simp: unat_eq_0 [symmetric])
  then have ab: "lendian (abs_bytes w) = unat w" "abs_bytes w \<noteq> []" "last (abs_bytes w) \<noteq> 0"
    using abs_bytes_laws [of w] by simp_all
  define bs b where "bs = butlast (abs_bytes w)" and "b = last (abs_bytes w)"
  have e: "abs_bytes w = bs @ [b]" using ab(2) by (simp add: bs_def b_def)
  have v: "lendian bs + 256 ^ length bs * unat b = unat w" using ab(1) by (simp add: e lendian_append)
  have "256 ^ length bs \<le> unat w" using lendian_length [OF ab(2,3)] ab(1) by (simp add: e)
  then have "(256::nat) ^ length bs < 256 ^ 8" using unat_lt64 [of w] by (simp del: unat_lt64)
  then have l: "length bs < 8" by (rule power_less_imp_less_exp [rotated]) simp
  have b7: "unat b < 128" if "length bs = 7"
  proof -
    have "256 ^ 7 * unat b < 2 ^ 63" using v w assms(1) that by simp
    then show ?thesis by simp
  qed
  have s: "serialize_num v = (if 128 \<le> unat b then bs @ [b, if v < 0 then 0x80 else 0]
                            else bs @ [if v < 0 then b OR 0x80 else b])"
  proof -
    have "(if v < 0 then word_of_int (- v) else word_of_int v) = w" by (simp add: w_def)
    then show ?thesis using assms(2) byte_sign [of b] by (simp only: serialize_num_def Let_def e) simp
  qed
  show ?thesis
    using that [of bs b] e ab(3) l v w b7 s by (simp add: w_def [symmetric])
qed

lemma set_vch_serialize:
  assumes "\<bar>v\<bar> < 2 ^ 63"
  shows "set_vch (serialize_num v) = v \<and> minimal_vch (serialize_num v)"
proof (cases "v = 0")
  case True
  then show ?thesis by (simp add: serialize_num_def set_vch_def minimal_vch_def)
next
  case False
  obtain bs b where sb: "b \<noteq> 0" "length bs < 8" "int (lendian bs + 256 ^ length bs * unat b) = \<bar>v\<bar>"
    "length bs = 7 \<Longrightarrow> unat b < 128"
    "serialize_num v = (if 128 \<le> unat b then bs @ [b, if v < 0 then 0x80 else 0]
                            else bs @ [if v < 0 then b OR 0x80 else b])"
    using serialize_form [OF assms False] by metis
  show ?thesis
  proof (cases "128 \<le> unat b")
    case True
    then have l: "length (bs @ [b]) < 8" using sb(2,4) by fastforce
    have s: "serialize_num v = (bs @ [b]) @ [if v < 0 then 0x80 else 0]" using True sb(5) by simp
    have "b AND 0x80 \<noteq> 0" using True byte_sign [of b] by simp
    then have "minimal_vch (serialize_num v)" by (simp add: s minimal_vch_def nth_append)
    moreover have "set_vch (serialize_num v) = v"
      unfolding s set_vch_value [OF l] using sb(3) by (auto simp: Let_def lendian_append)
    ultimately show ?thesis by simp
  next
    case False
    define c where "c = (if v < 0 then b OR 0x80 else b)"
    have s: "serialize_num v = bs @ [c]" using False sb(5) by (simp add: c_def)
    have c: "unat c = (if v < 0 then unat b + 128 else unat b)" using False byte_or_sign [of b] by (simp add: c_def)
    then have m: "unat c mod 128 = unat b" using False by simp
    have "unat b \<noteq> 0" using sb(1) by (simp add: unat_eq_0)
    then have "c AND 0x7f \<noteq> 0" using m byte_low7 [of c] by auto
    then have "minimal_vch (serialize_num v)" by (simp add: s minimal_vch_def)
    moreover have "set_vch (serialize_num v) = v"
      unfolding s set_vch_value [OF sb(2)] m using sb(3) c False by (auto simp: Let_def)
    ultimately show ?thesis by simp
  qed
qed


lemma set_vch_bound: "length vch \<le> n \<Longrightarrow> 1 \<le> n \<Longrightarrow> n \<le> 8 \<Longrightarrow> \<bar>set_vch vch\<bar> < 2 ^ (8 * n - 1)"
proof (cases vch rule: rev_cases)
  case (snoc bs b)
  assume n: "length vch \<le> n" "1 \<le> n" "n \<le> 8"
  have l: "length bs < 8" using n snoc by simp
  have p: "(256::nat) ^ length bs = 2 ^ (8 * length bs)" by (simp add: power_mult)
  have "lendian bs < 2 ^ (8 * length bs)" using lendian_bound [of bs] by (simp add: p)
  then have "lendian bs + 2 ^ (8 * length bs) * (unat b mod 128) < (2::nat) ^ (8 * length bs + 7)" by (rule top_digits)
  also have "\<dots> \<le> 2 ^ (8 * n - 1)" using n snoc by (intro power_increasing) auto
  finally have "int (lendian bs + 256 ^ length bs * (unat b mod 128)) < 2 ^ (8 * n - 1)"
    unfolding p by (metis of_nat_less_iff of_nat_numeral of_nat_power)
  moreover define m where "m = int (lendian bs + 256 ^ length bs * (unat b mod 128))"
  moreover have "0 \<le> m" by (simp add: m_def)
  ultimately show ?thesis unfolding snoc set_vch_value [OF l] Let_def m_def [symmetric] by simp
qed (simp add: set_vch_def)

lemma serialize_set_vch:
  assumes "length vch \<le> 8" and "minimal_vch vch"
  shows "serialize_num (set_vch vch) = vch"
proof (cases vch rule: rev_cases)
  case Nil
  then show ?thesis by (simp add: set_vch_def serialize_num_def)
next
  case (snoc bs t)
  have l: "length bs < 8" using assms(1) snoc by simp
  define m where "m = lendian bs + 256 ^ length bs * (unat t mod 128)"
  have v: "set_vch vch = (if 128 \<le> unat t then - int m else int m)"
    unfolding snoc set_vch_value [OF l] by (simp add: m_def Let_def)
  have ser: "serialize_num (set_vch vch) =
      (let result = abs_bytes (of_nat m)
       in if last result AND 0x80 \<noteq> 0 then result @ [if 128 \<le> unat t then 0x80 else 0]
          else if 128 \<le> unat t then butlast result @ [last result OR 0x80] else result)" if "m \<noteq> 0"
    using that by (auto simp: serialize_num_def v Let_def)
  show ?thesis
  proof (cases "t AND 0x7f = 0")
    case False
    define r where "r = bs @ [t AND 0x7f]"
    have tm: "unat t mod 128 \<noteq> 0" using False byte_low7 [of t] by (auto simp: unat_eq_0 [symmetric])
    have "lendian r = m" by (simp add: r_def m_def lendian_append byte_low7)
    then have a: "abs_bytes (of_nat m) = r" using abs_bytes_lendian [of r] False l by (simp add: r_def)
    have m0: "m \<noteq> 0" using tm by (simp add: m_def)
    have "(t AND 0x7f) AND 0x80 = 0" by (simp add: and.assoc)
    moreover have "(t AND 0x7f) OR 0x80 = t" if "128 \<le> unat t"
      unfolding word_unat_eq_iff
      using that byte_or_sign [of "t AND 0x7f"] byte_low7 [of t] by (simp add: le_mod_geq less_diff_conv2)
    moreover have "t AND 0x7f = t" if "\<not> 128 \<le> unat t"
      unfolding word_unat_eq_iff using that byte_low7 [of t] by simp
    ultimately show ?thesis unfolding ser [OF m0] by (simp add: a r_def snoc Let_def)
  next
    case True
    then have tm: "unat t mod 128 = 0" using byte_low7 [of t] by simp
    then have "unat t = 0 \<or> unat t = 128" using unat_lt8 [of t] by presburger
    then have tv: "unat t = (if 128 \<le> unat t then 128 else 0)" by auto
    obtain cs b where bs: "bs = cs @ [b]" "b AND 0x80 \<noteq> 0"
      using assms(2) True snoc by (cases bs rule: rev_cases) (auto simp: minimal_vch_def nth_append split: if_splits)
    have "lendian bs = m" by (simp add: m_def tm)
    have "b \<noteq> 0" using bs(2) by auto
    then have a: "abs_bytes (of_nat m) = bs" using abs_bytes_lendian [of bs] bs l \<open>lendian bs = m\<close> by simp
    have "0 < (256::nat) ^ (length bs - 1)" by simp
    moreover have "256 ^ (length bs - 1) \<le> lendian bs" using bs(1) \<open>b \<noteq> 0\<close> by (intro lendian_length) simp_all
    ultimately have m0: "m \<noteq> 0" using \<open>lendian bs = m\<close> by linarith
    have "t = (if 128 \<le> unat t then 0x80 else 0)" using tv by (auto simp: word_unat_eq_iff)
    then show ?thesis unfolding ser [OF m0] using bs by (simp add: a snoc)
  qed
qed


section \<open>Reading back what was pushed\<close>

lemma ReadLE16_WriteLE16: "ReadLE16 (WriteLE16 x @ rest) = x"
proof (rule bit_word_eqI)
  fix n :: nat
  assume "n < LENGTH(16)"
  then consider "n < 8" | "8 \<le> n" "n < 16" by fastforce
  then show "bit (ReadLE16 (WriteLE16 x @ rest)) n = bit x n"
    by cases (auto simp: bit_or_iff bit_push_bit_iff bit_ucast_iff bit_drop_bit_eq dest: bit_lt8)
qed

lemma GetOp2_push_data:
  assumes "length b < 2 ^ 32"
  shows "GetOp2 (push_data [] b @ rest) = (Some (hd (push_data [] b), b), rest) \<and> hd (push_data [] b) \<le> OP_PUSHDATA4"
proof -
  consider "length b < 0x4c" | "0x4c \<le> length b" "length b \<le> 0xff" | "0xff < length b" "length b \<le> 0xffff"
    | "0xffff < length b" by linarith
  then show ?thesis
  proof cases
    case 1
    then have u: "unat (of_nat (length b) :: u8) = length b" by (simp add: unat_of_nat)
    then have "(of_nat (length b) :: u8) < 0x4c" "(of_nat (length b) :: u8) \<le> 0x4e"
      using 1 by (simp_all add: word_less_nat_alt word_le_nat_alt)
    then show ?thesis using 1 u by (simp add: push_data_def push_size_def)
  next
    case 2
    then have "unat (of_nat (length b) :: u8) = length b" by (simp add: unat_of_nat)
    then show ?thesis using 2 by (simp add: push_data_def push_size_def)
  next
    case 3
    then have "unat (of_nat (length b) :: u16) = length b" by (simp add: unat_of_nat)
    then show ?thesis
      using 3 ReadLE16_WriteLE16 [of "of_nat (length b)" "b @ rest"]
      by (simp add: push_data_def push_size_def del: ReadLE16.simps)
  next
    case 4
    then have "unat (of_nat (length b) :: u32) = length b" using assms by (simp add: unat_of_nat)
    then show ?thesis
      using 4 ReadLE32_WriteLE32 [of "of_nat (length b)" "b @ rest"]
      by (simp add: push_data_def push_size_def del: ReadLE32.simps)
  qed
qed

lemma push_data_append: "push_data s b = s @ push_data [] b"
  by (simp add: push_data_def)

section \<open>Deleting a pattern\<close>

lemma skip_matches_split:
  "b \<noteq> [] \<Longrightarrow> skip_matches b pc = (n, pc') \<Longrightarrow> 0 \<le> n \<and> pc = concat (replicate (nat n) b) @ pc' \<and> (n = 0 \<longrightarrow> pc' = pc)"
proof (induction b pc arbitrary: n pc' rule: skip_matches.induct)
  case (2 v va pc)
  show ?case
  proof (cases "length pc \<ge> length (v # va) \<and> take (length (v # va)) pc = v # va")
    case True
    obtain m q where r: "skip_matches (v # va) (drop (length (v # va)) pc) = (m, q)" by fastforce
    have IH: "0 \<le> m" "drop (length (v # va)) pc = concat (replicate (nat m) (v # va)) @ q" using "2.IH" [OF True _ r] by simp_all
    have n: "n = m + 1" "pc' = q" using "2.prems"(2) r True by (simp_all add: skip_matches.simps(2))
    have "pc = (v # va) @ drop (length (v # va)) pc" using True by (metis append_take_drop_id)
    then show ?thesis using IH n by (simp add: nat_add_distrib)
  next
    case False
    then show ?thesis using "2.prems"(2) by (auto simp: skip_matches.simps(2) split: if_splits)
  qed
qed simp

lemma GetOp2_suffix: "GetOp2 pc = (Some r, pc') \<Longrightarrow> \<exists>seg. pc = seg @ pc'"
proof (cases pc)
  case (Cons a as)
  assume g: "GetOp2 pc = (Some r, pc')"
  have ps: "\<exists>seg. as = seg @ q" if "push_size a as = (x, q)" for x q
    using that by (auto simp: push_size_def split: if_splits intro: exI [of _ "[]"] exI [of _ "[hd as]"]
        exI [of _ "take 2 as"] exI [of _ "take 4 as"])
  show ?thesis
    using g Cons ps by (auto split: if_splits prod.splits option.splits)
       (metis append.assoc append_Cons append_take_drop_id)+
qed simp


lemma delete_loop_laws:
  "b \<noteq> [] \<Longrightarrow> delete_loop b pc = (n, r) \<Longrightarrow>
   0 \<le> n \<and> length pc = length r + nat n * length b \<and> (n = 0 \<longrightarrow> r = pc)"
proof (induction b pc arbitrary: n r rule: delete_loop.induct)
  case (1 b pc)
  obtain k pc2 where k: "skip_matches b pc = (k, pc2)" by fastforce
  have s: "0 \<le> k" "pc = concat (replicate (nat k) b) @ pc2" "k = 0 \<longrightarrow> pc2 = pc"
    using skip_matches_split [OF "1.prems"(1) k] by blast+
  have lc: "length (concat (replicate (nat k) b)) = nat k * length b" by (simp add: length_concat sum_list_replicate)
  show ?case
  proof (cases "GetOp2 pc2")
    case (Pair g pc3)
    show ?thesis
    proof (cases g)
      case None
      then have nr: "n = k" "r = pc2" using "1.prems"(2) k Pair by (simp_all add: delete_loop.simps [of b pc])
      have "length pc = nat k * length b + length pc2" using s(2) lc by (metis length_append)
      then show ?thesis using nr s(1,3) by simp
    next
      case (Some x)
      obtain m res where m: "delete_loop b pc3 = (m, res)" by fastforce
      have IH: "0 \<le> m" "length pc3 = length res + nat m * length b" "m = 0 \<longrightarrow> res = pc3"
        using "1.IH" [OF k [symmetric] refl Pair [symmetric] Some "1.prems"(1) m] by simp_all
      obtain seg where seg: "pc2 = seg @ pc3" using GetOp2_suffix Pair Some by blast
      have nr: "n = k + m" "r = seg @ res" using "1.prems"(2) k Pair Some m seg by (simp_all add: delete_loop.simps [of b pc])
      have "length pc = nat k * length b + length pc2" using s(2) lc by (metis length_append)
      also have "length pc2 = length seg + (length res + nat m * length b)" using IH(2) seg by simp
      finally have "length pc = length r + nat n * length b"
        using nr s(1) IH(1) by (simp add: nat_add_distrib add_mult_distrib)
      then show ?thesis using s(1,3) IH(1,3) nr seg by auto
    qed
  qed
qed

section \<open>Properties\<close>

text \<open>
  C39. Script numbers have exactly one minimal encoding: writing a 64-bit number and
  reading it back under the minimality rule returns it, and whenever the reader accepts a
  byte string of up to eight bytes under that rule, writing the number gives back the same
  bytes. What the numeric opcodes read (four bytes by default) stays below \<open>2^31\<close>.
\<close>

theorem scriptnum_roundtrip:
  "(\<bar>v\<bar> < 2 ^ 63 \<longrightarrow> CScriptNum (serialize_num v) True (length (serialize_num v)) = Some v)
   \<and> (n \<le> 8 \<longrightarrow> CScriptNum vch True n = Some w \<longrightarrow> serialize_num w = vch)
   \<and> (CScriptNum vch fRequireMinimal nDefaultMaxNumSize = Some w \<longrightarrow> \<bar>w\<bar> < 2 ^ 31)"
  using set_vch_serialize [of v] serialize_set_vch [of vch] set_vch_bound [of vch 4]
  by (auto simp: CScriptNum_def nDefaultMaxNumSize_def split: if_splits)

theorem scriptnum_roundtrip_witness:
  "serialize_num (- 255) = [0xff, 0x80] \<and> CScriptNum [0xff, 0x80] True 2 = Some (- 255)
   \<and> CScriptNum [0x7f, 0x00] True 4 = None \<and> CScriptNum [0x80] True 4 = None"
proof -
  have s: "serialize_num (- 255) = [0xff, 0x80]" by code_simp
  have "CScriptNum [0xff, 0x80] True 2 = Some (- 255)"
    using scriptnum_roundtrip [of "- 255" 2 "[0xff, 0x80]"] by (simp add: s numeral_2_eq_2)
  then show ?thesis using s by (simp add: CScriptNum_def minimal_vch_def) 
qed

text \<open>
  Appending data to a script and reading an instruction are inverse, for every length
  the four push forms encode: the reader returns the data with a push opcode and stops
  exactly behind it, whatever follows.
\<close>

theorem push_data_GetOp:
  assumes "length b < 2 ^ 32"
  shows "\<exists>p opcode. push_data s b = s @ p \<and> opcode \<le> OP_PUSHDATA4
           \<and> (\<forall>rest. GetOp2 (p @ rest) = (Some (opcode, b), rest))"
  using GetOp2_push_data [OF assms] push_data_append [of s b] by blast

text \<open>
  \<^verbatim>\<open>FindAndDelete\<close> removes exactly the bytes of the matches it counts, and leaves the
  script alone when it finds none.
\<close>

theorem FindAndDelete_correct:
  "FindAndDelete s b = (n, r) \<longrightarrow>
     0 \<le> n \<and> int (length s) = int (length r) + n * int (length b) \<and> (n = 0 \<longrightarrow> r = s)"
proof
  assume f: "FindAndDelete s b = (n, r)"
  show "0 \<le> n \<and> int (length s) = int (length r) + n * int (length b) \<and> (n = 0 \<longrightarrow> r = s)"
  proof (cases "b = []")
    case False
    obtain m q where d: "delete_loop b s = (m, q)" by fastforce
    have l: "0 \<le> m" "length s = length q + nat m * length b" "m = 0 \<longrightarrow> q = s" using delete_loop_laws [OF False d] by simp_all
    then have "int (length s) = int (length q) + m * int (length b)" by (simp add: of_nat_diff)
    then show ?thesis using f d False l by (auto simp: FindAndDelete_def split: if_splits)
  qed (use f in \<open>simp add: FindAndDelete_def\<close>)
qed


theorem push_data_GetOp_witness:
  "\<exists>p opcode. push_data [] (replicate 300 7) = [] @ p
     \<and> (\<forall>rest. GetOp2 (p @ rest) = (Some (opcode, replicate 300 7), rest))"
  using push_data_GetOp [of "replicate 300 7" "[]"] by auto

theorem FindAndDelete_correct_witness:
  "\<exists>r. FindAndDelete [OP_DUP, 0x01, 0x05, OP_DUP] [0x01, 0x05] = (1, r) \<and> int (length r) = 2"
proof -
  have "fst (FindAndDelete [0x76, 0x01, 0x05, 0x76] [0x01, 0x05]) = 1" by code_simp
  then obtain r where r: "FindAndDelete [0x76, 0x01, 0x05, 0x76] [0x01, 0x05] = (1, r)" by (metis prod.collapse)
  then show ?thesis using FindAndDelete_correct [of "[0x76, 0x01, 0x05, 0x76]" "[0x01, 0x05]" 1 r] by simp
qed

end
