(* ===== verification/Interpreter.thy ===== *)
theory Interpreter
  imports Script "HOL-Library.Sublist"
begin

text \<open>
  \<^verbatim>\<open>script/interpreter.cpp\<close>: the stack machine that decides whether an input may spend an
  output. The stack is a list whose head is the top (\<^verbatim>\<open>stacktop(-1)\<close>), and so are the
  alternative stack and \<^verbatim>\<open>vfExec\<close>. \<open>Fail e\<close> is \<^verbatim>\<open>return set_error(serror, e)\<close>; an exception
  inside the loop is caught there and becomes \<^verbatim>\<open>SCRIPT_ERR_UNKNOWN_ERROR\<close>; \<open>Abort\<close> is a failed
  assertion. Hash functions and the signature checker are arguments.
\<close>

datatype ScriptError =
    SCRIPT_ERR_OK | SCRIPT_ERR_UNKNOWN_ERROR | SCRIPT_ERR_EVAL_FALSE | SCRIPT_ERR_OP_RETURN
  | SCRIPT_ERR_SCRIPT_SIZE | SCRIPT_ERR_PUSH_SIZE | SCRIPT_ERR_OP_COUNT | SCRIPT_ERR_STACK_SIZE
  | SCRIPT_ERR_SIG_COUNT | SCRIPT_ERR_PUBKEY_COUNT
  | SCRIPT_ERR_VERIFY | SCRIPT_ERR_EQUALVERIFY | SCRIPT_ERR_CHECKMULTISIGVERIFY
  | SCRIPT_ERR_CHECKSIGVERIFY | SCRIPT_ERR_NUMEQUALVERIFY
  | SCRIPT_ERR_BAD_OPCODE | SCRIPT_ERR_DISABLED_OPCODE | SCRIPT_ERR_INVALID_STACK_OPERATION
  | SCRIPT_ERR_INVALID_ALTSTACK_OPERATION | SCRIPT_ERR_UNBALANCED_CONDITIONAL
  | SCRIPT_ERR_NEGATIVE_LOCKTIME | SCRIPT_ERR_UNSATISFIED_LOCKTIME
  | SCRIPT_ERR_SIG_HASHTYPE | SCRIPT_ERR_SIG_DER | SCRIPT_ERR_MINIMALDATA | SCRIPT_ERR_SIG_PUSHONLY
  | SCRIPT_ERR_SIG_HIGH_S | SCRIPT_ERR_SIG_NULLDUMMY | SCRIPT_ERR_PUBKEYTYPE | SCRIPT_ERR_CLEANSTACK
  | SCRIPT_ERR_DISCOURAGE_UPGRADABLE_NOPS

datatype 'a outcome = Done 'a | Fail ScriptError | Abort

fun bind_outcome :: "'a outcome \<Rightarrow> ('a \<Rightarrow> 'b outcome) \<Rightarrow> 'b outcome" where
  "bind_outcome (Done x) f = f x"
| "bind_outcome (Fail e) f = Fail e"
| "bind_outcome Abort f = Abort"

abbreviation (input) SIGHASH_ALL :: u8 where "SIGHASH_ALL \<equiv> 1"
abbreviation (input) SIGHASH_NONE :: u8 where "SIGHASH_NONE \<equiv> 2"
abbreviation (input) SIGHASH_SINGLE :: u8 where "SIGHASH_SINGLE \<equiv> 3"
abbreviation (input) SIGHASH_ANYONECANPAY :: u8 where "SIGHASH_ANYONECANPAY \<equiv> 0x80"

abbreviation (input) SCRIPT_VERIFY_P2SH :: u32 where "SCRIPT_VERIFY_P2SH \<equiv> 0x001"
abbreviation (input) SCRIPT_VERIFY_STRICTENC :: u32 where "SCRIPT_VERIFY_STRICTENC \<equiv> 0x002"
abbreviation (input) SCRIPT_VERIFY_DERSIG :: u32 where "SCRIPT_VERIFY_DERSIG \<equiv> 0x004"
abbreviation (input) SCRIPT_VERIFY_LOW_S :: u32 where "SCRIPT_VERIFY_LOW_S \<equiv> 0x008"
abbreviation (input) SCRIPT_VERIFY_NULLDUMMY :: u32 where "SCRIPT_VERIFY_NULLDUMMY \<equiv> 0x010"
abbreviation (input) SCRIPT_VERIFY_SIGPUSHONLY :: u32 where "SCRIPT_VERIFY_SIGPUSHONLY \<equiv> 0x020"
abbreviation (input) SCRIPT_VERIFY_MINIMALDATA :: u32 where "SCRIPT_VERIFY_MINIMALDATA \<equiv> 0x040"
abbreviation (input) SCRIPT_VERIFY_DISCOURAGE_UPGRADABLE_NOPS :: u32 where
  "SCRIPT_VERIFY_DISCOURAGE_UPGRADABLE_NOPS \<equiv> 0x080"
abbreviation (input) SCRIPT_VERIFY_CLEANSTACK :: u32 where "SCRIPT_VERIFY_CLEANSTACK \<equiv> 0x100"
abbreviation (input) SCRIPT_VERIFY_CHECKLOCKTIMEVERIFY :: u32 where
  "SCRIPT_VERIFY_CHECKLOCKTIMEVERIFY \<equiv> 0x200"
abbreviation (input) SCRIPT_VERIFY_CHECKSEQUENCEVERIFY :: u32 where
  "SCRIPT_VERIFY_CHECKSEQUENCEVERIFY \<equiv> 0x400"

definition has_flag :: "u32 \<Rightarrow> u32 \<Rightarrow> bool" where
  "has_flag flags m \<longleftrightarrow> flags AND m \<noteq> 0"

record BaseSignatureChecker =
  CheckSig :: "bytes \<Rightarrow> bytes \<Rightarrow> CScript \<Rightarrow> bool"
  CheckLockTime :: "int \<Rightarrow> bool"
  CheckSequence :: "int \<Rightarrow> bool"

text \<open>The library functions the interpreter calls: the hashes and \<^verbatim>\<open>CPubKey::CheckLowS\<close>.\<close>

record crypto =
  RIPEMD160 :: "bytes \<Rightarrow> bytes"
  SHA1 :: "bytes \<Rightarrow> bytes"
  SHA256 :: "bytes \<Rightarrow> bytes"
  Hash160 :: "bytes \<Rightarrow> bytes"
  Hash256 :: "bytes \<Rightarrow> bytes"
  CheckLowS :: "bytes \<Rightarrow> bool"

section \<open>Encodings\<close>

fun CastToBool :: "bytes \<Rightarrow> bool" where
  "CastToBool [] = False"
| "CastToBool (b # vch) = (if b \<noteq> 0 then \<not> (vch = [] \<and> b = 0x80) else CastToBool vch)"

definition IsCompressedOrUncompressedPubKey :: "bytes \<Rightarrow> bool" where
  "IsCompressedOrUncompressedPubKey vchPubKey =
     (if length vchPubKey < 33 then False
      else if vchPubKey ! 0 = 0x04 then length vchPubKey = 65
      else if vchPubKey ! 0 = 0x02 \<or> vchPubKey ! 0 = 0x03 then length vchPubKey = 33
      else False)"

definition IsValidSignatureEncoding :: "bytes \<Rightarrow> bool" where
  "IsValidSignatureEncoding sig =
     (if length sig < 9 then False
      else if length sig > 73 then False
      else if sig ! 0 \<noteq> 0x30 then False
      else if unat (sig ! 1) \<noteq> length sig - 3 then False
      else let lenR = unat (sig ! 3)
      in if 5 + lenR \<ge> length sig then False
      else let lenS = unat (sig ! (5 + lenR))
      in if lenR + lenS + 7 \<noteq> length sig then False
      else if sig ! 2 \<noteq> 0x02 then False
      else if lenR = 0 then False
      else if sig ! 4 AND 0x80 \<noteq> 0 then False
      else if lenR > 1 \<and> sig ! 4 = 0x00 \<and> sig ! 5 AND 0x80 = 0 then False
      else if sig ! (lenR + 4) \<noteq> 0x02 then False
      else if lenS = 0 then False
      else if sig ! (lenR + 6) AND 0x80 \<noteq> 0 then False
      else if lenS > 1 \<and> sig ! (lenR + 6) = 0x00 \<and> sig ! (lenR + 7) AND 0x80 = 0 then False
      else True)"

text \<open>The checks that set \<^verbatim>\<open>serror\<close> return the error they set, \<open>None\<close> for \<^verbatim>\<open>true\<close>.\<close>

definition IsLowDERSignature :: "crypto \<Rightarrow> bytes \<Rightarrow> ScriptError option" where
  "IsLowDERSignature cr vchSig =
     (if \<not> IsValidSignatureEncoding vchSig then Some SCRIPT_ERR_SIG_DER
      else if \<not> CheckLowS cr (take (length vchSig - 1) vchSig) then Some SCRIPT_ERR_SIG_HIGH_S
      else None)"

definition IsDefinedHashtypeSignature :: "bytes \<Rightarrow> bool" where
  "IsDefinedHashtypeSignature vchSig =
     (if length vchSig = 0 then False
      else let nHashType = vchSig ! (length vchSig - 1) AND NOT SIGHASH_ANYONECANPAY
           in \<not> (nHashType < SIGHASH_ALL \<or> nHashType > SIGHASH_SINGLE))"

definition CheckSignatureEncoding :: "crypto \<Rightarrow> bytes \<Rightarrow> u32 \<Rightarrow> ScriptError option" where
  "CheckSignatureEncoding cr vchSig flags =
     (if length vchSig = 0 then None
      else if has_flag flags (SCRIPT_VERIFY_DERSIG OR SCRIPT_VERIFY_LOW_S OR SCRIPT_VERIFY_STRICTENC)
              \<and> \<not> IsValidSignatureEncoding vchSig then Some SCRIPT_ERR_SIG_DER
      else if has_flag flags SCRIPT_VERIFY_LOW_S \<and> IsLowDERSignature cr vchSig \<noteq> None
      then IsLowDERSignature cr vchSig
      else if has_flag flags SCRIPT_VERIFY_STRICTENC \<and> \<not> IsDefinedHashtypeSignature vchSig
      then Some SCRIPT_ERR_SIG_HASHTYPE
      else None)"

definition CheckPubKeyEncoding :: "bytes \<Rightarrow> u32 \<Rightarrow> ScriptError option" where
  "CheckPubKeyEncoding vchSig flags =
     (if has_flag flags SCRIPT_VERIFY_STRICTENC \<and> \<not> IsCompressedOrUncompressedPubKey vchSig
      then Some SCRIPT_ERR_PUBKEYTYPE else None)"

definition CheckMinimalPush :: "bytes \<Rightarrow> opcodetype \<Rightarrow> bool" where
  "CheckMinimalPush data opcode =
     (if length data = 0 then opcode = OP_0
      else if length data = 1 \<and> data ! 0 \<ge> 1 \<and> data ! 0 \<le> 16
      then uint opcode = uint OP_1 + (uint (data ! 0) - 1)
      else if length data = 1 \<and> data ! 0 = 0x81 then opcode = OP_1NEGATE
      else if length data \<le> 75 then unat opcode = length data
      else if length data \<le> 255 then opcode = OP_PUSHDATA1
      else if length data \<le> 65535 then opcode = OP_PUSHDATA2
      else True)"

section \<open>The machine state\<close>

record exec_state =
  stack :: "bytes list"
  altstack :: "bytes list"
  vfExec :: "bool list"
  pbegincodehash :: bytes
  nOpCount :: int

abbreviation (input) vchFalse :: bytes where "vchFalse \<equiv> []"
abbreviation (input) vchTrue :: bytes where "vchTrue \<equiv> [1]"

definition bool_vch :: "bool \<Rightarrow> bytes" where
  "bool_vch b = (if b then vchTrue else vchFalse)"

abbreviation (input) invalid_stack :: "exec_state outcome" where
  "invalid_stack \<equiv> Fail SCRIPT_ERR_INVALID_STACK_OPERATION"

text \<open>\<open>read_num vch fMin n\<close> is the constructor call \<^verbatim>\<open>CScriptNum(vch, fRequireMinimal, n)\<close> in the loop.\<close>

definition read_num :: "bytes \<Rightarrow> bool \<Rightarrow> nat \<Rightarrow> int outcome" where
  "read_num vch fRequireMinimal n =
     (case CScriptNum vch fRequireMinimal n of
        None \<Rightarrow> Fail SCRIPT_ERR_UNKNOWN_ERROR
      | Some v \<Rightarrow> Done v)"

definition fRequireMinimal :: "u32 \<Rightarrow> bool" where
  "fRequireMinimal flags = has_flag flags SCRIPT_VERIFY_MINIMALDATA"

section \<open>Control\<close>

definition op_push_number :: "opcodetype \<Rightarrow> exec_state \<Rightarrow> exec_state outcome" where
  "op_push_number opcode st =
     Done (st\<lparr>stack := serialize_num (uint opcode - (uint OP_1 - 1)) # stack st\<rparr>)"

definition op_checklocktimeverify ::
    "u32 \<Rightarrow> BaseSignatureChecker \<Rightarrow> exec_state \<Rightarrow> exec_state outcome" where
  "op_checklocktimeverify flags checker st =
     (if \<not> has_flag flags SCRIPT_VERIFY_CHECKLOCKTIMEVERIFY
      then if has_flag flags SCRIPT_VERIFY_DISCOURAGE_UPGRADABLE_NOPS
           then Fail SCRIPT_ERR_DISCOURAGE_UPGRADABLE_NOPS else Done st
      else case stack st of
             [] \<Rightarrow> invalid_stack
           | vch # _ \<Rightarrow>
               bind_outcome (read_num vch (fRequireMinimal flags) 5) (\<lambda>nLockTime.
                 if nLockTime < 0 then Fail SCRIPT_ERR_NEGATIVE_LOCKTIME
                 else if \<not> CheckLockTime checker nLockTime then Fail SCRIPT_ERR_UNSATISFIED_LOCKTIME
                 else Done st))"

definition SEQUENCE_LOCKTIME_DISABLE_FLAG :: int where
  "SEQUENCE_LOCKTIME_DISABLE_FLAG = 0x80000000"

definition op_checksequenceverify ::
    "u32 \<Rightarrow> BaseSignatureChecker \<Rightarrow> exec_state \<Rightarrow> exec_state outcome" where
  "op_checksequenceverify flags checker st =
     (if \<not> has_flag flags SCRIPT_VERIFY_CHECKSEQUENCEVERIFY
      then if has_flag flags SCRIPT_VERIFY_DISCOURAGE_UPGRADABLE_NOPS
           then Fail SCRIPT_ERR_DISCOURAGE_UPGRADABLE_NOPS else Done st
      else case stack st of
             [] \<Rightarrow> invalid_stack
           | vch # _ \<Rightarrow>
               bind_outcome (read_num vch (fRequireMinimal flags) 5) (\<lambda>nSequence.
                 if nSequence < 0 then Fail SCRIPT_ERR_NEGATIVE_LOCKTIME
                 else if nSequence AND SEQUENCE_LOCKTIME_DISABLE_FLAG \<noteq> 0 then Done st
                 else if \<not> CheckSequence checker nSequence then Fail SCRIPT_ERR_UNSATISFIED_LOCKTIME
                 else Done st))"

definition op_nop_upgradable :: "u32 \<Rightarrow> exec_state \<Rightarrow> exec_state outcome" where
  "op_nop_upgradable flags st =
     (if has_flag flags SCRIPT_VERIFY_DISCOURAGE_UPGRADABLE_NOPS
      then Fail SCRIPT_ERR_DISCOURAGE_UPGRADABLE_NOPS else Done st)"

definition op_if :: "bool \<Rightarrow> opcodetype \<Rightarrow> exec_state \<Rightarrow> exec_state outcome" where
  "op_if fExec opcode st =
     (if fExec
      then case stack st of
             [] \<Rightarrow> Fail SCRIPT_ERR_UNBALANCED_CONDITIONAL
           | vch # s \<Rightarrow>
               Done (st\<lparr>stack := s,
                       vfExec := (if opcode = OP_NOTIF then \<not> CastToBool vch else CastToBool vch) # vfExec st\<rparr>)
      else Done (st\<lparr>vfExec := False # vfExec st\<rparr>))"

definition op_else :: "exec_state \<Rightarrow> exec_state outcome" where
  "op_else st =
     (case vfExec st of
        [] \<Rightarrow> Fail SCRIPT_ERR_UNBALANCED_CONDITIONAL
      | b # v \<Rightarrow> Done (st\<lparr>vfExec := (\<not> b) # v\<rparr>))"

definition op_endif :: "exec_state \<Rightarrow> exec_state outcome" where
  "op_endif st =
     (case vfExec st of
        [] \<Rightarrow> Fail SCRIPT_ERR_UNBALANCED_CONDITIONAL
      | b # v \<Rightarrow> Done (st\<lparr>vfExec := v\<rparr>))"

definition op_verify :: "exec_state \<Rightarrow> exec_state outcome" where
  "op_verify st =
     (case stack st of
        [] \<Rightarrow> invalid_stack
      | vch # s \<Rightarrow> (if CastToBool vch then Done (st\<lparr>stack := s\<rparr>) else Fail SCRIPT_ERR_VERIFY))"


section \<open>Stack operations\<close>

definition op_toaltstack :: "exec_state \<Rightarrow> exec_state outcome" where
  "op_toaltstack st =
     (case stack st of
        [] \<Rightarrow> invalid_stack
      | x # s \<Rightarrow> Done (st\<lparr>altstack := x # altstack st, stack := s\<rparr>))"

definition op_fromaltstack :: "exec_state \<Rightarrow> exec_state outcome" where
  "op_fromaltstack st =
     (case altstack st of
        [] \<Rightarrow> Fail SCRIPT_ERR_INVALID_ALTSTACK_OPERATION
      | x # a \<Rightarrow> Done (st\<lparr>stack := x # stack st, altstack := a\<rparr>))"

text \<open>
  The operations that only rearrange the stack, on the stack alone; \<open>None\<close> is
  \<^verbatim>\<open>SCRIPT_ERR_INVALID_STACK_OPERATION\<close>, which every one of them returns when the stack is too
  short.
\<close>

definition double_op :: "opcodetype \<Rightarrow> bytes list \<Rightarrow> bytes list option" where
  "double_op opcode s =
     (if opcode = OP_2DROP
      then (case s of x2 # x1 # r \<Rightarrow> Some r | _ \<Rightarrow> None)
      else if opcode = OP_2DUP
      then (case s of x2 # x1 # r \<Rightarrow> Some (x2 # x1 # x2 # x1 # r) | _ \<Rightarrow> None)
      else if opcode = OP_3DUP
      then (case s of x3 # x2 # x1 # r \<Rightarrow> Some (x3 # x2 # x1 # x3 # x2 # x1 # r) | _ \<Rightarrow> None)
      else if opcode = OP_2OVER
      then (case s of x4 # x3 # x2 # x1 # r \<Rightarrow> Some (x2 # x1 # x4 # x3 # x2 # x1 # r) | _ \<Rightarrow> None)
      else if opcode = OP_2ROT
      then (case s of x6 # x5 # x4 # x3 # x2 # x1 # r \<Rightarrow> Some (x2 # x1 # x6 # x5 # x4 # x3 # r) | _ \<Rightarrow> None)
      else (case s of x4 # x3 # x2 # x1 # r \<Rightarrow> Some (x2 # x1 # x4 # x3 # r) | _ \<Rightarrow> None))"

definition single_op :: "opcodetype \<Rightarrow> bytes list \<Rightarrow> bytes list option" where
  "single_op opcode s =
     (if opcode = OP_IFDUP
      then (case s of x # r \<Rightarrow> Some (if CastToBool x then x # x # r else x # r) | _ \<Rightarrow> None)
      else if opcode = OP_DEPTH then Some (serialize_num (int (length s)) # s)
      else if opcode = OP_DROP
      then (case s of x # r \<Rightarrow> Some r | _ \<Rightarrow> None)
      else if opcode = OP_DUP
      then (case s of x # r \<Rightarrow> Some (x # x # r) | _ \<Rightarrow> None)
      else if opcode = OP_NIP
      then (case s of x2 # x1 # r \<Rightarrow> Some (x2 # r) | _ \<Rightarrow> None)
      else if opcode = OP_OVER
      then (case s of x2 # x1 # r \<Rightarrow> Some (x1 # x2 # x1 # r) | _ \<Rightarrow> None)
      else if opcode = OP_ROT
      then (case s of x3 # x2 # x1 # r \<Rightarrow> Some (x1 # x3 # x2 # r) | _ \<Rightarrow> None)
      else if opcode = OP_SWAP
      then (case s of x2 # x1 # r \<Rightarrow> Some (x1 # x2 # r) | _ \<Rightarrow> None)
      else if opcode = OP_TUCK
      then (case s of x2 # x1 # r \<Rightarrow> Some (x2 # x1 # x2 # r) | _ \<Rightarrow> None)
      else (case s of x # r \<Rightarrow> Some (serialize_num (int (length x)) # x # r) | _ \<Rightarrow> None))"

definition lift_stack :: "bytes list option \<Rightarrow> exec_state \<Rightarrow> exec_state outcome" where
  "lift_stack r st = (case r of None \<Rightarrow> invalid_stack | Some s \<Rightarrow> Done (st\<lparr>stack := s\<rparr>))"

definition op_pick_roll :: "u32 \<Rightarrow> opcodetype \<Rightarrow> exec_state \<Rightarrow> exec_state outcome" where
  "op_pick_roll flags opcode st =
     (if length (stack st) < 2 then invalid_stack
      else bind_outcome (read_num (hd (stack st)) (fRequireMinimal flags) nDefaultMaxNumSize) (\<lambda>v.
        let n = getint v; s = tl (stack st)
        in if n < 0 \<or> n \<ge> int (length s) then invalid_stack
           else let vch = s ! nat n;
                    s = (if opcode = OP_ROLL then take (nat n) s @ drop (Suc (nat n)) s else s)
                in Done (st\<lparr>stack := vch # s\<rparr>)))"

section \<open>Comparison and arithmetic\<close>

definition op_equal :: "opcodetype \<Rightarrow> exec_state \<Rightarrow> exec_state outcome" where
  "op_equal opcode st =
     (case stack st of
        vch2 # vch1 # s \<Rightarrow>
          (let fEqual = (vch1 = vch2)
           in if opcode = OP_EQUALVERIFY
              then if fEqual then Done (st\<lparr>stack := s\<rparr>) else Fail SCRIPT_ERR_EQUALVERIFY
              else Done (st\<lparr>stack := bool_vch fEqual # s\<rparr>))
      | _ \<Rightarrow> invalid_stack)"

definition unary_num :: "opcodetype \<Rightarrow> int \<Rightarrow> int option" where
  "unary_num opcode bn =
     (if opcode = OP_1ADD then num_add_assign bn 1
      else if opcode = OP_1SUB then num_sub_assign bn 1
      else if opcode = OP_NEGATE then num_neg bn
      else if opcode = OP_ABS then (if bn < 0 then num_neg bn else Some bn)
      else if opcode = OP_NOT then Some (if bn = 0 then 1 else 0)
      else if opcode = OP_0NOTEQUAL then Some (if bn \<noteq> 0 then 1 else 0)
      else None)"

definition op_unary :: "u32 \<Rightarrow> opcodetype \<Rightarrow> exec_state \<Rightarrow> exec_state outcome" where
  "op_unary flags opcode st =
     (case stack st of
        [] \<Rightarrow> invalid_stack
      | vch # s \<Rightarrow>
          bind_outcome (read_num vch (fRequireMinimal flags) nDefaultMaxNumSize) (\<lambda>bn.
            case unary_num opcode bn of
              None \<Rightarrow> Abort
            | Some r \<Rightarrow> Done (st\<lparr>stack := serialize_num r # s\<rparr>)))"

definition binary_num :: "opcodetype \<Rightarrow> int \<Rightarrow> int \<Rightarrow> int option" where
  "binary_num opcode bn1 bn2 =
     (let b = (\<lambda>c. Some (if c then 1 else 0))
      in if opcode = OP_ADD then Some (bn1 + bn2)
         else if opcode = OP_SUB then Some (bn1 - bn2)
         else if opcode = OP_BOOLAND then b (bn1 \<noteq> 0 \<and> bn2 \<noteq> 0)
         else if opcode = OP_BOOLOR then b (bn1 \<noteq> 0 \<or> bn2 \<noteq> 0)
         else if opcode = OP_NUMEQUAL then b (bn1 = bn2)
         else if opcode = OP_NUMEQUALVERIFY then b (bn1 = bn2)
         else if opcode = OP_NUMNOTEQUAL then b (bn1 \<noteq> bn2)
         else if opcode = OP_LESSTHAN then b (bn1 < bn2)
         else if opcode = OP_GREATERTHAN then b (bn1 > bn2)
         else if opcode = OP_LESSTHANOREQUAL then b (bn1 \<le> bn2)
         else if opcode = OP_GREATERTHANOREQUAL then b (bn1 \<ge> bn2)
         else if opcode = OP_MIN then Some (if bn1 < bn2 then bn1 else bn2)
         else if opcode = OP_MAX then Some (if bn1 > bn2 then bn1 else bn2)
         else None)"

definition op_binary :: "u32 \<Rightarrow> opcodetype \<Rightarrow> exec_state \<Rightarrow> exec_state outcome" where
  "op_binary flags opcode st =
     (case stack st of
        vch2 # vch1 # s \<Rightarrow>
          bind_outcome (read_num vch1 (fRequireMinimal flags) nDefaultMaxNumSize) (\<lambda>bn1.
          bind_outcome (read_num vch2 (fRequireMinimal flags) nDefaultMaxNumSize) (\<lambda>bn2.
            case binary_num opcode bn1 bn2 of
              None \<Rightarrow> Abort
            | Some bn \<Rightarrow>
                if opcode = OP_NUMEQUALVERIFY
                then if CastToBool (serialize_num bn) then Done (st\<lparr>stack := s\<rparr>)
                     else Fail SCRIPT_ERR_NUMEQUALVERIFY
                else Done (st\<lparr>stack := serialize_num bn # s\<rparr>)))
      | _ \<Rightarrow> invalid_stack)"

definition op_within :: "u32 \<Rightarrow> exec_state \<Rightarrow> exec_state outcome" where
  "op_within flags st =
     (case stack st of
        vch3 # vch2 # vch1 # s \<Rightarrow>
          bind_outcome (read_num vch1 (fRequireMinimal flags) nDefaultMaxNumSize) (\<lambda>bn1.
          bind_outcome (read_num vch2 (fRequireMinimal flags) nDefaultMaxNumSize) (\<lambda>bn2.
          bind_outcome (read_num vch3 (fRequireMinimal flags) nDefaultMaxNumSize) (\<lambda>bn3.
            Done (st\<lparr>stack := bool_vch (bn2 \<le> bn1 \<and> bn1 < bn3) # s\<rparr>))))
      | _ \<Rightarrow> invalid_stack)"

section \<open>Hashes and signatures\<close>

definition op_hash :: "crypto \<Rightarrow> opcodetype \<Rightarrow> exec_state \<Rightarrow> exec_state outcome" where
  "op_hash cr opcode st =
     (case stack st of
        [] \<Rightarrow> invalid_stack
      | vch # s \<Rightarrow>
          (let vchHash = (if opcode = OP_RIPEMD160 then RIPEMD160 cr vch
                          else if opcode = OP_SHA1 then SHA1 cr vch
                          else if opcode = OP_SHA256 then SHA256 cr vch
                          else if opcode = OP_HASH160 then Hash160 cr vch
                          else Hash256 cr vch)
           in Done (st\<lparr>stack := vchHash # s\<rparr>)))"

text \<open>\<^verbatim>\<open>!CheckSignatureEncoding(...) || !CheckPubKeyEncoding(...)\<close>: the error set first.\<close>

definition encoding_error :: "crypto \<Rightarrow> u32 \<Rightarrow> bytes \<Rightarrow> bytes \<Rightarrow> ScriptError option" where
  "encoding_error cr flags vchSig vchPubKey =
     (case CheckSignatureEncoding cr vchSig flags of
        Some e \<Rightarrow> Some e
      | None \<Rightarrow> CheckPubKeyEncoding vchPubKey flags)"

definition op_checksig ::
    "crypto \<Rightarrow> BaseSignatureChecker \<Rightarrow> u32 \<Rightarrow> opcodetype \<Rightarrow> exec_state \<Rightarrow> exec_state outcome" where
  "op_checksig cr checker flags opcode st =
     (case stack st of
        vchPubKey # vchSig # s \<Rightarrow>
          (let scriptCode = snd (FindAndDelete (pbegincodehash st) (push_data [] vchSig))
           in case encoding_error cr flags vchSig vchPubKey of
                Some e \<Rightarrow> Fail e
              | None \<Rightarrow>
                  (let fSuccess = CheckSig checker vchSig vchPubKey scriptCode
                   in if opcode = OP_CHECKSIGVERIFY
                      then if fSuccess then Done (st\<lparr>stack := s\<rparr>) else Fail SCRIPT_ERR_CHECKSIGVERIFY
                      else Done (st\<lparr>stack := bool_vch fSuccess # s\<rparr>)))
      | _ \<Rightarrow> invalid_stack)"

text \<open>
  The loop of \<^verbatim>\<open>OP_CHECKMULTISIG\<close> over the signatures and keys still to be looked at. The
  guards keep at least as many keys as signatures, so the last equation is never reached.
\<close>

fun multisig_loop ::
    "crypto \<Rightarrow> BaseSignatureChecker \<Rightarrow> u32 \<Rightarrow> CScript \<Rightarrow> bytes list \<Rightarrow> bytes list \<Rightarrow> bool outcome" where
  "multisig_loop cr checker flags scriptCode [] keys = Done True"
| "multisig_loop cr checker flags scriptCode (vchSig # sigs) (vchPubKey # keys) =
     (case encoding_error cr flags vchSig vchPubKey of
        Some e \<Rightarrow> Fail e
      | None \<Rightarrow>
          (let fOk = CheckSig checker vchSig vchPubKey scriptCode;
               sigs' = (if fOk then sigs else vchSig # sigs)
           in if length sigs' > length keys then Done False
              else multisig_loop cr checker flags scriptCode sigs' keys))"
| "multisig_loop cr checker flags scriptCode (vchSig # sigs) [] = Abort"

definition op_checkmultisig ::
    "crypto \<Rightarrow> BaseSignatureChecker \<Rightarrow> u32 \<Rightarrow> opcodetype \<Rightarrow> exec_state \<Rightarrow> exec_state outcome" where
  "op_checkmultisig cr checker flags opcode st =
     (let s = stack st in
      if length s < 1 then invalid_stack
      else bind_outcome (read_num (s ! 0) (fRequireMinimal flags) nDefaultMaxNumSize) (\<lambda>v.
        let nKeysCount = getint v in
        if nKeysCount < 0 \<or> nKeysCount > MAX_PUBKEYS_PER_MULTISIG then Fail SCRIPT_ERR_PUBKEY_COUNT
        else let st = st\<lparr>nOpCount := nOpCount st + nKeysCount\<rparr> in
        if nOpCount st > MAX_OPS_PER_SCRIPT then Fail SCRIPT_ERR_OP_COUNT
        else let nKeys = nat nKeysCount in
        if length s < 2 + nKeys then invalid_stack
        else bind_outcome (read_num (s ! (1 + nKeys)) (fRequireMinimal flags) nDefaultMaxNumSize) (\<lambda>w.
          let nSigsCount = getint w in
          if nSigsCount < 0 \<or> nSigsCount > nKeysCount then Fail SCRIPT_ERR_SIG_COUNT
          else let nSigs = nat nSigsCount in
          if length s < 3 + nKeys + nSigs then invalid_stack
          else let sigs = take nSigs (drop (2 + nKeys) s);
                   keys = take nKeys (drop 1 s);
                   scriptCode = fold (\<lambda>vchSig code. snd (FindAndDelete code (push_data [] vchSig))) sigs
                                     (pbegincodehash st)
               in bind_outcome (multisig_loop cr checker flags scriptCode sigs keys) (\<lambda>fSuccess.
                 let s = drop (2 + nKeys + nSigs) s in
                 if length s < 1 then invalid_stack
                 else if has_flag flags SCRIPT_VERIFY_NULLDUMMY \<and> length (hd s) \<noteq> 0
                 then Fail SCRIPT_ERR_SIG_NULLDUMMY
                 else if opcode = OP_CHECKMULTISIGVERIFY
                 then if fSuccess then Done (st\<lparr>stack := tl s\<rparr>) else Fail SCRIPT_ERR_CHECKMULTISIGVERIFY
                 else Done (st\<lparr>stack := bool_vch fSuccess # tl s\<rparr>)))))"

section \<open>The interpreter\<close>

definition is_disabled :: "opcodetype \<Rightarrow> bool" where
  "is_disabled opcode \<longleftrightarrow>
     opcode = OP_CAT \<or> opcode = OP_SUBSTR \<or> opcode = OP_LEFT \<or> opcode = OP_RIGHT \<or> opcode = OP_INVERT
     \<or> opcode = OP_AND \<or> opcode = OP_OR \<or> opcode = OP_XOR \<or> opcode = OP_2MUL \<or> opcode = OP_2DIV
     \<or> opcode = OP_MUL \<or> opcode = OP_DIV \<or> opcode = OP_MOD \<or> opcode = OP_LSHIFT \<or> opcode = OP_RSHIFT"

text \<open>The \<^verbatim>\<open>switch (opcode)\<close>; \<open>pc\<close> is the iterator behind the instruction.\<close>

definition exec_opcode ::
    "crypto \<Rightarrow> BaseSignatureChecker \<Rightarrow> u32 \<Rightarrow> bool \<Rightarrow> opcodetype \<Rightarrow> bytes \<Rightarrow> exec_state \<Rightarrow> exec_state outcome" where
  "exec_opcode cr checker flags fExec opcode pc st =
     (if opcode = OP_1NEGATE \<or> (OP_1 \<le> opcode \<and> opcode \<le> OP_16) then op_push_number opcode st
      else if opcode = OP_NOP then Done st
      else if opcode = OP_CHECKLOCKTIMEVERIFY then op_checklocktimeverify flags checker st
      else if opcode = OP_CHECKSEQUENCEVERIFY then op_checksequenceverify flags checker st
      else if opcode = OP_NOP1 \<or> (OP_NOP4 \<le> opcode \<and> opcode \<le> OP_NOP10) then op_nop_upgradable flags st
      else if opcode = OP_IF \<or> opcode = OP_NOTIF then op_if fExec opcode st
      else if opcode = OP_ELSE then op_else st
      else if opcode = OP_ENDIF then op_endif st
      else if opcode = OP_VERIFY then op_verify st
      else if opcode = OP_RETURN then Fail SCRIPT_ERR_OP_RETURN
      else if opcode = OP_TOALTSTACK then op_toaltstack st
      else if opcode = OP_FROMALTSTACK then op_fromaltstack st
      else if OP_2DROP \<le> opcode \<and> opcode \<le> OP_2SWAP then lift_stack (double_op opcode (stack st)) st
      else if (OP_IFDUP \<le> opcode \<and> opcode \<le> OP_OVER) \<or> (OP_ROT \<le> opcode \<and> opcode \<le> OP_TUCK) \<or> opcode = OP_SIZE
      then lift_stack (single_op opcode (stack st)) st
      else if opcode = OP_PICK \<or> opcode = OP_ROLL then op_pick_roll flags opcode st
      else if opcode = OP_EQUAL \<or> opcode = OP_EQUALVERIFY then op_equal opcode st
      else if opcode = OP_1ADD \<or> opcode = OP_1SUB \<or> (OP_NEGATE \<le> opcode \<and> opcode \<le> OP_0NOTEQUAL)
      then op_unary flags opcode st
      else if opcode = OP_ADD \<or> opcode = OP_SUB \<or> (OP_BOOLAND \<le> opcode \<and> opcode \<le> OP_MAX)
      then op_binary flags opcode st
      else if opcode = OP_WITHIN then op_within flags st
      else if OP_RIPEMD160 \<le> opcode \<and> opcode \<le> OP_HASH256 then op_hash cr opcode st
      else if opcode = OP_CODESEPARATOR then Done (st\<lparr>pbegincodehash := pc\<rparr>)
      else if opcode = OP_CHECKSIG \<or> opcode = OP_CHECKSIGVERIFY then op_checksig cr checker flags opcode st
      else if opcode = OP_CHECKMULTISIG \<or> opcode = OP_CHECKMULTISIGVERIFY
      then op_checkmultisig cr checker flags opcode st
      else Fail SCRIPT_ERR_BAD_OPCODE)"

text \<open>The body of the \<^verbatim>\<open>while\<close> loop after \<^verbatim>\<open>GetOp\<close> has returned an instruction.\<close>

definition eval_instr ::
    "crypto \<Rightarrow> BaseSignatureChecker \<Rightarrow> u32 \<Rightarrow> opcodetype \<Rightarrow> bytes \<Rightarrow> bytes \<Rightarrow> exec_state \<Rightarrow> exec_state outcome" where
  "eval_instr cr checker flags opcode vchPushValue pc st =
     (let fExec = list_all (\<lambda>b. b) (vfExec st) in
      if length vchPushValue > MAX_SCRIPT_ELEMENT_SIZE then Fail SCRIPT_ERR_PUSH_SIZE
      else let st = (if opcode > OP_16 then st\<lparr>nOpCount := nOpCount st + 1\<rparr> else st) in
      if opcode > OP_16 \<and> nOpCount st > MAX_OPS_PER_SCRIPT then Fail SCRIPT_ERR_OP_COUNT
      else if is_disabled opcode then Fail SCRIPT_ERR_DISABLED_OPCODE
      else bind_outcome
        (if fExec \<and> opcode \<le> OP_PUSHDATA4
         then if fRequireMinimal flags \<and> \<not> CheckMinimalPush vchPushValue opcode
              then Fail SCRIPT_ERR_MINIMALDATA
              else Done (st\<lparr>stack := vchPushValue # stack st\<rparr>)
         else if fExec \<or> (OP_IF \<le> opcode \<and> opcode \<le> OP_ENDIF)
         then exec_opcode cr checker flags fExec opcode pc st
         else Done st)
        (\<lambda>st. if length (stack st) + length (altstack st) > 1000 then Fail SCRIPT_ERR_STACK_SIZE else Done st))"

function eval_loop ::
    "crypto \<Rightarrow> BaseSignatureChecker \<Rightarrow> u32 \<Rightarrow> bytes \<Rightarrow> exec_state \<Rightarrow> exec_state outcome" where
  "eval_loop cr checker flags pc st =
     (if pc = [] then if vfExec st \<noteq> [] then Fail SCRIPT_ERR_UNBALANCED_CONDITIONAL else Done st
      else case GetOp2 pc of
             (None, _) \<Rightarrow> Fail SCRIPT_ERR_BAD_OPCODE
           | (Some (opcode, vchPushValue), pc) \<Rightarrow>
               bind_outcome (eval_instr cr checker flags opcode vchPushValue pc st)
                 (eval_loop cr checker flags pc))"
  by pat_completeness auto
termination
  by (relation "measure (\<lambda>(cr, checker, flags, pc, st). length pc)") (auto dest!: GetOp2_length [OF sym])

declare eval_loop.simps [simp del]

definition init_state :: "bytes list \<Rightarrow> CScript \<Rightarrow> exec_state" where
  "init_state s script = \<lparr>stack = s, altstack = [], vfExec = [], pbegincodehash = script, nOpCount = 0\<rparr>"

text \<open>\<^verbatim>\<open>EvalScript\<close> returns the stack it leaves in its first argument when it succeeds.\<close>

definition EvalScript ::
    "crypto \<Rightarrow> BaseSignatureChecker \<Rightarrow> bytes list \<Rightarrow> CScript \<Rightarrow> u32 \<Rightarrow> bytes list outcome" where
  "EvalScript cr checker s script flags =
     (if length script > MAX_SCRIPT_SIZE then Fail SCRIPT_ERR_SCRIPT_SIZE
      else bind_outcome (eval_loop cr checker flags script (init_state s script)) (\<lambda>st. Done (stack st)))"

definition eval_true :: "bytes list \<Rightarrow> unit outcome" where
  "eval_true s = (if s = [] then Fail SCRIPT_ERR_EVAL_FALSE
                  else if \<not> CastToBool (hd s) then Fail SCRIPT_ERR_EVAL_FALSE else Done ())"

definition verify_cleanstack :: "u32 \<Rightarrow> bytes list \<Rightarrow> unit outcome" where
  "verify_cleanstack flags s =
     (if has_flag flags SCRIPT_VERIFY_CLEANSTACK
      then if \<not> has_flag flags SCRIPT_VERIFY_P2SH then Abort
           else if length s \<noteq> 1 then Fail SCRIPT_ERR_CLEANSTACK else Done ()
      else Done ())"

definition VerifyScript ::
    "crypto \<Rightarrow> BaseSignatureChecker \<Rightarrow> CScript \<Rightarrow> CScript \<Rightarrow> u32 \<Rightarrow> unit outcome" where
  "VerifyScript cr checker scriptSig scriptPubKey flags =
     (if has_flag flags SCRIPT_VERIFY_SIGPUSHONLY \<and> \<not> IsPushOnly scriptSig then Fail SCRIPT_ERR_SIG_PUSHONLY
      else bind_outcome (EvalScript cr checker [] scriptSig flags) (\<lambda>stackCopy.
      bind_outcome (EvalScript cr checker stackCopy scriptPubKey flags) (\<lambda>s.
      bind_outcome (eval_true s) (\<lambda>_.
      if has_flag flags SCRIPT_VERIFY_P2SH \<and> IsPayToScriptHash scriptPubKey
      then if \<not> IsPushOnly scriptSig then Fail SCRIPT_ERR_SIG_PUSHONLY
           else case stackCopy of
                  [] \<Rightarrow> Abort
                | pubKey2 # s \<Rightarrow>
                    bind_outcome (EvalScript cr checker s pubKey2 flags) (\<lambda>s.
                    bind_outcome (eval_true s) (\<lambda>_. verify_cleanstack flags s))
      else verify_cleanstack flags s))))"


section \<open>No assertion of the interpreter can fail\<close>

lemma bind_outcome_Abort: "bind_outcome r f = Abort \<longleftrightarrow> r = Abort \<or> (\<exists>x. r = Done x \<and> f x = Abort)"
  by (cases r) auto

lemma bind_outcome_Done: "bind_outcome r f = Done y \<longleftrightarrow> (\<exists>x. r = Done x \<and> f x = Done y)"
  by (cases r) auto

lemma bind_no_abort [no_abort]: "r \<noteq> Abort \<Longrightarrow> (\<And>x. r = Done x \<Longrightarrow> f x \<noteq> Abort) \<Longrightarrow> bind_outcome r f \<noteq> Abort"
  by (auto simp: bind_outcome_Abort)

lemma read_num_no_abort [no_abort, simp]: "read_num vch m n \<noteq> Abort"
  by (simp add: read_num_def split: option.splits)

lemma read_num_bound: "read_num vch m nDefaultMaxNumSize = Done v \<Longrightarrow> \<bar>v\<bar> < 2 ^ 31"
  using set_vch_bound [of vch 4]
  by (auto simp: read_num_def CScriptNum_def nDefaultMaxNumSize_def split: option.splits if_splits)

lemma unary_num_Some:
  assumes "\<bar>bn\<bar> < 2 ^ 31" and "opcode = OP_1ADD \<or> opcode = OP_1SUB \<or> (OP_NEGATE \<le> opcode \<and> opcode \<le> OP_0NOTEQUAL)"
  shows "unary_num opcode bn \<noteq> None"
proof -
  have "opcode = 0x8b \<or> opcode = 0x8c \<or> opcode = 0x8f \<or> opcode = 0x90 \<or> opcode = 0x91 \<or> opcode = 0x92"
    using assms(2) by (simp add: word_le_nat_alt word_unat_eq_iff) linarith
  then show ?thesis
    using assms(1) by (auto simp: unary_num_def num_add_assign_def num_sub_assign_def num_neg_def)
qed

lemma binary_num_Some:
  assumes "opcode = OP_ADD \<or> opcode = OP_SUB \<or> (OP_BOOLAND \<le> opcode \<and> opcode \<le> OP_MAX)"
  shows "binary_num opcode bn1 bn2 \<noteq> None"
proof -
  have "opcode \<in> {0x93, 0x94, 0x9a, 0x9b, 0x9c, 0x9d, 0x9e, 0x9f, 0xa0, 0xa1, 0xa2, 0xa3, 0xa4}"
    using assms by (simp add: word_le_nat_alt word_unat_eq_iff) presburger
  then show ?thesis by (auto simp: binary_num_def Let_def)
qed

lemma op_unary_no_abort [no_abort]:
  "opcode = OP_1ADD \<or> opcode = OP_1SUB \<or> (OP_NEGATE \<le> opcode \<and> opcode \<le> OP_0NOTEQUAL) \<Longrightarrow>
   op_unary flags opcode st \<noteq> Abort"
  using unary_num_Some read_num_bound
  by (fastforce simp: op_unary_def bind_outcome_Abort split: list.splits option.splits)

lemma op_binary_no_abort [no_abort]:
  "opcode = OP_ADD \<or> opcode = OP_SUB \<or> (OP_BOOLAND \<le> opcode \<and> opcode \<le> OP_MAX) \<Longrightarrow>
   op_binary flags opcode st \<noteq> Abort"
  using binary_num_Some
  by (fastforce simp: op_binary_def bind_outcome_Abort split: list.splits option.splits if_splits)

lemma multisig_loop_no_abort:
  "length sigs \<le> length keys \<Longrightarrow> multisig_loop cr checker flags code sigs keys \<noteq> Abort"
proof (induction cr checker flags code sigs keys rule: multisig_loop.induct)
  case (2 cr checker flags code vchSig sigs vchPubKey keys)
  then show ?case by (auto simp: Let_def split: option.splits)
qed auto

lemma multisig_no_abort_nat:
  assumes "multisig_loop cr checker flags code (take (nat b) (drop m s)) (take (nat a) (drop (Suc 0) s)) = Abort"
  shows "length s < Suc (nat a) \<or> a < b"
proof (rule ccontr)
  assume "\<not> ?thesis"
  then have "length (take (nat b) (drop m s)) \<le> length (take (nat a) (drop (Suc 0) s))" by simp linarith
  then show False using assms multisig_loop_no_abort by blast
qed

lemma op_checkmultisig_no_abort [no_abort]: "op_checkmultisig cr checker flags opcode st \<noteq> Abort"
  unfolding op_checkmultisig_def Let_def
  by (auto simp: bind_outcome_Abort dest!: multisig_no_abort_nat split: if_splits)

lemma simple_ops_no_abort [no_abort]:
  "op_push_number opcode st \<noteq> Abort" "op_checklocktimeverify flags checker st \<noteq> Abort"
  "op_checksequenceverify flags checker st \<noteq> Abort" "op_nop_upgradable flags st \<noteq> Abort"
  "op_if fExec opcode st \<noteq> Abort" "op_else st \<noteq> Abort" "op_endif st \<noteq> Abort" "op_verify st \<noteq> Abort"
  "op_toaltstack st \<noteq> Abort" "op_fromaltstack st \<noteq> Abort" "lift_stack r st \<noteq> Abort"
  "op_pick_roll flags opcode st \<noteq> Abort" "op_equal opcode st \<noteq> Abort" "op_within flags st \<noteq> Abort"
  "op_hash cr opcode st \<noteq> Abort" "op_checksig cr checker flags opcode st \<noteq> Abort"
  by (auto simp: op_push_number_def op_checklocktimeverify_def op_checksequenceverify_def
      op_nop_upgradable_def op_if_def op_else_def op_endif_def op_verify_def op_toaltstack_def
      op_fromaltstack_def lift_stack_def op_pick_roll_def op_equal_def op_within_def op_hash_def
      op_checksig_def bind_outcome_Abort Let_def split: list.splits option.splits if_splits)

lemma exec_opcode_no_abort [no_abort]: "exec_opcode cr checker flags fExec opcode pc st \<noteq> Abort"
  unfolding exec_opcode_def by (simp add: no_abort)

lemma eval_instr_no_abort [no_abort]: "eval_instr cr checker flags opcode vch pc st \<noteq> Abort"
  unfolding eval_instr_def Let_def by (simp add: bind_outcome_Abort exec_opcode_no_abort)

lemma eval_loop_no_abort [no_abort]: "eval_loop cr checker flags pc st \<noteq> Abort"
proof (induction cr checker flags pc st rule: eval_loop.induct)
  case (1 cr checker flags pc st)
  show ?case
  proof (cases "GetOp2 pc")
    case (Pair g pc')
    show ?thesis
    proof (cases g)
      case None
      then show ?thesis using Pair by (simp add: eval_loop.simps [of cr checker flags pc])
    next
      case (Some x)
      obtain opcode vch where x: "x = (opcode, vch)" by fastforce
      have "eval_loop cr checker flags pc' st' \<noteq> Abort" if "pc \<noteq> []" for st'
        using "1.IH" [OF that Pair [symmetric] Some x [symmetric]] by simp
      then show ?thesis
        using Pair Some x by (auto simp: eval_loop.simps [of cr checker flags pc] bind_outcome_Abort eval_instr_no_abort)
    qed
  qed
qed

lemma EvalScript_no_abort [no_abort]: "EvalScript cr checker s script flags \<noteq> Abort"
  by (simp add: EvalScript_def bind_outcome_Abort eval_loop_no_abort)


lemma EvalScript_P2SH_empty:
  assumes "IsPayToScriptHash spk"
  shows "EvalScript cr checker [] spk flags = Fail SCRIPT_ERR_INVALID_STACK_OPERATION"
proof -
  obtain r where r: "spk = 0xa9 # r" "length spk = 23"
    using assms by (cases spk) (auto simp: IsPayToScriptHash_def)
  then show ?thesis
    by (simp add: EvalScript_def MAX_SCRIPT_SIZE_def eval_loop.simps [of cr checker flags "0xa9 # r"] eval_instr_def
        init_state_def MAX_SCRIPT_ELEMENT_SIZE_def MAX_OPS_PER_SCRIPT_def is_disabled_def exec_opcode_def op_hash_def)
qed

lemma eval_true_no_abort [no_abort]: "eval_true s \<noteq> Abort"
  by (simp add: eval_true_def)

lemma verify_cleanstack_no_abort:
  "(has_flag flags SCRIPT_VERIFY_CLEANSTACK \<longrightarrow> has_flag flags SCRIPT_VERIFY_P2SH) \<Longrightarrow>
   verify_cleanstack flags s \<noteq> Abort"
  by (simp add: verify_cleanstack_def)

section \<open>Signature matching\<close>

lemma subseq_Cons_match:
  "(\<exists>ks. subseq ks (y # ys) \<and> list_all2 P (x # xs) ks) \<longleftrightarrow>
   (if P x y then \<exists>ks. subseq ks ys \<and> list_all2 P xs ks else \<exists>ks. subseq ks ys \<and> list_all2 P (x # xs) ks)"
proof (cases "P x y")
  case True
  have "\<exists>ks. subseq ks ys \<and> list_all2 P xs ks" if "subseq ks (y # ys)" "list_all2 P (x # xs) ks" for ks
  proof -
    from that(2) obtain k kr where ks: "ks = k # kr" "list_all2 P xs kr" by (auto simp: list_all2_Cons1)
    then have "subseq kr ys" using that(1) by (cases "k = y") (auto dest: subseq_Cons')
    then show ?thesis using ks by blast
  qed
  moreover have "\<exists>ks. subseq ks (y # ys) \<and> list_all2 P (x # xs) ks" if "subseq ks ys" "list_all2 P xs ks" for ks
    using that True by (intro exI [of _ "y # ks"]) simp
  ultimately show ?thesis unfolding if_P [OF True] by blast
next
  case False
  have "subseq ks ys" if "subseq ks (y # ys)" "list_all2 P (x # xs) ks" for ks
    using that False by (cases ks) (auto split: if_splits)
  moreover have "subseq ks (y # ys)" if "subseq ks ys" for ks using that by (rule list_emb_Cons)
  ultimately show ?thesis unfolding if_not_P [OF False] by blast
qed

lemma multisig_loop_match:
  "length sigs \<le> length keys \<Longrightarrow>
   (\<And>s k. s \<in> set sigs \<Longrightarrow> k \<in> set keys \<Longrightarrow> encoding_error cr flags s k = None) \<Longrightarrow>
   multisig_loop cr checker flags code sigs keys =
     Done (\<exists>ks. subseq ks keys \<and> list_all2 (\<lambda>s k. CheckSig checker s k code) sigs ks)"
proof (induction cr checker flags code sigs keys rule: multisig_loop.induct)
  case (1 cr checker flags code keys)
  then show ?case by auto
next
  case (2 cr checker flags code s sigs k keys)
  define P where "P = (\<lambda>s k. CheckSig checker s k code)"
  define sigs' where "sigs' = (if P s k then sigs else s # sigs)"
  have e: "encoding_error cr flags s k = None" using "2.prems"(2) by simp
  have m: "(\<exists>ks. subseq ks (k # keys) \<and> list_all2 P (s # sigs) ks) \<longleftrightarrow> (\<exists>ks. subseq ks keys \<and> list_all2 P sigs' ks)"
    unfolding subseq_Cons_match sigs'_def by simp
  have step: "multisig_loop cr checker flags code (s # sigs) (k # keys) =
      (if length sigs' > length keys then Done False else multisig_loop cr checker flags code sigs' keys)"
    by (simp add: e sigs'_def P_def Let_def)
  show ?case
  proof (cases "length sigs' > length keys")
    case True
    have "\<not> (\<exists>ks. subseq ks keys \<and> list_all2 P sigs' ks)"
      using True by (metis leD list_all2_lengthD list_emb_length)
    then show ?thesis unfolding step P_def [symmetric] m using True by simp
  next
    case False
    have enc: "encoding_error cr flags s' k' = None" if "s' \<in> set sigs'" "k' \<in> set keys" for s' k'
      using "2.prems"(2) that by (auto simp: sigs'_def split: if_splits)
    have "multisig_loop cr checker flags code sigs' keys = Done (\<exists>ks. subseq ks keys \<and> list_all2 P sigs' ks)"
      using "2.IH" [OF e refl refl] False enc unfolding sigs'_def P_def by simp
    then show ?thesis unfolding step P_def [symmetric] m using False by simp
  qed
next
  case (3 cr checker flags code s sigs)
  then show ?case by simp
qed


section \<open>Resource limits\<close>

definition elem_ok :: "bytes \<Rightarrow> bool" where
  "elem_ok x \<longleftrightarrow> length x \<le> MAX_SCRIPT_ELEMENT_SIZE"

definition limits_ok :: "exec_state \<Rightarrow> bool" where
  "limits_ok st \<longleftrightarrow> list_all elem_ok (stack st) \<and> list_all elem_ok (altstack st)"

text \<open>The output sizes the C++ code relies on when it sizes \<^verbatim>\<open>vchHash\<close>.\<close>

definition hash_sizes :: "crypto \<Rightarrow> bool" where
  "hash_sizes cr \<longleftrightarrow>
     (\<forall>x. length (RIPEMD160 cr x) = 20 \<and> length (SHA1 cr x) = 20 \<and> length (SHA256 cr x) = 32
          \<and> length (Hash160 cr x) = 20 \<and> length (Hash256 cr x) = 32)"

lemma length_abs_bytes: "length (abs_bytes w) \<le> 8"
proof (cases "w = 0")
  case False
  then have "256 ^ (length (abs_bytes w) - 1) \<le> unat w"
    using lendian_length [of "abs_bytes w"] abs_bytes_laws [of w] by simp
  then have "(256::nat) ^ (length (abs_bytes w) - 1) < 256 ^ 8" using unat_lt64 [of w] by (simp del: unat_lt64)
  then have "length (abs_bytes w) - 1 < 8" by (rule power_less_imp_less_exp [rotated]) simp
  then show ?thesis by simp
qed (simp add: abs_bytes.simps)

lemma elem_ok_serialize [simp]: "elem_ok (serialize_num v)"
  using length_abs_bytes [of "word_of_int v"] length_abs_bytes [of "word_of_int (- v)"]
  by (auto simp: elem_ok_def serialize_num_def Let_def MAX_SCRIPT_ELEMENT_SIZE_def)

lemma elem_ok_bool [simp]: "elem_ok (bool_vch b)"
  by (simp add: elem_ok_def bool_vch_def MAX_SCRIPT_ELEMENT_SIZE_def)

lemma elem_ok_nth: "list_all elem_ok s \<Longrightarrow> n < length s \<Longrightarrow> elem_ok (s ! n)"
  by (simp add: list_all_length)

lemma list_all_take_drop: "list_all P s \<Longrightarrow> list_all P (take n s) \<and> list_all P (drop n s)"
  by (auto simp: list_all_iff dest: in_set_takeD in_set_dropD)

lemma double_op_ok: "double_op opcode s = Some s' \<Longrightarrow> list_all elem_ok s \<Longrightarrow> list_all elem_ok s'"
  by (auto simp: double_op_def split: if_splits list.splits)

lemma single_op_ok: "single_op opcode s = Some s' \<Longrightarrow> list_all elem_ok s \<Longrightarrow> list_all elem_ok s'"
  by (auto simp: single_op_def split: if_splits list.splits)

text \<open>An outcome keeps the limits when the state it returns, if any, is within them.\<close>

definition keeps :: "exec_state outcome \<Rightarrow> bool" where
  "keeps r \<longleftrightarrow> (\<forall>st. r = Done st \<longrightarrow> limits_ok st)"

lemma keeps_rules [keeps_intros]:
  "keeps (Fail e)" "limits_ok st \<Longrightarrow> keeps (Done st)"
  "(c \<Longrightarrow> keeps a) \<Longrightarrow> (\<not> c \<Longrightarrow> keeps b) \<Longrightarrow> keeps (if c then a else b)"
  "(\<And>x. keeps (f x)) \<Longrightarrow> keeps (bind_outcome r f)"
  by (auto simp: keeps_def bind_outcome_Done)

lemma multisig_ok [keeps_intros]: "limits_ok st \<Longrightarrow> keeps (op_checkmultisig cr checker flags opcode st)"
proof -
  assume l: "limits_ok st"
  have t: "list_all elem_ok (tl (drop n (stack st)))" for n
    using l list_all_take_drop [of elem_ok "stack st" "Suc n"] by (simp add: limits_ok_def drop_Suc tl_drop)
  have "limits_ok (st\<lparr>nOpCount := c, stack := tl (drop n (stack st))\<rparr>)"
    "limits_ok (st\<lparr>nOpCount := c, stack := bool_vch b # tl (drop n (stack st))\<rparr>)" for c n b
    using l t by (simp_all add: limits_ok_def)
  then show ?thesis unfolding op_checkmultisig_def Let_def by (intro keeps_rules) simp_all
qed

lemma pick_roll_ok [keeps_intros]: "limits_ok st \<Longrightarrow> keeps (op_pick_roll flags opcode st)"
proof (cases "stack st")
  case (Cons x s)
  assume l: "limits_ok st"
  then have "list_all elem_ok s" using Cons by (simp add: limits_ok_def)
  then show ?thesis
    using Cons l elem_ok_nth [of s] list_all_take_drop [of elem_ok s]
    by (auto simp: keeps_def op_pick_roll_def limits_ok_def bind_outcome_Done Let_def split: if_splits)
qed (simp add: op_pick_roll_def keeps_def)

lemma hash_ok [keeps_intros]:
  assumes "limits_ok st" and "hash_sizes cr"
  shows "keeps (op_hash cr opcode st)"
proof -
  have "elem_ok (RIPEMD160 cr x)" "elem_ok (SHA1 cr x)" "elem_ok (SHA256 cr x)" "elem_ok (Hash160 cr x)"
    "elem_ok (Hash256 cr x)" for x
    using assms(2) by (simp_all add: hash_sizes_def elem_ok_def MAX_SCRIPT_ELEMENT_SIZE_def)
  then show ?thesis using assms(1) by (auto simp: keeps_def op_hash_def limits_ok_def Let_def split: list.splits)
qed

lemma simple_ops_ok [keeps_intros]:
  assumes "limits_ok st"
  shows "keeps (op_push_number opcode st)" "keeps (op_checklocktimeverify flags checker st)"
    "keeps (op_checksequenceverify flags checker st)" "keeps (op_nop_upgradable flags st)"
    "keeps (op_if fExec opcode st)" "keeps (op_else st)" "keeps (op_endif st)" "keeps (op_verify st)"
    "keeps (op_toaltstack st)" "keeps (op_fromaltstack st)" "keeps (op_equal opcode st)"
    "keeps (op_unary flags opcode st)" "keeps (op_binary flags opcode st)" "keeps (op_within flags st)"
    "keeps (op_checksig cr checker flags opcode st)"
  using assms
  by (auto simp: keeps_def limits_ok_def op_push_number_def op_checklocktimeverify_def op_checksequenceverify_def
      op_nop_upgradable_def op_if_def op_else_def op_endif_def op_verify_def op_toaltstack_def
      op_fromaltstack_def op_equal_def op_unary_def op_binary_def op_within_def op_checksig_def
      bind_outcome_Done Let_def split: list.splits option.splits if_splits)

lemma lift_ok [keeps_intros]:
  assumes "limits_ok st"
  shows "keeps (lift_stack (double_op opcode (stack st)) st)" "keeps (lift_stack (single_op opcode (stack st)) st)"
  using assms double_op_ok single_op_ok by (auto simp: keeps_def lift_stack_def limits_ok_def split: option.splits)

lemma exec_opcode_ok [keeps_intros]:
  assumes "hash_sizes cr" and "limits_ok st"
  shows "keeps (exec_opcode cr checker flags fExec opcode pc st)"
proof -
  have cs: "limits_ok (st\<lparr>pbegincodehash := pc\<rparr>)" using assms(2) by (simp add: limits_ok_def)
  show ?thesis unfolding exec_opcode_def by (intro keeps_intros assms cs)
qed

lemma eval_instr_ok:
  assumes "hash_sizes cr" and "limits_ok st" and "eval_instr cr checker flags opcode vch pc st = Done st'"
  shows "limits_ok st' \<and> length (stack st') + length (altstack st') \<le> 1000"
proof -
  define st1 where "st1 = (if opcode > OP_16 then st\<lparr>nOpCount := nOpCount st + 1\<rparr> else st)"
  have l1: "limits_ok st1" using assms(2) by (simp add: st1_def limits_ok_def)
  have k: "keeps (exec_opcode cr checker flags (list_all (\<lambda>b. b) (vfExec st)) opcode pc st1)"
    by (rule exec_opcode_ok [OF assms(1) l1])
  show ?thesis
    using assms(3) l1 k unfolding eval_instr_def Let_def st1_def [symmetric]
    by (auto simp: bind_outcome_Done keeps_def limits_ok_def elem_ok_def split: if_splits)
qed

lemma eval_loop_ok:
  "hash_sizes cr \<Longrightarrow> limits_ok st \<Longrightarrow> length (stack st) + length (altstack st) \<le> 1000 \<Longrightarrow>
   eval_loop cr checker flags pc st = Done st' \<Longrightarrow>
   limits_ok st' \<and> length (stack st') + length (altstack st') \<le> 1000 \<and> vfExec st' = []"
proof (induction cr checker flags pc st rule: eval_loop.induct)
  case (1 cr checker flags pc st)
  show ?case
  proof (cases "pc = []")
    case True
    then show ?thesis using "1.prems" by (simp add: eval_loop.simps [of cr checker flags "[]"] split: if_splits)
  next
    case False
    obtain g pc' where g: "GetOp2 pc = (g, pc')" by fastforce
    then obtain opcode vch where gs: "g = Some (opcode, vch)"
      using "1.prems"(4) False by (cases g) (auto simp: eval_loop.simps [of cr checker flags pc])
    then obtain st1 where s1: "eval_instr cr checker flags opcode vch pc' st = Done st1"
      "eval_loop cr checker flags pc' st1 = Done st'"
      using "1.prems"(4) False g by (auto simp: eval_loop.simps [of cr checker flags pc] bind_outcome_Done)
    have "limits_ok st1 \<and> length (stack st1) + length (altstack st1) \<le> 1000"
      by (rule eval_instr_ok [OF "1.prems"(1,2) s1(1)])
    then show ?thesis using "1.IH" [OF False g [symmetric] gs refl "1.prems"(1) _ _ s1(2)] by simp
  qed
qed


section \<open>Spending a pay-to-public-key-hash output\<close>

lemma eval_loop_step:
  assumes "GetOp2 pc = (Some (opcode, vch), pc')"
  shows "eval_loop cr checker flags pc st =
    bind_outcome (eval_instr cr checker flags opcode vch pc' st) (eval_loop cr checker flags pc')"
  using assms by (cases "pc = []") (auto simp: eval_loop.simps [of cr checker flags pc])

lemma direct_push:
  assumes "2 \<le> length b" and "length b \<le> 75"
  shows "GetOp2 (push_data [] b @ rest) = (Some (of_nat (length b), b), rest)"
    and "(of_nat (length b) :: u8) \<le> 0x4e" and "unat (of_nat (length b) :: u8) = length b"
proof -
  have "length b < 2 ^ 32" using assms(2) by simp
  then show "GetOp2 (push_data [] b @ rest) = (Some (of_nat (length b), b), rest)"
    using GetOp2_push_data [of b rest] assms(2) by (simp add: push_data_def del: GetOp2.simps)
  show u: "unat (of_nat (length b) :: u8) = length b" using assms(2) by (simp add: unat_of_nat)
  then show "(of_nat (length b) :: u8) \<le> 0x4e" using assms(2) by (simp add: word_le_nat_alt)
qed

lemma not_disabled_push: "opcode \<le> 0x4e \<Longrightarrow> \<not> is_disabled opcode \<and> \<not> opcode > 0x60"
  by (auto simp: is_disabled_def word_le_nat_alt word_less_nat_alt)

lemma eval_direct_push:
  assumes "2 \<le> length b" and "length b \<le> 75" and "vfExec st = []"
    and "length (stack st) + length (altstack st) < 1000"
  shows "eval_loop cr checker flags (push_data [] b @ rest) st = eval_loop cr checker flags rest (st\<lparr>stack := b # stack st\<rparr>)"
proof -
  note d = direct_push(1) [OF assms(1,2), of rest] direct_push(2,3) [OF assms(1,2)]
  have "CheckMinimalPush b (of_nat (length b))" using assms(1,2) d(3) by (auto simp: CheckMinimalPush_def)
  then have "eval_instr cr checker flags (of_nat (length b)) b rest st = Done (st\<lparr>stack := b # stack st\<rparr>)"
    using assms not_disabled_push [OF d(2)] d(2)
    by (simp add: eval_instr_def Let_def MAX_SCRIPT_ELEMENT_SIZE_def)
  then show ?thesis unfolding eval_loop_step [OF d(1)] by simp
qed

definition p2pkh_script :: "bytes \<Rightarrow> CScript" where
  "p2pkh_script h = [OP_DUP, OP_HASH160] @ push_data [] h @ [OP_EQUALVERIFY, OP_CHECKSIG]"

lemma GetOp2_plain: "\<not> opcode \<le> 0x4e \<Longrightarrow> GetOp2 (opcode # pc) = (Some (opcode, []), pc)"
  by simp

lemma eval_p2pkh:
  assumes "length h = 20" and "stack st = [pk, sig]" and "altstack st = []" and "vfExec st = []" and "nOpCount st = 0"
  shows "eval_loop cr checker flags (p2pkh_script h) st =
    (if Hash160 cr pk \<noteq> h then Fail SCRIPT_ERR_EQUALVERIFY
     else case encoding_error cr flags sig pk of
            Some e \<Rightarrow> Fail e
          | None \<Rightarrow> Done (st\<lparr>stack := [bool_vch (CheckSig checker sig pk
                       (snd (FindAndDelete (pbegincodehash st) (push_data [] sig))))], nOpCount := 4\<rparr>))"
proof -
  define tail where "tail = [OP_EQUALVERIFY, OP_CHECKSIG]"
  define st1 where "st1 = st\<lparr>stack := [pk, pk, sig], nOpCount := 1\<rparr>"
  define st2 where "st2 = st\<lparr>stack := [Hash160 cr pk, pk, sig], nOpCount := 2\<rparr>"
  have i1: "eval_instr cr checker flags OP_DUP [] pc st = Done st1" for pc
    using assms by (simp add: eval_instr_def Let_def MAX_SCRIPT_ELEMENT_SIZE_def MAX_OPS_PER_SCRIPT_def is_disabled_def
        exec_opcode_def lift_stack_def single_op_def st1_def)
  have i2: "eval_instr cr checker flags OP_HASH160 [] pc st1 = Done st2" for pc
    using assms by (simp add: eval_instr_def Let_def MAX_SCRIPT_ELEMENT_SIZE_def MAX_OPS_PER_SCRIPT_def is_disabled_def
        exec_opcode_def op_hash_def st1_def st2_def)
  have "eval_loop cr checker flags (p2pkh_script h) st = eval_loop cr checker flags (push_data [] h @ tail) st2"
    unfolding p2pkh_script_def tail_def [symmetric] append.simps
    by (simp add: eval_loop_step [OF GetOp2_plain] i1 i2)
  also have "\<dots> = eval_loop cr checker flags tail (st2\<lparr>stack := h # stack st2\<rparr>)"
    using assms by (intro eval_direct_push) (simp_all add: st2_def)
  finally show ?thesis
    using assms
    by (auto simp: tail_def eval_loop_step [OF GetOp2_plain] eval_loop.simps [of cr checker flags "[]"] eval_instr_def Let_def
        MAX_SCRIPT_ELEMENT_SIZE_def MAX_OPS_PER_SCRIPT_def is_disabled_def exec_opcode_def op_equal_def op_checksig_def
        st2_def split: option.splits)
qed

lemma IsPushOnly_push:
  assumes "2 \<le> length b" and "length b \<le> 75"
  shows "IsPushOnly (push_data [] b @ rest) = IsPushOnly rest"
proof -
  have "push_data [] b @ rest \<noteq> []" using assms(1) by (auto simp: push_data_def)
  then show ?thesis
    using direct_push(1) [OF assms, of rest] not_disabled_push [OF direct_push(2) [OF assms]]
    by (subst IsPushOnly.simps) (simp del: GetOp2.simps append_is_Nil_conv)
qed

lemma VerifyScript_p2pkh:
  assumes "length h = 20" and "2 \<le> length sig" and "length sig \<le> 75" and "2 \<le> length pk" and "length pk \<le> 75"
    and "has_flag flags SCRIPT_VERIFY_CLEANSTACK \<longrightarrow> has_flag flags SCRIPT_VERIFY_P2SH"
  shows "VerifyScript cr checker (push_data (push_data [] sig) pk) (p2pkh_script h) flags =
    (if Hash160 cr pk \<noteq> h then Fail SCRIPT_ERR_EQUALVERIFY
     else case encoding_error cr flags sig pk of
            Some e \<Rightarrow> Fail e
          | None \<Rightarrow> if CheckSig checker sig pk (snd (FindAndDelete (p2pkh_script h) (push_data [] sig)))
                    then Done () else Fail SCRIPT_ERR_EVAL_FALSE)"
proof -
  define ss where "ss = push_data [] sig @ push_data [] pk @ []"
  have ss: "push_data (push_data [] sig) pk = ss" by (simp add: ss_def push_data_append [of "push_data [] sig"])
  have po: "IsPushOnly ss" unfolding ss_def
    by (simp only: IsPushOnly_push [OF assms(2,3)] IsPushOnly_push [OF assms(4,5)]) (simp add: IsPushOnly.simps)
  have len: "length ss \<le> 10000" using assms by (simp add: ss_def push_data_def)
  have e1: "EvalScript cr checker [] ss flags = Done [pk, sig]"
    unfolding EvalScript_def using len assms
    by (simp add: MAX_SCRIPT_SIZE_def ss_def eval_direct_push [where rest = "push_data [] pk @ []", simplified]
        eval_direct_push [where rest = "[]", simplified] eval_loop.simps [of cr checker flags "[]"] init_state_def)
  have e2: "EvalScript cr checker [pk, sig] (p2pkh_script h) flags =
     (if Hash160 cr pk \<noteq> h then Fail SCRIPT_ERR_EQUALVERIFY
     else case encoding_error cr flags sig pk of
            Some e \<Rightarrow> Fail e
          | None \<Rightarrow> Done [bool_vch (CheckSig checker sig pk (snd (FindAndDelete (p2pkh_script h) (push_data [] sig))))])"
  proof -
    have "length (p2pkh_script h) \<le> 10000" using assms(1) by (simp add: p2pkh_script_def push_data_def)
    then show ?thesis
      unfolding EvalScript_def using eval_p2pkh [OF assms(1), of "init_state [pk, sig] (p2pkh_script h)" pk sig cr checker flags]
      by (auto simp: MAX_SCRIPT_SIZE_def init_state_def split: option.splits)
  qed
  have np: "\<not> IsPayToScriptHash (p2pkh_script h)"
    using assms(1) by (simp add: IsPayToScriptHash_def p2pkh_script_def push_data_def)
  show ?thesis
    unfolding VerifyScript_def ss
    using po e1 e2 np assms(6)
    by (auto simp: eval_true_def verify_cleanstack_def bool_vch_def split: option.splits)
qed


section \<open>Strict DER\<close>

text \<open>A positive integer in its shortest big-endian form, as the DER rule of the signatures has it.\<close>

definition der_int :: "bytes \<Rightarrow> bool" where
  "der_int R \<longleftrightarrow> R \<noteq> [] \<and> R ! 0 AND 0x80 = 0 \<and> \<not> (length R > 1 \<and> R ! 0 = 0 \<and> R ! 1 AND 0x80 = 0)"

definition der_sig :: "bytes \<Rightarrow> bytes \<Rightarrow> u8 \<Rightarrow> bytes" where
  "der_sig R S hashtype =
     [0x30, of_nat (length R + length S + 4), 0x02, of_nat (length R)] @ R @ [0x02, of_nat (length S)] @ S @ [hashtype]"

lemma der_sig_valid:
  assumes "der_int R" and "der_int S" and "length R + length S + 7 \<le> 73"
  shows "IsValidSignatureEncoding (der_sig R S ht)"
proof -
  have ne: "R \<noteq> []" "S \<noteq> []" using assms(1,2) by (simp_all add: der_int_def)
  have len: "length (der_sig R S ht) = length R + length S + 7" by (simp add: der_sig_def)
  have u: "unat (of_nat (length R) :: u8) = length R" "unat (of_nat (length S) :: u8) = length S"
    "unat (of_nat (length R + length S + 4) :: u8) = length R + length S + 4"
    using assms(3) by (simp_all add: unat_of_nat del: of_nat_add)
  have n: "der_sig R S ht ! 0 = 0x30" "der_sig R S ht ! 1 = of_nat (length R + length S + 4)" "der_sig R S ht ! 2 = 0x02"
    "der_sig R S ht ! 3 = of_nat (length R)" by (simp_all add: der_sig_def)
  have r: "der_sig R S ht ! k = R ! i" if "k = 4 + i" "i < length R" for i k
    using that by (simp add: der_sig_def nth_append)
  have m: "der_sig R S ht ! (length R + 4) = 0x02" "der_sig R S ht ! (5 + length R) = of_nat (length S)"
    by (simp_all add: der_sig_def nth_append nth_Cons')
  have s: "der_sig R S ht ! k = S ! i" if "k = length R + 6 + i" "i < length S" for i k
    using that by (simp add: der_sig_def nth_append nth_Cons')
  have i0: "der_sig R S ht ! 4 = R ! 0" "der_sig R S ht ! (length R + 6) = S ! 0" using ne r [of 4 0] s [of "length R + 6" 0] by simp_all
  have i1: "1 < length R \<longrightarrow> der_sig R S ht ! 5 = R ! 1" "1 < length S \<longrightarrow> der_sig R S ht ! (length R + 7) = S ! 1"
    using r [of 5 1] s [of "length R + 7" 1] by simp_all
  have "1 \<le> length R" "1 \<le> length S" using ne by (simp_all add: Suc_le_eq)
  then show ?thesis
    using assms n m len u i0 i1 ne unfolding IsValidSignatureEncoding_def Let_def
    by (simp only: if_False u der_int_def) auto
qed

lemma valid_der_sig:
  assumes v: "IsValidSignatureEncoding sig"
  shows "\<exists>R S ht. sig = der_sig R S ht \<and> der_int R \<and> der_int S"
proof -
  define lenR where "lenR = unat (sig ! 3)"
  define lenS where "lenS = unat (sig ! (5 + lenR))"
  have f: "9 \<le> length sig" "length sig \<le> 73" "sig ! 0 = 0x30" "unat (sig ! 1) = length sig - 3"
    "lenR + lenS + 7 = length sig" "sig ! 2 = 2" "lenR \<noteq> 0" "sig ! 4 AND 0x80 = 0"
    "\<not> (lenR > 1 \<and> sig ! 4 = 0 \<and> sig ! 5 AND 0x80 = 0)" "sig ! (lenR + 4) = 2" "lenS \<noteq> 0"
    "sig ! (lenR + 6) AND 0x80 = 0" "\<not> (lenS > 1 \<and> sig ! (lenR + 6) = 0 \<and> sig ! (lenR + 7) AND 0x80 = 0)"
    using v unfolding IsValidSignatureEncoding_def Let_def lenR_def [symmetric] lenS_def [symmetric]
    by (auto split: if_splits)
  obtain a b c d t where t: "sig = a # b # c # d # t"
    using f(1) by (cases sig; cases "tl sig"; cases "tl (tl sig)"; cases "tl (tl (tl sig))") auto
  have lt: "length t = lenR + lenS + 3" using f(5) t by simp
  define R u where "R = take lenR t" and "u = drop lenR t"
  have tu: "t = R @ u" "length R = lenR" "length u = lenS + 3" using lt by (simp_all add: R_def u_def)
  obtain x y w where u: "u = x # y # w" using tu(3) by (cases u; cases "tl u") auto
  define S where "S = take lenS w"
  have "length (drop lenS w) = 1" using tu(3) u by simp
  then obtain ht where "drop lenS w = [ht]" by (cases "drop lenS w") auto
  then have w: "w = S @ [ht]" "length S = lenS" using tu(3) u by (auto simp: S_def) (metis append_take_drop_id)
  have e: "of_nat (unat z) = z" for z :: u8 by simp
  have sg: "sig = a # b # c # d # R @ x # y # S @ [ht]" by (simp add: t tu u w)
  have "unat b = lenR + lenS + 4" using f(4,5) by (simp add: sg)
  then have b: "b = of_nat (length R + length S + 4)" using e [of b] tu(2) w(2) by simp
  have d: "d = of_nat (length R)" using e [of d] tu(2) by (simp add: lenR_def sg)
  have "sig ! (5 + lenR) = y" using tu(2) by (simp add: sg nth_append nth_Cons')
  then have y: "y = of_nat (length S)" using e [of y] w(2) by (simp add: lenS_def)
  have x: "x = 2" using f(10) tu(2) by (simp add: sg nth_append nth_Cons')
  have R: "sig ! 4 = R ! 0" "1 < lenR \<Longrightarrow> sig ! 5 = R ! 1" using f(7) tu(2) by (simp_all add: sg nth_append)
  have S: "sig ! (lenR + 6) = S ! 0" "1 < lenS \<Longrightarrow> sig ! (lenR + 7) = S ! 1"
    using f(11) tu(2) w(2) by (simp_all add: sg nth_append nth_Cons')
  have "der_int R" using f(7,8,9) R tu(2) by (auto simp: der_int_def)
  moreover have "der_int S" using f(11,12,13) S w(2) by (auto simp: der_int_def)
  moreover have "sig = der_sig R S ht" using f(3,6) by (simp add: sg der_sig_def b d x y)
  ultimately show ?thesis by blast
qed


section \<open>Properties\<close>

text \<open>
  C9. No assertion of script verification can fail: \<^verbatim>\<open>EvalScript\<close> always returns a result or
  an error, and so does \<^verbatim>\<open>VerifyScript\<close> as long as the caller does not ask for \<^verbatim>\<open>CLEANSTACK\<close>
  without \<^verbatim>\<open>P2SH\<close>. In particular the stack the pay-to-script-hash branch restores is never
  empty there.
\<close>

theorem VerifyScript_no_abort:
  "EvalScript cr checker s script flags \<noteq> Abort
   \<and> ((has_flag flags SCRIPT_VERIFY_CLEANSTACK \<longrightarrow> has_flag flags SCRIPT_VERIFY_P2SH) \<longrightarrow>
       VerifyScript cr checker scriptSig scriptPubKey flags \<noteq> Abort)"
proof (intro conjI impI)
  assume f: "has_flag flags SCRIPT_VERIFY_CLEANSTACK \<longrightarrow> has_flag flags SCRIPT_VERIFY_P2SH"
  show "VerifyScript cr checker scriptSig scriptPubKey flags \<noteq> Abort"
    unfolding VerifyScript_def
    by (auto simp: bind_outcome_Abort EvalScript_no_abort eval_true_no_abort verify_cleanstack_no_abort [OF f]
        EvalScript_P2SH_empty split: list.splits)
qed (rule EvalScript_no_abort)

text \<open>
  C10. Running a script keeps the stack within the limits whatever the script does: from a
  stack of at most 1000 elements of at most 520 bytes, a successful evaluation leaves one.
\<close>

theorem EvalScript_limits:
  assumes "hash_sizes cr" and "length s \<le> 1000" and "\<forall>x \<in> set s. length x \<le> MAX_SCRIPT_ELEMENT_SIZE"
    and "EvalScript cr checker s script flags = Done s'"
  shows "length s' \<le> 1000 \<and> (\<forall>x \<in> set s'. length x \<le> MAX_SCRIPT_ELEMENT_SIZE)"
proof -
  obtain st where st: "eval_loop cr checker flags script (init_state s script) = Done st" "s' = stack st"
    using assms(4) by (auto simp: EvalScript_def bind_outcome_Done split: if_splits)
  have "limits_ok (init_state s script)" using assms(3) by (simp add: limits_ok_def init_state_def list_all_iff elem_ok_def)
  then have "limits_ok st \<and> length (stack st) + length (altstack st) \<le> 1000"
    using eval_loop_ok [OF assms(1) _ _ st(1)] assms(2) by (simp add: init_state_def)
  then show ?thesis using st(2) by (auto simp: limits_ok_def list_all_iff elem_ok_def)
qed

text \<open>
  C11. \<^verbatim>\<open>OP_CHECKMULTISIG\<close> accepts exactly when the signatures can be matched, in order, to some
  of the keys, in order: its single greedy pass finds a matching whenever there is one.
\<close>

theorem multisig_loop_correct:
  assumes "length sigs \<le> length keys"
    and "\<And>s k. s \<in> set sigs \<Longrightarrow> k \<in> set keys \<Longrightarrow> encoding_error cr flags s k = None"
  shows "multisig_loop cr checker flags scriptCode sigs keys =
    Done (\<exists>ks. subseq ks keys \<and> list_all2 (\<lambda>s k. CheckSig checker s k scriptCode) sigs ks)"
  using assms by (rule multisig_loop_match)

text \<open>
  C33. A pay-to-public-key-hash output is spent exactly by a key with the right hash and a
  signature the checker accepts for it, and every other outcome has the error the code
  documents: \<^verbatim>\<open>EQUALVERIFY\<close> for another key, the encoding error of the signature or key, and
  \<^verbatim>\<open>EVAL_FALSE\<close> for a signature that does not verify. The code it signs is the output script
  with the signature removed.
\<close>

theorem VerifyScript_P2PKH:
  assumes "length h = 20" and "2 \<le> length sig" and "length sig \<le> 75" and "2 \<le> length pk" and "length pk \<le> 75"
    and "has_flag flags SCRIPT_VERIFY_CLEANSTACK \<longrightarrow> has_flag flags SCRIPT_VERIFY_P2SH"
  shows "VerifyScript cr checker (push_data (push_data [] sig) pk) (p2pkh_script h) flags =
    (if Hash160 cr pk \<noteq> h then Fail SCRIPT_ERR_EQUALVERIFY
     else case encoding_error cr flags sig pk of
            Some e \<Rightarrow> Fail e
          | None \<Rightarrow> if CheckSig checker sig pk (snd (FindAndDelete (p2pkh_script h) (push_data [] sig)))
                    then Done () else Fail SCRIPT_ERR_EVAL_FALSE)"
  using assms by (rule VerifyScript_p2pkh)

text \<open>
  The signature format check accepts exactly the strict DER encodings of two positive
  integers in shortest form followed by a hash type byte, of at most 73 bytes.
\<close>

theorem IsValidSignatureEncoding_iff:
  "IsValidSignatureEncoding sig \<longleftrightarrow>
     length sig \<le> 73 \<and> (\<exists>R S ht. sig = der_sig R S ht \<and> der_int R \<and> der_int S)"
proof
  assume v: "IsValidSignatureEncoding sig"
  then have "length sig \<le> 73" by (simp add: IsValidSignatureEncoding_def split: if_splits)
  then show "length sig \<le> 73 \<and> (\<exists>R S ht. sig = der_sig R S ht \<and> der_int R \<and> der_int S)"
    using valid_der_sig [OF v] by simp
next
  assume r: "length sig \<le> 73 \<and> (\<exists>R S ht. sig = der_sig R S ht \<and> der_int R \<and> der_int S)"
  then obtain R S ht where e: "sig = der_sig R S ht" "der_int R" "der_int S" by blast
  then have "length R + length S + 7 \<le> 73" using r by (simp add: der_sig_def)
  then show "IsValidSignatureEncoding sig" using der_sig_valid [OF e(2,3)] e(1) by simp
qed

section \<open>Witnesses\<close>

text \<open>A concrete environment: constant hashes of the right sizes and a checker that accepts equal bytes.\<close>

definition sample_crypto :: crypto where
  "sample_crypto = \<lparr>RIPEMD160 = (\<lambda>_. replicate 20 0), SHA1 = (\<lambda>_. replicate 20 0), SHA256 = (\<lambda>_. replicate 32 0),
     Hash160 = (\<lambda>x. take 20 (x @ replicate 20 0)), Hash256 = (\<lambda>_. replicate 32 0), CheckLowS = (\<lambda>_. True)\<rparr>"

definition sample_checker :: BaseSignatureChecker where
  "sample_checker = \<lparr>CheckSig = (\<lambda>s k _. s = k), CheckLockTime = (\<lambda>_. True), CheckSequence = (\<lambda>_. True)\<rparr>"

theorem VerifyScript_no_abort_witness:
  "has_flag 0x101 SCRIPT_VERIFY_P2SH \<and> VerifyScript sample_crypto sample_checker [OP_1] [OP_1] 0x101 \<noteq> Abort"
  using VerifyScript_no_abort [of sample_crypto sample_checker "[]" "[]" "0x101" "[0x51]" "[0x51]"]
  by (simp add: has_flag_def)

lemma sample_sizes: "hash_sizes sample_crypto"
  by (simp add: hash_sizes_def sample_crypto_def min_def)

theorem EvalScript_limits_witness:
  "EvalScript sample_crypto sample_checker [[7]] [OP_DUP, OP_HASH256] 0 = Done [replicate 32 0, [7]]
   \<and> length [replicate 32 0, [7 :: u8]] \<le> 1000"
proof -
  have "EvalScript sample_crypto sample_checker [[7]] [0x76, 0xaa] 0 = Done [replicate 32 0, [7]]"
    by code_simp
  then show ?thesis using EvalScript_limits [OF sample_sizes, of "[[7]]"] by (simp add: MAX_SCRIPT_ELEMENT_SIZE_def)
qed

theorem multisig_loop_correct_witness:
  "multisig_loop sample_crypto sample_checker 0 [] [[1], [3]] [[1], [2], [3]] =
     Done (\<exists>ks. subseq ks [[1], [2], [3]] \<and> list_all2 (\<lambda>s k. CheckSig sample_checker s k []) [[1], [3]] ks)"
  by (rule multisig_loop_correct)
     (auto simp: encoding_error_def CheckSignatureEncoding_def CheckPubKeyEncoding_def has_flag_def)

theorem VerifyScript_P2PKH_witness:
  "VerifyScript sample_crypto sample_checker (push_data (push_data [] (replicate 33 2)) (replicate 33 2))
     (p2pkh_script (replicate 20 2)) 0 = Done ()"
proof -
  have "Hash160 sample_crypto (replicate 33 2) = replicate 20 2" by (simp add: sample_crypto_def)
  then show ?thesis
    using VerifyScript_P2PKH [of "replicate 20 2" "replicate 33 2" "replicate 33 2" 0 sample_crypto sample_checker]
    by (simp add: has_flag_def encoding_error_def CheckSignatureEncoding_def CheckPubKeyEncoding_def sample_checker_def)
qed

end
