(* ===== verification/Standard.thy ===== *)
theory Standard
  imports Interpreter
begin

text \<open>
  Standard forms of output scripts: \<^verbatim>\<open>script/standard.cpp\<close>. \<^verbatim>\<open>Solver\<close> matches a script against templates and returns
  the keys or hashes in it. A \<^verbatim>\<open>CPubKey\<close> is the bytes between its \<^verbatim>\<open>begin\<close> and \<^verbatim>\<open>end\<close>, empty when it
  is invalid. The results: the shape of what \<^verbatim>\<open>Solver\<close> returns for each type, and that the scripts
  the node builds are recognised.
\<close>

datatype txnouttype = TX_NONSTANDARD | TX_PUBKEY | TX_PUBKEYHASH | TX_SCRIPTHASH | TX_MULTISIG | TX_NULL_DATA

datatype CTxDestination = CNoDestination | CKeyID bytes | CScriptID bytes

fun GetTxnOutputType :: "txnouttype \<Rightarrow> string" where
  "GetTxnOutputType TX_NONSTANDARD = ''nonstandard''"
| "GetTxnOutputType TX_PUBKEY = ''pubkey''"
| "GetTxnOutputType TX_PUBKEYHASH = ''pubkeyhash''"
| "GetTxnOutputType TX_SCRIPTHASH = ''scripthash''"
| "GetTxnOutputType TX_MULTISIG = ''multisig''"
| "GetTxnOutputType TX_NULL_DATA = ''nulldata''"

section \<open>Public keys\<close>

definition pubkey_GetLen :: "u8 \<Rightarrow> nat" where
  "pubkey_GetLen chHeader =
     (if chHeader = 2 \<or> chHeader = 3 then 33
      else if chHeader = 4 \<or> chHeader = 6 \<or> chHeader = 7 then 65 else 0)"

definition pubkey_Set :: "bytes \<Rightarrow> bytes" where
  "pubkey_Set v =
     (let len = (if v = [] then 0 else pubkey_GetLen (hd v))
      in if len \<noteq> 0 \<and> len = length v then v else [])"

definition pubkey_size :: "bytes \<Rightarrow> nat" where
  "pubkey_size k = (case k of [] \<Rightarrow> 0 | c # _ \<Rightarrow> pubkey_GetLen c)"

definition pubkey_IsValid :: "bytes \<Rightarrow> bool" where
  "pubkey_IsValid k \<longleftrightarrow> pubkey_size k > 0"

definition pubkey_GetID :: "crypto \<Rightarrow> bytes \<Rightarrow> bytes" where
  "pubkey_GetID cr k = Hash160 cr k"

section \<open>Matching templates\<close>

text \<open>The loop at \<^verbatim>\<open>OP_PUBKEYS\<close>. When \<^verbatim>\<open>GetOp\<close> fails it leaves \<^verbatim>\<open>OP_INVALIDOPCODE\<close> and no data.\<close>

lemma GetOp2_shorter: "(Some r, pc') = GetOp2 pc \<Longrightarrow> length pc' < length pc"
  using GetOp2_length by metis

function push_pubkeys :: "opcodetype \<Rightarrow> bytes \<Rightarrow> bytes \<Rightarrow> bytes list \<Rightarrow> opcodetype \<times> bytes \<times> bytes \<times> bytes list" where
  "push_pubkeys opcode1 vch1 pc1 vSolutions =
     (if length vch1 \<ge> 33 \<and> length vch1 \<le> 65
      then (case GetOp2 pc1 of
              (None, pc1) \<Rightarrow> (0xff, [], pc1, vSolutions @ [vch1])
            | (Some (opcode1, vch1'), pc1) \<Rightarrow> push_pubkeys opcode1 vch1' pc1 (vSolutions @ [vch1]))
      else (opcode1, vch1, pc1, vSolutions))"
  by auto
termination
  by (relation "measure (\<lambda>(_, _, pc, _). length pc)") (auto dest: GetOp2_shorter)

declare push_pubkeys.simps [simp del]

function match_template :: "bytes \<Rightarrow> bytes \<Rightarrow> bytes list \<Rightarrow> bytes list option" where
  "match_template pc1 pc2 vSolutions =
     (if pc1 = [] \<and> pc2 = [] then Some vSolutions
      else case GetOp2 pc1 of
        (None, _) \<Rightarrow> None
      | (Some (opcode1, vch1), pc1) \<Rightarrow> (case GetOp2 pc2 of
          (None, _) \<Rightarrow> None
        | (Some (opcode2, vch2), pc2) \<Rightarrow>
            (case (if opcode2 = OP_PUBKEYS then push_pubkeys opcode1 vch1 pc1 vSolutions else (opcode1, vch1, pc1, vSolutions)) of
               (opcode1, vch1, pc1, vSolutions) \<Rightarrow>
                 (case (if opcode2 = OP_PUBKEYS then GetOp2 pc2 else (Some (opcode2, vch2), pc2)) of
                    (None, _) \<Rightarrow> None
                  | (Some (opcode2, vch2), pc2) \<Rightarrow>
                      if opcode2 = OP_PUBKEY
                      then if length vch1 < 33 \<or> length vch1 > 65 then None else match_template pc1 pc2 (vSolutions @ [vch1])
                      else if opcode2 = OP_PUBKEYHASH
                      then if length vch1 \<noteq> 20 then None else match_template pc1 pc2 (vSolutions @ [vch1])
                      else if opcode2 = OP_SMALLINTEGER
                      then (case DecodeOP_N opcode1 of
                              None \<Rightarrow> None
                            | Some n \<Rightarrow> match_template pc1 pc2 (vSolutions @ [[word_of_int n]]))
                      else if opcode1 \<noteq> opcode2 \<or> vch1 \<noteq> vch2 then None
                      else match_template pc1 pc2 vSolutions))))"
  by auto
termination
  by (relation "measure (\<lambda>(_, pc2, _). length pc2)") (auto dest!: GetOp2_shorter split: if_splits)

declare match_template.simps [simp del]

definition template_pubkey :: CScript where
  "template_pubkey = [OP_PUBKEY, OP_CHECKSIG]"

definition template_pubkeyhash :: CScript where
  "template_pubkeyhash = [OP_DUP, OP_HASH160, OP_PUBKEYHASH, OP_EQUALVERIFY, OP_CHECKSIG]"

definition template_multisig :: CScript where
  "template_multisig = [OP_SMALLINTEGER, OP_PUBKEYS, OP_SMALLINTEGER, OP_CHECKMULTISIG]"

text \<open>The templates are tried in the order of their types.\<close>

definition Solver :: "CScript \<Rightarrow> bool \<times> txnouttype \<times> bytes list" where
  "Solver scriptPubKey =
     (if IsPayToScriptHash scriptPubKey then (True, TX_SCRIPTHASH, [take 20 (drop 2 scriptPubKey)])
      else if length scriptPubKey \<ge> 1 \<and> scriptPubKey ! 0 = OP_RETURN \<and> IsPushOnly (drop 1 scriptPubKey) then (True, TX_NULL_DATA, [])
      else (case match_template scriptPubKey template_pubkey [] of
          Some vSolutions \<Rightarrow> (True, TX_PUBKEY, vSolutions)
        | None \<Rightarrow> (case match_template scriptPubKey template_pubkeyhash [] of
            Some vSolutions \<Rightarrow> (True, TX_PUBKEYHASH, vSolutions)
          | None \<Rightarrow> (case match_template scriptPubKey template_multisig [] of
              Some vSolutions \<Rightarrow>
                let m = hd (hd vSolutions); n = hd (last vSolutions)
                in if m < 1 \<or> n < 1 \<or> m > n \<or> length vSolutions - 2 \<noteq> unat n then (False, TX_MULTISIG, vSolutions)
                   else (True, TX_MULTISIG, vSolutions)
            | None \<Rightarrow> (False, TX_NONSTANDARD, [])))))"

section \<open>Destinations\<close>

text \<open>The constructor of \<^verbatim>\<open>uint160\<close> asserts that it is given 20 bytes; the outer \<open>None\<close> is that assertion or a missing element.\<close>

definition mk_uint160 :: "bytes \<Rightarrow> bytes option" where
  "mk_uint160 v = (if length v = 20 then Some v else None)"

definition ExtractDestination :: "crypto \<Rightarrow> CScript \<Rightarrow> CTxDestination option option" where
  "ExtractDestination cr scriptPubKey =
     (case Solver scriptPubKey of (ok, whichType, vSolutions) \<Rightarrow>
        if \<not> ok then Some None
        else if whichType = TX_PUBKEY
        then (case vSolutions of
                [] \<Rightarrow> None
              | v # _ \<Rightarrow> if \<not> pubkey_IsValid (pubkey_Set v) then Some None
                         else Some (Some (CKeyID (pubkey_GetID cr (pubkey_Set v)))))
        else if whichType = TX_PUBKEYHASH
        then (case vSolutions of [] \<Rightarrow> None | v # _ \<Rightarrow> map_option (\<lambda>h. Some (CKeyID h)) (mk_uint160 v))
        else if whichType = TX_SCRIPTHASH
        then (case vSolutions of [] \<Rightarrow> None | v # _ \<Rightarrow> map_option (\<lambda>h. Some (CScriptID h)) (mk_uint160 v))
        else Some None)"

text \<open>The number of required signatures is 0 where the source leaves its reference as it was.\<close>

definition ExtractDestinations :: "crypto \<Rightarrow> CScript \<Rightarrow> (bool \<times> txnouttype \<times> CTxDestination list \<times> int) option" where
  "ExtractDestinations cr scriptPubKey =
     (case Solver scriptPubKey of (ok, typeRet, vSolutions) \<Rightarrow>
        if \<not> ok then Some (False, typeRet, [], 0)
        else if typeRet = TX_NULL_DATA then Some (False, typeRet, [], 0)
        else if typeRet = TX_MULTISIG
        then let keys = filter pubkey_IsValid (map pubkey_Set (butlast (tl vSolutions)));
                 addresses = map (\<lambda>k. CKeyID (pubkey_GetID cr k)) keys
             in if vSolutions = [] \<or> hd vSolutions = [] then None
                else Some (addresses \<noteq> [], typeRet, addresses, uint (hd (hd vSolutions)))
        else (case ExtractDestination cr scriptPubKey of
                None \<Rightarrow> None
              | Some None \<Rightarrow> Some (False, typeRet, [], 1)
              | Some (Some a) \<Rightarrow> Some (True, typeRet, [a], 1)))"

fun GetScriptForDestination :: "CTxDestination \<Rightarrow> CScript" where
  "GetScriptForDestination CNoDestination = []"
| "GetScriptForDestination (CKeyID keyID) = push_data [OP_DUP, OP_HASH160] keyID @ [OP_EQUALVERIFY, OP_CHECKSIG]"
| "GetScriptForDestination (CScriptID scriptID) = push_data [OP_HASH160] scriptID @ [OP_EQUAL]"

definition GetScriptForRawPubKey :: "bytes \<Rightarrow> CScript" where
  "GetScriptForRawPubKey pubKey = push_data [] pubKey @ [OP_CHECKSIG]"

definition GetScriptForMultisig :: "int \<Rightarrow> bytes list \<Rightarrow> CScript option" where
  "GetScriptForMultisig nRequired keys =
     (case EncodeOP_N nRequired of
        None \<Rightarrow> None
      | Some m \<Rightarrow> (case EncodeOP_N (int (length keys)) of
          None \<Rightarrow> None
        | Some n \<Rightarrow> Some (foldl push_data [m] keys @ [n, OP_CHECKMULTISIG])))"

section \<open>What is recognised\<close>

definition key_size_ok :: "bytes \<Rightarrow> bool" where
  "key_size_ok v \<longleftrightarrow> 33 \<le> length v \<and> length v \<le> 65"

lemma push_pubkeys_spec:
  "push_pubkeys opc v pc sols = (opc', v', pc', sols') \<Longrightarrow> \<exists>ks. sols' = sols @ ks \<and> list_all key_size_ok ks"
proof (induction opc v pc sols rule: push_pubkeys.induct)
  case (1 opc v pc sols)
  show ?case
  proof (cases "key_size_ok v")
    case True
    show ?thesis
    proof (cases "GetOp2 pc")
      case (Pair r pc2)
      show ?thesis
      proof (cases r)
        case None
        then show ?thesis using 1(2) True Pair by (subst (asm) push_pubkeys.simps) (auto simp: key_size_ok_def)
      next
        case (Some ov)
        obtain o2 v2 where ov: "ov = (o2, v2)" by fastforce
        have "push_pubkeys o2 v2 pc2 (sols @ [v]) = (opc', v', pc', sols')"
          using 1(2) True Pair Some ov by (subst (asm) push_pubkeys.simps) (auto simp: key_size_ok_def)
        then obtain ks where "sols' = (sols @ [v]) @ ks" "list_all key_size_ok ks"
          using 1(1) [OF _ Pair [symmetric] Some ov [symmetric]] True unfolding key_size_ok_def by blast
        then show ?thesis using True by (intro exI [of _ "v # ks"]) auto
      qed
    qed
  next
    case False
    then show ?thesis using 1(2) by (subst (asm) push_pubkeys.simps) (auto simp: key_size_ok_def)
  qed
qed

text \<open>One step of the match at a one-byte template element.\<close>

lemma match_nil: "match_template pc1 [] sols = (if pc1 = [] then Some sols else None)"
  by (subst match_template.simps) (auto split: prod.splits option.splits)

lemma match_step:
  assumes "\<not> opcode2 \<le> 0x4e" "opcode2 \<noteq> OP_PUBKEYS"
  shows "match_template pc1 (opcode2 # pc2) sols = (case GetOp2 pc1 of (None, _) \<Rightarrow> None | (Some (opcode1, vch1), pc1) \<Rightarrow>
      if opcode2 = OP_PUBKEY then if key_size_ok vch1 then match_template pc1 pc2 (sols @ [vch1]) else None
      else if opcode2 = OP_PUBKEYHASH then if length vch1 \<noteq> 20 then None else match_template pc1 pc2 (sols @ [vch1])
      else if opcode2 = OP_SMALLINTEGER then (case DecodeOP_N opcode1 of None \<Rightarrow> None | Some n \<Rightarrow> match_template pc1 pc2 (sols @ [[word_of_int n]]))
      else if opcode1 \<noteq> opcode2 \<or> vch1 \<noteq> [] then None else match_template pc1 pc2 sols)"
proof (cases "GetOp2 pc1")
  case (Pair r pc)
  have g: "GetOp2 (opcode2 # pc2) = (Some (opcode2, []), pc2)" by (rule GetOp2_plain [OF assms(1)])
  show ?thesis
  proof (cases r)
    case None
    then show ?thesis using Pair by (subst match_template.simps) simp
  next
    case (Some ov)
    obtain o1 v1 where "ov = (o1, v1)" by fastforce
    then show ?thesis using Pair Some assms(2)
      by (subst match_template.simps) (simp only: g, simp add: key_size_ok_def not_le not_less cong: if_cong option.case_cong)
  qed
qed

lemma match_pubkeys:
  "match_template pc1 (OP_PUBKEYS # OP_SMALLINTEGER # pc2) sols = (case GetOp2 pc1 of (None, _) \<Rightarrow> None | (Some (opcode1, vch1), pc1) \<Rightarrow>
      (case push_pubkeys opcode1 vch1 pc1 sols of (opcode1, vch1, pc1, sols) \<Rightarrow>
        (case DecodeOP_N opcode1 of None \<Rightarrow> None | Some n \<Rightarrow> match_template pc1 pc2 (sols @ [[word_of_int n]]))))"
  by (subst match_template.simps) (auto split: prod.splits option.splits)

lemmas match_simps = match_nil match_step match_pubkeys

lemma DecodeOP_N_range: "DecodeOP_N opc = Some n \<Longrightarrow> 0 \<le> n \<and> n \<le> 16"
  by (auto simp: DecodeOP_N_def word_le_def split: if_splits)

lemma match_pubkey_shape: "match_template s template_pubkey [] = Some sols \<Longrightarrow> \<exists>k. sols = [k] \<and> key_size_ok k"
  by (auto simp: template_pubkey_def match_simps split: prod.splits option.splits if_splits)

lemma match_pubkeyhash_shape: "match_template s template_pubkeyhash [] = Some sols \<Longrightarrow> \<exists>h. sols = [h] \<and> length h = 20"
  by (auto simp: template_pubkeyhash_def match_simps split: prod.splits option.splits if_splits)

lemma small_byte: "0 \<le> n \<Longrightarrow> n \<le> 16 \<Longrightarrow> (word_of_int n :: u8) \<le> 16"
  by (simp add: word_le_def uint_word_of_int)

lemma match_multisig_shape:
  assumes "match_template s template_multisig [] = Some sols"
  obtains m n keys where "sols = [m] # keys @ [[n]]" "m \<le> 16" "n \<le> 16" "list_all key_size_ok keys"
proof -
  obtain o1 v1 pc1 n1 where 1: "DecodeOP_N o1 = Some n1"
    "match_template pc1 [OP_PUBKEYS, OP_SMALLINTEGER, OP_CHECKMULTISIG] [[word_of_int n1]] = Some sols"
    using assms by (auto simp: template_multisig_def match_step split: prod.splits option.splits)
  obtain o2 v2 pc2 o3 v3 pc3 sols3 n3 where 2: "push_pubkeys o2 v2 pc2 [[word_of_int n1]] = (o3, v3, pc3, sols3)" "DecodeOP_N o3 = Some n3"
    "match_template pc3 [OP_CHECKMULTISIG] (sols3 @ [[word_of_int n3]]) = Some sols"
    using 1(2) by (auto simp: match_pubkeys split: prod.splits option.splits)
  obtain ks where ks: "sols3 = [[word_of_int n1]] @ ks" "list_all key_size_ok ks" using push_pubkeys_spec [OF 2(1)] by blast
  have "sols = sols3 @ [[word_of_int n3]]"
    using 2(3) by (auto simp: match_nil match_step split: prod.splits option.splits if_splits)
  then show thesis using that [of "word_of_int n1" ks "word_of_int n3"] ks small_byte DecodeOP_N_range [OF 1(1)] DecodeOP_N_range [OF 2(2)] by auto
qed

text \<open>The shape of the solutions for each type.\<close>

definition solutions_ok :: "bool \<Rightarrow> txnouttype \<Rightarrow> bytes list \<Rightarrow> bool" where
  "solutions_ok ok t sols \<longleftrightarrow>
     (case t of
        TX_NONSTANDARD \<Rightarrow> \<not> ok \<and> sols = []
      | TX_PUBKEY \<Rightarrow> ok \<and> (\<exists>k. sols = [k] \<and> key_size_ok k)
      | TX_PUBKEYHASH \<Rightarrow> ok \<and> (\<exists>h. sols = [h] \<and> length h = 20)
      | TX_SCRIPTHASH \<Rightarrow> ok \<and> (\<exists>h. sols = [h] \<and> length h = 20)
      | TX_MULTISIG \<Rightarrow> (\<exists>m n keys. sols = [m] # keys @ [[n]] \<and> list_all key_size_ok keys
          \<and> (ok \<longleftrightarrow> 1 \<le> m \<and> m \<le> n \<and> length keys = unat n) \<and> m \<le> 16 \<and> n \<le> 16)
      | TX_NULL_DATA \<Rightarrow> ok \<and> sols = [])"

lemma Solver_ok:
  assumes "Solver s = (ok, t, sols)"
  shows "solutions_ok ok t sols"
proof -
  consider (p2sh) "IsPayToScriptHash s" | (null) "t = TX_NULL_DATA" "ok" "sols = []"
    | (pk) "t = TX_PUBKEY" "ok" "match_template s template_pubkey [] = Some sols"
    | (pkh) "t = TX_PUBKEYHASH" "ok" "match_template s template_pubkeyhash [] = Some sols"
    | (multi) "t = TX_MULTISIG" "match_template s template_multisig [] = Some sols"
        "ok \<longleftrightarrow> \<not> (hd (hd sols) < 1 \<or> hd (last sols) < 1 \<or> hd (hd sols) > hd (last sols) \<or> length sols - 2 \<noteq> unat (hd (last sols)))"
    | (non) "t = TX_NONSTANDARD" "\<not> ok" "sols = []"
    using assms by (auto simp: Solver_def Let_def split: if_splits option.splits)
  then show ?thesis
  proof cases
    case p2sh
    then show ?thesis using assms by (auto simp: Solver_def solutions_ok_def IsPayToScriptHash_def)
  next
    case multi
    obtain m n keys where r: "sols = [m] # keys @ [[n]]" "m \<le> 16" "n \<le> 16" "list_all key_size_ok keys"
      using match_multisig_shape [OF multi(2)] by blast
    have "\<not> ok \<longleftrightarrow> m < 1 \<or> n < 1 \<or> n < m \<or> length keys \<noteq> unat n" using multi(3) by (simp add: r(1))
    then have "ok \<longleftrightarrow> 1 \<le> m \<and> m \<le> n \<and> length keys = unat n" by (auto simp del: word_less_1 simp: not_less intro: order_trans)
    then show ?thesis using multi(1) r by (auto simp: solutions_ok_def)
  qed (auto simp: solutions_ok_def dest: match_pubkey_shape match_pubkeyhash_shape)
qed

section \<open>The scripts the node builds\<close>

lemma GetOp2_built:
  "length b < 2 ^ 32 \<Longrightarrow> GetOp2 (push_data [] b @ rest) = (Some (hd (push_data [] b), b), rest)"
  using GetOp2_push_data by blast

lemma push_data_20: "length h = 20 \<Longrightarrow> push_data [] h = 20 # h"
  by (simp add: push_data_def)

lemma not_p2sh_first: "c \<noteq> OP_HASH160 \<Longrightarrow> \<not> IsPayToScriptHash (c # s)"
  by (simp add: IsPayToScriptHash_def)

lemma Solver_pubkeyhash:
  assumes "length h = 20"
  shows "Solver (GetScriptForDestination (CKeyID h)) = (True, TX_PUBKEYHASH, [h])"
proof -
  let ?s = "OP_DUP # OP_HASH160 # push_data [] h @ [OP_EQUALVERIFY, OP_CHECKSIG]"
  have s: "GetScriptForDestination (CKeyID h) = ?s" by (simp add: push_data_append [of "[OP_DUP, OP_HASH160]"])
  have g: "GetOp2 ?s = (Some (OP_DUP, []), tl ?s)" by (simp add: GetOp2_plain)
  have 1: "match_template ?s template_pubkey [] = None" by (simp add: template_pubkey_def match_step g key_size_ok_def)
  have 2: "match_template ?s template_pubkeyhash [] = Some [h]"
    using assms by (simp add: template_pubkeyhash_def match_simps g GetOp2_plain GetOp2_built)
  show ?thesis unfolding s by (simp add: Solver_def not_p2sh_first 1 2)
qed

lemma Solver_scripthash:
  assumes "length h = 20"
  shows "Solver (GetScriptForDestination (CScriptID h)) = (True, TX_SCRIPTHASH, [h])"
proof -
  have s: "GetScriptForDestination (CScriptID h) = OP_HASH160 # 20 # h @ [OP_EQUAL]"
    using assms by (simp add: push_data_append [of "[OP_HASH160]"] push_data_20)
  have "IsPayToScriptHash (OP_HASH160 # 20 # h @ [OP_EQUAL])" using assms by (simp add: IsPayToScriptHash_def nth_append)
  then show ?thesis using assms unfolding s by (simp add: Solver_def)
qed

definition valid_key :: "bytes \<Rightarrow> bool" where
  "valid_key k \<longleftrightarrow> pubkey_IsValid (pubkey_Set k)"

lemma valid_key_size: "valid_key k \<Longrightarrow> length k = 33 \<or> length k = 65"
  by (auto simp: valid_key_def pubkey_Set_def pubkey_IsValid_def pubkey_size_def pubkey_GetLen_def Let_def split: if_splits)

lemma valid_key_size_ok: "valid_key k \<Longrightarrow> key_size_ok k"
  using valid_key_size [of k] by (auto simp: key_size_ok_def)

lemma valid_key_push: "valid_key k \<Longrightarrow> push_data [] k = of_nat (length k) # k"
  using valid_key_size [of k] by (auto simp: push_data_def)

lemma valid_key_GetOp2: "valid_key k \<Longrightarrow> GetOp2 (of_nat (length k) # k @ rest) = (Some (of_nat (length k), k), rest)"
  using GetOp2_built [of k rest] valid_key_push [of k] valid_key_size [of k] by auto

lemma Solver_rawpubkey:
  assumes "valid_key k"
  shows "Solver (GetScriptForRawPubKey k) = (True, TX_PUBKEY, [k])"
proof -
  let ?c = "of_nat (length k) :: u8"
  have s: "GetScriptForRawPubKey k = ?c # k @ [OP_CHECKSIG]" using assms by (simp add: GetScriptForRawPubKey_def valid_key_push)
  have c: "?c \<noteq> OP_HASH160" "?c \<noteq> OP_RETURN" using valid_key_size [OF assms] by auto
  have "match_template (?c # k @ [OP_CHECKSIG]) template_pubkey [] = Some [k]"
    using assms by (simp add: template_pubkey_def match_simps valid_key_GetOp2 valid_key_size_ok GetOp2_plain del: GetOp2.simps)
  then show ?thesis using c by (simp add: s Solver_def not_p2sh_first)
qed

lemma push_pubkeys_built:
  assumes "list_all valid_key (k # keys)" "\<not> opc \<le> 0x4e"
  shows "push_pubkeys c k (concat (map (push_data []) keys) @ opc # rest) sols = (opc, [], rest, sols @ k # keys)"
  using assms(1)
proof (induction keys arbitrary: c k sols)
  case Nil
  then have "key_size_ok k" by (simp add: valid_key_size_ok)
  then show ?case using assms(2) by (simp add: push_pubkeys.simps [of _ _ "_ # _"] push_pubkeys.simps [of _ "[]"] GetOp2_plain key_size_ok_def)
next
  case (Cons k' keys)
  then have k: "key_size_ok k" "valid_key k'" by (simp_all add: valid_key_size_ok)
  have "push_pubkeys c k (concat (map (push_data []) (k' # keys)) @ opc # rest) sols
      = push_pubkeys (of_nat (length k')) k' (concat (map (push_data []) keys) @ opc # rest) (sols @ [k])"
    using k by (subst push_pubkeys.simps) (simp add: valid_key_push valid_key_GetOp2 key_size_ok_def del: GetOp2.simps)
  then show ?case using Cons.IH [of k' "of_nat (length k')" "sols @ [k]"] Cons.prems by simp
qed

lemma foldl_push_data: "foldl push_data s keys = s @ concat (map (push_data []) keys)"
proof (induction keys arbitrary: s)
  case (Cons k keys)
  then show ?case using push_data_append [of s k] by simp
qed simp

lemma EncodeOP_N_small:
  assumes "1 \<le> n" "n \<le> 16"
  obtains c where "EncodeOP_N n = Some c" "DecodeOP_N c = Some n" "\<not> c \<le> 0x4e" "c \<noteq> OP_HASH160" "c \<noteq> OP_RETURN" "c \<noteq> OP_DUP"
proof -
  have "n \<in> {1, 2, 3, 4, 5, 6, 7, 8, 9, 10, 11, 12, 13, 14, 15, 16}" using assms by simp presburger
  then show thesis
    using that by (elim insertE emptyE) (simp_all add: EncodeOP_N_def DecodeOP_N_def)
qed

lemma Solver_multisig:
  assumes "1 \<le> m" "m \<le> int (length keys)" "length keys \<le> 16" "list_all valid_key keys"
  shows "\<exists>s. GetScriptForMultisig m keys = Some s
           \<and> Solver s = (True, TX_MULTISIG, [word_of_int m] # keys @ [[word_of_nat (length keys)]])"
proof -
  obtain k ks where keys: "keys = k # ks" using assms by (cases keys) auto
  obtain cm where cm: "EncodeOP_N m = Some cm" "DecodeOP_N cm = Some m" "\<not> cm \<le> 0x4e" "cm \<noteq> OP_HASH160" "cm \<noteq> OP_RETURN" "cm \<noteq> OP_DUP"
    using EncodeOP_N_small [of m] assms by auto
  obtain cn where cn: "EncodeOP_N (int (length keys)) = Some cn" "DecodeOP_N cn = Some (int (length keys))" "\<not> cn \<le> 0x4e"
    using EncodeOP_N_small [of "int (length keys)"] assms by (auto; linarith)
  let ?s = "cm # concat (map (push_data []) keys) @ [cn, OP_CHECKMULTISIG]"
  have s: "GetScriptForMultisig m keys = Some ?s" by (simp add: GetScriptForMultisig_def cm(1) cn(1) foldl_push_data)
  have g: "GetOp2 ?s = (Some (cm, []), tl ?s)" using cm(3) by (simp add: GetOp2_plain)
  have gk: "GetOp2 (tl ?s) = (Some (of_nat (length k), k), concat (map (push_data []) ks) @ [cn, OP_CHECKMULTISIG])"
    using assms(4) by (simp add: keys valid_key_push valid_key_GetOp2 del: GetOp2.simps)
  have 1: "match_template ?s template_pubkey [] = None" "match_template ?s template_pubkeyhash [] = None"
    using cm(6) by (simp_all add: template_pubkey_def template_pubkeyhash_def match_step g key_size_ok_def del: list.sel GetOp2.simps)
  have 2: "match_template ?s template_multisig [] = Some ([word_of_int m] # keys @ [[word_of_nat (length keys)]])"
  proof -
    have "push_pubkeys c k (concat (map (push_data []) ks) @ cn # rest) sols = (cn, [], rest, sols @ keys)" for c rest sols
      using push_pubkeys_built [of k ks cn] assms(4) cn(3) unfolding keys by blast
    then show ?thesis
      by (simp add: template_multisig_def match_simps g gk cm(2) cn(2) GetOp2_plain del: list.sel GetOp2.simps)
  qed
  have "(word_of_int m :: u8) \<le> word_of_nat (length keys)" "1 \<le> (word_of_int m :: u8)" "1 \<le> (word_of_nat (length keys) :: u8)"
    using assms by (simp_all add: word_le_def uint_word_of_int unsigned_of_nat take_bit_nat_eq_self)
  then show ?thesis using s 1 2 assms(3) cm
    by (intro exI [of _ ?s]) (simp add: Solver_def not_p2sh_first not_less unat_of_nat Let_def del: word_less_1)
qed

lemma ExtractDestination_total: "ExtractDestination cr s \<noteq> None"
proof (cases "Solver s")
  case (fields ok t sols)
  show ?thesis using Solver_ok [OF fields]
    by (cases t) (auto simp: ExtractDestination_def fields solutions_ok_def mk_uint160_def)
qed

text \<open>
  C37. What \<^verbatim>\<open>Solver\<close> returns has the shape its callers rely on when they index into it without a check: one
  key of 33 to 65 bytes for \<^verbatim>\<open>TX_PUBKEY\<close>, one hash of 20 bytes for \<^verbatim>\<open>TX_PUBKEYHASH\<close> and \<^verbatim>\<open>TX_SCRIPTHASH\<close>, a byte m,
  keys and a byte n for \<^verbatim>\<open>TX_MULTISIG\<close>, where it returns true exactly when 1 <= m <= n and there are n keys, nothing for
  the others. So no element that \<^verbatim>\<open>ExtractDestination\<close> and \<^verbatim>\<open>ExtractDestinations\<close> read is missing and no
  assertion of \<^verbatim>\<open>uint160\<close> fails.
\<close>

theorem Solver_typed:
  "(case Solver s of (ok, t, sols) \<Rightarrow> solutions_ok ok t sols) \<and> ExtractDestination cr s \<noteq> None \<and> ExtractDestinations cr s \<noteq> None"
proof (cases "Solver s")
  case (fields ok t sols)
  have "ExtractDestinations cr s \<noteq> None"
    using Solver_ok [OF fields] ExtractDestination_total [of cr s]
    by (cases t) (auto simp: ExtractDestinations_def fields solutions_ok_def Let_def split: option.splits)
  then show ?thesis using Solver_ok [OF fields] ExtractDestination_total fields by simp
qed

text \<open>
  C36. Every script the node builds for a destination is recognised again: the destination comes back
  from the script of a key hash or script hash, the key from a pay-to-public-key script, and the
  number of signatures with the keys in their order from a multisignature script of up to 16 keys.
\<close>

theorem standard_roundtrip:
  "(length h = 20 \<longrightarrow> ExtractDestination cr (GetScriptForDestination (CKeyID h)) = Some (Some (CKeyID h))
      \<and> ExtractDestination cr (GetScriptForDestination (CScriptID h)) = Some (Some (CScriptID h)))
   \<and> (valid_key k \<longrightarrow> Solver (GetScriptForRawPubKey k) = (True, TX_PUBKEY, [k])
      \<and> ExtractDestination cr (GetScriptForRawPubKey k) = Some (Some (CKeyID (pubkey_GetID cr k))))
   \<and> (1 \<le> m \<and> m \<le> int (length keys) \<and> length keys \<le> 16 \<and> list_all valid_key keys \<longrightarrow>
      (\<exists>s. GetScriptForMultisig m keys = Some s
         \<and> Solver s = (True, TX_MULTISIG, [word_of_int m] # keys @ [[word_of_nat (length keys)]])
         \<and> ExtractDestinations cr s = Some (True, TX_MULTISIG, map (\<lambda>k. CKeyID (pubkey_GetID cr k)) keys, m)))"
proof -
  have set_valid: "pubkey_Set k = k" if "valid_key k" for k
    using that by (auto simp: valid_key_def pubkey_Set_def pubkey_IsValid_def pubkey_size_def Let_def split: if_splits)
  have 1: "ExtractDestination cr (GetScriptForDestination (CKeyID h)) = Some (Some (CKeyID h))"
    "ExtractDestination cr (GetScriptForDestination (CScriptID h)) = Some (Some (CScriptID h))" if "length h = 20"
    unfolding ExtractDestination_def Solver_pubkeyhash [OF that] Solver_scripthash [OF that] using that by (simp_all add: mk_uint160_def)
  have 2: "ExtractDestination cr (GetScriptForRawPubKey k) = Some (Some (CKeyID (pubkey_GetID cr k)))" if "valid_key k"
    unfolding ExtractDestination_def Solver_rawpubkey [OF that] using that set_valid [OF that] by (simp add: valid_key_def)
  have 3: "\<exists>s. GetScriptForMultisig m keys = Some s
         \<and> Solver s = (True, TX_MULTISIG, [word_of_int m] # keys @ [[word_of_nat (length keys)]])
         \<and> ExtractDestinations cr s = Some (True, TX_MULTISIG, map (\<lambda>k. CKeyID (pubkey_GetID cr k)) keys, m)"
    if a: "1 \<le> m" "m \<le> int (length keys)" "length keys \<le> 16" "list_all valid_key keys"
  proof -
    obtain s where s: "GetScriptForMultisig m keys = Some s"
      "Solver s = (True, TX_MULTISIG, [word_of_int m] # keys @ [[word_of_nat (length keys)]])" using Solver_multisig [OF a] by blast
    have "map pubkey_Set keys = keys" "filter pubkey_IsValid keys = keys" "keys \<noteq> []"
      using a set_valid by (auto simp: list_all_iff valid_key_def filter_id_conv intro!: map_idI) metis
    moreover have "uint (word_of_int m :: u8) = m" using a by (simp add: uint_word_of_int)
    ultimately show ?thesis using s by (simp add: ExtractDestinations_def Let_def)
  qed
  show ?thesis using 1 2 3 Solver_rawpubkey by blast
qed

theorem standard_roundtrip_witness:
  "GetScriptForMultisig 1 [2 # replicate 32 7] = Some (0x51 # 33 # 2 # replicate 32 7 @ [0x51, 0xae])
   \<and> Solver (0x51 # 33 # 2 # replicate 32 7 @ [0x51, 0xae]) = (True, TX_MULTISIG, [[1], 2 # replicate 32 7, [1]])"
proof -
  have "GetScriptForMultisig 1 [2 # replicate 32 7] = Some (0x51 # 33 # 2 # replicate 32 7 @ [0x51, 0xae])"
    by (simp add: GetScriptForMultisig_def EncodeOP_N_def push_data_def)
  then show ?thesis
    using standard_roundtrip [of "[]" undefined "[]" 1 "[2 # replicate 32 7]"]
    by (simp add: valid_key_def pubkey_Set_def pubkey_IsValid_def pubkey_size_def pubkey_GetLen_def)
qed

end
