(* ===== verification/Serialize.thy ===== *)
theory Serialize
  imports Script
begin

text \<open>
  \<^verbatim>\<open>serialize.h\<close>: the byte formats every message and database record is built from. A
  writer returns the bytes it appends; a reader takes the rest of the stream and returns the
  value with what is left, or \<open>None\<close> when the C++ code throws (end of data, a non-canonical or
  too large size).
\<close>

type_synonym 'a reader = "bytes \<Rightarrow> ('a \<times> bytes) option"

definition MAX_SIZE :: u64 where "MAX_SIZE = 0x02000000"

section \<open>Integers\<close>

definition WriteLE64 :: "u64 \<Rightarrow> bytes" where
  "WriteLE64 x = WriteLE32 (ucast x) @ WriteLE32 (ucast (drop_bit 32 x))"

definition ReadLE64 :: "bytes \<Rightarrow> u64" where
  "ReadLE64 p = ucast (ReadLE32 p) OR push_bit 32 (ucast (ReadLE32 (drop 4 p)))"

definition ser_readdata8 :: "u8 reader" where
  "ser_readdata8 s = (case s of [] \<Rightarrow> None | b # r \<Rightarrow> Some (b, r))"

definition ser_readdata16 :: "u16 reader" where
  "ser_readdata16 s = (if length s < 2 then None else Some (ReadLE16 s, drop 2 s))"

definition ser_readdata32 :: "u32 reader" where
  "ser_readdata32 s = (if length s < 4 then None else Some (ReadLE32 s, drop 4 s))"

definition ser_readdata64 :: "u64 reader" where
  "ser_readdata64 s = (if length s < 8 then None else Some (ReadLE64 s, drop 8 s))"

section \<open>Compact sizes\<close>

definition GetSizeOfCompactSize :: "u64 \<Rightarrow> nat" where
  "GetSizeOfCompactSize nSize =
     (if nSize < 253 then 1 else if nSize \<le> 0xffff then 3 else if nSize \<le> 0xffffffff then 5 else 9)"

definition WriteCompactSize :: "u64 \<Rightarrow> bytes" where
  "WriteCompactSize nSize =
     (if nSize < 253 then [ucast nSize]
      else if nSize \<le> 0xffff then 253 # WriteLE16 (ucast nSize)
      else if nSize \<le> 0xffffffff then 254 # WriteLE32 (ucast nSize)
      else 255 # WriteLE64 nSize)"

definition check_compact :: "u64 \<Rightarrow> (u64 \<times> bytes) option \<Rightarrow> (u64 \<times> bytes) option" where
  "check_compact least r =
     (case r of
        None \<Rightarrow> None
      | Some (nSizeRet, s) \<Rightarrow> (if nSizeRet < least then None
                               else if nSizeRet > MAX_SIZE then None else Some (nSizeRet, s)))"

definition ReadCompactSize :: "u64 reader" where
  "ReadCompactSize s =
     (case ser_readdata8 s of
        None \<Rightarrow> None
      | Some (chSize, s) \<Rightarrow>
          (if chSize < 253 then check_compact 0 (Some (ucast chSize, s))
           else if chSize = 253 then check_compact 253 (map_option (map_prod ucast id) (ser_readdata16 s))
           else if chSize = 254 then check_compact 0x10000 (map_option (map_prod ucast id) (ser_readdata32 s))
           else check_compact 0x100000000 (ser_readdata64 s)))"

section \<open>Variable-length integers\<close>

text \<open>\<open>varint_tmp\<close> is the array \<^verbatim>\<open>tmp\<close> from position \<^verbatim>\<open>len\<close> on; \<open>first\<close> is \<^verbatim>\<open>len == 0\<close>.\<close>

function varint_tmp :: "bool \<Rightarrow> u64 \<Rightarrow> bytes" where
  "varint_tmp first n =
     (let b = (ucast n AND 0x7F) OR (if first then 0x00 else 0x80)
      in if n \<le> 0x7F then [b] else b # varint_tmp False (drop_bit 7 n - 1))"
  by pat_completeness auto

lemma varint_decreases:
  assumes "\<not> (n :: u64) \<le> 0x7F"
  shows "unat (drop_bit 7 n - 1) < unat n"
proof -
  have n: "128 \<le> unat n" using assms by (simp add: word_le_nat_alt)
  have d: "unat (drop_bit 7 n) = unat n div 128" by (simp add: unat_drop_bit_div)
  then have "1 \<le> unat (drop_bit 7 n)" using n by (simp add: Suc_le_eq div_greater_zero_iff)
  then have "unat (drop_bit 7 n - 1) = unat n div 128 - 1" using d by (simp add: unat_sub word_le_nat_alt)
  then show ?thesis using n by simp
qed

termination varint_tmp
  by (relation "measure (\<lambda>(f, n). unat n)") (use varint_decreases in auto)

declare varint_tmp.simps [simp del]

definition WriteVarInt :: "u64 \<Rightarrow> bytes" where
  "WriteVarInt n = rev (varint_tmp True n)"

function GetSizeOfVarInt :: "u64 \<Rightarrow> nat" where
  "GetSizeOfVarInt n = (if n \<le> 0x7F then 1 else 1 + GetSizeOfVarInt (drop_bit 7 n - 1))"
  by pat_completeness auto
termination
  by (relation "measure unat") (use varint_decreases in auto)

declare GetSizeOfVarInt.simps [simp del]

fun varint_loop :: "'a::len word \<Rightarrow> 'a word reader" where
  "varint_loop n [] = None"
| "varint_loop n (chData # s) =
     (let n = push_bit 7 n OR (ucast (chData AND 0x7F))
      in if chData AND 0x80 \<noteq> 0 then varint_loop (n + 1) s else Some (n, s))"

definition ReadVarInt :: "'a::len word reader" where
  "ReadVarInt s = varint_loop 0 s"

section \<open>Strings, byte vectors and vectors\<close>

definition ser_bytes :: "bytes \<Rightarrow> bytes" where
  "ser_bytes v = WriteCompactSize (of_nat (length v)) @ v"

definition des_bytes :: "bytes reader" where
  "des_bytes s =
     (case ReadCompactSize s of
        None \<Rightarrow> None
      | Some (nSize, s) \<Rightarrow>
          (if length s < unat nSize then None else Some (take (unat nSize) s, drop (unat nSize) s)))"

text \<open>
  A \<^verbatim>\<open>prevector\<close> or \<^verbatim>\<open>vector\<close> of bytes is read in blocks of at most 5000000 bytes, so that a bogus
  size cannot make the reader allocate memory for data that is not there.
\<close>

definition ser_prevector :: "bytes \<Rightarrow> bytes" where
  "ser_prevector v = WriteCompactSize (of_nat (length v)) @ v"

function read_blocks :: "nat \<Rightarrow> bytes \<Rightarrow> bytes reader" where
  "read_blocks left v s =
     (if left = 0 then Some (v, s)
      else let blk = min left 5000000
           in if length s < blk then None else read_blocks (left - blk) (v @ take blk s) (drop blk s))"
  by pat_completeness auto
termination
  by (relation "measure (\<lambda>(left, v, s). left)") (auto simp: min_def)

declare read_blocks.simps [simp del]

definition des_prevector :: "bytes reader" where
  "des_prevector s =
     (case ReadCompactSize s of
        None \<Rightarrow> None
      | Some (nSize, s) \<Rightarrow> read_blocks (unat nSize) [] s)"

fun des_n :: "nat \<Rightarrow> 'a reader \<Rightarrow> 'a list reader" where
  "des_n 0 des s = Some ([], s)"
| "des_n (Suc n) des s =
     (case des s of
        None \<Rightarrow> None
      | Some (x, s) \<Rightarrow> map_option (map_prod (\<lambda>xs. x # xs) id) (des_n n des s))"

definition ser_vector :: "('a \<Rightarrow> bytes) \<Rightarrow> 'a list \<Rightarrow> bytes" where
  "ser_vector ser v = WriteCompactSize (of_nat (length v)) @ concat (map ser v)"

definition des_vector :: "'a reader \<Rightarrow> 'a list reader" where
  "des_vector des s =
     (case ReadCompactSize s of
        None \<Rightarrow> None
      | Some (nSize, s) \<Rightarrow> des_n (unat nSize) des s)"

section \<open>Round trips of the building blocks\<close>

lemma ReadLE64_WriteLE64: "ReadLE64 (WriteLE64 x @ rest) = x"
proof -
  have "ReadLE64 (WriteLE64 x @ rest) = (ucast (ucast x :: u32) OR push_bit 32 (ucast (ucast (drop_bit 32 x) :: u32)) :: u64)"
    using ReadLE32_WriteLE32 [of "ucast x" "WriteLE32 (ucast (drop_bit 32 x)) @ rest"]
      ReadLE32_WriteLE32 [of "ucast (drop_bit 32 x)" rest]
    by (simp add: ReadLE64_def WriteLE64_def del: ReadLE32.simps WriteLE32.simps)
  also have "\<dots> = x"
  proof (rule bit_word_eqI)
    fix n :: nat
    assume "n < LENGTH(64)"
    then consider "n < 32" | "32 \<le> n" "n < 64" by fastforce
    then show "bit (ucast (ucast x :: u32) OR push_bit 32 (ucast (ucast (drop_bit 32 x) :: u32)) :: u64) n = bit x n"
      by cases (auto simp: bit_simps)
  qed
  finally show ?thesis .
qed

lemma length_WriteLE64 [simp]: "length (WriteLE64 x) = 8"
  by (simp add: WriteLE64_def)

lemma readdata_write [simp]:
  "ser_readdata16 (WriteLE16 a @ rest) = Some (a, rest)"
  "ser_readdata32 (WriteLE32 b @ rest) = Some (b, rest)"
  "ser_readdata64 (WriteLE64 c @ rest) = Some (c, rest)"
  using ReadLE16_WriteLE16 [of a rest] ReadLE32_WriteLE32 [of b rest] ReadLE64_WriteLE64 [of c rest]
  by (simp_all add: ser_readdata16_def ser_readdata32_def ser_readdata64_def del: ReadLE16.simps ReadLE32.simps)

lemma varint_step: "push_bit 7 (drop_bit 7 n) OR (ucast (((ucast n AND 0x7F) OR b) AND 0x7F)) = (n :: u64)"
  if "b = 0 \<or> b = (0x80 :: u8)"
proof (rule bit_word_eqI)
  fix k :: nat
  assume k: "k < LENGTH(64)"
  have m: "(0x7F :: u8) = mask 7" by (simp add: mask_numeral)
  have b: "\<not> bit b j" if "j < 7" for j
  proof -
    have "(0x80 :: u8) = push_bit 7 1" by simp
    then show ?thesis using that \<open>b = 0 \<or> b = 0x80\<close> by (auto simp only: bit_push_bit_iff bit_0_eq bot_apply bot_bool_def)
  qed
  show "bit (push_bit 7 (drop_bit 7 n) OR (ucast (((ucast n AND 0x7F) OR b) AND 0x7F))) k = bit n k"
    using k b [of k] unfolding m
    by (cases "k < 7") (auto simp: bit_simps)
qed


lemma varint_sign: "((ucast (n :: u64) AND 0x7F) OR 0x80) AND 0x80 \<noteq> (0 :: u8)" "((ucast n AND 0x7F) OR 0x00) AND 0x80 = (0 :: u8)"
proof -
  have "((ucast n AND 0x7F) OR 0x80) AND 0x80 = (0x80 :: u8)" by (simp add: bit.conj_disj_distrib2 and.assoc)
  then show "((ucast n AND 0x7F) OR 0x80) AND 0x80 \<noteq> (0 :: u8)" by simp
  show "((ucast n AND 0x7F) OR 0x00) AND 0x80 = (0 :: u8)" by (simp add: and.assoc)
qed

lemma varint_loop_tmp: "varint_loop 0 (rev (varint_tmp False n) @ rest) = varint_loop (n + 1) rest"
proof (induction False n arbitrary: rest rule: varint_tmp.induct)
  case (1 n)
  show ?case
  proof (cases "n \<le> 0x7F")
    case True
    then have "drop_bit 7 n = 0" by (simp add: word_le_nat_alt unat_eq_0 [symmetric] unat_drop_bit_div)
    then show ?thesis
      using True varint_step [of "0x80" n] varint_sign(1) [of n] by (simp add: varint_tmp.simps [of False n] Let_def)
  next
    case False
    then show ?thesis
      using 1 [OF refl False] varint_step [of "0x80" n] varint_sign(1) [of n]
      by (simp add: varint_tmp.simps [of False n] Let_def)
  qed
qed

lemma ReadVarInt_WriteVarInt: "ReadVarInt (WriteVarInt n @ rest) = Some (n, rest)"
proof (cases "n \<le> 0x7F")
  case True
  then have "drop_bit 7 n = 0" by (simp add: word_le_nat_alt unat_eq_0 [symmetric] unat_drop_bit_div)
  then show ?thesis
    using True varint_step [of 0 n] varint_sign(2) [of n]
    by (simp add: ReadVarInt_def WriteVarInt_def varint_tmp.simps [of True n] Let_def)
next
  case False
  then show ?thesis
    using varint_loop_tmp [of "drop_bit 7 n - 1"] varint_step [of 0 n] varint_sign(2) [of n]
    by (simp add: ReadVarInt_def WriteVarInt_def varint_tmp.simps [of True n] Let_def)
qed

text \<open>Reading at 32 bits is reading at 64 bits and keeping the low half.\<close>

lemma varint_loop_32:
  "varint_loop (ucast (n :: u64) :: u32) s = map_option (map_prod ucast id) (varint_loop n s)"
proof (induction s arbitrary: n)
  case (Cons c s)
  have eq: "push_bit 7 (ucast n :: u32) OR ucast (c AND 0x7F) = ucast (push_bit 7 n OR ucast (c AND 0x7F))"
    by (rule bit_word_eqI) (auto simp: bit_simps)
  have "ucast (m + 1) = (ucast m + 1 :: u32)" for m :: u64
    by (simp add: word_unat_eq_iff unsigned_ucast_eq take_bit_eq_mod unat_word_ariths mod_simps mod_mod_cancel)
  then show ?case using Cons [of "(push_bit 7 n OR ucast (c AND 0x7F)) + 1"] by (simp add: Let_def eq)
qed simp

lemma ReadVarInt_32: "ReadVarInt (WriteVarInt (ucast n) @ rest) = Some (n :: u32, rest)"
proof -
  have "ucast (ucast n :: u64) = n" by (rule bit_word_eqI) (simp add: bit_simps)
  then show ?thesis
    using varint_loop_32 [of 0 "WriteVarInt (ucast n) @ rest"] ReadVarInt_WriteVarInt [of "ucast n" rest]
    by (simp add: ReadVarInt_def)
qed

lemma length_varint_tmp: "length (varint_tmp b n) = GetSizeOfVarInt n"
proof (induction b n rule: varint_tmp.induct)
  case (1 b n)
  then show ?case by (simp add: varint_tmp.simps [of b n] GetSizeOfVarInt.simps [of n] Let_def)
qed

lemma unat_ucast_64_down:
  "unat (ucast (n :: u64) :: u8) = unat n mod 2 ^ 8" "unat (ucast n :: u16) = unat n mod 2 ^ 16"
  "unat (ucast n :: u32) = unat n mod 2 ^ 32"
  by (simp_all add: unsigned_ucast_eq take_bit_eq_mod)

lemma ucast_64_id:
  "n < 0x100 \<Longrightarrow> ucast (ucast n :: u8) = (n :: u64)"
  "n \<le> 0xffff \<Longrightarrow> ucast (ucast n :: u16) = (n :: u64)"
  "n \<le> 0xffffffff \<Longrightarrow> ucast (ucast n :: u32) = (n :: u64)"
  by (simp_all add: word_unat_eq_iff unsigned_ucast_eq take_bit_eq_mod word_le_nat_alt word_less_nat_alt unat_mod)

lemma ReadCompactSize_Write: "n \<le> MAX_SIZE \<Longrightarrow> ReadCompactSize (WriteCompactSize n @ rest) = Some (n, rest)"
proof -
  assume n: "n \<le> MAX_SIZE"
  then have nm: "\<not> MAX_SIZE < n" by simp
  consider "n < 253" | "\<not> n < 253" "n \<le> 0xffff" | "\<not> n < 253" "\<not> n \<le> 0xffff" by blast
  then show ?thesis
  proof cases
    case 1
    then have "n < 0x100" by (simp add: word_less_nat_alt)
    then have u: "ucast (ucast n :: u8) = n" by (rule ucast_64_id(1))
    have "(ucast n :: u8) < 253" using 1 by (simp add: word_less_nat_alt unat_ucast_64_down)
    then show ?thesis
      using 1 nm u by (simp add: WriteCompactSize_def ReadCompactSize_def ser_readdata8_def check_compact_def)
  next
    case 2
    then show ?thesis
      using nm ucast_64_id(2) [OF 2(2)]
      by (simp add: WriteCompactSize_def ReadCompactSize_def ser_readdata8_def check_compact_def del: WriteLE16.simps)
  next
    case 3
    have "n \<le> 0xffffffff" using n by (simp add: MAX_SIZE_def word_le_nat_alt)
    moreover have "\<not> n < 0x10000" using 3(2) by (simp add: word_le_nat_alt word_less_nat_alt)
    ultimately show ?thesis
      using nm 3 ucast_64_id(3) [of n]
      by (simp add: WriteCompactSize_def ReadCompactSize_def ser_readdata8_def check_compact_def del: WriteLE32.simps)
  qed
qed


lemma ReadCompactSize_le: "ReadCompactSize s = Some (n, rest) \<Longrightarrow> n \<le> MAX_SIZE"
  by (auto simp: ReadCompactSize_def check_compact_def split: option.splits if_splits prod.splits)

lemma take_drop_LE:
  "2 \<le> length s \<Longrightarrow> WriteLE16 (ReadLE16 s) @ drop 2 s = s"
  "4 \<le> length s \<Longrightarrow> WriteLE32 (ReadLE32 s) @ drop 4 s = s"
proof -
  assume "2 \<le> length s"
  then obtain a b r where "s = a # b # r" by (cases s; cases "tl s") auto
  then show "WriteLE16 (ReadLE16 s) @ drop 2 s = s"
    by (auto intro!: bit_word_eqI simp: bit_simps) (drule bit_lt8, simp)+
next
  assume "4 \<le> length s"
  then show "WriteLE32 (ReadLE32 s) @ drop 4 s = s"
    by (simp only: WriteLE32_ReadLE32_take append_take_drop_id)
qed

lemma ReadCompactSize_canonical:
  assumes "ReadCompactSize s = Some (n, rest)"
  shows "s = WriteCompactSize n @ rest"
proof -
  obtain ch r where s: "s = ch # r" using assms by (cases s) (auto simp: ReadCompactSize_def ser_readdata8_def)
  have nm: "n \<le> MAX_SIZE" by (rule ReadCompactSize_le [OF assms])
  consider "ch < 253" | "ch = 253" | "ch = 254" | "\<not> ch < 253" "ch \<noteq> 253" "ch \<noteq> 254" by blast
  then show ?thesis
  proof cases
    case 1
    then have "n = ucast ch" "rest = r" using assms s
      by (auto simp: ReadCompactSize_def ser_readdata8_def check_compact_def split: if_splits)
    moreover have "(ucast ch :: u64) < 253" using 1 by (simp add: word_less_nat_alt)
    moreover have "ucast (ucast ch :: u64) = ch" by (simp add: word_unat_eq_iff unat_ucast_64_down)
    ultimately show ?thesis by (simp add: s WriteCompactSize_def)
  next
    case 2
    then have l: "2 \<le> length r" and n: "n = ucast (ReadLE16 r)" "\<not> n < 253" "rest = drop 2 r" using assms s
      by (auto simp: ReadCompactSize_def ser_readdata8_def ser_readdata16_def check_compact_def split: if_splits)
    have u: "unat n = unat (ReadLE16 r)" by (simp add: n(1) unsigned_ucast_eq take_bit_nat_eq_self less_trans [OF unsigned_less])
    have "unat (ReadLE16 r) < 2 ^ 16" using unsigned_less [of "ReadLE16 r"] by simp
    then have "n \<le> 0xffff" using u by (simp add: word_le_nat_alt)
    moreover have "ucast n = ReadLE16 r" using u \<open>unat (ReadLE16 r) < 2 ^ 16\<close> by (simp add: word_unat_eq_iff unat_ucast_64_down)
    ultimately show ?thesis
      using n take_drop_LE(1) [OF l] by (simp add: s 2 WriteCompactSize_def del: WriteLE16.simps)
  next
    case 3
    then have l: "4 \<le> length r" and n: "n = ucast (ReadLE32 r)" "\<not> n < 0x10000" "rest = drop 4 r" using assms s
      by (auto simp: ReadCompactSize_def ser_readdata8_def ser_readdata32_def check_compact_def split: if_splits)
    have u: "unat n = unat (ReadLE32 r)" by (simp add: n(1))
    have lt: "unat (ReadLE32 r) < 4294967296" by (rule unat_lt32)
    then have "n \<le> 0xffffffff" using u unfolding word_le_nat_alt by (simp del: ReadLE32.simps unat_lt32)
    moreover have "ucast n = ReadLE32 r"
      using u lt by (simp add: word_unat_eq_iff unat_ucast_64_down del: ReadLE32.simps unat_lt32)
    moreover have "\<not> n < 253" "\<not> n \<le> 0xffff" using n(2) by (simp_all add: word_less_nat_alt word_le_nat_alt)
    ultimately show ?thesis
      using n take_drop_LE(2) [OF l] by (simp add: s 3 WriteCompactSize_def del: WriteLE32.simps)
  next
    case 4
    then have "\<not> n < 0x100000000" using assms s
      by (auto simp: ReadCompactSize_def ser_readdata8_def ser_readdata64_def check_compact_def split: if_splits)
    then show ?thesis using nm by (simp add: MAX_SIZE_def word_less_nat_alt word_le_nat_alt)
  qed
qed

section \<open>Codecs\<close>

text \<open>
  What a pair of \<^verbatim>\<open>Serialize\<close> and \<^verbatim>\<open>Unserialize\<close> promises: on the values in \<open>ok\<close>, reading what was
  written returns the value and leaves the rest of the stream. Vectors of a type with this
  promise have it too.
\<close>

locale codec =
  fixes ser :: "'a \<Rightarrow> bytes" and des :: "'a reader" and ok :: "'a \<Rightarrow> bool"
  assumes roundtrip: "ok x \<Longrightarrow> des (ser x @ rest) = Some (x, rest)"
begin

lemma des_n_roundtrip: "list_all ok v \<Longrightarrow> des_n (length v) des (concat (map ser v) @ rest) = Some (v, rest)"
  by (induction v) (simp_all add: roundtrip)

lemma vector_roundtrip:
  assumes "list_all ok v" and "length v \<le> unat MAX_SIZE"
  shows "des_vector des (ser_vector ser v @ rest) = Some (v, rest)"
proof -
  have u: "unat (of_nat (length v) :: u64) = length v" using assms(2) by (simp add: MAX_SIZE_def unat_of_nat)
  then have "(of_nat (length v) :: u64) \<le> MAX_SIZE" using assms(2) by (simp add: word_le_nat_alt)
  then show ?thesis
    using des_n_roundtrip [OF assms(1), of rest] u
    by (simp add: ser_vector_def des_vector_def ReadCompactSize_Write)
qed

lemma ser_inj: "ok x \<Longrightarrow> ok y \<Longrightarrow> ser x = ser y \<Longrightarrow> x = y"
  using roundtrip [of x "[]"] roundtrip [of y "[]"] by simp

end

definition bytes_ok :: "bytes \<Rightarrow> bool" where
  "bytes_ok v \<longleftrightarrow> length v \<le> unat MAX_SIZE"

lemma des_ser_bytes: "bytes_ok v \<Longrightarrow> des_bytes (ser_bytes v @ rest) = Some (v, rest)"
proof -
  assume v: "bytes_ok v"
  then have u: "unat (of_nat (length v) :: u64) = length v" by (simp add: bytes_ok_def MAX_SIZE_def unat_of_nat)
  then have "(of_nat (length v) :: u64) \<le> MAX_SIZE" using v by (simp add: bytes_ok_def word_le_nat_alt)
  then show ?thesis using u by (simp add: ser_bytes_def des_bytes_def ReadCompactSize_Write)
qed

lemma read_blocks_eq:
  "read_blocks n v s = (if length s < n then None else Some (v @ take n s, drop n s))"
proof (induction n v s rule: read_blocks.induct)
  case (1 n v s)
  show ?case
  proof (cases "n = 0 \<or> length s < min n 5000000")
    case False
    then have "read_blocks n v s = read_blocks (n - min n 5000000) (v @ take (min n 5000000) s) (drop (min n 5000000) s)"
      by (auto simp add: read_blocks.simps [of n v s] Let_def)
    also have "\<dots> = (if length s < n then None else Some (v @ take n s, drop n s))"
      using False "1.IH" [OF _ refl]
      by (simp add: min_def take_add [symmetric] del: append_assoc) (auto simp: take_add [symmetric])
    finally show ?thesis .
  qed (auto simp: read_blocks.simps [of n v s] Let_def)
qed

lemma prevector_bytes [simp]: "ser_prevector = ser_bytes" "des_prevector = des_bytes"
  by (simp_all add: fun_eq_iff ser_prevector_def ser_bytes_def des_prevector_def des_bytes_def read_blocks_eq
      split: option.split)

interpretation bytes_codec: codec ser_bytes des_bytes bytes_ok
  by unfold_locales (rule des_ser_bytes)

interpretation u32_codec: codec WriteLE32 ser_readdata32 "\<lambda>_. True"
  by unfold_locales (rule readdata_write)

interpretation u64_codec: codec WriteLE64 ser_readdata64 "\<lambda>_. True"
  by unfold_locales (rule readdata_write)

interpretation varint_codec: codec WriteVarInt ReadVarInt "\<lambda>_. True"
  by unfold_locales (rule ReadVarInt_WriteVarInt)

section \<open>Properties\<close>

text \<open>
  Compact sizes are a canonical code: the reader returns every size up to the limit that
  was written, and whatever it accepts is exactly what the writer produces for that size, so
  no size has two accepted encodings.
\<close>

theorem compact_size_canonical:
  "(n \<le> MAX_SIZE \<longrightarrow> ReadCompactSize (WriteCompactSize n @ rest) = Some (n, rest))
   \<and> (ReadCompactSize s = Some (m, r) \<longrightarrow> m \<le> MAX_SIZE \<and> s = WriteCompactSize m @ r)"
  using ReadCompactSize_Write ReadCompactSize_le ReadCompactSize_canonical by blast

theorem compact_size_canonical_witness:
  "ReadCompactSize (WriteCompactSize 300 @ [7]) = Some (300, [7]) \<and> ReadCompactSize [253, 5, 0] = None"
proof -
  have "ReadCompactSize [253, 5, 0] = None" by code_simp
  then show ?thesis using compact_size_canonical [of 300 "[7]"] by (simp add: MAX_SIZE_def)
qed

text \<open>
  Variable-length integers round trip for every 64-bit value, and the size function
  gives the number of bytes written.
\<close>

theorem varint_roundtrip:
  "ReadVarInt (WriteVarInt n @ rest) = Some (n, rest) \<and> length (WriteVarInt n) = GetSizeOfVarInt n"
  using ReadVarInt_WriteVarInt length_varint_tmp [of True n] by (simp add: WriteVarInt_def)

end
