(* ===== verification/Amount.thy ===== *)
theory Amount
  imports Prelude
begin

text \<open>
  \<^verbatim>\<open>amount.h\<close> and \<^verbatim>\<open>amount.cpp\<close>: amounts and fee rates. A \<^verbatim>\<open>CAmount\<close> is an \<^verbatim>\<open>int64_t\<close>, here an
  \<open>int\<close>. Both computations of \<open>CFeeRate\<close> mix it with \<^verbatim>\<open>size_t\<close>, so C++ converts the signed
  operand to 64 bits unsigned before it divides; the model does the same on words.
\<close>

type_synonym CAmount = int
type_synonym CFeeRate = CAmount

definition COIN :: CAmount where "COIN = 100000000"

definition CENT :: CAmount where "CENT = 1000000"

definition MAX_MONEY :: CAmount where "MAX_MONEY = 21000000 * COIN"

definition MoneyRange :: "CAmount \<Rightarrow> bool" where
  "MoneyRange nValue \<longleftrightarrow> nValue \<ge> 0 \<and> nValue \<le> MAX_MONEY"

definition mk_CFeeRate :: "CAmount \<Rightarrow> u64 \<Rightarrow> CFeeRate" where
  "mk_CFeeRate nFeePaid nSize =
     (if nSize > 0 then sint (word_of_int (nFeePaid * 1000) div nSize) else 0)"

definition GetFee :: "CFeeRate \<Rightarrow> u64 \<Rightarrow> CAmount" where
  "GetFee nSatoshisPerK nSize =
     (let nFee = sint (word_of_int nSatoshisPerK * nSize div 1000)
      in if nFee = 0 \<and> nSatoshisPerK > 0 then nSatoshisPerK else nFee)"

definition GetFeePerK :: "CFeeRate \<Rightarrow> CAmount" where
  "GetFeePerK nSatoshisPerK = GetFee nSatoshisPerK 1000"

lemma sint_div_small:
  assumes "0 \<le> a" and "a < 2 ^ 63"
  shows "sint ((word_of_int a :: u64) div d) = a div int (unat d)"
proof -
  have u: "unat (word_of_int a :: u64) = nat a" using assms by (simp add: unat_eq_nat_uint uint_word_of_int)
  have "unat ((word_of_int a :: u64) div d) = nat a div unat d" by (simp add: unat_div u)
  moreover have "nat a div unat d \<le> nat a" by simp
  moreover have "nat a < 2 ^ 63" using assms by simp
  ultimately have "sint ((word_of_int a :: u64) div d) = int (nat a div unat d)"
    by (metis le_less_trans sint_small)
  then show ?thesis using assms(1) by (simp add: zdiv_int)
qed

lemma GetFee_value:
  assumes "0 \<le> r" and "r * int (unat n) < 2 ^ 63"
  shows "GetFee r n = (if r * int (unat n) div 1000 = 0 then r else r * int (unat n) div 1000)"
proof -
  have "word_of_int r * n = (word_of_int (r * int (unat n)) :: u64)" by simp
  moreover have "0 \<le> r * int (unat n)" using assms(1) by simp
  moreover have "unat (1000 :: u64) = 1000" by simp
  ultimately have "sint (word_of_int r * n div 1000) = r * int (unat n) div 1000"
    using sint_div_small [of "r * int (unat n)" 1000] assms(2) by (metis of_nat_numeral)
  then show ?thesis using assms(1) by (auto simp: GetFee_def Let_def)
qed

text \<open>
  For a rate that is not negative and a product that fits 63 bits, the fee is the exact
  quotient rounded down, except that it is the whole rate when that quotient is zero; it never
  decreases with the size beyond one kilobyte and paying \<open>GetFeePerK\<close> costs the rate. A negative
  rate is converted to an unsigned number and yields a positive fee.
\<close>

theorem GetFee_correct:
  assumes "0 \<le> r" and "r * int (unat n) < 2 ^ 63" and "r * 1000 < 2 ^ 63"
  shows "GetFee r n = (if r * int (unat n) div 1000 = 0 then r else r * int (unat n) div 1000)
    \<and> GetFeePerK r = r
    \<and> (unat m \<le> unat n \<longrightarrow> 1000 \<le> unat m \<longrightarrow> GetFee r m \<le> GetFee r n)
    \<and> GetFee (- 1) 1000 = 18446744073709550"
proof (intro conjI impI)
  show "GetFee r n = (if r * int (unat n) div 1000 = 0 then r else r * int (unat n) div 1000)"
    by (rule GetFee_value [OF assms(1,2)])
  show "GetFeePerK r = r" using GetFee_value [of r 1000] assms(1,3) by (simp add: GetFeePerK_def)
  show "GetFee (- 1) 1000 = 18446744073709550" by code_simp
  assume m: "unat m \<le> unat n" "1000 \<le> unat m"
  have mono: "r * int (unat m) \<le> r * int (unat n)" 
    by (rule mult_left_mono [OF of_nat_mono [OF m(1)] assms(1)])
  have big: "r \<le> r * int (unat k) div 1000" if "1000 \<le> unat k" for k :: u64
  proof -
    have "r * 1000 \<le> r * int (unat k)"
      using mult_left_mono [OF of_nat_mono [OF that] assms(1)] by (simp only: of_nat_numeral)
    then have "r * 1000 div 1000 \<le> r * int (unat k) div 1000" by (rule zdiv_mono1) simp
    then show ?thesis by simp
  qed
  have f: "GetFee r k = r * int (unat k) div 1000" if "1000 \<le> unat k" "r * int (unat k) < 2 ^ 63" for k
    using GetFee_value [OF assms(1) that(2)] big [OF that(1)] assms(1) by auto
  show "GetFee r m \<le> GetFee r n"
    using f [of m] f [of n] m mono assms(2) zdiv_mono1 [OF mono, of 1000] by simp
qed

theorem GetFee_correct_witness: "GetFee 10000 250 = 2500 \<and> GetFee 10000 1000 \<le> GetFee 10000 2000"
  using GetFee_correct [of 10000 250] GetFee_correct [of 10000 2000 1000] by simp

end
