(* ===== verification/Transaction.thy ===== *)
theory Transaction
  imports Serialize Interpreter Amount
begin

text \<open>
  \<^verbatim>\<open>primitives/transaction.h\<close> and the part of \<^verbatim>\<open>script/interpreter.cpp\<close> that ties scripts to
  transactions: outpoints, inputs, outputs (with the image field this coin adds), their
  serialization, the signature hash and the transaction's signature checker.
  \<^verbatim>\<open>uint256\<close> values are their 32 bytes; \<^verbatim>\<open>std::string\<close> values are byte lists.
\<close>

record COutPoint =
  outHash :: bytes
  outN :: u32

record CTxIn =
  prevout :: COutPoint
  scriptSig :: CScript
  nSequence :: u32

record CTxOut =
  nValue :: CAmount
  scriptPubKey :: CScript
  imgbase64 :: bytes
  nRounds :: int

record CTransaction =
  txVersion :: int
  vin :: "CTxIn list"
  vout :: "CTxOut list"
  nLockTime :: u32

definition SEQUENCE_FINAL :: u32 where "SEQUENCE_FINAL = 0xffffffff"

definition SEQUENCE_LOCKTIME_TYPE_FLAG :: u32 where "SEQUENCE_LOCKTIME_TYPE_FLAG = 0x00400000"

definition SEQUENCE_LOCKTIME_MASK :: u32 where "SEQUENCE_LOCKTIME_MASK = 0x0000ffff"

definition SEQUENCE_LOCKTIME_GRANULARITY :: nat where "SEQUENCE_LOCKTIME_GRANULARITY = 9"

definition outpoint_null :: COutPoint where
  "outpoint_null = \<lparr>outHash = replicate 32 0, outN = - 1\<rparr>"

definition outpoint_IsNull :: "COutPoint \<Rightarrow> bool" where
  "outpoint_IsNull p \<longleftrightarrow> list_all (\<lambda>b. b = 0) (outHash p) \<and> outN p = - 1"

definition txout_null :: CTxOut where
  "txout_null = \<lparr>nValue = - 1, scriptPubKey = [], imgbase64 = [], nRounds = - 10\<rparr>"

definition txout_IsNull :: "CTxOut \<Rightarrow> bool" where
  "txout_IsNull o' \<longleftrightarrow> nValue o' = - 1"

text \<open>
  The constructor tests the size of the member \<^verbatim>\<open>imgbase64\<close>, which is still empty, and not that
  of its argument; \<open>None\<close> is the exception.
\<close>

definition mk_CTxOut :: "CAmount \<Rightarrow> CScript \<Rightarrow> bytes \<Rightarrow> CTxOut option" where
  "mk_CTxOut nValueIn scriptPubKeyIn imgbase64in =
     (let imgbase64' = []
      in if length imgbase64' \<le> 1000000000
         then Some \<lparr>nValue = nValueIn, scriptPubKey = scriptPubKeyIn, imgbase64 = imgbase64in, nRounds = - 10\<rparr>
         else None)"

definition IsCoinBase :: "CTransaction \<Rightarrow> bool" where
  "IsCoinBase tx \<longleftrightarrow> length (vin tx) = 1 \<and> outpoint_IsNull (prevout (vin tx ! 0))"

definition tx_IsNull :: "CTransaction \<Rightarrow> bool" where
  "tx_IsNull tx \<longleftrightarrow> vin tx = [] \<and> vout tx = []"

text \<open>The loop of \<^verbatim>\<open>GetValueOut\<close>; \<open>None\<close> is the exception.\<close>

fun value_out_loop :: "CAmount \<Rightarrow> CTxOut list \<Rightarrow> CAmount option" where
  "value_out_loop nValueOut [] = Some nValueOut"
| "value_out_loop nValueOut (o' # os) =
     (let nValueOut = nValueOut + nValue o'
      in if \<not> MoneyRange (nValue o') \<or> \<not> MoneyRange nValueOut then None else value_out_loop nValueOut os)"

definition GetValueOut :: "CTransaction \<Rightarrow> CAmount option" where
  "GetValueOut tx = value_out_loop 0 (vout tx)"

section \<open>Serialization\<close>

definition ser_uint256 :: "bytes \<Rightarrow> bytes" where "ser_uint256 h = h"

definition des_uint256 :: "bytes reader" where
  "des_uint256 s = (if length s < 32 then None else Some (take 32 s, drop 32 s))"

definition ser_outpoint :: "COutPoint \<Rightarrow> bytes" where
  "ser_outpoint p = ser_uint256 (outHash p) @ WriteLE32 (outN p)"

definition des_outpoint :: "COutPoint reader" where
  "des_outpoint s =
     (case des_uint256 s of
        None \<Rightarrow> None
      | Some (h, s) \<Rightarrow> (case ser_readdata32 s of
                         None \<Rightarrow> None
                       | Some (k, s) \<Rightarrow> Some (\<lparr>outHash = h, outN = k\<rparr>, s)))"

definition ser_txin :: "CTxIn \<Rightarrow> bytes" where
  "ser_txin i = ser_outpoint (prevout i) @ ser_prevector (scriptSig i) @ WriteLE32 (nSequence i)"

definition des_txin :: "CTxIn reader" where
  "des_txin s =
     (case des_outpoint s of
        None \<Rightarrow> None
      | Some (p, s) \<Rightarrow>
          (case des_prevector s of
             None \<Rightarrow> None
           | Some (c, s) \<Rightarrow> (case ser_readdata32 s of
                              None \<Rightarrow> None
                            | Some (q, s) \<Rightarrow> Some (\<lparr>prevout = p, scriptSig = c, nSequence = q\<rparr>, s))))"

text \<open>\<^verbatim>\<open>nRounds\<close> is not serialized; a new object has the value its constructor sets.\<close>

definition ser_txout :: "CTxOut \<Rightarrow> bytes" where
  "ser_txout o' = WriteLE64 (word_of_int (nValue o')) @ ser_prevector (scriptPubKey o') @ ser_bytes (imgbase64 o')"

definition des_txout :: "CTxOut reader" where
  "des_txout s =
     (case ser_readdata64 s of
        None \<Rightarrow> None
      | Some (v, s) \<Rightarrow>
          (case des_prevector s of
             None \<Rightarrow> None
           | Some (c, s) \<Rightarrow> (case des_bytes s of
                              None \<Rightarrow> None
                            | Some (g, s) \<Rightarrow> Some (\<lparr>nValue = sint v, scriptPubKey = c, imgbase64 = g, nRounds = - 10\<rparr>, s))))"

definition ser_tx :: "CTransaction \<Rightarrow> bytes" where
  "ser_tx tx = WriteLE32 (word_of_int (txVersion tx)) @ ser_vector ser_txin (vin tx)
               @ ser_vector ser_txout (vout tx) @ WriteLE32 (nLockTime tx)"

definition des_tx :: "CTransaction reader" where
  "des_tx s =
     (case ser_readdata32 s of
        None \<Rightarrow> None
      | Some (v, s) \<Rightarrow>
          (case des_vector des_txin s of
             None \<Rightarrow> None
           | Some (i, s) \<Rightarrow>
               (case des_vector des_txout s of
                  None \<Rightarrow> None
                | Some (o', s) \<Rightarrow>
                    (case ser_readdata32 s of
                       None \<Rightarrow> None
                     | Some (l, s) \<Rightarrow> Some (\<lparr>txVersion = sint v, vin = i, vout = o', nLockTime = l\<rparr>, s)))))"

definition GetDustThreshold :: "CTxOut \<Rightarrow> CFeeRate \<Rightarrow> CAmount" where
  "GetDustThreshold o' minRelayTxFee =
     (if IsUnspendable (scriptPubKey o') then 0
      else 3 * GetFee minRelayTxFee (of_nat (length (ser_txout o') + 148)))"

definition IsDust :: "CTxOut \<Rightarrow> CFeeRate \<Rightarrow> bool" where
  "IsDust o' minRelayTxFee \<longleftrightarrow> nValue o' < GetDustThreshold o' minRelayTxFee"

text \<open>\<^verbatim>\<open>GetHash\<close> is the double SHA-256 of the serialization.\<close>

definition tx_GetHash :: "crypto \<Rightarrow> CTransaction \<Rightarrow> bytes" where
  "tx_GetHash cr tx = Hash256 cr (ser_tx tx)"

definition modified_size_step :: "nat \<Rightarrow> CTxIn \<Rightarrow> nat" where
  "modified_size_step nTxSize i =
     (let offset = 41 + min 110 (length (scriptSig i))
      in if nTxSize > offset then nTxSize - offset else nTxSize)"

definition CalculateModifiedSize :: "CTransaction \<Rightarrow> nat \<Rightarrow> nat" where
  "CalculateModifiedSize tx nTxSize =
     foldl modified_size_step (if nTxSize = 0 then length (ser_tx tx) else nTxSize) (vin tx)"

section \<open>The signature hash\<close>

record sig_serializer =
  txTo :: CTransaction
  scriptCode :: CScript
  nIn :: nat
  fAnyoneCanPay :: bool
  fHashSingle :: bool
  fHashNone :: bool

definition mk_sig_serializer :: "CTransaction \<Rightarrow> CScript \<Rightarrow> nat \<Rightarrow> u32 \<Rightarrow> sig_serializer" where
  "mk_sig_serializer txToIn scriptCodeIn nInIn nHashTypeIn =
     \<lparr>txTo = txToIn, scriptCode = scriptCodeIn, nIn = nInIn,
      fAnyoneCanPay = (nHashTypeIn AND 0x80 \<noteq> 0),
      fHashSingle = (nHashTypeIn AND 0x1f = 3),
      fHashNone = (nHashTypeIn AND 0x1f = 2)\<rparr>"

text \<open>
  The two passes of \<^verbatim>\<open>SerializeScriptCode\<close>. The second writes the bytes before each
  \<^verbatim>\<open>OP_CODESEPARATOR\<close> and then those from the last one up to where the iterator stopped, which is
  the end of the script or inside a truncated push; \<open>seg\<close> are the bytes read since \<^verbatim>\<open>itBegin\<close>.
\<close>

function copy_code :: "bytes \<Rightarrow> bytes \<Rightarrow> bytes" where
  "copy_code seg it =
     (case GetOp2 it of
        (None, it') \<Rightarrow> seg @ take (length it - length it') it
      | (Some (opcode, _), it') \<Rightarrow>
          (if opcode = OP_CODESEPARATOR then seg @ copy_code [] it'
           else copy_code (seg @ take (length it - length it') it) it'))"
  by pat_completeness auto
termination
  by (relation "measure (\<lambda>(seg, it). length it)") (auto dest!: GetOp2_length [OF sym])

declare copy_code.simps [simp del]

definition SerializeScriptCode :: "CScript \<Rightarrow> bytes" where
  "SerializeScriptCode code =
     WriteCompactSize (of_nat (length code - Find_op OP_CODESEPARATOR code))
     @ copy_code [] code"

definition SerializeInput :: "sig_serializer \<Rightarrow> nat \<Rightarrow> bytes" where
  "SerializeInput st nInput =
     (let nInput = (if fAnyoneCanPay st then nIn st else nInput);
          i = vin (txTo st) ! nInput
      in ser_outpoint (prevout i)
         @ (if nInput \<noteq> nIn st then ser_prevector [] else SerializeScriptCode (scriptCode st))
         @ (if nInput \<noteq> nIn st \<and> (fHashSingle st \<or> fHashNone st) then WriteLE32 0 else WriteLE32 (nSequence i)))"

definition SerializeOutput :: "sig_serializer \<Rightarrow> nat \<Rightarrow> bytes" where
  "SerializeOutput st nOutput =
     (if fHashSingle st \<and> nOutput \<noteq> nIn st then ser_txout txout_null else ser_txout (vout (txTo st) ! nOutput))"

definition sig_serialize :: "sig_serializer \<Rightarrow> bytes" where
  "sig_serialize st =
     (let nInputs = (if fAnyoneCanPay st then 1 else length (vin (txTo st)));
          nOutputs = (if fHashNone st then 0 else if fHashSingle st then nIn st + 1 else length (vout (txTo st)))
      in WriteLE32 (word_of_int (txVersion (txTo st)))
         @ WriteCompactSize (of_nat nInputs) @ concat (map (SerializeInput st) [0..<nInputs])
         @ WriteCompactSize (of_nat nOutputs) @ concat (map (SerializeOutput st) [0..<nOutputs])
         @ WriteLE32 (nLockTime (txTo st)))"

definition uint256_one :: bytes where
  "uint256_one = 1 # replicate 31 0"

definition SignatureHash :: "crypto \<Rightarrow> CScript \<Rightarrow> CTransaction \<Rightarrow> nat \<Rightarrow> u32 \<Rightarrow> bytes" where
  "SignatureHash cr code tx n nHashType =
     (if n \<ge> length (vin tx) then uint256_one
      else if nHashType AND 0x1f = 3 \<and> n \<ge> length (vout tx) then uint256_one
      else Hash256 cr (sig_serialize (mk_sig_serializer tx code n nHashType) @ WriteLE32 nHashType))"

section \<open>The transaction's signature checker\<close>

text \<open>\<open>IsValid\<close> and \<open>Verify\<close> are those of \<^verbatim>\<open>CPubKey\<close>, which call the elliptic curve library.\<close>

definition tx_CheckSig ::
    "crypto \<Rightarrow> (bytes \<Rightarrow> bool) \<Rightarrow> (bytes \<Rightarrow> bytes \<Rightarrow> bytes \<Rightarrow> bool) \<Rightarrow> CTransaction \<Rightarrow> nat
     \<Rightarrow> bytes \<Rightarrow> bytes \<Rightarrow> CScript \<Rightarrow> bool" where
  "tx_CheckSig cr IsValid Verify tx n vchSigIn vchPubKey code =
     (if \<not> IsValid vchPubKey then False
      else if vchSigIn = [] then False
      else Verify vchPubKey (SignatureHash cr code tx n (ucast (last vchSigIn))) (butlast vchSigIn))"

definition tx_CheckLockTime :: "CTransaction \<Rightarrow> nat \<Rightarrow> int \<Rightarrow> bool" where
  "tx_CheckLockTime tx n nLock =
     (let txLock = int (unat (nLockTime tx))
      in if \<not> ((txLock < LOCKTIME_THRESHOLD \<and> nLock < LOCKTIME_THRESHOLD)
              \<or> (txLock \<ge> LOCKTIME_THRESHOLD \<and> nLock \<ge> LOCKTIME_THRESHOLD)) then False
         else if nLock > txLock then False
         else if SEQUENCE_FINAL = nSequence (vin tx ! n) then False
         else True)"

definition tx_CheckSequence :: "CTransaction \<Rightarrow> nat \<Rightarrow> int \<Rightarrow> bool" where
  "tx_CheckSequence tx n nSeq =
     (let txToSequence = int (unat (nSequence (vin tx ! n)));
          nLockTimeMask = int (unat (SEQUENCE_LOCKTIME_TYPE_FLAG OR SEQUENCE_LOCKTIME_MASK));
          typeFlag = int (unat SEQUENCE_LOCKTIME_TYPE_FLAG);
          txToSequenceMasked = txToSequence AND nLockTimeMask;
          nSequenceMasked = nSeq AND nLockTimeMask
      in if (word_of_int (txVersion tx) :: u32) < 2 then False
         else if txToSequence AND SEQUENCE_LOCKTIME_DISABLE_FLAG \<noteq> 0 then False
         else if \<not> ((txToSequenceMasked < typeFlag \<and> nSequenceMasked < typeFlag)
                   \<or> (txToSequenceMasked \<ge> typeFlag \<and> nSequenceMasked \<ge> typeFlag)) then False
         else if nSequenceMasked > txToSequenceMasked then False
         else True)"

definition TransactionSignatureChecker ::
    "crypto \<Rightarrow> (bytes \<Rightarrow> bool) \<Rightarrow> (bytes \<Rightarrow> bytes \<Rightarrow> bytes \<Rightarrow> bool) \<Rightarrow> CTransaction \<Rightarrow> nat \<Rightarrow> BaseSignatureChecker" where
  "TransactionSignatureChecker cr IsValid Verify tx n =
     \<lparr>CheckSig = tx_CheckSig cr IsValid Verify tx n, CheckLockTime = tx_CheckLockTime tx n,
      CheckSequence = tx_CheckSequence tx n\<rparr>"

section \<open>Transactions as codecs\<close>

text \<open>The values of the C++ types: what fits their fields and the size limit of the reader.\<close>

definition outpoint_ok :: "COutPoint \<Rightarrow> bool" where
  "outpoint_ok p \<longleftrightarrow> length (outHash p) = 32"

definition txin_ok :: "CTxIn \<Rightarrow> bool" where
  "txin_ok i \<longleftrightarrow> outpoint_ok (prevout i) \<and> bytes_ok (scriptSig i)"

definition txout_ok :: "CTxOut \<Rightarrow> bool" where
  "txout_ok o' \<longleftrightarrow> - (2 ^ 63) \<le> nValue o' \<and> nValue o' < 2 ^ 63 \<and> bytes_ok (scriptPubKey o')
     \<and> bytes_ok (imgbase64 o') \<and> nRounds o' = - 10"

definition tx_ok :: "CTransaction \<Rightarrow> bool" where
  "tx_ok tx \<longleftrightarrow> - (2 ^ 31) \<le> txVersion tx \<and> txVersion tx < 2 ^ 31
     \<and> list_all txin_ok (vin tx) \<and> length (vin tx) \<le> unat MAX_SIZE
     \<and> list_all txout_ok (vout tx) \<and> length (vout tx) \<le> unat MAX_SIZE"

lemma sint_word_of_int_64 [simp]: "- (2 ^ 63) \<le> x \<Longrightarrow> x < 2 ^ 63 \<Longrightarrow> sint (word_of_int x :: u64) = x"
  by (simp add: int_word_sint)

lemma sint_word_of_int_32 [simp]: "- (2 ^ 31) \<le> x \<Longrightarrow> x < 2 ^ 31 \<Longrightarrow> sint (word_of_int x :: u32) = x"
  by (simp add: int_word_sint)

lemma des_ser_outpoint: "outpoint_ok p \<Longrightarrow> des_outpoint (ser_outpoint p @ rest) = Some (p, rest)"
  by (simp add: outpoint_ok_def des_outpoint_def ser_outpoint_def ser_uint256_def des_uint256_def
      del: WriteLE32.simps)

interpretation outpoint_codec: codec ser_outpoint des_outpoint outpoint_ok
  by unfold_locales (rule des_ser_outpoint)

lemma des_ser_txin: "txin_ok i \<Longrightarrow> des_txin (ser_txin i @ rest) = Some (i, rest)"
  by (simp add: txin_ok_def des_txin_def ser_txin_def des_ser_outpoint des_ser_bytes del: WriteLE32.simps)

interpretation txin_codec: codec ser_txin des_txin txin_ok
  by unfold_locales (rule des_ser_txin)

lemma des_ser_txout: "txout_ok o' \<Longrightarrow> des_txout (ser_txout o' @ rest) = Some (o', rest)"
  by (cases o') (simp add: txout_ok_def des_txout_def ser_txout_def des_ser_bytes)

interpretation txout_codec: codec ser_txout des_txout txout_ok
  by unfold_locales (rule des_ser_txout)

lemma des_ser_tx: "tx_ok tx \<Longrightarrow> des_tx (ser_tx tx @ rest) = Some (tx, rest)"
  by (simp add: tx_ok_def des_tx_def ser_tx_def txin_codec.vector_roundtrip txout_codec.vector_roundtrip
      del: WriteLE32.simps)

interpretation tx_codec: codec ser_tx des_tx tx_ok
  by unfold_locales (rule des_ser_tx)

section \<open>What a signature commits to\<close>

text \<open>
  The transaction a signature of type \<^verbatim>\<open>SIGHASH_ALL\<close> is made for: the script of the signed input is
  the script code, those of the other inputs are empty.
\<close>

definition blank_input :: "CScript \<Rightarrow> nat \<Rightarrow> nat \<Rightarrow> CTxIn \<Rightarrow> CTxIn" where
  "blank_input code n k i = i\<lparr>scriptSig := (if k = n then code else [])\<rparr>"

definition signed_tx :: "CTransaction \<Rightarrow> CScript \<Rightarrow> nat \<Rightarrow> CTransaction" where
  "signed_tx tx code n = tx\<lparr>vin := map2 (blank_input code n) [0..<length (vin tx)] (vin tx)\<rparr>"

text \<open>A script whose instructions can all be read, none of them \<^verbatim>\<open>OP_CODESEPARATOR\<close>.\<close>

function plain_code :: "CScript \<Rightarrow> bool" where
  "plain_code code =
     (case GetOp2 code of
        (None, r) \<Rightarrow> r = []
      | (Some (opcode, _), r) \<Rightarrow> opcode \<noteq> OP_CODESEPARATOR \<and> plain_code r)"
  by pat_completeness auto
termination
  by (relation "measure length") (auto dest!: GetOp2_length [OF sym])

declare plain_code.simps [simp del]

lemma plain_code_copy: "plain_code code \<Longrightarrow> copy_code seg code = seg @ code \<and> Find_op OP_CODESEPARATOR code = 0"
proof (induction code arbitrary: seg rule: plain_code.induct)
  case (1 code)
  show ?case
  proof (cases "GetOp2 code")
    case (Pair a r)
    show ?thesis
    proof (cases a)
      case None
      then show ?thesis
        using Pair "1.prems" by (simp add: plain_code.simps [of code] copy_code.simps [of seg code] Find_op.simps [of _ code])
    next
      case (Some b)
      obtain op d where b: "b = (op, d)" by (cases b)
      have g: "GetOp2 code = (Some (op, d), r)" using Pair Some b by simp
      then have op: "op \<noteq> OP_CODESEPARATOR" "plain_code r" using "1.prems" by (simp_all add: plain_code.simps [of code])
      obtain t where t: "code = t @ r" using GetOp2_suffix [OF g] by blast
      have IH: "copy_code seg' r = seg' @ r \<and> Find_op OP_CODESEPARATOR r = 0" for seg'
        using "1.IH" [OF g [symmetric]] op(2) by simp
      have "copy_code seg code = copy_code (seg @ t) r"
        using g op(1) by (simp add: copy_code.simps [of seg code]) (simp add: t)
      moreover have "Find_op OP_CODESEPARATOR code = 0"
        using g op(1) IH by (simp add: Find_op.simps [of _ code])
      ultimately show ?thesis using IH t by simp
    qed
  qed
qed

lemma SerializeScriptCode_plain: "plain_code code \<Longrightarrow> SerializeScriptCode code = ser_bytes code"
  by (simp add: SerializeScriptCode_def ser_bytes_def plain_code_copy)

lemma sig_serialize_all:
  assumes "plain_code code" and "\<not> fAnyoneCanPay st" "\<not> fHashSingle st" "\<not> fHashNone st" and "scriptCode st = code"
  shows "sig_serialize st = ser_tx (signed_tx (txTo st) code (nIn st))"
proof -
  have "map (SerializeInput st) [0..<length (vin (txTo st))]
        = map ser_txin (map2 (blank_input code (nIn st)) [0..<length (vin (txTo st))] (vin (txTo st)))"
    using assms
    by (intro nth_equalityI) (simp_all add: SerializeInput_def Let_def blank_input_def ser_txin_def SerializeScriptCode_plain
        del: WriteLE32.simps)
  moreover have "map (SerializeOutput st) [0..<length (vout (txTo st))] = map ser_txout (vout (txTo st))"
    using assms by (intro nth_equalityI) (simp_all add: SerializeOutput_def)
  ultimately show ?thesis
    using assms by (simp add: sig_serialize_def signed_tx_def ser_tx_def ser_vector_def Let_def del: WriteLE32.simps map_map)
qed

lemma signed_tx_ok: "tx_ok tx \<Longrightarrow> bytes_ok code \<Longrightarrow> tx_ok (signed_tx tx code n)"
proof -
  assume ok: "tx_ok tx" "bytes_ok code"
  have "txin_ok (blank_input code n k (vin tx ! k))" if "k < length (vin tx)" for k
    using ok that by (auto simp: tx_ok_def list_all_length txin_ok_def blank_input_def bytes_ok_def)
  then have "list_all txin_ok (vin (signed_tx tx code n))"
    by (simp add: signed_tx_def list_all_length)
  then show ?thesis using ok by (simp add: tx_ok_def signed_tx_def)
qed

lemma sighash_flags: "\<not> fAnyoneCanPay (mk_sig_serializer tx code n 1)" "\<not> fHashSingle (mk_sig_serializer tx code n 1)"
  "\<not> fHashNone (mk_sig_serializer tx code n 1)"
  by (simp_all add: mk_sig_serializer_def)

lemma sighash_all_preimage:
  "plain_code code \<Longrightarrow> sig_serialize (mk_sig_serializer tx code n 1) = ser_tx (signed_tx tx code n)"
  using sig_serialize_all [OF _ sighash_flags, of code tx code n] by (simp add: mk_sig_serializer_def)

section \<open>Properties\<close>

text \<open>
  C31. Transactions survive the wire: reading what was written returns the transaction and
  leaves the rest of the stream, so two different well-formed transactions never share a
  serialization.
\<close>

theorem tx_roundtrip:
  assumes "tx_ok tx"
  shows "des_tx (ser_tx tx @ rest) = Some (tx, rest) \<and> (tx_ok tx' \<longrightarrow> ser_tx tx = ser_tx tx' \<longrightarrow> tx = tx')"
  using des_ser_tx [OF assms] tx_codec.ser_inj [OF assms] by blast

definition tx_sample :: CTransaction where
  "tx_sample = \<lparr>txVersion = 2, vin = [\<lparr>prevout = \<lparr>outHash = replicate 32 7, outN = 1\<rparr>, scriptSig = [0x51], nSequence = 0xfffffffe\<rparr>],
     vout = [\<lparr>nValue = 5000, scriptPubKey = [0x6a], imgbase64 = [65, 66], nRounds = - 10\<rparr>], nLockTime = 100\<rparr>"

lemma tx_sample_ok: "tx_ok tx_sample"
  by (simp add: tx_sample_def tx_ok_def txin_ok_def txout_ok_def outpoint_ok_def bytes_ok_def MAX_SIZE_def)

theorem tx_roundtrip_witness: "des_tx (ser_tx tx_sample @ [1, 2]) = Some (tx_sample, [1, 2])"
  using tx_roundtrip [OF tx_sample_ok, of "[1, 2]" tx_sample] by blast

text \<open>
  C32. What a \<^verbatim>\<open>SIGHASH_ALL\<close> signature commits to. For script code without separators the bytes
  that are hashed are the serialization of the transaction with the other inputs' scripts
  emptied, so equal signature messages mean the same script code, version, outpoints,
  sequence numbers, outputs (image data included) and lock time.
\<close>

theorem sighash_all_commits:
  assumes "plain_code code" and "plain_code code'" and "tx_ok tx" and "tx_ok tx'" and "bytes_ok code" and "bytes_ok code'"
    and "n < length (vin tx)"
  shows "SignatureHash cr code tx n 1 = Hash256 cr (ser_tx (signed_tx tx code n) @ WriteLE32 1)
    \<and> (sig_serialize (mk_sig_serializer tx code n 1) = sig_serialize (mk_sig_serializer tx' code' n 1)
       \<longrightarrow> code = code' \<and> txVersion tx = txVersion tx' \<and> map prevout (vin tx) = map prevout (vin tx')
           \<and> map nSequence (vin tx) = map nSequence (vin tx') \<and> vout tx = vout tx' \<and> nLockTime tx = nLockTime tx')"
proof (intro conjI impI)
  show "SignatureHash cr code tx n 1 = Hash256 cr (ser_tx (signed_tx tx code n) @ WriteLE32 1)"
    using assms(7) by (simp add: SignatureHash_def sighash_all_preimage [OF assms(1)] del: WriteLE32.simps)
  assume "sig_serialize (mk_sig_serializer tx code n 1) = sig_serialize (mk_sig_serializer tx' code' n 1)"
  then have eq: "signed_tx tx code n = signed_tx tx' code' n"
    using tx_codec.ser_inj [OF signed_tx_ok signed_tx_ok] assms by (simp add: sighash_all_preimage)
  have vin: "vin (signed_tx t c n) = map2 (blank_input c n) [0..<length (vin t)] (vin t)" for t c
    by (simp add: signed_tx_def)
  have pre: "map prevout (vin t) = map prevout (vin (signed_tx t c n))"
    and sq: "map nSequence (vin t) = map nSequence (vin (signed_tx t c n))" for t c
    by (auto simp: vin blank_input_def intro!: nth_equalityI)
  show "map prevout (vin tx) = map prevout (vin tx')" using pre [of tx code] pre [of tx' code'] eq by simp
  then have len: "length (vin tx') = length (vin tx)" by (metis length_map)
  show "map nSequence (vin tx) = map nSequence (vin tx')" using sq [of tx code] sq [of tx' code'] eq by simp
  have "scriptSig (vin (signed_tx tx code n) ! n) = scriptSig (vin (signed_tx tx' code' n) ! n)" using eq by simp
  then show "code = code'" using assms(7) len by (simp add: vin blank_input_def)
  show "txVersion tx = txVersion tx'" "vout tx = vout tx'" "nLockTime tx = nLockTime tx'"
    using arg_cong [OF eq, of txVersion] arg_cong [OF eq, of vout] arg_cong [OF eq, of nLockTime]
    by (simp_all add: signed_tx_def)
qed

theorem sighash_all_commits_witness:
  "\<exists>cr. SignatureHash cr [0x51] tx_sample 0 1 = ser_tx (signed_tx tx_sample [0x51] 0) @ WriteLE32 1"
proof
  let ?cr = "\<lparr>RIPEMD160 = id, SHA1 = id, SHA256 = id, Hash160 = id, Hash256 = id, CheckLowS = (\<lambda>_. True)\<rparr>"
  have "plain_code []" "plain_code [0x51]" by code_simp+
  then show "SignatureHash ?cr [0x51] tx_sample 0 1 = ser_tx (signed_tx tx_sample [0x51] 0) @ WriteLE32 1"
    using sighash_all_commits [of "[0x51]" "[]" tx_sample tx_sample 0 ?cr] tx_sample_ok
    by (simp add: bytes_ok_def MAX_SIZE_def tx_sample_def del: WriteLE32.simps)
qed

lemma value_out_loop_iff:
  "MoneyRange a \<Longrightarrow> value_out_loop a os = Some v \<longleftrightarrow>
     list_all (\<lambda>o'. MoneyRange (nValue o')) os \<and> a + sum_list (map nValue os) \<le> MAX_MONEY
     \<and> v = a + sum_list (map nValue os)"
proof (induction os arbitrary: a)
  case (Cons o' os)
  have pos: "list_all (\<lambda>o'. MoneyRange (nValue o')) os \<Longrightarrow> 0 \<le> sum_list (map nValue os)"
    by (rule sum_list_nonneg) (auto simp: list_all_iff MoneyRange_def)
  show ?case
  proof (cases "MoneyRange (nValue o') \<and> MoneyRange (a + nValue o')")
    case True
    then show ?thesis using Cons.IH [of "a + nValue o'"] by (simp add: algebra_simps)
  next
    case False
    then show ?thesis using Cons.prems pos by (auto simp: MoneyRange_def)
  qed
qed (auto simp: MoneyRange_def)

text \<open>
  \<^verbatim>\<open>GetValueOut\<close> throws exactly when an output is out of range or the total exceeds the money
  supply; otherwise it is the sum of the outputs. The order of the outputs never matters.
\<close>

theorem GetValueOut_iff:
  "GetValueOut tx = (if (\<forall>k. k < length (vout tx) \<longrightarrow> MoneyRange (nValue (vout tx ! k))) \<and> sum_list (map nValue (vout tx)) \<le> MAX_MONEY
                     then Some (sum_list (map nValue (vout tx))) else None)"
proof -
  have "GetValueOut tx = Some v \<longleftrightarrow> list_all (\<lambda>o'. MoneyRange (nValue o')) (vout tx)
      \<and> sum_list (map nValue (vout tx)) \<le> MAX_MONEY \<and> v = sum_list (map nValue (vout tx))" for v
    using value_out_loop_iff [of 0 "vout tx" v] by (simp add: GetValueOut_def MoneyRange_def MAX_MONEY_def COIN_def)
  then show ?thesis by (cases "GetValueOut tx") (auto simp: list_all_length)
qed

theorem GetValueOut_iff_witness: "GetValueOut tx_sample = Some 5000"
  using GetValueOut_iff [of tx_sample] by (simp add: tx_sample_def MoneyRange_def MAX_MONEY_def COIN_def)

end
