(* ===== verification/Compressor.thy ===== *)
theory Compressor
  imports Transaction
begin

text \<open>
  \<^verbatim>\<open>compressor.h\<close> and \<^verbatim>\<open>compressor.cpp\<close>: the compact format in which unspent outputs are kept in
  the coin database and in undo files. Amounts lose their trailing decimal zeros, three kinds
  of script become 21 or 33 bytes. The operations of \<^verbatim>\<open>CPubKey\<close> that call the elliptic curve
  library are the record \<open>pubkey_lib\<close>.
\<close>

record pubkey_lib =
  IsFullyValid :: "bytes \<Rightarrow> bool"
  key_Decompress :: "bytes \<Rightarrow> bytes option"

section \<open>Amounts\<close>

function compress_loop :: "u64 \<Rightarrow> nat \<Rightarrow> u64 \<times> nat" where
  "compress_loop n e = (if n mod 10 = 0 \<and> e < 9 then compress_loop (n div 10) (e + 1) else (n, e))"
  by pat_completeness auto
termination
  by (relation "measure (\<lambda>(n, e). 9 - e)") auto

declare compress_loop.simps [simp del]

text \<open>\<open>None\<close> is the failed assertion on the last digit.\<close>

definition CompressAmount :: "u64 \<Rightarrow> u64 option" where
  "CompressAmount n =
     (if n = 0 then Some 0
      else let (n, e) = compress_loop n 0
           in if e < 9
              then let d = n mod 10
                   in if \<not> (d \<ge> 1 \<and> d \<le> 9) then None
                      else Some (1 + (n div 10 * 9 + d - 1) * 10 + of_nat e)
              else Some (1 + (n - 1) * 10 + 9))"

fun times10 :: "nat \<Rightarrow> u64 \<Rightarrow> u64" where
  "times10 0 n = n"
| "times10 (Suc e) n = times10 e (n * 10)"

definition DecompressAmount :: "u64 \<Rightarrow> u64" where
  "DecompressAmount x =
     (if x = 0 then 0
      else let x = x - 1;
               e = unat (x mod 10);
               x = x div 10;
               n = (if e < 9 then (let d = x mod 9 + 1 in x div 9 * 10 + d) else x + 1)
           in times10 e n)"

section \<open>Scripts\<close>

definition IsToKeyID :: "CScript \<Rightarrow> bytes option" where
  "IsToKeyID script =
     (if length script = 25 \<and> script ! 0 = OP_DUP \<and> script ! 1 = OP_HASH160 \<and> script ! 2 = 20
         \<and> script ! 23 = OP_EQUALVERIFY \<and> script ! 24 = OP_CHECKSIG
      then Some (take 20 (drop 3 script)) else None)"

definition IsToScriptID :: "CScript \<Rightarrow> bytes option" where
  "IsToScriptID script =
     (if length script = 23 \<and> script ! 0 = OP_HASH160 \<and> script ! 1 = 20 \<and> script ! 22 = OP_EQUAL
      then Some (take 20 (drop 2 script)) else None)"

definition IsToPubKey :: "pubkey_lib \<Rightarrow> CScript \<Rightarrow> bytes option" where
  "IsToPubKey kl script =
     (if length script = 35 \<and> script ! 0 = 33 \<and> script ! 34 = OP_CHECKSIG
         \<and> (script ! 1 = 0x02 \<or> script ! 1 = 0x03)
      then Some (take 33 (drop 1 script))
      else if length script = 67 \<and> script ! 0 = 65 \<and> script ! 66 = OP_CHECKSIG \<and> script ! 1 = 0x04
      then (let pubkey = take 65 (drop 1 script) in if IsFullyValid kl pubkey then Some pubkey else None)
      else None)"

definition Compress :: "pubkey_lib \<Rightarrow> CScript \<Rightarrow> bytes option" where
  "Compress kl script =
     (case IsToKeyID script of
        Some keyID \<Rightarrow> Some (0x00 # keyID)
      | None \<Rightarrow>
          (case IsToScriptID script of
             Some scriptID \<Rightarrow> Some (0x01 # scriptID)
           | None \<Rightarrow>
               (case IsToPubKey kl script of
                  Some pubkey \<Rightarrow>
                    (let out = take 32 (drop 1 pubkey)
                     in if pubkey ! 0 = 0x02 \<or> pubkey ! 0 = 0x03 then Some (pubkey ! 0 # out)
                        else if pubkey ! 0 = 0x04 then Some ((0x04 OR (pubkey ! 64 AND 0x01)) # out)
                        else None)
                | None \<Rightarrow> None)))"

definition GetSpecialSize :: "nat \<Rightarrow> nat" where
  "GetSpecialSize nSize =
     (if nSize = 0 \<or> nSize = 1 then 20
      else if nSize = 2 \<or> nSize = 3 \<or> nSize = 4 \<or> nSize = 5 then 32 else 0)"

text \<open>The result is the new script, or \<open>None\<close> when the code returns false and leaves it.\<close>

definition Decompress :: "pubkey_lib \<Rightarrow> nat \<Rightarrow> bytes \<Rightarrow> CScript option" where
  "Decompress kl nSize inp =
     (if nSize = 0 then Some ([OP_DUP, OP_HASH160, 20] @ take 20 inp @ [OP_EQUALVERIFY, OP_CHECKSIG])
      else if nSize = 1 then Some ([OP_HASH160, 20] @ take 20 inp @ [OP_EQUAL])
      else if nSize = 2 \<or> nSize = 3 then Some ([33, of_nat nSize] @ take 32 inp @ [OP_CHECKSIG])
      else if nSize = 4 \<or> nSize = 5
      then (case key_Decompress kl (of_nat (nSize - 2) # take 32 inp) of
              None \<Rightarrow> None
            | Some pubkey \<Rightarrow> Some (65 # pubkey @ [OP_CHECKSIG]))
      else None)"

definition nSpecialScripts :: nat where "nSpecialScripts = 6"

definition ser_script_compressor :: "pubkey_lib \<Rightarrow> CScript \<Rightarrow> bytes" where
  "ser_script_compressor kl script =
     (case Compress kl script of
        Some compr \<Rightarrow> compr
      | None \<Rightarrow> WriteVarInt (of_nat (length script + nSpecialScripts)) @ script)"

text \<open>Reading into an empty script. Overly long scripts are replaced by a short invalid one.\<close>

definition des_script_compressor :: "pubkey_lib \<Rightarrow> CScript reader" where
  "des_script_compressor kl s =
     (case ReadVarInt s of
        None \<Rightarrow> None
      | Some (nSize :: u32, s) \<Rightarrow>
          (if unat nSize < nSpecialScripts
           then (let k = GetSpecialSize (unat nSize)
                 in if length s < k then None
                    else Some (case Decompress kl (unat nSize) (take k s) of None \<Rightarrow> [] | Some script \<Rightarrow> script, drop k s))
           else let k = unat nSize - nSpecialScripts
                in if length s < k then None
                   else Some (if k > MAX_SCRIPT_SIZE then [OP_RETURN] else take k s, drop k s)))"

section \<open>Outputs\<close>

text \<open>Neither the image nor the round count of an output is part of this format.\<close>

definition ser_txout_compressor :: "pubkey_lib \<Rightarrow> CTxOut \<Rightarrow> bytes option" where
  "ser_txout_compressor kl o' =
     (case CompressAmount (word_of_int (nValue o')) of
        None \<Rightarrow> None
      | Some nVal \<Rightarrow> Some (WriteVarInt nVal @ ser_script_compressor kl (scriptPubKey o')))"

definition des_txout_compressor :: "pubkey_lib \<Rightarrow> CTxOut reader" where
  "des_txout_compressor kl s =
     (case ReadVarInt s of
        None \<Rightarrow> None
      | Some (nVal, s) \<Rightarrow>
          (case des_script_compressor kl s of
             None \<Rightarrow> None
           | Some (script, s) \<Rightarrow>
               Some (\<lparr>nValue = sint (DecompressAmount nVal), scriptPubKey = script, imgbase64 = [], nRounds = - 10\<rparr>, s)))"

section \<open>Amounts round trip\<close>

lemma unat_mod_div10: "unat ((n :: u64) mod 10) = unat n mod 10" "unat (n div 10) = unat n div 10"
  by (simp_all add: unat_mod unat_div)

lemma compress_loop_spec:
  assumes "compress_loop n e = (m, k)" and "n \<noteq> 0" and "e \<le> 9"
  shows "e \<le> k \<and> k \<le> 9 \<and> unat n = unat m * 10 ^ (k - e) \<and> m \<noteq> 0 \<and> (k < 9 \<longrightarrow> unat m mod 10 \<noteq> 0)"
  using assms
proof (induction n e rule: compress_loop.induct)
  case (1 n e)
  show ?case
  proof (cases "n mod 10 = 0 \<and> e < 9")
    case True
    then have dvd: "unat n = unat (n div 10) * 10" using unat_mod_div10 [of n] by (simp add: unat_eq_0 [symmetric]) presburger
    have nz: "n div 10 \<noteq> 0" using dvd "1.prems"(2) by (metis mult_zero_left unat_eq_0 unat_0)
    have "compress_loop (n div 10) (e + 1) = (m, k)" using True "1.prems"(1) by (simp add: compress_loop.simps [of n e])
    then have IH: "e + 1 \<le> k \<and> k \<le> 9 \<and> unat (n div 10) = unat m * 10 ^ (k - (e + 1)) \<and> m \<noteq> 0 \<and> (k < 9 \<longrightarrow> unat m mod 10 \<noteq> 0)"
      using "1.IH" [OF True] nz True by simp
    have "k - e = Suc (k - (e + 1))" using conjunct1 [OF IH] by simp
    then show ?thesis using IH dvd by simp
  next
    case False
    then have "m = n" "k = e" using "1.prems"(1) by (auto simp: compress_loop.simps [of n e])
    then show ?thesis using False "1.prems" unat_mod_div10(1) [of n] by (auto simp: unat_eq_0 [symmetric])
  qed
qed

lemma CompressAmount_digit_ok: "CompressAmount n \<noteq> None"
proof (cases "n = 0")
  case False
  obtain m k where mk: "compress_loop n 0 = (m, k)" by fastforce
  have "k < 9 \<Longrightarrow> m mod 10 \<ge> 1 \<and> m mod 10 \<le> 9"
    using compress_loop_spec [OF mk False] unat_mod_div10(1) [of m] by (simp add: word_le_nat_alt)
  then show ?thesis using False mk by (auto simp: CompressAmount_def Let_def)
qed (simp add: CompressAmount_def)

lemma times10_power: "times10 e n = n * 10 ^ e"
  by (induction e arbitrary: n) (simp_all add: mult.assoc)

text \<open>The largest amount for which the code cannot overflow.\<close>

definition MAX_COMPRESS :: nat where "MAX_COMPRESS = 2000000000000000000"

lemma word_eq_times10:
  fixes n m :: u64
  assumes "unat n = unat m * 10 ^ k"
  shows "m * 10 ^ k = n"
proof -
  have "of_nat (unat n) = (of_nat (unat m * 10 ^ k) :: u64)" using assms by (rule arg_cong)
  then show ?thesis by simp
qed

lemma word_of_nat_div_mod:
  assumes "x < 18446744073709551616" and "0 < k" "k < 18446744073709551616"
  shows "(of_nat x :: u64) div of_nat k = of_nat (x div k)" "(of_nat x :: u64) mod of_nat k = of_nat (x mod k)"
  using assms by (simp_all add: word_unat_eq_iff unat_div unat_mod unat_of_nat
      less_imp_le_nat order_le_less_trans [OF div_le_dividend] order_le_less_trans [OF mod_less_eq_dividend])

lemma DecompressAmount_value:
  assumes "x < 18446744073709551615"
  shows "DecompressAmount (of_nat (Suc x)) =
    (let n = (if x mod 10 < 9 then x div 10 div 9 * 10 + (x div 10 mod 9 + 1) else x div 10 + 1)
     in of_nat n * 10 ^ (x mod 10))"
proof -
  have "unat (of_nat (Suc x) :: u64) = Suc x" using assms by (simp add: unat_of_nat del: of_nat_Suc)
  then have nz: "(of_nat (Suc x) :: u64) \<noteq> 0" by (metis unat_0 nat.distinct(1))
  have minus: "(of_nat (Suc x) :: u64) - 1 = of_nat x" by simp
  have e: "unat ((of_nat x :: u64) mod 10) = x mod 10" and x': "(of_nat x :: u64) div 10 = of_nat (x div 10)"
    using word_of_nat_div_mod [of x 10] assms by (simp_all add: unat_of_nat)
  have y: "(of_nat (x div 10) :: u64) div 9 = of_nat (x div 10 div 9)" "(of_nat (x div 10) :: u64) mod 9 = of_nat (x div 10 mod 9)"
    using word_of_nat_div_mod [of "x div 10" 9] assms by simp_all
  show ?thesis
    using nz unfolding DecompressAmount_def minus Let_def e x' y times10_power by (simp add: ac_simps)
qed

lemma Decompress_Compress:
  assumes "unat n \<le> MAX_COMPRESS"
  shows "\<exists>x. CompressAmount n = Some x \<and> DecompressAmount x = n"
proof (cases "n = 0")
  case True
  then show ?thesis by (simp add: CompressAmount_def DecompressAmount_def)
next
  case False
  obtain m k where mk: "compress_loop n 0 = (m, k)" by fastforce
  have sp: "k \<le> 9" "unat n = unat m * 10 ^ k" "m \<noteq> 0" "k < 9 \<longrightarrow> unat m mod 10 \<noteq> 0"
    using compress_loop_spec [OF mk False] by simp_all
  define a where "a = unat m"
  have ma: "m = of_nat a" by (simp add: a_def)
  have "a * 1 \<le> a * 10 ^ k" by (rule mult_le_mono2) simp
  also have "\<dots> \<le> MAX_COMPRESS" using sp(2) assms by (simp add: a_def)
  finally have a: "0 < a" "a \<le> MAX_COMPRESS" using sp(3) by (simp_all add: a_def unat_gt_0)
  have alt: "a < 18446744073709551616" using a(2) by (simp add: MAX_COMPRESS_def)
  have n: "of_nat a * 10 ^ k = n" using word_eq_times10 [OF sp(2)] by (simp add: ma)
  show ?thesis
  proof (cases "k < 9")
    case True
    define x where "x = (a div 10 * 9 + a mod 10 - 1) * 10 + k"
    have d: "1 \<le> a mod 10" using True sp(4) by (simp add: a_def)
    have qr: "a = 10 * (a div 10) + a mod 10" "a mod 10 < 10" by simp_all
    then have "(a div 10 * 9 + a mod 10 - 1) * 10 + k \<le> 9 * a + 8" using d True by linarith
    then have xb: "x < 18446744073709551615" using a(2) unfolding x_def MAX_COMPRESS_def by linarith
    have mod: "m mod 10 = of_nat (a mod 10)" "m div 10 = of_nat (a div 10)"
      using word_of_nat_div_mod [of a 10] alt by (simp_all add: ma)
    have "CompressAmount n \<noteq> None" by (rule CompressAmount_digit_ok)
    then have "CompressAmount n = Some (1 + (of_nat (a div 10) * 9 + of_nat (a mod 10) - 1) * 10 + of_nat k)"
      using False mk True by (auto simp: CompressAmount_def Let_def mod split: if_splits)
    also have "\<dots> = Some (of_nat (Suc x))"
      unfolding x_def using d by (simp add: of_nat_diff algebra_simps)
    finally have c: "CompressAmount n = Some (of_nat (Suc x))" .
    obtain r where r: "a mod 10 = Suc r" "r < 9" using d qr(2) by (cases "a mod 10") auto
    have "x = (a div 10 * 9 + r) * 10 + k" using r(1) by (simp add: x_def)
    moreover have "(y * 10 + k) mod 10 = k" "(y * 10 + k) div 10 = y" for y using True by simp_all
    ultimately have "x mod 10 = k" "x div 10 = a div 10 * 9 + r" by metis+
    moreover have "(a div 10 * 9 + r) div 9 = a div 10" "(a div 10 * 9 + r) mod 9 = r" using r(2) by simp_all
    moreover have "a div 10 * 10 + (r + 1) = a" using qr(1) r(1) by linarith
    ultimately have "DecompressAmount (of_nat (Suc x)) = of_nat a * 10 ^ k"
      using True by (simp only: DecompressAmount_value [OF xb] Let_def if_True)
    then show ?thesis using c n by simp
  next
    case F: False
    then have k: "k = 9" using sp(1) by simp
    define x where "x = (a - 1) * 10 + 9"
    have xb: "x < 18446744073709551615"
    proof -
      have "a * 10 ^ 9 \<le> MAX_COMPRESS" using sp(2) assms k by (simp add: a_def)
      then show ?thesis unfolding x_def MAX_COMPRESS_def by simp
    qed
    have c: "CompressAmount n = Some (of_nat (Suc x))"
      using False mk k a(1) by (simp add: CompressAmount_def Let_def x_def ma of_nat_diff algebra_simps)
    have "x mod 10 = 9" "x div 10 = a - 1" by (simp_all add: x_def)
    then have "DecompressAmount (of_nat (Suc x)) = of_nat a * 10 ^ k"
      using k a(1) by (simp add: DecompressAmount_value [OF xb] Let_def of_nat_diff del: of_nat_Suc)
    then show ?thesis using c n by simp
  qed
qed

section \<open>Scripts round trip\<close>

text \<open>
  What the format relies on: the library recovers a valid uncompressed key from its first
  coordinate and the parity of the second.
\<close>

definition pubkey_lib_ok :: "pubkey_lib \<Rightarrow> bool" where
  "pubkey_lib_ok kl \<longleftrightarrow>
     (\<forall>key. length key = 65 \<longrightarrow> key ! 0 = 0x04 \<longrightarrow> IsFullyValid kl key \<longrightarrow>
        key_Decompress kl ((0x02 OR (key ! 64 AND 0x01)) # take 32 (drop 1 key)) = Some key)"

lemma ReadVarInt_small:
  "b \<in> {0, 1, 2, 3, 4, 5} \<Longrightarrow> ReadVarInt (b # s) = Some (ucast b :: u32, s)"
  by (auto simp: ReadVarInt_def Let_def)

lemma list_eq_take_drop:
  assumes "length s = a + n + b"
  shows "s = take a s @ take n (drop a s) @ drop (a + n) s"
  by (metis append_take_drop_id drop_drop add.commute)

lemma take_nths: "k < length s \<Longrightarrow> take (Suc k) s = take k s @ [s ! k]"
  by (rule take_Suc_conv_app_nth)

lemma IsToKeyID_eq: "IsToKeyID s = Some h \<Longrightarrow> length h = 20 \<and> s = [OP_DUP, OP_HASH160, 20] @ h @ [OP_EQUALVERIFY, OP_CHECKSIG]"
proof -
  assume "IsToKeyID s = Some h"
  then have s: "length s = 25" "s ! 0 = OP_DUP" "s ! 1 = OP_HASH160" "s ! 2 = 20" "s ! 23 = OP_EQUALVERIFY" "s ! 24 = OP_CHECKSIG"
    and h: "h = take 20 (drop 3 s)"
    by (auto simp: IsToKeyID_def split: if_splits)
  have "take 3 s = [s ! 0, s ! 1, s ! 2]" using s(1) by (simp add: numeral_3_eq_3 numeral_2_eq_2 take_nths)
  moreover have "drop 23 s = [s ! 23, s ! 24]" using s(1) by (simp add: Cons_nth_drop_Suc [symmetric])
  ultimately show ?thesis using list_eq_take_drop [of s 3 20 2] s h by simp
qed

lemma IsToScriptID_eq: "IsToScriptID s = Some h \<Longrightarrow> length h = 20 \<and> s = [OP_HASH160, 20] @ h @ [OP_EQUAL]"
proof -
  assume "IsToScriptID s = Some h"
  then have s: "length s = 23" "s ! 0 = OP_HASH160" "s ! 1 = 20" "s ! 22 = OP_EQUAL" and h: "h = take 20 (drop 2 s)"
    by (auto simp: IsToScriptID_def split: if_splits)
  have "take 2 s = [s ! 0, s ! 1]" using s(1) by (simp add: numeral_2_eq_2 take_nths)
  moreover have "drop 22 s = [s ! 22]" using s(1) by (simp add: Cons_nth_drop_Suc [symmetric])
  ultimately show ?thesis using list_eq_take_drop [of s 2 20 1] s h by simp
qed

lemma IsToPubKey_eq:
  "IsToPubKey kl s = Some k \<Longrightarrow>
     (length k = 33 \<and> (k ! 0 = 0x02 \<or> k ! 0 = 0x03) \<and> s = 33 # k @ [OP_CHECKSIG])
     \<or> (length k = 65 \<and> k ! 0 = 0x04 \<and> IsFullyValid kl k \<and> s = 65 # k @ [OP_CHECKSIG])"
proof -
  assume k: "IsToPubKey kl s = Some k"
  have frame: "s = s ! 0 # take n (drop 1 s) @ [s ! Suc n]" "take n (drop 1 s) ! 0 = s ! 1" "length (take n (drop 1 s)) = n"
    if "length s = n + 2" "0 < n" for n
  proof -
    have "take 1 s = [s ! 0]" "drop (1 + n) s = [s ! Suc n]"
      using that by (simp_all add: take_nths Cons_nth_drop_Suc [symmetric])
    then show "s = s ! 0 # take n (drop 1 s) @ [s ! Suc n]" using list_eq_take_drop [of s 1 n 1] that by simp
    show "take n (drop 1 s) ! 0 = s ! 1" "length (take n (drop 1 s)) = n" using that by simp_all
  qed
  from k consider
    "length s = 35" "s ! 0 = 33" "s ! 34 = OP_CHECKSIG" "s ! 1 = 0x02 \<or> s ! 1 = 0x03" "k = take 33 (drop 1 s)"
    | "length s = 67" "s ! 0 = 65" "s ! 66 = OP_CHECKSIG" "s ! 1 = 0x04" "k = take 65 (drop 1 s)" "IsFullyValid kl k"
    by (auto simp: IsToPubKey_def Let_def split: if_splits)
  then show ?thesis
  proof cases
    case 1
    then show ?thesis using frame [of 33] by simp
  next
    case 2
    then show ?thesis using frame [of 65] by simp
  qed
qed

lemma parity_cases: "b AND 1 = (0 :: u8) \<or> b AND 1 = 1"
  by (simp add: and_one_eq mod_2_eq_odd)

lemma script_compressor_roundtrip:
  assumes kl: "pubkey_lib_ok kl" and len: "length script \<le> MAX_SCRIPT_SIZE"
  shows "des_script_compressor kl (ser_script_compressor kl script @ rest) = Some (script, rest)"
proof (cases "Compress kl script")
  case None
  have l: "length script + 6 < 2 ^ 32" using len by (simp add: MAX_SCRIPT_SIZE_def)
  have u: "(of_nat (length script + 6) :: u64) = ucast (of_nat (length script + 6) :: u32)"
    "unat (of_nat (length script + 6) :: u32) = length script + 6"
    using l by (simp_all add: word_unat_eq_iff unat_of_nat del: of_nat_add)
  then show ?thesis
    using None len
    by (simp add: ser_script_compressor_def des_script_compressor_def nSpecialScripts_def ReadVarInt_32 del: of_nat_add)
next
  case (Some compr)
  consider (key) h where "IsToKeyID script = Some h" "compr = 0x00 # h"
    | (script) h where "IsToScriptID script = Some h" "compr = 0x01 # h"
    | (pubkey) k where "IsToPubKey kl script = Some k" "k ! 0 = 0x02 \<or> k ! 0 = 0x03" "compr = k ! 0 # take 32 (drop 1 k)"
    | (full) k where "IsToPubKey kl script = Some k" "k ! 0 = 0x04" "compr = (0x04 OR (k ! 64 AND 0x01)) # take 32 (drop 1 k)"
    using Some by (auto simp: Compress_def Let_def split: option.splits if_splits)
  then have "\<exists>b d. compr = b # d \<and> b \<in> {0, 1, 2, 3, 4, 5} \<and> length d = GetSpecialSize (unat b) \<and> Decompress kl (unat b) d = Some script"
  proof cases
    case key
    then show ?thesis using IsToKeyID_eq [of script h] by (simp add: GetSpecialSize_def Decompress_def)
  next
    case script
    then show ?thesis using IsToScriptID_eq [of script h] by (simp add: GetSpecialSize_def Decompress_def)
  next
    case pubkey
    then have k: "length k = 33" "script = 33 # k @ [OP_CHECKSIG]" using IsToPubKey_eq [OF pubkey(1)] by auto
    then obtain a d where "k = a # d" "length d = 32" by (cases k) auto
    then show ?thesis using pubkey k(2) by (auto simp: GetSpecialSize_def Decompress_def)
  next
    case full
    then have k: "length k = 65" "IsFullyValid kl k" "script = 65 # k @ [OP_CHECKSIG]" using IsToPubKey_eq [OF full(1)] by auto
    then have "key_Decompress kl ((0x02 OR (k ! 64 AND 0x01)) # take 32 (drop 1 k)) = Some k"
      using kl full(2) by (simp add: pubkey_lib_ok_def)
    then show ?thesis
      using parity_cases [of "k ! 64"] full(3) k by (auto simp: GetSpecialSize_def Decompress_def)
  qed
  then obtain b d where bd: "compr = b # d" "b \<in> {0, 1, 2, 3, 4, 5}" "length d = GetSpecialSize (unat b)"
    "Decompress kl (unat b) d = Some script" by blast
  then have "unat b < nSpecialScripts" by (auto simp: nSpecialScripts_def)
  then show ?thesis
    using bd Some by (simp add: ser_script_compressor_def des_script_compressor_def ReadVarInt_small Let_def)
qed

text \<open>What a read returns of an output that was written: everything but the image and the round count.\<close>

definition txout_stored :: "CTxOut \<Rightarrow> CTxOut" where
  "txout_stored o' = o'\<lparr>imgbase64 := [], nRounds := - 10\<rparr>"

lemma txout_compressor_roundtrip:
  assumes kl: "pubkey_lib_ok kl" and len: "length (scriptPubKey o') \<le> MAX_SCRIPT_SIZE" and v: "MoneyRange (nValue o')"
  shows "\<exists>b. ser_txout_compressor kl o' = Some b \<and> des_txout_compressor kl (b @ rest) = Some (txout_stored o', rest)"
proof -
  have v: "0 \<le> nValue o'" "nValue o' \<le> 2100000000000000" using v by (simp_all add: MoneyRange_def MAX_MONEY_def COIN_def)
  then have "unat (word_of_int (nValue o') :: u64) = nat (nValue o')" by (simp add: unat_eq_nat_uint uint_word_of_int)
  then have "unat (word_of_int (nValue o') :: u64) \<le> MAX_COMPRESS" using v by (simp add: MAX_COMPRESS_def)
  then obtain x where x: "CompressAmount (word_of_int (nValue o')) = Some x" "DecompressAmount x = word_of_int (nValue o')"
    using Decompress_Compress by blast
  have "sint (word_of_int (nValue o') :: u64) = nValue o'" using v by simp
  then show ?thesis
    using x script_compressor_roundtrip [OF kl len, of rest]
    by (simp add: ser_txout_compressor_def des_txout_compressor_def ReadVarInt_WriteVarInt txout_stored_def)
qed

text \<open>A library that satisfies the law, on keys whose second coordinate is 0 or 1.\<close>

definition toy_lib :: pubkey_lib where
  "toy_lib = \<lparr>IsFullyValid = (\<lambda>k. length k = 65 \<and> drop 33 k = replicate 31 0 @ [k ! 64] \<and> (k ! 64 = 0 \<or> k ! 64 = 1)),
     key_Decompress = (\<lambda>k. Some (0x04 # drop 1 k @ replicate 31 0 @ [hd k AND 1]))\<rparr>"

lemma toy_lib_ok: "pubkey_lib_ok toy_lib"
  unfolding pubkey_lib_ok_def
proof (intro allI impI)
  fix key :: bytes
  assume k: "length key = 65" "key ! 0 = 0x04" "IsFullyValid toy_lib key"
  have "take 1 key = [key ! 0]" using k(1) by (simp add: take_nths)
  then have "key = 0x04 # take 32 (drop 1 key) @ drop 33 key" using list_eq_take_drop [of key 1 32 32] k by simp
  moreover have "(2 OR (key ! 64 AND 1)) AND 1 = key ! 64" using k(3) by (auto simp: toy_lib_def)
  ultimately show "key_Decompress toy_lib ((0x02 OR (key ! 64 AND 0x01)) # take 32 (drop 1 key)) = Some key"
    using k(3) by (simp add: toy_lib_def)
qed

section \<open>Properties\<close>

text \<open>
  The compact form of amounts is faithful: the assertion on the last digit cannot fail, and
  every amount up to 2e18, far above the money supply, is recovered exactly.
\<close>

theorem amount_compression:
  "CompressAmount m \<noteq> None
   \<and> (unat n \<le> MAX_COMPRESS \<longrightarrow> (\<exists>x. CompressAmount n = Some x \<and> DecompressAmount x = n))"
  using CompressAmount_digit_ok Decompress_Compress by blast

theorem amount_compression_witness: "\<exists>x. CompressAmount 5000000000 = Some x \<and> DecompressAmount x = 5000000000"
  using amount_compression [of 0 5000000000] by (simp add: MAX_COMPRESS_def)

end
