(* ===== verification/Coins.thy ===== *)
theory Coins
  imports Compressor "HOL-Library.AList"
begin

text \<open>
  \<^verbatim>\<open>coins.h\<close>, \<^verbatim>\<open>coins.cpp\<close>, the coin database of \<^verbatim>\<open>txdb.cpp\<close> and \<^verbatim>\<open>undo.h\<close>: the set of unspent
  outputs, kept as a stack of caches over a database. A view is the database or a cache over
  another view; \<^verbatim>\<open>CCoinsMap\<close> is an association list, its order that of the iteration. Methods
  that are \<^verbatim>\<open>const\<close> in C++ fill mutable caches, so they return the view too. The accounting of
  memory use is left out.
\<close>

section \<open>Coins\<close>

record Coin =
  coinOut :: CTxOut
  fCoinBase :: bool
  coinHeight :: int

definition mk_Coin :: "CTxOut \<Rightarrow> int \<Rightarrow> bool \<Rightarrow> Coin" where
  "mk_Coin outIn nHeightIn fCoinBaseIn = \<lparr>coinOut = outIn, fCoinBase = fCoinBaseIn, coinHeight = nHeightIn mod 2 ^ 31\<rparr>"

definition coinEmpty :: Coin where
  "coinEmpty = \<lparr>coinOut = txout_null, fCoinBase = False, coinHeight = 0\<rparr>"

definition coin_Clear :: "Coin \<Rightarrow> Coin" where
  "coin_Clear c = c\<lparr>coinOut := txout_null, fCoinBase := False, coinHeight := 0\<rparr>"

definition coin_IsSpent :: "Coin \<Rightarrow> bool" where
  "coin_IsSpent c \<longleftrightarrow> txout_IsNull (coinOut c)"

text \<open>\<open>None\<close> is a failed assertion.\<close>

definition ser_coin :: "pubkey_lib \<Rightarrow> Coin \<Rightarrow> bytes option" where
  "ser_coin kl c =
     (if coin_IsSpent c then None
      else let code = word_of_int (coinHeight c * 2 + (if fCoinBase c then 1 else 0)) :: u32
           in map_option (\<lambda>b. WriteVarInt (ucast code) @ b) (ser_txout_compressor kl (coinOut c)))"

definition des_coin :: "pubkey_lib \<Rightarrow> Coin reader" where
  "des_coin kl s =
     (case ReadVarInt s of
        None \<Rightarrow> None
      | Some (code :: u32, s) \<Rightarrow>
          (case des_txout_compressor kl s of
             None \<Rightarrow> None
           | Some (o', s) \<Rightarrow> Some (\<lparr>coinOut = o', fCoinBase = (code AND 1 \<noteq> 0), coinHeight = uint (drop_bit 1 code)\<rparr>, s)))"

section \<open>Undo records\<close>

definition ser_txin_undo :: "pubkey_lib \<Rightarrow> Coin \<Rightarrow> bytes option" where
  "ser_txin_undo kl c =
     map_option
       (\<lambda>b. WriteVarInt (word_of_int (coinHeight c * 2 + (if fCoinBase c then 1 else 0)))
            @ (if coinHeight c > 0 then [0] else []) @ b)
       (ser_txout_compressor kl (coinOut c))"

definition des_txin_undo :: "pubkey_lib \<Rightarrow> Coin reader" where
  "des_txin_undo kl s =
     (case ReadVarInt s of
        None \<Rightarrow> None
      | Some (nCode :: u32, s) \<Rightarrow>
          (case (if uint (nCode div 2) > 0
                 then map_option (snd :: u32 \<times> bytes \<Rightarrow> bytes) (ReadVarInt s) else Some s) of
             None \<Rightarrow> None
           | Some s \<Rightarrow>
               (case des_txout_compressor kl s of
                  None \<Rightarrow> None
                | Some (o', s) \<Rightarrow>
                    Some (\<lparr>coinOut = o', fCoinBase = (nCode AND 1 \<noteq> 0), coinHeight = uint (nCode div 2)\<rparr>, s))))"

section \<open>Views\<close>

record CCoinsCacheEntry =
  coin :: Coin
  DIRTY :: bool
  FRESH :: bool

type_synonym CCoinsMap = "(COutPoint \<times> CCoinsCacheEntry) list"

datatype CCoinsView = ViewDB "COutPoint \<Rightarrow> Coin option" bytes | ViewCache CCoinsViewCache
and CCoinsViewCache = Cache (base: CCoinsView) (cacheCoins: CCoinsMap) (hashBlock: bytes)

datatype coins_error = AssertFailed | NonPrunedEntry | FreshMisapplied

definition uint256_IsNull :: "bytes \<Rightarrow> bool" where
  "uint256_IsNull h \<longleftrightarrow> list_all (\<lambda>b. b = 0) h"

text \<open>
  The database holds serialized coins, so a read returns what the compact format keeps:
  \<open>coin_stored\<close>, see \<open>coin_roundtrip\<close> below.
\<close>

definition coin_stored :: "Coin \<Rightarrow> Coin" where
  "coin_stored c = c\<lparr>coinOut := txout_stored (coinOut c)\<rparr>"

fun GetCoin :: "CCoinsView \<Rightarrow> COutPoint \<Rightarrow> Coin option \<times> CCoinsView"
and FetchCoin :: "CCoinsViewCache \<Rightarrow> COutPoint \<Rightarrow> CCoinsCacheEntry option \<times> CCoinsViewCache" where
  "GetCoin (ViewDB db h) p = (db p, ViewDB db h)"
| "GetCoin (ViewCache c) p =
     (case FetchCoin c p of
        (None, c) \<Rightarrow> (None, ViewCache c)
      | (Some it, c) \<Rightarrow> (if coin_IsSpent (coin it) then None else Some (coin it), ViewCache c))"
| "FetchCoin (Cache b m h) p =
     (case map_of m p of
        Some it \<Rightarrow> (Some it, Cache b m h)
      | None \<Rightarrow>
          (case GetCoin b p of
             (None, b) \<Rightarrow> (None, Cache b m h)
           | (Some tmp, b) \<Rightarrow>
               (let ret = \<lparr>coin = tmp, DIRTY = False, FRESH = coin_IsSpent tmp\<rparr>
                in (Some ret, Cache b (AList.update p ret m) h))))"

fun GetBestBlock :: "CCoinsView \<Rightarrow> bytes \<times> CCoinsView"
and cache_GetBestBlock :: "CCoinsViewCache \<Rightarrow> bytes \<times> CCoinsViewCache" where
  "GetBestBlock (ViewDB db h) = (h, ViewDB db h)"
| "GetBestBlock (ViewCache c) = map_prod id ViewCache (cache_GetBestBlock c)"
| "cache_GetBestBlock (Cache b m h) =
     (if uint256_IsNull h
      then (case GetBestBlock b of (h, b) \<Rightarrow> (h, Cache b m h))
      else (h, Cache b m h))"

definition SetBestBlock :: "CCoinsViewCache \<Rightarrow> bytes \<Rightarrow> CCoinsViewCache" where
  "SetBestBlock c hashBlockIn = Cache (base c) (cacheCoins c) hashBlockIn"

definition AddCoin :: "CCoinsViewCache \<Rightarrow> COutPoint \<Rightarrow> Coin \<Rightarrow> bool \<Rightarrow> coins_error + CCoinsViewCache" where
  "AddCoin c p cn possible_overwrite =
     (if coin_IsSpent cn then Inl AssertFailed
      else if IsUnspendable (scriptPubKey (coinOut cn)) then Inr c
      else let it = (case map_of (cacheCoins c) p of
                       Some it \<Rightarrow> it
                     | None \<Rightarrow> \<lparr>coin = coinEmpty, DIRTY = False, FRESH = False\<rparr>)
           in if \<not> possible_overwrite \<and> \<not> coin_IsSpent (coin it) then Inl NonPrunedEntry
              else let fresh = (\<not> possible_overwrite \<and> \<not> DIRTY it);
                       it = \<lparr>coin = cn, DIRTY = True, FRESH = FRESH it \<or> fresh\<rparr>
                   in Inr (Cache (base c) (AList.update p it (cacheCoins c)) (hashBlock c)))"

fun add_outputs :: "('v \<Rightarrow> COutPoint \<Rightarrow> Coin \<Rightarrow> bool \<Rightarrow> coins_error + 'v) \<Rightarrow> bytes \<Rightarrow> int \<Rightarrow> bool
    \<Rightarrow> nat \<Rightarrow> CTxOut list \<Rightarrow> 'v \<Rightarrow> coins_error + 'v" where
  "add_outputs add txid h cb i [] v = Inr v"
| "add_outputs add txid h cb i (o' # os) v =
     (case add v \<lparr>outHash = txid, outN = of_nat i\<rparr> (mk_Coin o' h cb) cb of
        Inl e \<Rightarrow> Inl e
      | Inr v \<Rightarrow> add_outputs add txid h cb (Suc i) os v)"

definition AddCoins :: "crypto \<Rightarrow> CCoinsViewCache \<Rightarrow> CTransaction \<Rightarrow> int \<Rightarrow> coins_error + CCoinsViewCache" where
  "AddCoins cr c tx h = add_outputs AddCoin (tx_GetHash cr tx) h (IsCoinBase tx) 0 (vout tx) c"

text \<open>The first component is what \<^verbatim>\<open>moveout\<close> receives, \<open>None\<close> when the function returns false.\<close>

definition SpendCoin :: "CCoinsViewCache \<Rightarrow> COutPoint \<Rightarrow> Coin option \<times> CCoinsViewCache" where
  "SpendCoin c p =
     (case FetchCoin c p of
        (None, c) \<Rightarrow> (None, c)
      | (Some it, c) \<Rightarrow>
          (let m = (if FRESH it then AList.delete p (cacheCoins c)
                    else AList.update p (it\<lparr>DIRTY := True, coin := coin_Clear (coin it)\<rparr>) (cacheCoins c))
           in (Some (coin it), Cache (base c) m (hashBlock c))))"

definition AccessCoin :: "CCoinsViewCache \<Rightarrow> COutPoint \<Rightarrow> Coin \<times> CCoinsViewCache" where
  "AccessCoin c p =
     (case FetchCoin c p of (None, c) \<Rightarrow> (coinEmpty, c) | (Some it, c) \<Rightarrow> (coin it, c))"

definition HaveCoin :: "CCoinsViewCache \<Rightarrow> COutPoint \<Rightarrow> bool \<times> CCoinsViewCache" where
  "HaveCoin c p =
     (case FetchCoin c p of (None, c) \<Rightarrow> (False, c) | (Some it, c) \<Rightarrow> (\<not> coin_IsSpent (coin it), c))"

definition HaveCoinInCache :: "CCoinsViewCache \<Rightarrow> COutPoint \<Rightarrow> bool" where
  "HaveCoinInCache c p =
     (case map_of (cacheCoins c) p of None \<Rightarrow> False | Some it \<Rightarrow> \<not> coin_IsSpent (coin it))"

text \<open>
  The database holds coins instead of their serialized bytes: a write stores what reading the bytes back gives, which is
  the lemma \<open>coin_roundtrip\<close> below.
\<close>

fun db_write :: "CCoinsMap \<Rightarrow> (COutPoint \<Rightarrow> Coin option) \<Rightarrow> (COutPoint \<Rightarrow> Coin option)" where
  "db_write [] db = db"
| "db_write ((p, it) # mapCoins) db =
     db_write mapCoins
       (if DIRTY it
        then (if coin_IsSpent (coin it) then db(p := None) else db(p := Some (coin_stored (coin it))))
        else db)"

fun batch_loop :: "CCoinsMap \<Rightarrow> CCoinsMap \<Rightarrow> coins_error + CCoinsMap" where
  "batch_loop [] us = Inr us"
| "batch_loop ((p, it) # mapCoins) us =
     (if \<not> DIRTY it then batch_loop mapCoins us
      else case map_of us p of
        None \<Rightarrow>
          (if FRESH it \<and> coin_IsSpent (coin it) then batch_loop mapCoins us
           else batch_loop mapCoins (AList.update p \<lparr>coin = coin it, DIRTY = True, FRESH = FRESH it\<rparr> us))
      | Some itUs \<Rightarrow>
          (if FRESH it \<and> \<not> coin_IsSpent (coin itUs) then Inl FreshMisapplied
           else if FRESH itUs \<and> coin_IsSpent (coin it) then batch_loop mapCoins (AList.delete p us)
           else batch_loop mapCoins (AList.update p (itUs\<lparr>coin := coin it, DIRTY := True\<rparr>) us)))"

fun BatchWrite :: "CCoinsView \<Rightarrow> CCoinsMap \<Rightarrow> bytes \<Rightarrow> coins_error + CCoinsView" where
  "BatchWrite (ViewDB db h) mapCoins hashBlockIn =
     Inr (ViewDB (db_write mapCoins db) (if uint256_IsNull hashBlockIn then h else hashBlockIn))"
| "BatchWrite (ViewCache (Cache b m h)) mapCoins hashBlockIn =
     (case batch_loop mapCoins m of
        Inl e \<Rightarrow> Inl e
      | Inr m \<Rightarrow> Inr (ViewCache (Cache b m hashBlockIn)))"

definition Flush :: "CCoinsViewCache \<Rightarrow> coins_error + CCoinsViewCache" where
  "Flush c =
     (case BatchWrite (base c) (cacheCoins c) (hashBlock c) of
        Inl e \<Rightarrow> Inl e
      | Inr b \<Rightarrow> Inr (Cache b [] (hashBlock c)))"

definition Uncache :: "CCoinsViewCache \<Rightarrow> COutPoint \<Rightarrow> CCoinsViewCache" where
  "Uncache c p =
     (case map_of (cacheCoins c) p of
        Some it \<Rightarrow> (if \<not> DIRTY it \<and> \<not> FRESH it then Cache (base c) (AList.delete p (cacheCoins c)) (hashBlock c) else c)
      | None \<Rightarrow> c)"

definition GetCacheSize :: "CCoinsViewCache \<Rightarrow> nat" where
  "GetCacheSize c = length (cacheCoins c)"

fun value_in_loop :: "CTxIn list \<Rightarrow> CAmount \<Rightarrow> CCoinsViewCache \<Rightarrow> CAmount \<times> CCoinsViewCache" where
  "value_in_loop [] nResult c = (nResult, c)"
| "value_in_loop (i # is) nResult c =
     (case AccessCoin c (prevout i) of (cn, c) \<Rightarrow> value_in_loop is (nResult + nValue (coinOut cn)) c)"

definition GetValueIn :: "CCoinsViewCache \<Rightarrow> CTransaction \<Rightarrow> CAmount \<times> CCoinsViewCache" where
  "GetValueIn c tx = (if IsCoinBase tx then (0, c) else value_in_loop (vin tx) 0 c)"

fun have_loop :: "CTxIn list \<Rightarrow> CCoinsViewCache \<Rightarrow> bool \<times> CCoinsViewCache" where
  "have_loop [] c = (True, c)"
| "have_loop (i # is) c =
     (case HaveCoin c (prevout i) of (ok, c) \<Rightarrow> if \<not> ok then (False, c) else have_loop is c)"

definition HaveInputs :: "CCoinsViewCache \<Rightarrow> CTransaction \<Rightarrow> bool \<times> CCoinsViewCache" where
  "HaveInputs c tx = (if \<not> IsCoinBase tx then have_loop (vin tx) c else (True, c))"

definition MAX_OUTPUTS_PER_BLOCK :: nat where
  "MAX_OUTPUTS_PER_BLOCK = 55000000 div length (ser_txout txout_null)"

function txid_loop :: "bytes \<Rightarrow> nat \<Rightarrow> CCoinsViewCache \<Rightarrow> Coin \<times> CCoinsViewCache" where
  "txid_loop txid n c =
     (if n < MAX_OUTPUTS_PER_BLOCK
      then case AccessCoin c \<lparr>outHash = txid, outN = of_nat n\<rparr> of
             (alternate, c) \<Rightarrow> if \<not> coin_IsSpent alternate then (alternate, c) else txid_loop txid (n + 1) c
      else (coinEmpty, c))"
  by pat_completeness auto
termination
  by (relation "measure (\<lambda>(txid, n, c). MAX_OUTPUTS_PER_BLOCK - n)") auto

declare txid_loop.simps [simp del]

definition AccessByTxid :: "CCoinsViewCache \<Rightarrow> bytes \<Rightarrow> Coin \<times> CCoinsViewCache" where
  "AccessByTxid c txid = txid_loop txid 0 c"

section \<open>The set of unspent outputs\<close>

text \<open>
  The abstract value of a view: a map from outpoints to unspent coins, as the database would
  store them. A cache entry marked \<^verbatim>\<open>FRESH\<close> promises that the parent has no unspent coin there, one
  that is not \<^verbatim>\<open>DIRTY\<close> that it agrees with the parent.
\<close>

definition unspent :: "Coin \<Rightarrow> Coin option" where
  "unspent c = (if coin_IsSpent c then None else Some (coin_stored c))"

fun coins_of :: "CCoinsView \<Rightarrow> COutPoint \<Rightarrow> Coin option"
and cache_coins :: "CCoinsViewCache \<Rightarrow> COutPoint \<Rightarrow> Coin option" where
  "coins_of (ViewDB db h) p = db p"
| "coins_of (ViewCache c) p = cache_coins c p"
| "cache_coins (Cache b m h) p = (case map_of m p of Some it \<Rightarrow> unspent (coin it) | None \<Rightarrow> coins_of b p)"

definition entry_ok :: "Coin option \<Rightarrow> CCoinsCacheEntry \<Rightarrow> bool" where
  "entry_ok parent it \<longleftrightarrow> (FRESH it \<longrightarrow> parent = None) \<and> (\<not> DIRTY it \<longrightarrow> unspent (coin it) = parent)"

fun wf_view :: "CCoinsView \<Rightarrow> bool" and wf_cache :: "CCoinsViewCache \<Rightarrow> bool" where
  "wf_view (ViewDB db h) \<longleftrightarrow> (\<forall>p c. db p = Some c \<longrightarrow> \<not> coin_IsSpent c \<and> coin_stored c = c)"
| "wf_view (ViewCache c) \<longleftrightarrow> wf_cache c"
| "wf_cache (Cache b m h) \<longleftrightarrow>
     wf_view b \<and> distinct (map fst m) \<and> (\<forall>p it. map_of m p = Some it \<longrightarrow> entry_ok (coins_of b p) it)"

lemma coin_stored_simps [simp]:
  "coin_IsSpent (coin_stored c) = coin_IsSpent c" "coin_stored (coin_stored c) = coin_stored c"
  "coin_IsSpent coinEmpty" "coin_IsSpent (coin_Clear c)"
  by (simp_all add: coin_stored_def coin_IsSpent_def txout_stored_def txout_IsNull_def coinEmpty_def coin_Clear_def txout_null_def)

lemma unspent_simps [simp]: "coin_IsSpent c \<Longrightarrow> unspent c = None" "\<not> coin_IsSpent c \<Longrightarrow> unspent c = Some (coin_stored c)"
  by (simp_all add: unspent_def)

lemma unspent_None [simp]: "unspent c = None \<longleftrightarrow> coin_IsSpent c"
  by (simp add: unspent_def)

lemma coins_of_stored: 
  "wf_view v \<Longrightarrow> coins_of v p = Some c \<Longrightarrow> \<not> coin_IsSpent c \<and> coin_stored c = c"
  "wf_cache k \<Longrightarrow> cache_coins k p = Some c \<Longrightarrow> \<not> coin_IsSpent c \<and> coin_stored c = c"
  by (induction v p and k p rule: coins_of_cache_coins.induct)
     (auto simp: unspent_def split: option.splits if_splits)

lemma wf_cache_update [wf_intros]:
  "wf_cache (Cache b m h) \<Longrightarrow> entry_ok (coins_of b p) it \<Longrightarrow> wf_cache (Cache b (AList.update p it m) h')"
  by (auto simp: AList.update_conv' AList.distinct_update split: if_splits)

lemma wf_cache_delete [wf_intros]: "wf_cache (Cache b m h) \<Longrightarrow> wf_cache (Cache b (AList.delete p m) h')"
  by (auto simp: AList.delete_conv' AList.distinct_delete split: if_splits)

lemma cache_coins_update [val_simps]:
  "cache_coins (Cache b (AList.update p it m) h) = (cache_coins (Cache b m h))(p := unspent (coin it))"
  by (auto simp: fun_eq_iff AList.update_conv')

lemma cache_coins_delete [val_simps]:
  "cache_coins (Cache b (AList.delete p m) h) = (cache_coins (Cache b m h))(p := coins_of b p)"
  by (auto simp: fun_eq_iff AList.delete_conv')

lemma fetch_spec:
  "wf_view v \<Longrightarrow> (case GetCoin v p of (r, v') \<Rightarrow> wf_view v' \<and> coins_of v' = coins_of v
     \<and> map_option coin_stored r = coins_of v p \<and> (\<forall>c. r = Some c \<longrightarrow> \<not> coin_IsSpent c))"
  "wf_cache k \<Longrightarrow> (case FetchCoin k p of (r, k') \<Rightarrow> wf_cache k' \<and> cache_coins k' = cache_coins k
     \<and> hashBlock k' = hashBlock k \<and> map_of (cacheCoins k') p = r \<and> coins_of (base k') = coins_of (base k)
     \<and> cache_coins k p = Option.bind r (\<lambda>it. unspent (coin it)))"
proof (induction v p and k p rule: GetCoin_FetchCoin.induct)
  case (1 db h p)
  then show ?case by (cases "db p") auto
next
  case (2 c p)
  then show ?case by (auto simp: unspent_def split: prod.splits option.splits)
next
  case (3 b m h p)
  show ?case
  proof (cases "map_of m p")
    case None
    obtain r b' where g: "GetCoin b p = (r, b')" by fastforce
    have IH: "wf_view b'" "coins_of b' = coins_of b" "map_option coin_stored r = coins_of b p" "\<forall>c. r = Some c \<longrightarrow> \<not> coin_IsSpent c"
      using "3.IH" [OF None] "3.prems" g by auto
    have wf: "wf_cache (Cache b' m h)" using "3.prems" IH by simp
    have cc: "cache_coins (Cache b' m h) = cache_coins (Cache b m h)" by (rule ext) (simp add: IH(2) split: option.split)
    show ?thesis
    proof (cases r)
      case None': None
      have "cache_coins (Cache b m h) p = coins_of b p" using None by simp
      then show ?thesis using g None None' wf cc IH by (simp del: wf_cache.simps cache_coins.simps)
    next
      case (Some t)
      have ok: "entry_ok (coins_of b' p) \<lparr>coin = t, DIRTY = False, FRESH = coin_IsSpent t\<rparr>"
        using Some IH by (simp add: entry_ok_def)
      have "cache_coins (Cache b m h) p = unspent t" using Some IH None by simp
      then show ?thesis
        using g None Some IH wf_cache_update [OF wf ok]
        by (auto simp: Let_def cache_coins_update cc AList.update_conv' simp del: wf_cache.simps cache_coins.simps)
    qed
  next
    case (Some it)
    then have "cache_coins (Cache b m h) p = unspent (coin it)" by simp
    then show ?thesis using Some "3.prems" by (simp del: wf_cache.simps cache_coins.simps)
  qed
qed

lemma FetchCoin_spec:
  assumes "wf_cache k" and "FetchCoin k p = (r, k')"
  shows "wf_cache k'" "cache_coins k' = cache_coins k" "hashBlock k' = hashBlock k"
    "map_of (cacheCoins k') p = r" "cache_coins k p = Option.bind r (\<lambda>it. unspent (coin it))"
  using fetch_spec(2) [OF assms(1), of p] assms(2) by auto

text \<open>The readers, each against the abstract map.\<close>

lemma AccessCoin_spec:
  assumes "wf_cache k" and "AccessCoin k p = (c, k')"
  shows "wf_cache k' \<and> cache_coins k' = cache_coins k \<and> unspent c = cache_coins k p"
proof -
  obtain r k2 where f: "FetchCoin k p = (r, k2)" by fastforce
  show ?thesis using FetchCoin_spec [OF assms(1) f] assms(2) f by (cases r) (auto simp: AccessCoin_def)
qed

lemma HaveCoin_spec:
  assumes "wf_cache k" and "HaveCoin k p = (r, k')"
  shows "wf_cache k' \<and> cache_coins k' = cache_coins k \<and> (r \<longleftrightarrow> cache_coins k p \<noteq> None)"
proof -
  obtain r' k2 where f: "FetchCoin k p = (r', k2)" by fastforce
  show ?thesis using FetchCoin_spec [OF assms(1) f] assms(2) f by (cases r') (auto simp: HaveCoin_def)
qed

text \<open>The writers.\<close>

lemma SpendCoin_spec:
  assumes "wf_cache k" and "SpendCoin k p = (r, k')"
  shows "wf_cache k' \<and> cache_coins k' = (cache_coins k)(p := None)
    \<and> cache_coins k p = Option.bind r unspent \<and> hashBlock k' = hashBlock k"
proof -
  obtain it k2 where f: "FetchCoin k p = (it, k2)" by fastforce
  note sp = FetchCoin_spec [OF assms(1) f]
  obtain b m h where k2: "k2 = Cache b m h" by (cases k2)
  show ?thesis
  proof (cases it)
    case None
    then show ?thesis using assms(2) f sp by (auto simp: SpendCoin_def fun_upd_idem_iff)
  next
    case (Some e)
    have e: "entry_ok (coins_of b p) e" using sp(1,4) k2 Some by auto
    show ?thesis
    proof (cases "FRESH e")
      case True
      then have "r = Some (coin e)" "k' = Cache b (AList.delete p m) h" using assms(2) f Some k2 by (auto simp: SpendCoin_def)
      moreover have "coins_of b p = None" using True e by (simp add: entry_ok_def)
      ultimately show ?thesis
        using sp Some k2 wf_cache_delete [of b m h p h] by (simp add: cache_coins_delete del: wf_cache.simps cache_coins.simps)
    next
      case False
      then have "r = Some (coin e)" "k' = Cache b (AList.update p (e\<lparr>DIRTY := True, coin := coin_Clear (coin e)\<rparr>) m) h"
        using assms(2) f Some k2 by (auto simp: SpendCoin_def)
      moreover have "entry_ok (coins_of b p) (e\<lparr>DIRTY := True, coin := coin_Clear (coin e)\<rparr>)"
        using False by (simp add: entry_ok_def)
      ultimately show ?thesis
        using sp Some k2 wf_cache_update [of b m h p _ h]
        by (simp add: cache_coins_update del: wf_cache.simps cache_coins.simps)
    qed
  qed
qed

lemma AddCoin_spec:
  assumes "wf_cache k" and "\<not> coin_IsSpent cn" and "\<not> ow \<longrightarrow> cache_coins k p = None"
  shows "\<exists>k'. AddCoin k p cn ow = Inr k' \<and> wf_cache k' \<and> hashBlock k' = hashBlock k
    \<and> cache_coins k' = (if IsUnspendable (scriptPubKey (coinOut cn)) then cache_coins k
                          else (cache_coins k)(p \<mapsto> coin_stored cn))"
proof (cases "IsUnspendable (scriptPubKey (coinOut cn))")
  case True
  then show ?thesis using assms by (simp add: AddCoin_def)
next
  case False
  obtain b m h where k: "k = Cache b m h" by (cases k)
  define it where "it = (case map_of m p of Some it \<Rightarrow> it | None \<Rightarrow> \<lparr>coin = coinEmpty, DIRTY = False, FRESH = False\<rparr>)"
  have spent: "coin_IsSpent (coin it)" if "\<not> ow"
    using assms(3) that k by (cases "map_of m p") (auto simp: it_def)
  have fresh: "coins_of b p = None" if "\<not> ow" "\<not> DIRTY it"
  proof (cases "map_of m p")
    case (Some a)
    then have "entry_ok (coins_of b p) a" using assms(1) k by simp
    then show ?thesis using Some that spent by (auto simp: it_def entry_ok_def)
  qed (use assms(3) that k in simp)
  have "FRESH it \<Longrightarrow> coins_of b p = None"
    using assms(1) k by (cases "map_of m p") (auto simp: it_def entry_ok_def)
  then have "entry_ok (coins_of b p) \<lparr>coin = cn, DIRTY = True, FRESH = FRESH it \<or> \<not> ow \<and> \<not> DIRTY it\<rparr>"
    using fresh by (auto simp: entry_ok_def)
  moreover have "AddCoin k p cn ow = Inr (Cache b (AList.update p \<lparr>coin = cn, DIRTY = True, FRESH = FRESH it \<or> \<not> ow \<and> \<not> DIRTY it\<rparr> m) h)"
    using False assms(2) spent by (auto simp: AddCoin_def k it_def [symmetric] Let_def)
  ultimately show ?thesis
    using False assms(1,2) k wf_cache_update [of b m h p _ h]
    by (simp add: cache_coins_update del: wf_cache.simps cache_coins.simps)
qed

lemma Uncache_spec: "wf_cache k \<Longrightarrow> wf_cache (Uncache k p) \<and> cache_coins (Uncache k p) = cache_coins k"
proof (cases k)
  case (Cache b m h)
  assume wf: "wf_cache k"
  show ?thesis
  proof (cases "\<exists>it. map_of m p = Some it \<and> \<not> DIRTY it \<and> \<not> FRESH it")
    case True
    then obtain it where it: "map_of m p = Some it" "\<not> DIRTY it" "\<not> FRESH it" by blast
    then have "cache_coins k p = coins_of b p" using wf Cache by (auto simp: entry_ok_def)
    moreover have "Uncache k p = Cache b (AList.delete p m) h" using it Cache by (simp add: Uncache_def)
    ultimately show ?thesis
      using wf wf_cache_delete [of b m h p h] Cache
      by (simp add: cache_coins_delete fun_upd_idem del: wf_cache.simps cache_coins.simps)
  next
    case False
    then show ?thesis using wf Cache by (auto simp: Uncache_def split: option.splits)
  qed
qed

text \<open>Writing a child's entries into its parent.\<close>

definition overlay :: "CCoinsMap \<Rightarrow> (COutPoint \<Rightarrow> Coin option) \<Rightarrow> COutPoint \<Rightarrow> Coin option" where
  "overlay m f p = (case map_of m p of Some it \<Rightarrow> unspent (coin it) | None \<Rightarrow> f p)"

lemma overlay_Cons: "overlay ((p, it) # m) f = (overlay m f)(p := unspent (coin it))"
  by (simp add: overlay_def fun_eq_iff)

lemma overlay_upd: "map_of m p = None \<Longrightarrow> overlay m (f(p := x)) = (overlay m f)(p := x)"
  by (auto simp: overlay_def fun_eq_iff split: option.split)

lemma batch_loop_spec:
  assumes "wf_cache (Cache b us h)" and "distinct (map fst m)"
    and "\<forall>(p, it) \<in> set m. entry_ok (cache_coins (Cache b us h) p) it"
  shows "\<exists>us'. batch_loop m us = Inr us' \<and> wf_cache (Cache b us' h) \<and> cache_coins (Cache b us' h) = overlay m (cache_coins (Cache b us h))"
  using assms
proof (induction m us rule: batch_loop.induct)
  case (1 us)
  then show ?case by (simp add: overlay_def fun_eq_iff)
next
  case (2 p it m us)
  let ?f = "cache_coins (Cache b us h)"
  have p: "map_of m p = None" and ok: "entry_ok (?f p) it" using "2.prems"(2,3) by (auto simp: map_of_eq_None_iff)
  have dm: "distinct (map fst m)" using "2.prems" by simp
  have step: "\<exists>us'. batch_loop m us2 = Inr us' \<and> wf_cache (Cache b us' h) \<and> cache_coins (Cache b us' h) = overlay ((p, it) # m) ?f"
    if w: "wf_cache (Cache b us2 h)" and c: "cache_coins (Cache b us2 h) = ?f(p := unspent (coin it))"
      and IH: "wf_cache (Cache b us2 h) \<Longrightarrow> distinct (map fst m) \<Longrightarrow> \<forall>(p, it) \<in> set m. entry_ok (cache_coins (Cache b us2 h) p) it \<Longrightarrow>
        \<exists>us'. batch_loop m us2 = Inr us' \<and> wf_cache (Cache b us' h) \<and> cache_coins (Cache b us' h) = overlay m (cache_coins (Cache b us2 h))"
    for us2
  proof -
    have "\<forall>(q, e) \<in> set m. entry_ok (cache_coins (Cache b us2 h) q) e"
    proof (clarify)
      fix q e
      assume qe: "(q, e) \<in> set m"
      then have "q \<noteq> p" using p by (force simp: map_of_eq_None_iff)
      then show "entry_ok (cache_coins (Cache b us2 h) q) e" using "2.prems"(3) qe unfolding c by auto
    qed
    then show ?thesis using IH [OF w dm] by (simp add: c overlay_Cons overlay_upd [OF p] del: wf_cache.simps cache_coins.simps)
  qed
  show ?case
  proof (cases "DIRTY it")
    case False
    then have "?f = ?f(p := unspent (coin it))" using ok by (simp add: entry_ok_def fun_upd_idem del: cache_coins.simps)
    from step [OF "2.prems"(1) this "2.IH"(1) [OF False]] False show ?thesis by (simp only: batch_loop.simps if_True not_False_eq_True)
  next
    case d: True
    then have nd: "\<not> \<not> DIRTY it" by simp
    show ?thesis
    proof (cases "map_of us p")
      case None
      then have f: "?f p = coins_of b p" by simp
      show ?thesis
      proof (cases "FRESH it \<and> coin_IsSpent (coin it)")
        case True
        then have "?f = ?f(p := unspent (coin it))" using ok by (simp add: entry_ok_def fun_upd_idem del: cache_coins.simps)
        moreover have "batch_loop ((p, it) # m) us = batch_loop m us" using d None True by simp
        ultimately show ?thesis using step [OF "2.prems"(1) _ "2.IH"(2) [OF nd None True]] by metis
      next
        case False
        have e: "entry_ok (coins_of b p) \<lparr>coin = coin it, DIRTY = True, FRESH = FRESH it\<rparr>" using ok f by (simp add: entry_ok_def)
        have "batch_loop ((p, it) # m) us = batch_loop m (AList.update p \<lparr>coin = coin it, DIRTY = True, FRESH = FRESH it\<rparr> us)"
          using d None False by auto
        note eq = this
        show ?thesis unfolding eq
          by (rule step [OF wf_cache_update [OF "2.prems"(1) e] _ "2.IH"(3) [OF nd None False]])
             (simp add: cache_coins_update del: cache_coins.simps)
      qed
    next
      case (Some u)
      then have u: "entry_ok (coins_of b p) u" and f: "?f p = unspent (coin u)" using "2.prems"(1) by simp_all
      have nf: "\<not> (FRESH it \<and> \<not> coin_IsSpent (coin u))" using ok f by (auto simp: entry_ok_def)
      show ?thesis
      proof (cases "FRESH u \<and> coin_IsSpent (coin it)")
        case True
        then have "coins_of b p = unspent (coin it)" using u by (simp add: entry_ok_def)
        moreover have "batch_loop ((p, it) # m) us = batch_loop m (AList.delete p us)" using d Some nf True by auto
        ultimately show ?thesis
          using step [OF wf_cache_delete [OF "2.prems"(1)] _ "2.IH"(4) [OF nd Some nf True]] by (simp only: cache_coins_delete)
      next
        case False
        have e: "entry_ok (coins_of b p) (u\<lparr>coin := coin it, DIRTY := True\<rparr>)" using u by (simp add: entry_ok_def)
        have "batch_loop ((p, it) # m) us = batch_loop m (AList.update p (u\<lparr>coin := coin it, DIRTY := True\<rparr>) us)"
          using d Some nf False by auto
        note eq = this
        show ?thesis unfolding eq
          by (rule step [OF wf_cache_update [OF "2.prems"(1) e] _ "2.IH"(5) [OF nd Some nf False]])
             (simp add: cache_coins_update del: cache_coins.simps)
      qed
    qed
  qed
qed

lemma db_write_overlay:
  assumes "distinct (map fst m)" and "\<forall>(p, it) \<in> set m. \<not> DIRTY it \<longrightarrow> unspent (coin it) = db p"
  shows "db_write m db = overlay m db"
  using assms
proof (induction m db rule: db_write.induct)
  case (2 p it m db)
  have p: "map_of m p = None" using "2.prems" by (auto simp: map_of_eq_None_iff)
  let ?db = "if DIRTY it then (if coin_IsSpent (coin it) then db(p := None) else db(p := Some (coin_stored (coin it)))) else db"
  have eq: "?db = db(p := unspent (coin it))" using "2.prems"(2) by auto
  have "\<forall>(q, e) \<in> set m. \<not> DIRTY e \<longrightarrow> unspent (coin e) = (db(p := unspent (coin it))) q"
    using "2.prems"(2) p by (force simp: map_of_eq_None_iff)
  then have "db_write m ?db = overlay m ?db" using "2.IH" [unfolded eq] "2.prems"(1) unfolding eq by (simp del: fun_upd_apply)
  then show ?case unfolding eq by (simp add: eq overlay_Cons overlay_upd [OF p])
qed (simp add: overlay_def fun_eq_iff)

lemma BatchWrite_spec:
  assumes "wf_cache (Cache b m h)"
  shows "\<exists>b'. BatchWrite b m h' = Inr b' \<and> wf_view b' \<and> coins_of b' = cache_coins (Cache b m h)"
proof -
  have d: "distinct (map fst m)" and e: "\<forall>(p, it) \<in> set m. entry_ok (coins_of b p) it"
    using assms by auto
  have o: "cache_coins (Cache b m h) = overlay m (coins_of b)" by (simp add: overlay_def fun_eq_iff)
  show ?thesis
  proof (cases b)
    case (ViewDB db hb)
    then have "coins_of b = db" by (simp add: fun_eq_iff)
    then have w: "db_write m db = cache_coins (Cache b m h)"
      using db_write_overlay [OF d, of db] e o by (auto simp: entry_ok_def)
    have "wf_view (ViewDB (db_write m db) x)" for x
      unfolding w using coins_of_stored(2) [OF assms] by (simp del: cache_coins.simps)
    then show ?thesis using ViewDB w by (simp add: fun_eq_iff del: cache_coins.simps)
  next
    case (ViewCache k)
    obtain b2 m2 h2 where k: "k = Cache b2 m2 h2" by (cases k)
    have cb: "coins_of b = cache_coins (Cache b2 m2 h2)" unfolding ViewCache k by (rule ext) (simp only: coins_of.simps)
    have "wf_cache (Cache b2 m2 h2)" using assms ViewCache k by simp
    from batch_loop_spec [OF this d] obtain us where us: "batch_loop m m2 = Inr us" "wf_cache (Cache b2 us h2)"
      "cache_coins (Cache b2 us h2) = overlay m (coins_of b)" using e unfolding cb by blast
    have h: "cache_coins (Cache b2 us h') = cache_coins (Cache b2 us h2)" "wf_cache (Cache b2 us h') = wf_cache (Cache b2 us h2)"
      by (simp_all add: fun_eq_iff)
    have "coins_of (ViewCache (Cache b2 us h')) = cache_coins (Cache b2 us h')" by (rule ext) (simp only: coins_of.simps)
    then show ?thesis using us h o unfolding ViewCache k by (simp del: cache_coins.simps wf_cache.simps)
  qed
qed

lemma Flush_spec:
  assumes "wf_cache k"
  shows "\<exists>k'. Flush k = Inr k' \<and> wf_cache k' \<and> cache_coins k' = cache_coins k \<and> coins_of (base k') = cache_coins k
    \<and> cacheCoins k' = []"
proof -
  obtain b m h where k: "k = Cache b m h" by (cases k)
  obtain b' where b: "BatchWrite b m h = Inr b'" "wf_view b'" "coins_of b' = cache_coins k"
    using BatchWrite_spec [of b m h h] assms k by blast
  then have "cache_coins (Cache b' [] h) = cache_coins k" by (simp add: fun_eq_iff)
  then show ?thesis using b by (simp add: Flush_def k del: cache_coins.simps)
qed

section \<open>Coins and undo records on disk\<close>

definition coin_ok :: "Coin \<Rightarrow> bool" where
  "coin_ok c \<longleftrightarrow> MoneyRange (nValue (coinOut c)) \<and> length (scriptPubKey (coinOut c)) \<le> MAX_SCRIPT_SIZE
     \<and> 0 \<le> coinHeight c \<and> coinHeight c < 2 ^ 30"

lemma coin_code:
  assumes "coin_ok c"
  defines "code \<equiv> word_of_int (coinHeight c * 2 + (if fCoinBase c then 1 else 0)) :: u32"
  shows "uint (drop_bit 1 code) = coinHeight c" "uint (code div 2) = coinHeight c" "code AND 1 \<noteq> 0 \<longleftrightarrow> fCoinBase c"
    "word_of_int (coinHeight c * 2 + (if fCoinBase c then 1 else 0)) = (ucast code :: u64)"
proof -
  let ?x = "coinHeight c * 2 + (if fCoinBase c then 1 else 0)"
  have x: "0 \<le> ?x" "?x < 2 ^ 31" using assms(1) by (auto simp: coin_ok_def)
  have w: "uint (word_of_int y :: u32) = y" if "0 \<le> y" "y < 2 ^ 31" for y using that by (simp add: uint_word_of_int)
  have u: "uint code = ?x" unfolding code_def by (rule w [OF x])
  show d: "uint (code div 2) = coinHeight c" using u by (simp add: uint_div)
  then show "uint (drop_bit 1 code) = coinHeight c" by (simp add: drop_bit_eq_div)
  have "code AND 1 \<noteq> 0 \<longleftrightarrow> odd code" by (simp add: and_one_eq mod_2_eq_odd)
  also have "\<dots> \<longleftrightarrow> bit (uint code) 0" unfolding bit_uint_iff by (simp add: bit_0)
  also have "\<dots> \<longleftrightarrow> odd ?x" by (simp only: u bit_0)
  finally show "code AND 1 \<noteq> 0 \<longleftrightarrow> fCoinBase c" by simp
  show "word_of_int ?x = (ucast code :: u64)" using u by (metis ucast_eq)
qed

lemma coin_roundtrip:
  assumes "pubkey_lib_ok kl" and "coin_ok c"
  shows "\<exists>b. ser_coin kl c = Some b \<and> des_coin kl (b @ rest) = Some (coin_stored c, rest)"
proof -
  obtain b where b: "ser_txout_compressor kl (coinOut c) = Some b"
    "des_txout_compressor kl (b @ rest) = Some (txout_stored (coinOut c), rest)"
    using txout_compressor_roundtrip [OF assms(1), of "coinOut c" rest] assms(2) by (auto simp: coin_ok_def)
  have "\<not> coin_IsSpent c" using assms(2) by (auto simp: coin_ok_def coin_IsSpent_def txout_IsNull_def MoneyRange_def)
  then show ?thesis
    using b coin_code [OF assms(2)] by (simp add: ser_coin_def des_coin_def Let_def ReadVarInt_32 coin_stored_def)
qed

lemma undo_roundtrip:
  assumes "pubkey_lib_ok kl" and "coin_ok c"
  shows "\<exists>b. ser_txin_undo kl c = Some b \<and> des_txin_undo kl (b @ rest) = Some (coin_stored c, rest)"
proof -
  obtain b where b: "ser_txout_compressor kl (coinOut c) = Some b"
    "des_txout_compressor kl (b @ rest) = Some (txout_stored (coinOut c), rest)"
    using txout_compressor_roundtrip [OF assms(1), of "coinOut c" rest] assms(2) by (auto simp: coin_ok_def)
  have z: "ReadVarInt (0 # s) = Some (0 :: u32, s)" for s by (simp add: ReadVarInt_small)
  show ?thesis
    using b coin_code [OF assms(2)] z by (simp add: ser_txin_undo_def des_txin_undo_def ReadVarInt_32 coin_stored_def)
qed

section \<open>The interface the validation code uses\<close>

text \<open>
  \<^verbatim>\<open>UpdateCoins\<close> and \<^verbatim>\<open>DisconnectBlock\<close> change the set only by spending and adding coins. The laws
  of these two operations give the effect of a whole transaction.
\<close>

fun spend_inputs :: "('v \<Rightarrow> COutPoint \<Rightarrow> Coin option \<times> 'v) \<Rightarrow> CTxIn list \<Rightarrow> 'v \<Rightarrow> (Coin list \<times> 'v) option" where
  "spend_inputs spend [] v = Some ([], v)"
| "spend_inputs spend (i # is) v =
     (case spend v (prevout i) of
        (None, v) \<Rightarrow> None
      | (Some c, v) \<Rightarrow> map_option (map_prod (\<lambda>cs. c # cs) id) (spend_inputs spend is v))"

definition new_coins :: "bytes \<Rightarrow> int \<Rightarrow> bool \<Rightarrow> nat \<Rightarrow> CTxOut list \<Rightarrow> COutPoint \<Rightarrow> Coin option" where
  "new_coins txid h cb i os p =
     (let n = unat (outN p)
      in if outHash p = txid \<and> i \<le> n \<and> n < i + length os \<and> \<not> IsUnspendable (scriptPubKey (os ! (n - i)))
         then Some (coin_stored (mk_Coin (os ! (n - i)) h cb)) else None)"

lemma new_coins_Nil [simp]: "new_coins txid h cb i [] = Map.empty"
  by (auto simp: new_coins_def fun_eq_iff Let_def)

lemma new_coins_Cons:
  assumes "i < 2 ^ 32"
  shows "f ++ new_coins txid h cb i (o' # os) =
    (if IsUnspendable (scriptPubKey o') then f else f(\<lparr>outHash = txid, outN = of_nat i\<rparr> \<mapsto> coin_stored (mk_Coin o' h cb)))
    ++ new_coins txid h cb (Suc i) os"
proof (rule ext)
  fix p :: COutPoint
  have u: "unat (of_nat i :: u32) = i" using assms by (simp add: unat_of_nat)
  have p: "p = \<lparr>outHash = txid, outN = of_nat i\<rparr> \<longleftrightarrow> outHash p = txid \<and> unat (outN p) = i"
    using u by (cases p) (auto simp: word_unat_eq_iff)
  consider "unat (outN p) < i" | "unat (outN p) = i" | "Suc i \<le> unat (outN p)" by linarith
  then show "(f ++ new_coins txid h cb i (o' # os)) p =
    ((if IsUnspendable (scriptPubKey o') then f else f(\<lparr>outHash = txid, outN = of_nat i\<rparr> \<mapsto> coin_stored (mk_Coin o' h cb)))
    ++ new_coins txid h cb (Suc i) os) p"
  proof cases
    case 3
    then have "(o' # os) ! (unat (outN p) - i) = os ! (unat (outN p) - Suc i)" by (simp add: nth_Cons')
    then show ?thesis using 3 p by (simp add: new_coins_def map_add_def Let_def)
  qed (use p in \<open>auto simp: new_coins_def map_add_def Let_def\<close>)
qed

locale utxo_store =
  fixes abs :: "'v \<Rightarrow> COutPoint \<Rightarrow> Coin option" and wf :: "'v \<Rightarrow> bool"
    and spend :: "'v \<Rightarrow> COutPoint \<Rightarrow> Coin option \<times> 'v"
    and add :: "'v \<Rightarrow> COutPoint \<Rightarrow> Coin \<Rightarrow> bool \<Rightarrow> coins_error + 'v"
  assumes spend_law: "wf v \<Longrightarrow> spend v p = (r, v') \<Longrightarrow>
      wf v' \<and> abs v' = (abs v)(p := None) \<and> abs v p = Option.bind r unspent"
    and add_law: "wf v \<Longrightarrow> \<not> coin_IsSpent c \<Longrightarrow> \<not> ow \<longrightarrow> abs v p = None \<Longrightarrow>
      \<exists>v'. add v p c ow = Inr v' \<and> wf v'
        \<and> abs v' = (if IsUnspendable (scriptPubKey (coinOut c)) then abs v else (abs v)(p \<mapsto> coin_stored c))"
begin

lemma spend_present:
  assumes "wf v" and "abs v p = Some x"
  obtains c v' where "spend v p = (Some c, v')" "wf v'" "abs v' = (abs v)(p := None)" "unspent c = Some x"
proof -
  obtain r v' where s: "spend v p = (r, v')" by fastforce
  with spend_law [OF assms(1) s] assms(2) that show thesis by (cases r) auto
qed

lemma spend_inputs_spec:
  "wf v \<Longrightarrow> distinct (map prevout is) \<Longrightarrow> \<forall>i \<in> set is. abs v (prevout i) \<noteq> None \<Longrightarrow>
   \<exists>cs v'. spend_inputs spend is v = Some (cs, v') \<and> wf v' \<and> abs v' = abs v |` (- prevout ` set is)
     \<and> map unspent cs = map (abs v \<circ> prevout) is"
proof (induction "is" arbitrary: v)
  case (Cons i "is")
  obtain x where x: "abs v (prevout i) = Some x" using Cons.prems by auto
  then obtain c v' where s: "spend v (prevout i) = (Some c, v')" "wf v'" "abs v' = (abs v)(prevout i := None)" "unspent c = Some x"
    using spend_present [OF Cons.prems(1)] by blast
  have "\<forall>j \<in> set is. abs v' (prevout j) = abs v (prevout j)" using Cons.prems(2) s(3) by (auto simp: image_iff)
  moreover from this obtain cs v'' where "spend_inputs spend is v' = Some (cs, v'')" "wf v''" "abs v'' = abs v' |` (- prevout ` set is)"
    "map unspent cs = map (abs v' \<circ> prevout) is"
    using Cons.IH [OF s(2)] Cons.prems(2,3) by auto
  ultimately show ?case using s x by (auto simp: restrict_map_def fun_eq_iff)
qed (simp add: restrict_map_def)

lemma add_outputs_spec:
  "wf v \<Longrightarrow> \<forall>o' \<in> set os. \<not> txout_IsNull o' \<Longrightarrow> i + length os \<le> 2 ^ 32 \<Longrightarrow>
   \<forall>k. i \<le> k \<and> k < i + length os \<and> \<not> cb \<longrightarrow> abs v \<lparr>outHash = txid, outN = of_nat k\<rparr> = None \<Longrightarrow>
   \<exists>v'. add_outputs add txid h cb i os v = Inr v' \<and> wf v' \<and> abs v' = abs v ++ new_coins txid h cb i os"
proof (induction os arbitrary: i v)
  case Nil
  then show ?case by simp
next
  case (Cons o' os)
  let ?p = "\<lparr>outHash = txid, outN = of_nat i\<rparr> :: COutPoint"
  have i: "i < 2 ^ 32" using Cons.prems(3) by simp
  have "\<not> coin_IsSpent (mk_Coin o' h cb)" using Cons.prems(2) by (simp add: coin_IsSpent_def mk_Coin_def)
  moreover have "\<not> cb \<longrightarrow> abs v ?p = None" using Cons.prems(4) by simp
  ultimately obtain v' where v': "add v ?p (mk_Coin o' h cb) cb = Inr v'" "wf v'"
    "abs v' = (if IsUnspendable (scriptPubKey o') then abs v else (abs v)(?p \<mapsto> coin_stored (mk_Coin o' h cb)))"
    using add_law [OF Cons.prems(1), of "mk_Coin o' h cb" cb ?p] by (auto simp: mk_Coin_def)
  have ne: "\<lparr>outHash = txid, outN = of_nat k\<rparr> \<noteq> ?p" if "Suc i \<le> k" "k < Suc i + length os" for k
  proof -
    have "unat (of_nat k :: u32) = k" "unat (of_nat i :: u32) = i" using that i Cons.prems(3) by (simp_all add: unat_of_nat)
    then show ?thesis using that by (metis COutPoint.ext_inject Suc_n_not_le_n)
  qed
  then have "\<forall>k. Suc i \<le> k \<and> k < Suc i + length os \<and> \<not> cb \<longrightarrow> abs v' \<lparr>outHash = txid, outN = of_nat k\<rparr> = None"
    using Cons.prems(4) v'(3) by auto
  from Cons.IH [OF v'(2) _ _ this] Cons.prems(2,3) obtain v'' where
    "add_outputs add txid h cb (Suc i) os v' = Inr v''" "wf v''" "abs v'' = abs v' ++ new_coins txid h cb (Suc i) os" by auto
  then show ?case using v' new_coins_Cons [OF i] by simp
qed

end

interpretation cache: utxo_store cache_coins wf_cache SpendCoin AddCoin
  by unfold_locales (use SpendCoin_spec AddCoin_spec in blast)+

section \<open>Properties\<close>

text \<open>
  C5. The coin cache refines the map of unspent outputs. On well-formed caches, looking a coin
  up, spending, adding (where the caller keeps the contract that a coin added without
  \<^verbatim>\<open>possible_overwrite\<close> is not there), dropping a clean entry and flushing have exactly the effect
  of the map operation, keep the promises of the \<^verbatim>\<open>DIRTY\<close> and \<^verbatim>\<open>FRESH\<close> flags and never throw;
  after a flush the parent view holds the whole set.
\<close>

theorem coins_cache_refines:
  assumes "wf_cache k"
  shows "(case AccessCoin k p of (c, k') \<Rightarrow> wf_cache k' \<and> cache_coins k' = cache_coins k \<and> unspent c = cache_coins k p)
    \<and> (case HaveCoin k p of (r, k') \<Rightarrow> wf_cache k' \<and> cache_coins k' = cache_coins k \<and> (r \<longleftrightarrow> cache_coins k p \<noteq> None))
    \<and> (case SpendCoin k p of (r, k') \<Rightarrow> wf_cache k' \<and> cache_coins k' = (cache_coins k)(p := None)
          \<and> cache_coins k p = Option.bind r unspent)
    \<and> (\<not> coin_IsSpent cn \<longrightarrow> (\<not> ow \<longrightarrow> cache_coins k p = None) \<longrightarrow>
         (\<exists>k'. AddCoin k p cn ow = Inr k' \<and> wf_cache k'
            \<and> cache_coins k' = (if IsUnspendable (scriptPubKey (coinOut cn)) then cache_coins k
                                 else (cache_coins k)(p \<mapsto> coin_stored cn))))
    \<and> wf_cache (Uncache k p) \<and> cache_coins (Uncache k p) = cache_coins k
    \<and> (\<exists>k'. Flush k = Inr k' \<and> wf_cache k' \<and> cache_coins k' = cache_coins k
          \<and> coins_of (base k') = cache_coins k \<and> cacheCoins k' = [])"
  using AccessCoin_spec [OF assms, of p] HaveCoin_spec [OF assms, of p] SpendCoin_spec [OF assms, of p]
    AddCoin_spec [OF assms, of cn ow p] Uncache_spec [OF assms, of p] Flush_spec [OF assms]
  by (intro conjI impI) (auto split: prod.split)

definition sample_coin :: Coin where
  "sample_coin = mk_Coin \<lparr>nValue = 7, scriptPubKey = [0x51], imgbase64 = [], nRounds = - 10\<rparr> 5 False"

definition sample_cache :: CCoinsViewCache where
  "sample_cache = Cache (ViewDB (\<lambda>p. if p = outpoint_null then Some sample_coin else None) []) [] []"

lemma sample_cache_wf: "wf_cache sample_cache"
  by (simp add: sample_cache_def sample_coin_def coin_IsSpent_def txout_IsNull_def coin_stored_def txout_stored_def mk_Coin_def)

theorem coins_cache_refines_witness:
  "fst (HaveCoin sample_cache outpoint_null) \<and> cache_coins (snd (SpendCoin sample_cache outpoint_null)) outpoint_null = None"
proof -
  have "cache_coins sample_cache outpoint_null = Some sample_coin" by (simp add: sample_cache_def)
  then show ?thesis
    using coins_cache_refines [OF sample_cache_wf, of outpoint_null sample_coin False]
    by (auto split: prod.splits simp del: cache_coins.simps)
qed

text \<open>
  C38. What survives on disk: a coin with an amount in the money range, a script of valid size
  and a height below 2^30, written to the coin database or to an undo record, is read back with
  its value, script, height and coinbase flag; the image data and the round count of its
  output are lost.
\<close>

theorem coin_disk_roundtrip:
  assumes "pubkey_lib_ok kl" and "coin_ok c"
  shows "(\<exists>b. ser_coin kl c = Some b \<and> des_coin kl (b @ rest)
            = Some (c\<lparr>coinOut := (coinOut c)\<lparr>imgbase64 := [], nRounds := - 10\<rparr>\<rparr>, rest))
    \<and> (\<exists>b. ser_txin_undo kl c = Some b \<and> des_txin_undo kl (b @ rest)
            = Some (c\<lparr>coinOut := (coinOut c)\<lparr>imgbase64 := [], nRounds := - 10\<rparr>\<rparr>, rest))"
  using coin_roundtrip [OF assms] undo_roundtrip [OF assms] by (simp add: coin_stored_def txout_stored_def)

theorem coin_disk_roundtrip_witness: "\<exists>b. ser_coin toy_lib sample_coin = Some b \<and> des_coin toy_lib (b @ []) = Some (sample_coin, [])"
proof -
  have "coin_ok sample_coin"
    by (simp add: sample_coin_def mk_Coin_def coin_ok_def MoneyRange_def MAX_MONEY_def COIN_def MAX_SCRIPT_SIZE_def)
  then show ?thesis using coin_disk_roundtrip [OF toy_lib_ok, of sample_coin "[]"] by (simp add: sample_coin_def mk_Coin_def)
qed

end
