(* ===== verification/Validation.thy ===== *)
theory Validation
  imports Chain Coins
begin

text \<open>
  The consensus rules of \<^verbatim>\<open>validation.cpp\<close> for transactions: finality and sequence locks, the
  context-free checks, the checks against the set of unspent outputs, and how a block changes
  that set and is undone. \<open>None\<close> stands for a failed assertion, a null pointer or an exception.
\<close>

section \<open>Validation state\<close>

datatype mode_state = MODE_VALID | MODE_INVALID | MODE_ERROR

text \<open>The debug message, which is only logged, is left out.\<close>

record CValidationState =
  mode :: mode_state
  nDoS :: int
  strRejectReason :: string
  chRejectCode :: nat
  corruptionPossible :: bool

definition state_init :: CValidationState where
  "state_init = \<lparr>mode = MODE_VALID, nDoS = 0, strRejectReason = '''', chRejectCode = 0, corruptionPossible = False\<rparr>"

definition DoS :: "CValidationState \<Rightarrow> int \<Rightarrow> nat \<Rightarrow> string \<Rightarrow> bool \<Rightarrow> CValidationState" where
  "DoS state level chRejectCodeIn strRejectReasonIn corruptionIn =
     (let state = state\<lparr>chRejectCode := chRejectCodeIn, strRejectReason := strRejectReasonIn, corruptionPossible := corruptionIn\<rparr>
      in if mode state = MODE_ERROR then state
         else state\<lparr>nDoS := nDoS state + level, mode := MODE_INVALID\<rparr>)"

definition Invalid :: "CValidationState \<Rightarrow> nat \<Rightarrow> string \<Rightarrow> CValidationState" where
  "Invalid state code reason = DoS state 0 code reason False"

definition REJECT_INVALID :: nat where "REJECT_INVALID = 0x10"

definition REJECT_NONSTANDARD :: nat where "REJECT_NONSTANDARD = 0x40"

section \<open>Finality\<close>

definition LOCKTIME_VERIFY_SEQUENCE :: int where "LOCKTIME_VERIFY_SEQUENCE = 1"

definition LOCKTIME_MEDIAN_TIME_PAST :: int where "LOCKTIME_MEDIAN_TIME_PAST = 2"

definition IsFinalTx :: "CTransaction \<Rightarrow> int \<Rightarrow> int \<Rightarrow> bool" where
  "IsFinalTx tx nBlockHeight nBlockTime =
     (let lock = int (unat (nLockTime tx))
      in if nLockTime tx = 0 then True
         else if lock < (if lock < LOCKTIME_THRESHOLD then nBlockHeight else nBlockTime) then True
         else list_all (\<lambda>txin. nSequence txin = SEQUENCE_FINAL) (vin tx))"

definition CheckFinalTx :: "store \<Rightarrow> CChain \<Rightarrow> int \<Rightarrow> CTransaction \<Rightarrow> int \<Rightarrow> bool option" where
  "CheckFinalTx s chainActive adjustedTime tx flags =
     (let flags = max flags 0;
          nBlockHeight = Height chainActive + 1
      in if flags AND LOCKTIME_MEDIAN_TIME_PAST \<noteq> 0
         then (case Tip chainActive of
                 None \<Rightarrow> None
               | Some tip \<Rightarrow> Some (IsFinalTx tx nBlockHeight (GetMedianTimePast s tip)))
         else Some (IsFinalTx tx nBlockHeight adjustedTime))"

text \<open>
  One pass over the inputs and their heights; the third component collects what the loop leaves
  in \<^verbatim>\<open>prevHeights\<close>.
\<close>

fun seq_lock_loop :: "store \<Rightarrow> addr \<Rightarrow> CTxIn list \<Rightarrow> int list \<Rightarrow> int \<Rightarrow> int \<Rightarrow> (int \<times> int \<times> int list) option" where
  "seq_lock_loop s block (txin # is) (nCoinHeight # hs) nMinHeight nMinTime =
     (if nSequence txin AND word_of_int SEQUENCE_LOCKTIME_DISABLE_FLAG \<noteq> 0
      then map_option (map_prod id (map_prod id (\<lambda>r. 0 # r))) (seq_lock_loop s block is hs nMinHeight nMinTime)
      else let locked = int (unat (nSequence txin AND SEQUENCE_LOCKTIME_MASK))
           in map_option (map_prod id (map_prod id (\<lambda>r. nCoinHeight # r)))
             (if nSequence txin AND SEQUENCE_LOCKTIME_TYPE_FLAG \<noteq> 0
              then case GetAncestor s block (max (nCoinHeight - 1) 0) of
                     Some (Some q) \<Rightarrow>
                       (let nCoinTime = GetMedianTimePast s q
                        in seq_lock_loop s block is hs nMinHeight
                             (max nMinTime (nCoinTime + locked * 2 ^ SEQUENCE_LOCKTIME_GRANULARITY - 1)))
                   | _ \<Rightarrow> None
              else seq_lock_loop s block is hs (max nMinHeight (nCoinHeight + locked - 1)) nMinTime))"
| "seq_lock_loop s block [] [] nMinHeight nMinTime = Some (nMinHeight, nMinTime, [])"
| "seq_lock_loop s block _ _ nMinHeight nMinTime = None"

definition CalculateSequenceLocks :: "store \<Rightarrow> CTransaction \<Rightarrow> int \<Rightarrow> int list \<Rightarrow> addr \<Rightarrow> (int \<times> int \<times> int list) option" where
  "CalculateSequenceLocks s tx flags prevHeights block =
     (if length prevHeights \<noteq> length (vin tx) then None
      else let fEnforceBIP68 = ((word_of_int (txVersion tx) :: u32) \<ge> 2 \<and> flags AND LOCKTIME_VERIFY_SEQUENCE \<noteq> 0)
           in if \<not> fEnforceBIP68 then Some (- 1, - 1, prevHeights)
              else seq_lock_loop s block (vin tx) prevHeights (- 1) (- 1))"

definition EvaluateSequenceLocks :: "store \<Rightarrow> addr \<Rightarrow> int \<times> int \<Rightarrow> bool option" where
  "EvaluateSequenceLocks s block lockPair =
     (case pprev (s block) of
        None \<Rightarrow> None
      | Some q \<Rightarrow> Some (\<not> (fst lockPair \<ge> nHeight (s block) \<or> snd lockPair \<ge> GetMedianTimePast s q)))"

definition SequenceLocks :: "store \<Rightarrow> CTransaction \<Rightarrow> int \<Rightarrow> int list \<Rightarrow> addr \<Rightarrow> bool option" where
  "SequenceLocks s tx flags prevHeights block =
     (case CalculateSequenceLocks s tx flags prevHeights block of
        None \<Rightarrow> None
      | Some (h, t, _) \<Rightarrow> EvaluateSequenceLocks s block (h, t))"

section \<open>Signature operations\<close>

definition GetLegacySigOpCount :: "CTransaction \<Rightarrow> nat" where
  "GetLegacySigOpCount tx =
     (sum_list (map (\<lambda>i. GetSigOpCount False (scriptSig i)) (vin tx))
      + sum_list (map (\<lambda>o'. GetSigOpCount False (scriptPubKey o')) (vout tx))) mod 2 ^ 32"

fun p2sh_sigop_loop :: "CTxIn list \<Rightarrow> nat \<Rightarrow> CCoinsViewCache \<Rightarrow> (nat \<times> CCoinsViewCache) option" where
  "p2sh_sigop_loop [] nSigOps inputs = Some (nSigOps, inputs)"
| "p2sh_sigop_loop (i # is) nSigOps inputs =
     (case AccessCoin inputs (prevout i) of
        (c, inputs) \<Rightarrow>
          (if coin_IsSpent c then None
           else p2sh_sigop_loop is
                  (if IsPayToScriptHash (scriptPubKey (coinOut c))
                   then (nSigOps + GetSigOpCount_p2sh (scriptPubKey (coinOut c)) (scriptSig i)) mod 2 ^ 32
                   else nSigOps) inputs))"

definition GetP2SHSigOpCount :: "CTransaction \<Rightarrow> CCoinsViewCache \<Rightarrow> (nat \<times> CCoinsViewCache) option" where
  "GetP2SHSigOpCount tx inputs = (if IsCoinBase tx then Some (0, inputs) else p2sh_sigop_loop (vin tx) 0 inputs)"

section \<open>Checks without context\<close>

definition MAX_LEGACY_BLOCK_SIZE :: nat where "MAX_LEGACY_BLOCK_SIZE = 50000000"

definition COINBASE_MATURITY :: int where "COINBASE_MATURITY = 100"

text \<open>The loop over the outputs returns the reason for which it fails.\<close>

fun check_outputs :: "CTxOut list \<Rightarrow> CAmount \<Rightarrow> string option" where
  "check_outputs [] nValueOut = None"
| "check_outputs (o' # os) nValueOut =
     (if nValue o' < 0 then Some ''bad-txns-vout-negative''
      else if nValue o' > MAX_MONEY then Some ''bad-txns-vout-toolarge''
      else let nValueOut = nValueOut + nValue o'
           in if \<not> MoneyRange nValueOut then Some ''bad-txns-txouttotal-toolarge''
              else check_outputs os nValueOut)"

fun has_duplicate :: "COutPoint list \<Rightarrow> COutPoint list \<Rightarrow> bool" where
  "has_duplicate vInOutPoints [] = False"
| "has_duplicate vInOutPoints (p # ps) = (if List.member vInOutPoints p then True else has_duplicate (p # vInOutPoints) ps)"

definition CheckTransaction :: "CTransaction \<Rightarrow> CValidationState \<Rightarrow> bool \<times> CValidationState" where
  "CheckTransaction tx state =
     (if vin tx = [] then (False, DoS state 10 REJECT_INVALID ''bad-txns-vin-empty'' False)
      else if vout tx = [] then (False, DoS state 10 REJECT_INVALID ''bad-txns-vout-empty'' False)
      else if length (ser_tx tx) > MAX_LEGACY_BLOCK_SIZE then (False, DoS state 100 REJECT_INVALID ''bad-txns-oversize'' False)
      else case check_outputs (vout tx) 0 of
        Some reason \<Rightarrow> (False, DoS state 100 REJECT_INVALID reason False)
      | None \<Rightarrow>
          (if has_duplicate [] (map prevout (vin tx))
           then (False, DoS state 100 REJECT_INVALID ''bad-txns-inputs-duplicate'' False)
           else if IsCoinBase tx
           then (if length (scriptSig (vin tx ! 0)) < 2 \<or> length (scriptSig (vin tx ! 0)) > 100
                 then (False, DoS state 100 REJECT_INVALID ''bad-cb-length'' False)
                 else (True, state))
           else if list_ex (\<lambda>i. outpoint_IsNull (prevout i)) (vin tx)
           then (False, DoS state 10 REJECT_INVALID ''bad-txns-prevout-null'' False)
           else (True, state)))"

section \<open>Checks against the unspent outputs\<close>

text \<open>The loop ends with a verdict \<open>Inl\<close> or with the value of the inputs.\<close>

fun txin_loop :: "CTxIn list \<Rightarrow> int \<Rightarrow> CValidationState \<Rightarrow> CAmount \<Rightarrow> CCoinsViewCache
    \<Rightarrow> ((CValidationState + CAmount) \<times> CCoinsViewCache) option" where
  "txin_loop [] nSpendHeight state nValueIn inputs = Some (Inr nValueIn, inputs)"
| "txin_loop (i # is) nSpendHeight state nValueIn inputs =
     (case AccessCoin inputs (prevout i) of
        (c, inputs) \<Rightarrow>
          (if coin_IsSpent c then None
           else if fCoinBase c \<and> nSpendHeight - coinHeight c < COINBASE_MATURITY
           then Some (Inl (Invalid state REJECT_INVALID ''bad-txns-premature-spend-of-coinbase''), inputs)
           else let nValueIn = nValueIn + nValue (coinOut c)
                in if \<not> MoneyRange (nValue (coinOut c)) \<or> \<not> MoneyRange nValueIn
                   then Some (Inl (DoS state 100 REJECT_INVALID ''bad-txns-inputvalues-outofrange'' False), inputs)
                   else txin_loop is nSpendHeight state nValueIn inputs))"

definition CheckTxInputs :: "CTransaction \<Rightarrow> CValidationState \<Rightarrow> CCoinsViewCache \<Rightarrow> int
    \<Rightarrow> (bool \<times> CValidationState \<times> CCoinsViewCache) option" where
  "CheckTxInputs tx state inputs nSpendHeight =
     (case HaveInputs inputs tx of
        (False, inputs) \<Rightarrow> Some (False, Invalid state 0 '''', inputs)
      | (True, inputs) \<Rightarrow>
          (case txin_loop (vin tx) nSpendHeight state 0 inputs of
             None \<Rightarrow> None
           | Some (Inl state, inputs) \<Rightarrow> Some (False, state, inputs)
           | Some (Inr nValueIn, inputs) \<Rightarrow>
               (case GetValueOut tx of
                  None \<Rightarrow> None
                | Some nValueOut \<Rightarrow>
                    (if nValueIn < nValueOut
                     then Some (False, DoS state 100 REJECT_INVALID ''bad-txns-in-belowout'' False, inputs)
                     else let nTxFee = nValueIn - nValueOut
                          in if nTxFee < 0
                             then Some (False, DoS state 100 REJECT_INVALID ''bad-txns-fee-negative'' False, inputs)
                             else if \<not> MoneyRange (0 + nTxFee)
                             then Some (False, DoS state 100 REJECT_INVALID ''bad-txns-fee-outofrange'' False, inputs)
                             else Some (True, state, inputs)))))"

section \<open>Script checks\<close>

definition MANDATORY_SCRIPT_VERIFY_FLAGS :: u32 where
  "MANDATORY_SCRIPT_VERIFY_FLAGS = SCRIPT_VERIFY_P2SH"

definition STANDARD_SCRIPT_VERIFY_FLAGS :: u32 where
  "STANDARD_SCRIPT_VERIFY_FLAGS =
     MANDATORY_SCRIPT_VERIFY_FLAGS OR SCRIPT_VERIFY_DERSIG OR SCRIPT_VERIFY_STRICTENC OR SCRIPT_VERIFY_MINIMALDATA
     OR SCRIPT_VERIFY_NULLDUMMY OR SCRIPT_VERIFY_DISCOURAGE_UPGRADABLE_NOPS OR SCRIPT_VERIFY_CLEANSTACK
     OR SCRIPT_VERIFY_CHECKLOCKTIMEVERIFY OR SCRIPT_VERIFY_CHECKSEQUENCEVERIFY OR SCRIPT_VERIFY_LOW_S"

definition STANDARD_NOT_MANDATORY_VERIFY_FLAGS :: u32 where
  "STANDARD_NOT_MANDATORY_VERIFY_FLAGS = STANDARD_SCRIPT_VERIFY_FLAGS AND NOT MANDATORY_SCRIPT_VERIFY_FLAGS"

text \<open>
  A script check is the closure \<^verbatim>\<open>CScriptCheck\<close>: the output script, the input's index and the flags
  for one transaction. \<open>checker tx i\<close> is the signature checker for input \<open>i\<close>; its cache of verified
  signatures does not change an answer. \<open>None\<close> would be a failed assertion of the interpreter.
\<close>

record CScriptCheck =
  checkScript :: CScript
  checkTx :: CTransaction
  checkIn :: nat
  checkFlags :: u32

definition run_check :: "crypto \<Rightarrow> (CTransaction \<Rightarrow> nat \<Rightarrow> BaseSignatureChecker) \<Rightarrow> CScriptCheck \<Rightarrow> bool option" where
  "run_check cr checker c =
     (case VerifyScript cr (checker (checkTx c) (checkIn c)) (scriptSig (vin (checkTx c) ! checkIn c)) (checkScript c) (checkFlags c) of
        Done _ \<Rightarrow> Some True
      | Fail _ \<Rightarrow> Some False
      | Abort \<Rightarrow> None)"

text \<open>
  The loop over the inputs. With \<^verbatim>\<open>pvChecks\<close> the checks are handed to the queue, otherwise run. The
  reason of a script failure also names the script error, which is left out.
\<close>

fun script_loop :: "crypto \<Rightarrow> (CTransaction \<Rightarrow> nat \<Rightarrow> BaseSignatureChecker) \<Rightarrow> CTransaction \<Rightarrow> u32 \<Rightarrow> bool
    \<Rightarrow> nat list \<Rightarrow> CValidationState \<Rightarrow> CCoinsViewCache
    \<Rightarrow> (bool \<times> CValidationState \<times> CScriptCheck list \<times> CCoinsViewCache) option" where
  "script_loop cr checker tx flags pvChecks [] state inputs = Some (True, state, [], inputs)"
| "script_loop cr checker tx flags pvChecks (i # is) state inputs =
     (case AccessCoin inputs (prevout (vin tx ! i)) of
        (c, inputs) \<Rightarrow>
          (if coin_IsSpent c then None
           else let check = \<lparr>checkScript = scriptPubKey (coinOut c), checkTx = tx, checkIn = i, checkFlags = flags\<rparr>
                in if pvChecks
                   then map_option (map_prod id (map_prod id (map_prod (\<lambda>cs. check # cs) id)))
                          (script_loop cr checker tx flags pvChecks is state inputs)
                   else case run_check cr checker check of
                     None \<Rightarrow> None
                   | Some True \<Rightarrow> script_loop cr checker tx flags pvChecks is state inputs
                   | Some False \<Rightarrow>
                       (if flags AND STANDARD_NOT_MANDATORY_VERIFY_FLAGS \<noteq> 0
                        then case run_check cr checker (check\<lparr>checkFlags := flags AND NOT STANDARD_NOT_MANDATORY_VERIFY_FLAGS\<rparr>) of
                               None \<Rightarrow> None
                             | Some True \<Rightarrow>
                                 Some (False, Invalid state REJECT_NONSTANDARD ''non-mandatory-script-verify-flag'', [], inputs)
                             | Some False \<Rightarrow>
                                 Some (False, DoS state 100 REJECT_INVALID ''mandatory-script-verify-flag-failed'' False, [], inputs)
                        else Some (False, DoS state 100 REJECT_INVALID ''mandatory-script-verify-flag-failed'' False, [], inputs))))"

definition CheckInputs :: "crypto \<Rightarrow> (CTransaction \<Rightarrow> nat \<Rightarrow> BaseSignatureChecker) \<Rightarrow> CTransaction \<Rightarrow> CValidationState
    \<Rightarrow> CCoinsViewCache \<Rightarrow> int \<Rightarrow> bool \<Rightarrow> u32 \<Rightarrow> bool
    \<Rightarrow> (bool \<times> CValidationState \<times> CScriptCheck list \<times> CCoinsViewCache) option" where
  "CheckInputs cr checker tx state inputs nSpendHeight fScriptChecks flags pvChecks =
     (if IsCoinBase tx then Some (True, state, [], inputs)
      else case CheckTxInputs tx state inputs nSpendHeight of
        None \<Rightarrow> None
      | Some (False, state, inputs) \<Rightarrow> Some (False, state, [], inputs)
      | Some (True, state, inputs) \<Rightarrow>
          (if list_ex (\<lambda>o'. length (imgbase64 o') > 14000000) (vout tx) then Some (False, state, [], inputs)
           else if fScriptChecks then script_loop cr checker tx flags pvChecks [0..<length (vin tx)] state inputs
           else Some (True, state, [], inputs)))"

section \<open>How a block changes the unspent outputs\<close>

text \<open>The second component is \<^verbatim>\<open>txundo.vprevout\<close>.\<close>

definition UpdateCoins :: "crypto \<Rightarrow> CTransaction \<Rightarrow> CCoinsViewCache \<Rightarrow> int \<Rightarrow> coins_error + (Coin list \<times> CCoinsViewCache)" where
  "UpdateCoins cr tx inputs h =
     (case (if \<not> IsCoinBase tx then spend_inputs SpendCoin (vin tx) inputs else Some ([], inputs)) of
        None \<Rightarrow> Inl AssertFailed
      | Some (vprevout, inputs) \<Rightarrow>
          (case AddCoins cr inputs tx h of
             Inl e \<Rightarrow> Inl e
           | Inr inputs \<Rightarrow> Inr (vprevout, inputs)))"

text \<open>The calls of \<^verbatim>\<open>UpdateCoins\<close> in \<^verbatim>\<open>ConnectBlock\<close>: the undo data of the first transaction is dropped.\<close>

fun connect_coins :: "crypto \<Rightarrow> int \<Rightarrow> CTransaction list \<Rightarrow> CCoinsViewCache \<Rightarrow> coins_error + (Coin list list \<times> CCoinsViewCache)" where
  "connect_coins cr h [] view = Inr ([], view)"
| "connect_coins cr h (tx # txs) view =
     (case UpdateCoins cr tx view h of
        Inl e \<Rightarrow> Inl e
      | Inr (u, view) \<Rightarrow>
          (case connect_coins cr h txs view of
             Inl e \<Rightarrow> Inl e
           | Inr (us, view) \<Rightarrow> Inr (u # us, view)))"

definition connect_block_coins :: "crypto \<Rightarrow> int \<Rightarrow> CTransaction list \<Rightarrow> CCoinsViewCache \<Rightarrow> coins_error + (Coin list list \<times> CCoinsViewCache)" where
  "connect_block_coins cr h vtx view =
     (case connect_coins cr h vtx view of Inl e \<Rightarrow> Inl e | Inr (us, view) \<Rightarrow> Inr (tl us, view))"

datatype DisconnectResult = DISCONNECT_OK | DISCONNECT_UNCLEAN | DISCONNECT_FAILED

definition ApplyTxInUndo :: "Coin \<Rightarrow> CCoinsViewCache \<Rightarrow> COutPoint \<Rightarrow> coins_error + (DisconnectResult \<times> CCoinsViewCache)" where
  "ApplyTxInUndo undo view out =
     (case HaveCoin view out of
        (have, view) \<Rightarrow>
          (let fClean = (\<not> have);
               add = (\<lambda>undo view. case AddCoin view out undo (fCoinBase undo) of
                        Inl e \<Rightarrow> Inl e
                      | Inr view \<Rightarrow> Inr (if fClean then DISCONNECT_OK else DISCONNECT_UNCLEAN, view))
           in if coinHeight undo = 0
              then (case AccessByTxid view (outHash out) of
                      (alternate, view) \<Rightarrow>
                        (if \<not> coin_IsSpent alternate
                         then add (undo\<lparr>coinHeight := coinHeight alternate, fCoinBase := fCoinBase alternate\<rparr>) view
                         else Inr (DISCONNECT_FAILED, view)))
              else add undo view))"

fun disconnect_outputs :: "bytes \<Rightarrow> int \<Rightarrow> bool \<Rightarrow> nat \<Rightarrow> CTxOut list \<Rightarrow> bool \<Rightarrow> CCoinsViewCache \<Rightarrow> bool \<times> CCoinsViewCache" where
  "disconnect_outputs txid h is_coinbase i [] fClean view = (fClean, view)"
| "disconnect_outputs txid h is_coinbase i (o' # os) fClean view =
     (if \<not> IsUnspendable (scriptPubKey o')
      then (case SpendCoin view \<lparr>outHash = txid, outN = of_nat i\<rparr> of
              (None, view) \<Rightarrow> disconnect_outputs txid h is_coinbase (Suc i) os False view
            | (Some c, view) \<Rightarrow>
                disconnect_outputs txid h is_coinbase (Suc i) os
                  (if o' \<noteq> coinOut c \<or> h \<noteq> coinHeight c \<or> is_coinbase \<noteq> fCoinBase c then False else fClean) view)
      else disconnect_outputs txid h is_coinbase (Suc i) os fClean view)"

text \<open>The inputs from the last to the first; \<open>None\<close> for the flag is \<^verbatim>\<open>return DISCONNECT_FAILED\<close>.\<close>

fun restore_inputs :: "(CTxIn \<times> Coin) list \<Rightarrow> bool \<Rightarrow> CCoinsViewCache \<Rightarrow> coins_error + (bool option \<times> CCoinsViewCache)" where
  "restore_inputs [] fClean view = Inr (Some fClean, view)"
| "restore_inputs ((i, undo) # rest) fClean view =
     (case ApplyTxInUndo undo view (prevout i) of
        Inl e \<Rightarrow> Inl e
      | Inr (res, view) \<Rightarrow>
          (if res = DISCONNECT_FAILED then Inr (None, view)
           else restore_inputs rest (fClean \<and> res \<noteq> DISCONNECT_UNCLEAN) view))"

text \<open>One transaction with its undo data, \<open>None\<close> for the first of the block.\<close>

definition disconnect_tx :: "crypto \<Rightarrow> int \<Rightarrow> CTransaction \<Rightarrow> Coin list option \<Rightarrow> bool \<Rightarrow> CCoinsViewCache
    \<Rightarrow> coins_error + (bool option \<times> CCoinsViewCache)" where
  "disconnect_tx cr h tx txundo fClean view =
     (case disconnect_outputs (tx_GetHash cr tx) h (IsCoinBase tx) 0 (vout tx) fClean view of
        (fClean, view) \<Rightarrow>
          (case txundo of
             None \<Rightarrow> Inr (Some fClean, view)
           | Some vprevout \<Rightarrow>
               (if length vprevout \<noteq> length (vin tx) then Inr (None, view)
                else restore_inputs (rev (zip (vin tx) vprevout)) fClean view)))"

fun disconnect_loop :: "crypto \<Rightarrow> int \<Rightarrow> (CTransaction \<times> Coin list option) list \<Rightarrow> bool \<Rightarrow> CCoinsViewCache
    \<Rightarrow> coins_error + (bool option \<times> CCoinsViewCache)" where
  "disconnect_loop cr h [] fClean view = Inr (Some fClean, view)"
| "disconnect_loop cr h ((tx, u) # rest) fClean view =
     (case disconnect_tx cr h tx u fClean view of
        Inl e \<Rightarrow> Inl e
      | Inr (None, view) \<Rightarrow> Inr (None, view)
      | Inr (Some fClean, view) \<Rightarrow> disconnect_loop cr h rest fClean view)"

text \<open>
  \<^verbatim>\<open>DisconnectBlock\<close> without the optional address and spent indexes. \<open>blockUndo\<close> is what
  \<^verbatim>\<open>UndoReadFromDisk\<close> returns, \<open>None\<close> when there is no undo data or it cannot be read.
\<close>

definition DisconnectBlock :: "crypto \<Rightarrow> CTransaction list \<Rightarrow> Coin list list option \<Rightarrow> int \<Rightarrow> bytes \<Rightarrow> bytes \<Rightarrow> CCoinsViewCache
    \<Rightarrow> coins_error + (DisconnectResult \<times> CCoinsViewCache)" where
  "DisconnectBlock cr vtx blockUndo h hash hashPrev view =
     (case cache_GetBestBlock view of
        (best, view) \<Rightarrow>
          (if hash \<noteq> best then Inl AssertFailed
           else case blockUndo of
             None \<Rightarrow> Inr (DISCONNECT_FAILED, view)
           | Some vtxundo \<Rightarrow>
               (if length vtxundo + 1 \<noteq> length vtx then Inr (DISCONNECT_FAILED, view)
                else case disconnect_loop cr h (rev (zip vtx (None # map Some vtxundo))) True view of
                  Inl e \<Rightarrow> Inl e
                | Inr (None, view) \<Rightarrow> Inr (DISCONNECT_FAILED, view)
                | Inr (Some fClean, view) \<Rightarrow>
                    Inr (if fClean then DISCONNECT_OK else DISCONNECT_UNCLEAN, SetBestBlock view hashPrev))))"

section \<open>Rewards\<close>

text \<open>
  The decline of the subsidy: one fourteenth less per interval. \<open>nSubsidyBase\<close> is the amount
  \<^verbatim>\<open>GetBlockSubsidy\<close> computes from the difficulty in floating point; an interval of zero would not
  end the loop and is \<open>None\<close>. The amounts divided here are not negative, so rounding down is what
  C++ does.
\<close>

function decline_loop :: "int \<Rightarrow> int \<Rightarrow> int \<Rightarrow> CAmount \<Rightarrow> CAmount" where
  "decline_loop interval nPrevHeight i nSubsidy =
     (if 0 < interval \<and> i \<le> nPrevHeight
      then decline_loop interval nPrevHeight (i + interval) (nSubsidy - nSubsidy div 14)
      else nSubsidy)"
  by pat_completeness auto
termination
  by (relation "measure (\<lambda>(interval, h, i, n). nat (h + 1 - i))") auto

declare decline_loop.simps [simp del]

definition subsidy_parts :: "int \<Rightarrow> int \<Rightarrow> int \<Rightarrow> CAmount \<Rightarrow> bool \<Rightarrow> CAmount option" where
  "subsidy_parts nSubsidyHalvingInterval nBudgetPaymentsStartBlock nPrevHeight nSubsidyBase fSuperblockPartOnly =
     (if nSubsidyHalvingInterval \<le> 0 then None
      else let nSubsidy = decline_loop nSubsidyHalvingInterval nPrevHeight nSubsidyHalvingInterval (nSubsidyBase * COIN);
               nSuperblockPart = (if nPrevHeight > nBudgetPaymentsStartBlock then nSubsidy div 10 else 0)
           in Some (if fSuperblockPartOnly then nSuperblockPart else nSubsidy - nSuperblockPart))"

definition GetMasternodePayment :: "int \<Rightarrow> int \<Rightarrow> int \<Rightarrow> CAmount \<Rightarrow> CAmount" where
  "GetMasternodePayment nMNPIBlock nMNPIPeriod h blockValue =
     (let step = (\<lambda>k part. if h > nMNPIBlock + nMNPIPeriod * k then blockValue div part else 0)
      in blockValue div 5 + step 0 20 + step 1 20 + step 2 20 + step 3 40 + step 4 40 + step 5 40
         + step 6 40 + step 7 40 + step 9 40)"

section \<open>Undoing a block\<close>

text \<open>What a transaction does to the map of unspent outputs, and when it may be applied.\<close>

definition tx_effect :: "crypto \<Rightarrow> int \<Rightarrow> (COutPoint \<Rightarrow> Coin option) \<Rightarrow> CTransaction \<Rightarrow> COutPoint \<Rightarrow> Coin option" where
  "tx_effect cr h A tx =
     (if IsCoinBase tx then A else A |` (- prevout ` set (vin tx)))
     ++ new_coins (tx_GetHash cr tx) h (IsCoinBase tx) 0 (vout tx)"

definition tx_fits :: "crypto \<Rightarrow> (COutPoint \<Rightarrow> Coin option) \<Rightarrow> CTransaction \<Rightarrow> bool" where
  "tx_fits cr A tx \<longleftrightarrow>
     (\<not> IsCoinBase tx \<longrightarrow> distinct (map prevout (vin tx)) \<and> list_all (\<lambda>i. A (prevout i) \<noteq> None) (vin tx))
     \<and> length (vout tx) \<le> 2 ^ 32 \<and> list_all (\<lambda>o'. \<not> txout_IsNull o') (vout tx)
     \<and> list_all (\<lambda>k. A \<lparr>outHash = tx_GetHash cr tx, outN = of_nat k\<rparr> = None) [0..<length (vout tx)]"

fun block_fits :: "crypto \<Rightarrow> int \<Rightarrow> (COutPoint \<Rightarrow> Coin option) \<Rightarrow> CTransaction list \<Rightarrow> bool" where
  "block_fits cr h A [] = True"
| "block_fits cr h A (tx # txs) \<longleftrightarrow> tx_fits cr A tx \<and> block_fits cr h (tx_effect cr h A tx) txs"

definition utxo_ok :: "(COutPoint \<Rightarrow> Coin option) \<Rightarrow> bool" where
  "utxo_ok A \<longleftrightarrow> (\<forall>p c. A p = Some c \<longrightarrow> coinHeight c \<noteq> 0 \<and> \<not> IsUnspendable (scriptPubKey (coinOut c)))"

lemma restrict_map_uminus: "p \<in> S \<Longrightarrow> (f |` (- S)) p = None" "p \<notin> S \<Longrightarrow> (f |` (- S)) p = f p"
  by (simp_all add: restrict_map_def)

lemma new_coins_absent:
  assumes "tx_fits cr A tx" and "new_coins (tx_GetHash cr tx) h cb 0 (vout tx) p \<noteq> None"
  shows "A p = None"
proof -
  have p: "outHash p = tx_GetHash cr tx" "unat (outN p) < length (vout tx)"
    using assms(2) by (auto simp: new_coins_def Let_def split: if_splits)
  then have "p = \<lparr>outHash = tx_GetHash cr tx, outN = of_nat (unat (outN p))\<rparr>" by (cases p) simp
  moreover have "\<forall>k < length (vout tx). A \<lparr>outHash = tx_GetHash cr tx, outN = of_nat k\<rparr> = None"
    using assms(1) by (simp add: tx_fits_def list_all_iff)
  ultimately show ?thesis using p(2) by metis
qed

lemma UpdateCoins_spec:
  assumes "wf_cache v" and fits: "tx_fits cr (cache_coins v) tx"
  shows "\<exists>cs v'. UpdateCoins cr tx v h = Inr (cs, v') \<and> wf_cache v' \<and> cache_coins v' = tx_effect cr h (cache_coins v) tx
    \<and> map unspent cs = (if IsCoinBase tx then [] else map (cache_coins v \<circ> prevout) (vin tx))"
proof -
  let ?A = "cache_coins v"
  obtain cs v1 where v1: "(if \<not> IsCoinBase tx then spend_inputs SpendCoin (vin tx) v else Some ([], v)) = Some (cs, v1)"
    "wf_cache v1" "cache_coins v1 = (if IsCoinBase tx then ?A else ?A |` (- prevout ` set (vin tx)))"
    "map unspent cs = (if IsCoinBase tx then [] else map (?A \<circ> prevout) (vin tx))"
    using assms cache.spend_inputs_spec [OF assms(1), of "vin tx"]
    by (cases "IsCoinBase tx") (auto simp: tx_fits_def list_all_iff)
  have "cache_coins v1 \<lparr>outHash = tx_GetHash cr tx, outN = of_nat k\<rparr> = None" if "k < length (vout tx)" for k
    using fits that v1(3) by (simp add: tx_fits_def list_all_iff restrict_map_def)
  then obtain v2 where "AddCoins cr v1 tx h = Inr v2" "wf_cache v2"
    "cache_coins v2 = cache_coins v1 ++ new_coins (tx_GetHash cr tx) h (IsCoinBase tx) 0 (vout tx)"
    using cache.add_outputs_spec [OF v1(2), of "vout tx" 0 "IsCoinBase tx" "tx_GetHash cr tx" h] fits
    by (auto simp: AddCoins_def tx_fits_def list_all_iff)
  then show ?thesis using v1 unfolding UpdateCoins_def by (simp add: tx_effect_def)
qed

lemma disconnect_outputs_spec:
  "wf_cache v \<Longrightarrow> i + length os \<le> 2 ^ 32 \<Longrightarrow>
   \<exists>f' v'. disconnect_outputs txid h cb i os f v = (f', v') \<and> wf_cache v'
     \<and> cache_coins v' = cache_coins v |` (- dom (new_coins txid h' cb' i os))"
proof (induction os arbitrary: i f v)
  case (Cons o' os)
  let ?p = "\<lparr>outHash = txid, outN = of_nat i\<rparr> :: COutPoint"
  have "dom (Map.empty ++ new_coins txid h' cb' i (o' # os)) =
      (if IsUnspendable (scriptPubKey o') then {} else {?p}) \<union> dom (new_coins txid h' cb' (Suc i) os)"
    using Cons.prems(2) by (subst new_coins_Cons) (auto simp: dom_map_add)
  then have dom: "dom (new_coins txid h' cb' i (o' # os)) =
      (if IsUnspendable (scriptPubKey o') then {} else {?p}) \<union> dom (new_coins txid h' cb' (Suc i) os)" by simp
  have len: "Suc i + length os \<le> 2 ^ 32" using Cons.prems(2) by simp
  show ?case
  proof (cases "IsUnspendable (scriptPubKey o')")
    case True
    then show ?thesis using Cons.IH [OF Cons.prems(1) len, of f] dom by simp
  next
    case False
    obtain r v1 where sp: "SpendCoin v ?p = (r, v1)" by fastforce
    have s: "wf_cache v1" "cache_coins v1 = (cache_coins v)(?p := None)" using SpendCoin_spec [OF Cons.prems(1) sp] by auto
    have eq: "(cache_coins v)(?p := None) |` (- S) = cache_coins v |` (- ({?p} \<union> S))" for S
      by (auto simp: restrict_map_def fun_eq_iff)
    have "\<exists>f' v'. disconnect_outputs txid h cb (Suc i) os g v1 = (f', v') \<and> wf_cache v'
        \<and> cache_coins v' = cache_coins v |` (- dom (new_coins txid h' cb' i (o' # os)))" for g
      using Cons.IH [OF s(1) len, of g] False unfolding s(2) eq dom by simp
    then show ?thesis using sp False by (cases r) (simp_all only: disconnect_outputs.simps prod.case option.case if_True not_False_eq_True)
  qed
qed (simp add: restrict_map_def)

lemma ApplyTxInUndo_spec:
  assumes "wf_cache v" and "cache_coins v p = None" and "\<not> coin_IsSpent c" and "coinHeight c \<noteq> 0"
    and "\<not> IsUnspendable (scriptPubKey (coinOut c))"
  shows "\<exists>v'. ApplyTxInUndo c v p = Inr (DISCONNECT_OK, v') \<and> wf_cache v' \<and> cache_coins v' = (cache_coins v)(p \<mapsto> coin_stored c)"
proof -
  obtain r v1 where h: "HaveCoin v p = (r, v1)" by fastforce
  have v1: "wf_cache v1" "cache_coins v1 = cache_coins v" "\<not> r" using HaveCoin_spec [OF assms(1) h] assms(2) by auto
  obtain v2 where "AddCoin v1 p c (fCoinBase c) = Inr v2" "wf_cache v2" "cache_coins v2 = (cache_coins v)(p \<mapsto> coin_stored c)"
    using AddCoin_spec [OF v1(1) assms(3), of "fCoinBase c" p] assms(2,5) v1(2) by auto
  then show ?thesis using h v1(3) assms(4) by (simp add: ApplyTxInUndo_def Let_def)
qed

lemma restore_inputs_spec:
  "wf_cache v \<Longrightarrow> distinct (map (prevout \<circ> fst) l) \<Longrightarrow>
   \<forall>(i, c) \<in> set l. cache_coins v (prevout i) = None \<and> \<not> coin_IsSpent c \<and> coinHeight c \<noteq> 0
      \<and> \<not> IsUnspendable (scriptPubKey (coinOut c)) \<Longrightarrow>
   \<exists>v'. restore_inputs l f v = Inr (Some f, v') \<and> wf_cache v'
     \<and> cache_coins v' = cache_coins v ++ map_of (map (\<lambda>(i, c). (prevout i, coin_stored c)) l)"
proof (induction l arbitrary: v f)
  case (Cons ic l)
  obtain i c where ic: "ic = (i, c)" by (cases ic)
  from Cons.prems ic obtain v1 where v1: "ApplyTxInUndo c v (prevout i) = Inr (DISCONNECT_OK, v1)" "wf_cache v1"
    "cache_coins v1 = (cache_coins v)(prevout i \<mapsto> coin_stored c)"
    using ApplyTxInUndo_spec [OF Cons.prems(1), of "prevout i" c] by auto
  have p: "prevout i \<notin> prevout ` fst ` set l" using Cons.prems(2) ic by (auto simp: image_comp)
  then have "\<forall>(j, c) \<in> set l. cache_coins v1 (prevout j) = None \<and> \<not> coin_IsSpent c \<and> coinHeight c \<noteq> 0
      \<and> \<not> IsUnspendable (scriptPubKey (coinOut c))"
  proof (clarify)
    fix j d
    assume jd: "(j, d) \<in> set l"
    then have "prevout j \<in> prevout ` fst ` set l" by (metis fst_conv image_eqI)
    then have "prevout j \<noteq> prevout i" using p by metis
    then show "cache_coins v1 (prevout j) = None \<and> \<not> coin_IsSpent d \<and> coinHeight d \<noteq> 0
      \<and> \<not> IsUnspendable (scriptPubKey (coinOut d))"
      using Cons.prems(3) jd unfolding v1(3) by auto
  qed
  from Cons.IH [OF v1(2) _ this, of f] Cons.prems(2) obtain v2 where v2: "restore_inputs l f v1 = Inr (Some f, v2)" "wf_cache v2"
    "cache_coins v2 = cache_coins v1 ++ map_of (map (\<lambda>(i, c). (prevout i, coin_stored c)) l)" by (auto simp del: cache_coins.simps)
  let ?m = "map_of (map (\<lambda>(i, c). (prevout i, coin_stored c)) l)"
  have "?m (prevout i) = None" using p by (force simp: map_of_eq_None_iff)
  then have eq: "(cache_coins v)(prevout i \<mapsto> coin_stored c) ++ ?m = cache_coins v ++ ?m(prevout i \<mapsto> coin_stored c)"
    by (auto simp: fun_eq_iff map_add_def split: option.split)
  have eq': "map_of (map (\<lambda>(i, c). (prevout i, coin_stored c)) (ic # l)) = ?m(prevout i \<mapsto> coin_stored c)"
    using ic by (simp add: fun_upd_def)
  have "cache_coins v2 = cache_coins v ++ map_of (map (\<lambda>(i, c). (prevout i, coin_stored c)) (ic # l))"
    unfolding eq' v2(3) v1(3) by (rule eq)
  moreover have "restore_inputs (ic # l) f v = Inr (Some f, v2)" using ic v1(1) v2(1) by simp
  ultimately show ?case using v2(2) by blast
qed simp

lemma disconnect_tx_spec:
  assumes ok: "utxo_ok A" and fits: "tx_fits cr A tx" and wf: "wf_cache v"
    and eff: "cache_coins v = tx_effect cr h A tx"
    and cs: "map unspent cs = (if IsCoinBase tx then [] else map (A \<circ> prevout) (vin tx))"
  shows "\<exists>f' v'. disconnect_tx cr h tx (if IsCoinBase tx then None else Some cs) f v = Inr (Some f', v')
    \<and> wf_cache v' \<and> cache_coins v' = A"
proof -
  define new where "new = new_coins (tx_GetHash cr tx) h (IsCoinBase tx) 0 (vout tx)"
  have "0 + length (vout tx) \<le> 2 ^ 32" using fits by (simp add: tx_fits_def)
  then obtain f1 v1 where d: "disconnect_outputs (tx_GetHash cr tx) h (IsCoinBase tx) 0 (vout tx) f v = (f1, v1)" "wf_cache v1"
    "cache_coins v1 = cache_coins v |` (- dom new)"
    using disconnect_outputs_spec [OF wf] unfolding new_def by blast
  let ?B = "if IsCoinBase tx then A else A |` (- prevout ` set (vin tx))"
  have B: "cache_coins v1 = ?B"
  proof (rule ext)
    fix p
    show "cache_coins v1 p = ?B p"
      using new_coins_absent [OF fits, of h "IsCoinBase tx" p] unfolding d(3) eff tx_effect_def new_def [symmetric]
      by (cases "new p") (auto simp: restrict_map_def map_add_def)
  qed
  show ?thesis
  proof (cases "IsCoinBase tx")
    case True
    then show ?thesis using d B by (simp add: disconnect_tx_def)
  next
    case False
    have len: "length cs = length (vin tx)" using arg_cong [OF cs, of length] False by simp
    have dist: "distinct (map prevout (vin tx))" using fits False by (simp add: tx_fits_def)
    let ?l = "rev (zip (vin tx) cs)"
    have mem: "A (prevout i) = Some (coin_stored c) \<and> \<not> coin_IsSpent c" if "(i, c) \<in> set ?l" for i c
    proof -
      obtain k where k: "k < length (vin tx)" "i = vin tx ! k" "c = cs ! k"
        using \<open>(i, c) \<in> set ?l\<close> len by (auto simp: in_set_zip)
      have "unspent (cs ! k) = A (prevout (vin tx ! k))" using cs k(1) len False by (metis (no_types, lifting) comp_apply nth_map)
      moreover have "A (prevout (vin tx ! k)) \<noteq> None" using fits False k(1) by (simp add: tx_fits_def list_all_length)
      ultimately show ?thesis using k by (auto simp: unspent_def split: if_splits)
    qed
    have pre: "\<forall>(i, c) \<in> set ?l. cache_coins v1 (prevout i) = None \<and> \<not> coin_IsSpent c \<and> coinHeight c \<noteq> 0
        \<and> \<not> IsUnspendable (scriptPubKey (coinOut c))"
    proof (clarify)
      fix i c
      assume ic: "(i, c) \<in> set ?l"
      have "coinHeight (coin_stored c) \<noteq> 0" "\<not> IsUnspendable (scriptPubKey (coinOut (coin_stored c)))"
        using ok mem [OF ic] unfolding utxo_ok_def by blast+
      moreover have "i \<in> set (vin tx)" using ic by (auto dest: set_zip_leftD)
      ultimately show "cache_coins v1 (prevout i) = None \<and> \<not> coin_IsSpent c \<and> coinHeight c \<noteq> 0
          \<and> \<not> IsUnspendable (scriptPubKey (coinOut c))"
        using mem [OF ic] B False by (simp add: restrict_map_def coin_stored_def txout_stored_def)
    qed
    have keys: "map (prevout \<circ> fst) ?l = rev (map prevout (vin tx))" using len by (simp add: rev_map [symmetric] map_map [symmetric] del: map_map)
    have "distinct (map (prevout \<circ> fst) ?l)" unfolding keys using dist by simp
    from restore_inputs_spec [OF d(2) this pre, of f1] obtain v2 where v2: "restore_inputs ?l f1 v1 = Inr (Some f1, v2)" "wf_cache v2"
      "cache_coins v2 = cache_coins v1 ++ map_of (map (\<lambda>(i, c). (prevout i, coin_stored c)) ?l)" by blast
    let ?m = "map_of (map (\<lambda>(i, c). (prevout i, coin_stored c)) ?l)"
    have "cache_coins v2 = A"
    proof (rule ext)
      fix p
      show "cache_coins v2 p = A p"
      proof (cases "?m p")
        case None
        have "map fst (map (\<lambda>(i, c). (prevout i, coin_stored c)) ?l) = map (prevout \<circ> fst) ?l" by auto
        then have "p \<notin> prevout ` set (vin tx)" using None unfolding map_of_eq_None_iff keys
          by (metis list.set_map set_rev)
        then show ?thesis using None B False unfolding v2(3) by (simp add: restrict_map_def map_add_def)
      next
        case (Some x)
        then obtain i c where "(i, c) \<in> set ?l" "p = prevout i" "x = coin_stored c" by (auto dest!: map_of_SomeD)
        then show ?thesis using Some mem unfolding v2(3) by simp
      qed
    qed
    then show ?thesis using d(1) v2 len False by (simp add: disconnect_tx_def)
  qed
qed

lemma utxo_ok_effect: "utxo_ok A \<Longrightarrow> h mod 2 ^ 31 \<noteq> 0 \<Longrightarrow> utxo_ok (tx_effect cr h A tx)"
  by (auto simp: utxo_ok_def tx_effect_def map_add_Some_iff restrict_map_def new_coins_def coin_stored_def txout_stored_def mk_Coin_def Let_def
      split: if_splits)

fun undo_of :: "crypto \<Rightarrow> int \<Rightarrow> (COutPoint \<Rightarrow> Coin option) \<Rightarrow> CTransaction list \<Rightarrow> Coin option list list" where
  "undo_of cr h A [] = []"
| "undo_of cr h A (tx # txs) = (if IsCoinBase tx then [] else map (A \<circ> prevout) (vin tx)) # undo_of cr h (tx_effect cr h A tx) txs"

lemma connect_coins_spec:
  "wf_cache v \<Longrightarrow> block_fits cr h (cache_coins v) txs \<Longrightarrow>
   \<exists>us v'. connect_coins cr h txs v = Inr (us, v') \<and> wf_cache v' \<and> cache_coins v' = foldl (tx_effect cr h) (cache_coins v) txs
     \<and> map (map unspent) us = undo_of cr h (cache_coins v) txs"
proof (induction txs arbitrary: v)
  case (Cons tx txs)
  have "tx_fits cr (cache_coins v) tx" using Cons.prems(2) by simp
  from UpdateCoins_spec [OF Cons.prems(1) this, of h]
  obtain cs v1 where v1: "UpdateCoins cr tx v h = Inr (cs, v1)" "wf_cache v1" "cache_coins v1 = tx_effect cr h (cache_coins v) tx"
    "map unspent cs = (if IsCoinBase tx then [] else map (cache_coins v \<circ> prevout) (vin tx))"
    by blast
  then obtain us v2 where "connect_coins cr h txs v1 = Inr (us, v2)" "wf_cache v2"
    "cache_coins v2 = foldl (tx_effect cr h) (cache_coins v1) txs" "map (map unspent) us = undo_of cr h (cache_coins v1) txs"
    using Cons.IH [OF v1(2)] Cons.prems(2) by auto
  then show ?case using v1 by simp
qed simp

lemma disconnect_loop_append:
  "disconnect_loop cr h (xs @ ys) f v =
     (case disconnect_loop cr h xs f v of
        Inl e \<Rightarrow> Inl e
      | Inr (None, v) \<Rightarrow> Inr (None, v)
      | Inr (Some f, v) \<Rightarrow> disconnect_loop cr h ys f v)"
  by (induction cr h xs f v rule: disconnect_loop.induct) (simp_all split: sum.split prod.split option.split)

definition undo_entry :: "CTransaction \<Rightarrow> Coin list \<Rightarrow> CTransaction \<times> Coin list option" where
  "undo_entry tx cs = (tx, if IsCoinBase tx then None else Some cs)"

lemma disconnect_loop_spec:
  "utxo_ok A \<Longrightarrow> h mod 2 ^ 31 \<noteq> 0 \<Longrightarrow> block_fits cr h A txs \<Longrightarrow> wf_cache v \<Longrightarrow> cache_coins v = foldl (tx_effect cr h) A txs \<Longrightarrow>
   map (map unspent) us = undo_of cr h A txs \<Longrightarrow>
   \<exists>f' v'. disconnect_loop cr h (rev (map2 undo_entry txs us)) f v = Inr (Some f', v') \<and> wf_cache v' \<and> cache_coins v' = A"
proof (induction txs arbitrary: A us v f)
  case (Cons tx txs)
  obtain cs us' where us: "us = cs # us'" "map unspent cs = (if IsCoinBase tx then [] else map (A \<circ> prevout) (vin tx))"
    "map (map unspent) us' = undo_of cr h (tx_effect cr h A tx) txs"
    using Cons.prems(6) by (cases us) auto
  have "block_fits cr h (tx_effect cr h A tx) txs" "cache_coins v = foldl (tx_effect cr h) (tx_effect cr h A tx) txs"
    using Cons.prems(3,5) by auto
  from Cons.IH [OF utxo_ok_effect [OF Cons.prems(1,2)] Cons.prems(2) this(1) Cons.prems(4) this(2) us(3), of f]
  obtain f1 v1 where v1: "disconnect_loop cr h (rev (map2 undo_entry txs us')) f v = Inr (Some f1, v1)" "wf_cache v1"
    "cache_coins v1 = tx_effect cr h A tx" by blast
  have "tx_fits cr A tx" using Cons.prems(3) by simp
  from disconnect_tx_spec [OF Cons.prems(1) this v1(2,3) us(2), of f1]
  obtain f2 v2 where "disconnect_tx cr h tx (if IsCoinBase tx then None else Some cs) f1 v1 = Inr (Some f2, v2)"
    "wf_cache v2" "cache_coins v2 = A" by blast
  then show ?case using v1(1) us(1) by (simp add: disconnect_loop_append undo_entry_def)
qed simp

lemma GetBestBlock_keeps:
  "wf_view (snd (GetBestBlock v)) = wf_view v \<and> coins_of (snd (GetBestBlock v)) = coins_of v"
  "wf_cache (snd (cache_GetBestBlock k)) = wf_cache k \<and> cache_coins (snd (cache_GetBestBlock k)) = cache_coins k"
proof (induction v and k rule: GetBestBlock_cache_GetBestBlock.induct)
  case (2 c)
  then show ?case by (auto simp: fun_eq_iff split: prod.splits)
next
  case (3 b m h)
  then show ?case by (auto simp: fun_eq_iff split: prod.splits option.splits)
qed simp

lemma disconnect_after_connect:
  assumes wf: "wf_cache v" and ok: "utxo_ok (cache_coins v)" and h: "0 < h" "h < 2 ^ 31"
    and cb: "IsCoinBase tx" "list_all (\<lambda>t. \<not> IsCoinBase t) txs" and fits: "block_fits cr h (cache_coins v) (tx # txs)"
  shows "\<exists>us v1. connect_block_coins cr h (tx # txs) v = Inr (us, v1) \<and> wf_cache v1
    \<and> (\<forall>us' v2. wf_cache v2 \<longrightarrow> cache_coins v2 = cache_coins v1 \<longrightarrow> fst (cache_GetBestBlock v2) = hash
        \<longrightarrow> map (map unspent) us' = map (map unspent) us
        \<longrightarrow> (\<exists>r v3. DisconnectBlock cr (tx # txs) (Some us') h hash hashPrev v2 = Inr (r, v3)
             \<and> r \<noteq> DISCONNECT_FAILED \<and> wf_cache v3 \<and> cache_coins v3 = cache_coins v))"
proof -
  from connect_coins_spec [OF wf fits] obtain us v1 where c: "connect_coins cr h (tx # txs) v = Inr (us, v1)" "wf_cache v1"
    "cache_coins v1 = foldl (tx_effect cr h) (cache_coins v) (tx # txs)"
    "map (map unspent) us = undo_of cr h (cache_coins v) (tx # txs)" by blast
  have lu: "length us = length (tx # txs)"
  proof -
    have "length (undo_of cr h A ts) = length ts" for A ts by (induction ts arbitrary: A) simp_all
    then show ?thesis using arg_cong [OF c(4), of length] by simp
  qed
  have con: "connect_block_coins cr h (tx # txs) v = Inr (tl us, v1)" using c(1) by (simp only: connect_block_coins_def sum.case prod.case)
  have "\<exists>r v3. DisconnectBlock cr (tx # txs) (Some us') h hash hashPrev v2 = Inr (r, v3)
      \<and> r \<noteq> DISCONNECT_FAILED \<and> wf_cache v3 \<and> cache_coins v3 = cache_coins v"
    if v2: "wf_cache v2" "cache_coins v2 = cache_coins v1" "fst (cache_GetBestBlock v2) = hash"
      and us': "map (map unspent) us' = map (map unspent) (tl us)" for us' v2
  proof -
    obtain v4 where g: "cache_GetBestBlock v2 = (hash, v4)" using v2(3) by (cases "cache_GetBestBlock v2") auto
    have v4: "wf_cache v4" "cache_coins v4 = foldl (tx_effect cr h) (cache_coins v) (tx # txs)"
      using GetBestBlock_keeps(2) [of v2] g v2(1,2) c(3) by (simp_all del: cache_coins.simps)
    have len: "length us' = length txs" using arg_cong [OF us', of length] lu by simp
    have u: "map (map unspent) ([] # us') = undo_of cr h (cache_coins v) (tx # txs)"
      using c(4) us' cb(1) by (cases us) auto
    have "h mod 2 ^ 31 \<noteq> 0" using h by simp
    from disconnect_loop_spec [OF ok this fits v4(1) v4(2) u, of True]
    obtain f v5 where v5: "disconnect_loop cr h (rev (map2 undo_entry (tx # txs) ([] # us'))) True v4 = Inr (Some f, v5)"
      "wf_cache v5" "cache_coins v5 = cache_coins v" by blast
    have "map2 undo_entry (tx # txs) ([] # us') = zip (tx # txs) (None # map Some us')"
      using cb len by (intro nth_equalityI) (auto simp: undo_entry_def list_all_length nth_Cons' split: if_splits)
    then have "disconnect_loop cr h (rev (zip (tx # txs) (None # map Some us'))) True v4 = Inr (Some f, v5)" using v5(1) by simp
    then have d: "DisconnectBlock cr (tx # txs) (Some us') h hash hashPrev v2
        = Inr (if f then DISCONNECT_OK else DISCONNECT_UNCLEAN, SetBestBlock v5 hashPrev)"
      using g len unfolding DisconnectBlock_def by (simp del: zip_Cons_Cons disconnect_loop.simps)
    have "wf_cache (SetBestBlock v5 hashPrev)" "cache_coins (SetBestBlock v5 hashPrev) = cache_coins v"
      using v5(2,3) by (cases v5; auto simp: SetBestBlock_def fun_eq_iff)+
    then show ?thesis using d by (metis DisconnectResult.distinct(3,5))
  qed
  then show ?thesis using con c(2) by blast
qed

section \<open>Transaction checks\<close>

lemma has_duplicate_iff: "has_duplicate seen ps \<longleftrightarrow> \<not> (distinct ps \<and> set ps \<inter> set seen = {})"
  by (induction seen ps rule: has_duplicate.induct) auto

lemma check_outputs_iff:
  "MoneyRange a \<Longrightarrow> check_outputs os a = None \<longleftrightarrow> value_out_loop a os \<noteq> None"
  by (induction os arbitrary: a) (auto simp: Let_def MoneyRange_def)

lemma MoneyRange_0 [simp]: "MoneyRange 0"
  by (simp add: MoneyRange_def MAX_MONEY_def COIN_def)

lemma DoS_mode: "mode (DoS state l c r b) \<noteq> MODE_VALID"
  by (cases "mode state") (auto simp: DoS_def Let_def)

lemma Invalid_mode: "mode (Invalid state c r) \<noteq> MODE_VALID"
  by (simp add: Invalid_def DoS_mode)

text \<open>The sum of the coins the inputs spend.\<close>

definition input_value :: "(COutPoint \<Rightarrow> Coin option) \<Rightarrow> CTxIn list \<Rightarrow> CAmount" where
  "input_value A is = sum_list (map (\<lambda>i. nValue (coinOut (the (A (prevout i))))) is)"

definition input_ok :: "(COutPoint \<Rightarrow> Coin option) \<Rightarrow> int \<Rightarrow> CTxIn \<Rightarrow> bool" where
  "input_ok A nSpendHeight i =
     (case A (prevout i) of
        None \<Rightarrow> False
      | Some c \<Rightarrow> MoneyRange (nValue (coinOut c)) \<and> (fCoinBase c \<longrightarrow> nSpendHeight - coinHeight c \<ge> COINBASE_MATURITY))"

lemma input_ok_present: "input_ok A h i \<Longrightarrow> \<exists>c. A (prevout i) = Some c"
  by (auto simp: input_ok_def split: option.splits)

lemma have_loop_spec:
  "wf_cache k \<Longrightarrow> have_loop is k = (r, k') \<Longrightarrow>
   wf_cache k' \<and> cache_coins k' = cache_coins k \<and> (r \<longleftrightarrow> (\<forall>i \<in> set is. cache_coins k (prevout i) \<noteq> None))"
proof (induction "is" arbitrary: k)
  case (Cons i "is")
  obtain ok k1 where h: "HaveCoin k (prevout i) = (ok, k1)" by fastforce
  note sp = HaveCoin_spec [OF Cons.prems(1) h]
  show ?case
  proof (cases ok)
    case True
    then have "have_loop is k1 = (r, k')" using Cons.prems(2) h by simp
    from Cons.IH [OF _ this] sp True show ?thesis by simp
  next
    case False
    then show ?thesis using Cons.prems(2) h sp by auto
  qed
qed simp

lemma stored_fields [simp]:
  "nValue (coinOut (coin_stored c)) = nValue (coinOut c)" "fCoinBase (coin_stored c) = fCoinBase c"
  "coinHeight (coin_stored c) = coinHeight c" "scriptPubKey (coinOut (coin_stored c)) = scriptPubKey (coinOut c)"
  by (simp_all add: coin_stored_def txout_stored_def)

lemma input_value_nonneg: "\<forall>i \<in> set is. input_ok A h i \<Longrightarrow> 0 \<le> input_value A is"
  unfolding input_value_def by (rule sum_list_nonneg) (auto simp: input_ok_def MoneyRange_def split: option.splits)

lemma txin_loop_spec:
  assumes "wf_cache k" and "\<forall>i \<in> set is. cache_coins k (prevout i) \<noteq> None" and "MoneyRange a"
  shows "\<exists>r k'. txin_loop is h state a k = Some (r, k') \<and> wf_cache k' \<and> cache_coins k' = cache_coins k
    \<and> (case r of
          Inl st \<Rightarrow> mode st \<noteq> MODE_VALID \<and> \<not> ((\<forall>i \<in> set is. input_ok (cache_coins k) h i) \<and> a + input_value (cache_coins k) is \<le> MAX_MONEY)
        | Inr v \<Rightarrow> (\<forall>i \<in> set is. input_ok (cache_coins k) h i) \<and> v = a + input_value (cache_coins k) is \<and> MoneyRange v)"
  using assms
proof (induction "is" arbitrary: k a)
  case (Cons i "is")
  obtain c k1 where ac: "AccessCoin k (prevout i) = (c, k1)" by fastforce
  have k1: "wf_cache k1" "cache_coins k1 = cache_coins k" "unspent c = cache_coins k (prevout i)"
    using AccessCoin_spec [OF Cons.prems(1) ac] by auto
  then have ns: "\<not> coin_IsSpent c" using Cons.prems(2) by (auto simp: unspent_def)
  then have A: "cache_coins k (prevout i) = Some (coin_stored c)" using k1(3) by simp
  have iv: "input_value (cache_coins k) (i # is) = nValue (coinOut c) + input_value (cache_coins k) is"
    using A by (simp add: input_value_def)
  show ?case
  proof (cases "input_ok (cache_coins k) h i \<and> MoneyRange (a + nValue (coinOut c))")
    case True
    then have ok: "MoneyRange (nValue (coinOut c))" "\<not> (fCoinBase c \<and> h - coinHeight c < COINBASE_MATURITY)"
      using A by (auto simp: input_ok_def)
    then have eq: "txin_loop (i # is) h state a k = txin_loop is h state (a + nValue (coinOut c)) k1"
      using True ac ns by (auto simp: Let_def)
    have "\<forall>j \<in> set is. cache_coins k1 (prevout j) \<noteq> None" using Cons.prems(2) k1(2) by simp
    from Cons.IH [OF k1(1) this, of "a + nValue (coinOut c)"] True obtain r k2 where
      R: "txin_loop is h state (a + nValue (coinOut c)) k1 = Some (r, k2)" "wf_cache k2" "cache_coins k2 = cache_coins k"
      "case r of
          Inl st \<Rightarrow> mode st \<noteq> MODE_VALID \<and> \<not> ((\<forall>i \<in> set is. input_ok (cache_coins k) h i)
              \<and> a + nValue (coinOut c) + input_value (cache_coins k) is \<le> MAX_MONEY)
        | Inr v \<Rightarrow> (\<forall>i \<in> set is. input_ok (cache_coins k) h i)
              \<and> v = a + nValue (coinOut c) + input_value (cache_coins k) is \<and> MoneyRange v"
      unfolding k1(2) by blast
    then show ?thesis using True unfolding eq iv by (cases r) (auto simp: add.assoc)
  next
    case False
    have "\<not> ((\<forall>i \<in> set (i # is). input_ok (cache_coins k) h i) \<and> a + input_value (cache_coins k) (i # is) \<le> MAX_MONEY)"
    proof
      assume H: "(\<forall>i \<in> set (i # is). input_ok (cache_coins k) h i) \<and> a + input_value (cache_coins k) (i # is) \<le> MAX_MONEY"
      then have "0 \<le> input_value (cache_coins k) is" using input_value_nonneg by auto
      moreover have "MoneyRange (nValue (coinOut c))" using H A by (auto simp: input_ok_def)
      ultimately show False using H False Cons.prems(3) iv by (auto simp: MoneyRange_def)
    qed
    moreover have "\<exists>st. txin_loop (i # is) h state a k = Some (Inl st, k1) \<and> mode st \<noteq> MODE_VALID"
      using False ac ns A by (auto simp: Let_def input_ok_def Invalid_mode DoS_mode)
    ultimately show ?thesis using k1 by auto
  qed
qed (simp add: input_value_def)

lemma CheckTxInputs_spec:
  assumes wf: "wf_cache k" and cb: "\<not> IsCoinBase tx" and vo: "GetValueOut tx = Some out"
  shows "\<exists>ok st k'. CheckTxInputs tx state k h = Some (ok, st, k') \<and> wf_cache k' \<and> cache_coins k' = cache_coins k
    \<and> (if ok then st = state else mode st \<noteq> MODE_VALID)
    \<and> (ok \<longleftrightarrow> list_all (input_ok (cache_coins k) h) (vin tx) \<and> input_value (cache_coins k) (vin tx) \<le> MAX_MONEY
          \<and> out \<le> input_value (cache_coins k) (vin tx))"
proof -
  let ?A = "cache_coins k"
  have out: "0 \<le> out" using vo value_out_loop_iff [OF MoneyRange_0, of "vout tx" out]
    by (auto simp: GetValueOut_def list_all_iff MoneyRange_def intro!: sum_list_nonneg)
  obtain r k1 where hv: "HaveInputs k tx = (r, k1)" by fastforce
  then have k1: "wf_cache k1" "cache_coins k1 = ?A" "r \<longleftrightarrow> (\<forall>i \<in> set (vin tx). ?A (prevout i) \<noteq> None)"
    using have_loop_spec [OF wf, of "vin tx" r k1] cb by (simp_all add: HaveInputs_def)
  show ?thesis
  proof (cases r)
    case False
    then have "\<not> list_all (input_ok ?A h) (vin tx)"
      using k1(3) input_ok_present [of ?A h] by (auto simp: list_all_iff)
    moreover have "CheckTxInputs tx state k h = Some (False, Invalid state 0 '''', k1)"
      using False hv by (simp add: CheckTxInputs_def)
    ultimately show ?thesis using k1(1,2) Invalid_mode [of state 0 "''''"]
      by (intro exI [of _ False]) simp
  next
    case True
    then have "\<forall>i \<in> set (vin tx). cache_coins k1 (prevout i) \<noteq> None" using k1(2,3) by simp
    from txin_loop_spec [OF k1(1) this MoneyRange_0, of h state]
    obtain r2 k2 where l: "txin_loop (vin tx) h state 0 k1 = Some (r2, k2)" "wf_cache k2" "cache_coins k2 = ?A"
      "case r2 of Inl st \<Rightarrow> mode st \<noteq> MODE_VALID \<and> \<not> ((\<forall>i \<in> set (vin tx). input_ok ?A h i) \<and> 0 + input_value ?A (vin tx) \<le> MAX_MONEY)
       | Inr v \<Rightarrow> (\<forall>i \<in> set (vin tx). input_ok ?A h i) \<and> v = 0 + input_value ?A (vin tx) \<and> MoneyRange v"
      unfolding k1(2) by blast
    show ?thesis
    proof (cases r2)
      case (Inl st)
      then show ?thesis using l hv True by (auto simp: CheckTxInputs_def list_all_iff)
    next
      case (Inr v)
      then show ?thesis using l hv True vo out by (auto simp: CheckTxInputs_def list_all_iff Let_def DoS_mode MoneyRange_def)
    qed
  qed
qed

section \<open>Lock times\<close>

text \<open>Lower bounds the sequence lock computation keeps for every input it counts.\<close>

definition seq_bound :: "store \<Rightarrow> addr \<Rightarrow> int \<Rightarrow> int \<Rightarrow> CTxIn \<Rightarrow> int \<Rightarrow> bool" where
  "seq_bound s block H T i h \<longleftrightarrow>
     nSequence i AND word_of_int SEQUENCE_LOCKTIME_DISABLE_FLAG = 0 \<longrightarrow>
       (if nSequence i AND SEQUENCE_LOCKTIME_TYPE_FLAG = 0
        then h + int (unat (nSequence i AND SEQUENCE_LOCKTIME_MASK)) - 1 \<le> H
        else \<exists>q. GetAncestor s block (max (h - 1) 0) = Some (Some q)
             \<and> GetMedianTimePast s q + int (unat (nSequence i AND SEQUENCE_LOCKTIME_MASK)) * 512 - 1 \<le> T)"

lemma seq_lock_bounds:
  assumes "seq_lock_loop s block is hs mh mt = Some (H, T, hs')"
  shows "mh \<le> H \<and> mt \<le> T \<and> list_all2 (seq_bound s block H T) is hs"
  using assms
proof (induction s block "is" hs mh mt arbitrary: hs' rule: seq_lock_loop.induct)
  case (1 s block txin "is" h hs mh mt)
  let ?l = "int (unat (nSequence txin AND SEQUENCE_LOCKTIME_MASK))"
  have g: "2 ^ SEQUENCE_LOCKTIME_GRANULARITY = (512 :: int)" by (simp add: SEQUENCE_LOCKTIME_GRANULARITY_def)
  consider (dis) "nSequence txin AND word_of_int SEQUENCE_LOCKTIME_DISABLE_FLAG \<noteq> 0"
    | (height) "\<not> nSequence txin AND word_of_int SEQUENCE_LOCKTIME_DISABLE_FLAG \<noteq> 0" "\<not> nSequence txin AND SEQUENCE_LOCKTIME_TYPE_FLAG \<noteq> 0"
    | (time) "\<not> nSequence txin AND word_of_int SEQUENCE_LOCKTIME_DISABLE_FLAG \<noteq> 0" "nSequence txin AND SEQUENCE_LOCKTIME_TYPE_FLAG \<noteq> 0" by blast
  then show ?case
  proof cases
    case dis
    then obtain r where "seq_lock_loop s block is hs mh mt = Some (H, T, r)" using "1.prems" by auto
    from "1.IH"(1) [OF dis this] show ?thesis using dis by (simp add: seq_bound_def)
  next
    case height
    then obtain r where r: "seq_lock_loop s block is hs (max mh (h + ?l - 1)) mt = Some (H, T, r)"
      using "1.prems" by (auto simp: Let_def)
    from "1.IH"(3) [OF height(1) refl height(2) r] height show ?thesis by (simp add: seq_bound_def)
  next
    case time
    then obtain q r where r: "GetAncestor s block (max (h - 1) 0) = Some (Some q)"
      "seq_lock_loop s block is hs mh (max mt (GetMedianTimePast s q + ?l * 2 ^ SEQUENCE_LOCKTIME_GRANULARITY - 1)) = Some (H, T, r)"
      using "1.prems" by (auto simp: Let_def split: option.splits)
    from "1.IH"(2) [OF time(1) refl time(2) r(1) refl refl r(2)] time r(1) show ?thesis by (simp add: seq_bound_def g)
  qed
qed simp_all

text \<open>The type flag and the value of a sequence number as masks of an integer.\<close>

lemma and_push_bit_one: "(x :: int) AND push_bit n 1 = (if bit x n then push_bit n 1 else 0)"
  by (rule bit_eqI) (auto simp: bit_simps)

lemma seq_mask_split:
  fixes x :: int
  shows "x AND 0x40FFFF = (x AND 0x400000) + (x AND 0xFFFF)" "x AND 0x400000 = 0 \<or> x AND 0x400000 = 0x400000"
    "0 \<le> x AND 0xFFFF" "x AND 0xFFFF < 0x10000"
proof -
  have e: "(0x400000 :: int) = push_bit 22 1" "(0xFFFF :: int) = mask 16" by (simp_all add: mask_numeral)
  have m: "(0x40FFFF :: int) = 0x400000 OR 0xFFFF" by simp
  have "(x AND 0x400000) AND (x AND 0xFFFF) = x AND x AND (0x400000 AND 0xFFFF)" by (simp only: and.left_commute and.commute and.assoc)
  also have "\<dots> = 0" by simp
  finally show "x AND 0x40FFFF = (x AND 0x400000) + (x AND 0xFFFF)"
    unfolding m by (simp only: disjunctive_add_eq_or bit.conj_disj_distrib)
  show "x AND 0x400000 = 0 \<or> x AND 0x400000 = 0x400000" unfolding e(1) and_push_bit_one by metis
  have t: "x AND 0xFFFF = take_bit 16 x" by (simp only: e(2) take_bit_eq_mask)
  show "0 \<le> x AND 0xFFFF" unfolding t by simp
  show "x AND 0xFFFF < 0x10000" unfolding t using take_bit_int_less_exp [of 16 x] by simp
qed

lemma int_unat_and: "int (unat (a AND b)) = int (unat a) AND int (unat (b :: u32))"
  by (simp add: unsigned_and_eq of_nat_and_eq)

lemma CheckSequence_le:
  assumes "tx_CheckSequence tx n sq"
  defines "a \<equiv> nSequence (vin tx ! n)"
  shows "(word_of_int (txVersion tx) :: u32) \<ge> 2" "a AND word_of_int SEQUENCE_LOCKTIME_DISABLE_FLAG = 0"
    "a AND SEQUENCE_LOCKTIME_TYPE_FLAG = 0 \<longleftrightarrow> sq AND 0x400000 = 0"
    "sq AND 0xFFFF \<le> int (unat (a AND SEQUENCE_LOCKTIME_MASK))"
proof -
  have m: "int (unat (SEQUENCE_LOCKTIME_TYPE_FLAG OR SEQUENCE_LOCKTIME_MASK)) = 0x40FFFF" "int (unat SEQUENCE_LOCKTIME_TYPE_FLAG) = 0x400000"
    by (simp_all add: SEQUENCE_LOCKTIME_TYPE_FLAG_def SEQUENCE_LOCKTIME_MASK_def)
  note c = assms(1) [unfolded tx_CheckSequence_def Let_def m SEQUENCE_LOCKTIME_DISABLE_FLAG_def]
  show "(word_of_int (txVersion tx) :: u32) \<ge> 2" using c by (auto split: if_splits)
  have d: "int (unat a) AND 0x80000000 = 0" using c by (auto simp: a_def split: if_splits)
  have "int (unat (a AND word_of_int SEQUENCE_LOCKTIME_DISABLE_FLAG)) = 0"
    unfolding int_unat_and using d by (simp add: SEQUENCE_LOCKTIME_DISABLE_FLAG_def)
  then show "a AND word_of_int SEQUENCE_LOCKTIME_DISABLE_FLAG = 0" by (simp only: of_nat_eq_0_iff unat_eq_0)
  have t: "a AND SEQUENCE_LOCKTIME_TYPE_FLAG = 0 \<longleftrightarrow> int (unat a) AND 0x400000 = 0"
    using int_unat_and [of a SEQUENCE_LOCKTIME_TYPE_FLAG] m(2) by (metis of_nat_eq_0_iff unat_eq_0)
  have v: "int (unat (a AND SEQUENCE_LOCKTIME_MASK)) = int (unat a) AND 0xFFFF"
    unfolding int_unat_and by (simp add: SEQUENCE_LOCKTIME_MASK_def)
  have same: "(int (unat a) AND 0x40FFFF < 0x400000 \<longleftrightarrow> sq AND 0x40FFFF < 0x400000) \<and> sq AND 0x40FFFF \<le> int (unat a) AND 0x40FFFF"
    using c by (auto simp: a_def split: if_splits)
  show "a AND SEQUENCE_LOCKTIME_TYPE_FLAG = 0 \<longleftrightarrow> sq AND 0x400000 = 0"
    "sq AND 0xFFFF \<le> int (unat (a AND SEQUENCE_LOCKTIME_MASK))"
    using same seq_mask_split [of "int (unat a)"] seq_mask_split [of sq] unfolding t v by linarith+
qed

lemma CheckTransaction_iff_lemma:
  "fst (CheckTransaction tx state) \<longleftrightarrow>
     vin tx \<noteq> [] \<and> vout tx \<noteq> [] \<and> length (ser_tx tx) \<le> MAX_LEGACY_BLOCK_SIZE \<and> GetValueOut tx \<noteq> None
     \<and> distinct (map prevout (vin tx))
     \<and> (if IsCoinBase tx then 2 \<le> length (scriptSig (vin tx ! 0)) \<and> length (scriptSig (vin tx ! 0)) \<le> 100
        else list_all (\<lambda>i. \<not> outpoint_IsNull (prevout i)) (vin tx))"
proof -
  have "check_outputs (vout tx) 0 = None \<longleftrightarrow> GetValueOut tx \<noteq> None"
    by (simp add: check_outputs_iff GetValueOut_def)
  then show ?thesis
    by (cases "check_outputs (vout tx) 0")
       (auto simp: CheckTransaction_def has_duplicate_iff list_all_iff list_ex_iff not_less)
qed

lemma CheckTransaction_state:
  "CheckTransaction tx state = (ok, st) \<Longrightarrow> if ok then st = state else mode st \<noteq> MODE_VALID"
  by (auto simp: CheckTransaction_def DoS_mode split: if_splits option.splits)

section \<open>Properties\<close>

text \<open>
  C17. The context-free check accepts exactly the transactions with inputs and outputs, a size
  within the block limit, outputs and their total in the money range, no input twice, a
  coinbase script of 2 to 100 bytes and no null input elsewhere; then the state is unchanged,
  and on rejection it is no longer valid.
\<close>

theorem CheckTransaction_correct:
  "(fst (CheckTransaction tx state) \<longleftrightarrow>
      vin tx \<noteq> [] \<and> vout tx \<noteq> [] \<and> length (ser_tx tx) \<le> MAX_LEGACY_BLOCK_SIZE
      \<and> list_all (\<lambda>o'. MoneyRange (nValue o')) (vout tx) \<and> sum_list (map nValue (vout tx)) \<le> MAX_MONEY
      \<and> distinct (map prevout (vin tx))
      \<and> (if IsCoinBase tx then 2 \<le> length (scriptSig (vin tx ! 0)) \<and> length (scriptSig (vin tx ! 0)) \<le> 100
         else list_all (\<lambda>i. \<not> outpoint_IsNull (prevout i)) (vin tx)))
   \<and> (if fst (CheckTransaction tx state) then snd (CheckTransaction tx state) = state
      else mode (snd (CheckTransaction tx state)) \<noteq> MODE_VALID)"
proof
  have "GetValueOut tx \<noteq> None \<longleftrightarrow> list_all (\<lambda>o'. MoneyRange (nValue o')) (vout tx) \<and> sum_list (map nValue (vout tx)) \<le> MAX_MONEY"
    using value_out_loop_iff [OF MoneyRange_0, of "vout tx"] by (auto simp: GetValueOut_def)
  then show "fst (CheckTransaction tx state) \<longleftrightarrow>
      vin tx \<noteq> [] \<and> vout tx \<noteq> [] \<and> length (ser_tx tx) \<le> MAX_LEGACY_BLOCK_SIZE
      \<and> list_all (\<lambda>o'. MoneyRange (nValue o')) (vout tx) \<and> sum_list (map nValue (vout tx)) \<le> MAX_MONEY
      \<and> distinct (map prevout (vin tx))
      \<and> (if IsCoinBase tx then 2 \<le> length (scriptSig (vin tx ! 0)) \<and> length (scriptSig (vin tx ! 0)) \<le> 100
         else list_all (\<lambda>i. \<not> outpoint_IsNull (prevout i)) (vin tx))"
    using CheckTransaction_iff_lemma [of tx state] by blast
  show "if fst (CheckTransaction tx state) then snd (CheckTransaction tx state) = state
      else mode (snd (CheckTransaction tx state)) \<noteq> MODE_VALID"
    using CheckTransaction_state [of tx state] by (cases "CheckTransaction tx state") simp
qed

text \<open>
  C16. No value out of nothing: for a transaction that passed the context-free check, the check of
  its inputs never hits an assertion or an exception, leaves the set of unspent outputs as it
  is, and accepts exactly when every input is unspent, in the money range and, if it comes from
  a coinbase, mature, and the outputs do not exceed the inputs.
\<close>

theorem CheckTxInputs_correct:
  assumes "wf_cache k" and "\<not> IsCoinBase tx" and "GetValueOut tx = Some out"
  shows "\<exists>ok st k'. CheckTxInputs tx state k h = Some (ok, st, k') \<and> wf_cache k' \<and> cache_coins k' = cache_coins k
    \<and> (if ok then st = state else mode st \<noteq> MODE_VALID)
    \<and> (ok \<longleftrightarrow> list_all (input_ok (cache_coins k) h) (vin tx) \<and> input_value (cache_coins k) (vin tx) \<le> MAX_MONEY
          \<and> out \<le> input_value (cache_coins k) (vin tx))"
  by (rule CheckTxInputs_spec [OF assms])

theorem CheckTxInputs_correct_witness: "\<exists>st k'. CheckTxInputs tx_sample state_init sample_cache 9 = Some (False, st, k')"
proof -
  have "\<not> IsCoinBase tx_sample" "GetValueOut tx_sample = Some 5000" by (code_simp, code_simp)
  then obtain ok st k' where c: "CheckTxInputs tx_sample state_init sample_cache 9 = Some (ok, st, k')"
    "ok \<longleftrightarrow> list_all (input_ok (cache_coins sample_cache) 9) (vin tx_sample)
      \<and> input_value (cache_coins sample_cache) (vin tx_sample) \<le> MAX_MONEY \<and> 5000 \<le> input_value (cache_coins sample_cache) (vin tx_sample)"
    using CheckTxInputs_correct [OF sample_cache_wf, of tx_sample 5000 state_init 9] by blast
  have "\<not> list_all (input_ok (cache_coins sample_cache) 9) (vin tx_sample)"
    by (simp add: tx_sample_def input_ok_def sample_cache_def outpoint_null_def)
  then show ?thesis using c by metis
qed

text \<open>
  C18. Lock times hold what scripts promise. If a script required an absolute lock time with
  \<^verbatim>\<open>OP_CHECKLOCKTIMEVERIFY\<close> and the transaction is final for a block, the block's height or time
  is past it. If a script required a relative lock with \<^verbatim>\<open>OP_CHECKSEQUENCEVERIFY\<close> and the
  transaction passes the sequence locks of a block, the block is at least that many blocks, or
  units of 512 seconds of median time, after the spent output.
\<close>

theorem lock_times_sound:
  assumes "n < length (vin tx)"
  shows "(tx_CheckLockTime tx n lock \<longrightarrow> IsFinalTx tx h t \<longrightarrow> 0 < lock \<longrightarrow> lock < (if lock < LOCKTIME_THRESHOLD then h else t))
    \<and> (tx_CheckSequence tx n sq \<longrightarrow> SequenceLocks s tx LOCKTIME_VERIFY_SEQUENCE hs block = Some True \<longrightarrow>
        (if sq AND 0x400000 = 0 then hs ! n + (sq AND 0xFFFF) \<le> nHeight (s block)
         else \<exists>q b. GetAncestor s block (max (hs ! n - 1) 0) = Some (Some q) \<and> pprev (s block) = Some b
              \<and> GetMedianTimePast s q + (sq AND 0xFFFF) * 512 \<le> GetMedianTimePast s b))"
proof (intro conjI impI)
  assume c: "tx_CheckLockTime tx n lock" and f: "IsFinalTx tx h t" and l: "0 < lock"
  have nf: "nSequence (vin tx ! n) \<noteq> SEQUENCE_FINAL" using c by (auto simp: tx_CheckLockTime_def Let_def split: if_splits)
  have le: "lock \<le> int (unat (nLockTime tx))"
    "lock < LOCKTIME_THRESHOLD \<longleftrightarrow> int (unat (nLockTime tx)) < LOCKTIME_THRESHOLD"
    using c by (auto simp: tx_CheckLockTime_def Let_def simp del: of_nat_unat split: if_splits)
  then have "nLockTime tx \<noteq> 0" using l by auto
  moreover have "\<not> list_all (\<lambda>txin. nSequence txin = SEQUENCE_FINAL) (vin tx)" using nf assms by (auto simp: list_all_length)
  ultimately have "int (unat (nLockTime tx)) < (if int (unat (nLockTime tx)) < LOCKTIME_THRESHOLD then h else t)"
    using f unfolding IsFinalTx_def Let_def by (metis (full_types))
  then show "lock < (if lock < LOCKTIME_THRESHOLD then h else t)" using le by (auto split: if_splits)
next
  assume c: "tx_CheckSequence tx n sq" and sl: "SequenceLocks s tx LOCKTIME_VERIFY_SEQUENCE hs block = Some True"
  note cs = CheckSequence_le [OF c]
  obtain H T r where r: "seq_lock_loop s block (vin tx) hs (- 1) (- 1) = Some (H, T, r)"
    and ev: "EvaluateSequenceLocks s block (H, T) = Some True"
    using sl cs(1) by (auto simp: SequenceLocks_def CalculateSequenceLocks_def LOCKTIME_VERIFY_SEQUENCE_def split: if_splits option.splits)
  obtain b where b: "pprev (s block) = Some b" "H < nHeight (s block)" "T < GetMedianTimePast s b"
    using ev by (auto simp: EvaluateSequenceLocks_def split: option.splits)
  have "seq_bound s block H T (vin tx ! n) (hs ! n)"
    using seq_lock_bounds [OF r] assms by (auto dest: list_all2_nthD)
  then show "if sq AND 0x400000 = 0 then hs ! n + (sq AND 0xFFFF) \<le> nHeight (s block)
      else \<exists>q b. GetAncestor s block (max (hs ! n - 1) 0) = Some (Some q) \<and> pprev (s block) = Some b
              \<and> GetMedianTimePast s q + (sq AND 0xFFFF) * 512 \<le> GetMedianTimePast s b"
    using cs(2-) b unfolding seq_bound_def by (auto split: if_splits simp del: of_nat_unat)
qed

theorem lock_times_sound_witness:
  "tx_CheckLockTime tx_sample 0 50 \<and> IsFinalTx tx_sample 101 0 \<and> (50 :: int) < 101"
proof -
  have c: "tx_CheckLockTime tx_sample 0 50" "IsFinalTx tx_sample 101 0" by code_simp+
  have "0 < length (vin tx_sample)" by (simp add: tx_sample_def)
  from lock_times_sound [OF this, of 50 101 0] c show ?thesis by (simp add: LOCKTIME_THRESHOLD_def)
qed

text \<open>
  C4. Disconnecting a block undoes it. A block whose transactions fit the set of unspent outputs
  (inputs there and distinct, no output overwrites a coin) is applied without hitting an
  assertion; disconnecting it from any well-formed view of the resulting set, flushed or not,
  with the undo data as recorded or as read back from disk, does not fail or throw and gives
  exactly the set from before.
\<close>

theorem disconnect_undoes_connect:
  assumes "wf_cache v" and "utxo_ok (cache_coins v)" and "0 < h" and "h < 2 ^ 31"
    and "IsCoinBase tx" and "list_all (\<lambda>t. \<not> IsCoinBase t) txs" and "block_fits cr h (cache_coins v) (tx # txs)"
  shows "\<exists>us v1. connect_block_coins cr h (tx # txs) v = Inr (us, v1) \<and> wf_cache v1
    \<and> (\<forall>us' v2. wf_cache v2 \<longrightarrow> cache_coins v2 = cache_coins v1 \<longrightarrow> fst (cache_GetBestBlock v2) = hash
        \<longrightarrow> map (map unspent) us' = map (map unspent) us
        \<longrightarrow> (\<exists>r v3. DisconnectBlock cr (tx # txs) (Some us') h hash hashPrev v2 = Inr (r, v3)
             \<and> r \<noteq> DISCONNECT_FAILED \<and> wf_cache v3 \<and> cache_coins v3 = cache_coins v))"
  by (rule disconnect_after_connect [OF assms])

definition sample_hash :: crypto where
  "sample_hash = sample_crypto\<lparr>Hash256 := take 32\<rparr>"

definition sample_view :: CCoinsViewCache where
  "sample_view = Cache (ViewDB (\<lambda>p. if p = \<lparr>outHash = replicate 32 7, outN = 1\<rparr> then Some sample_coin else None) (replicate 32 1)) [] (replicate 32 1)"

definition sample_coinbase :: "bytes \<Rightarrow> CTransaction" where
  "sample_coinbase img = \<lparr>txVersion = 1, vin = [\<lparr>prevout = outpoint_null, scriptSig = [1, 6], nSequence = - 1\<rparr>],
     vout = [\<lparr>nValue = 50, scriptPubKey = [0x51], imgbase64 = img, nRounds = - 10\<rparr>], nLockTime = 0\<rparr>"

lemma sample_view_ok: "wf_cache sample_view" "utxo_ok (cache_coins sample_view)"
  by (simp_all add: sample_view_def sample_coin_def coin_IsSpent_def txout_IsNull_def coin_stored_def txout_stored_def mk_Coin_def
      utxo_ok_def IsUnspendable_def MAX_SCRIPT_SIZE_def)

lemma sample_block_fits: "block_fits sample_hash 6 (cache_coins sample_view) [sample_coinbase [], tx_sample]"
proof -
  let ?p = "\<lparr>outHash = replicate 32 7, outN = 1\<rparr> :: COutPoint" and ?c = "tx_GetHash sample_hash (sample_coinbase [])"
    and ?t = "tx_GetHash sample_hash tx_sample"
  have hd: "hd ?c = 1" "hd ?t = 2" by code_simp+
  have A: "cache_coins sample_view p = (if p = ?p then Some sample_coin else None)" for p
    by (simp add: sample_view_def)
  have cb: "IsCoinBase (sample_coinbase [])" "\<not> IsCoinBase tx_sample" by code_simp+
  have ne: "?c \<noteq> replicate 32 7" "?t \<noteq> replicate 32 7" "?c \<noteq> ?t" using hd by auto
  have fits: "tx_fits sample_hash (cache_coins sample_view) (sample_coinbase [])"
    using cb(1) ne(1) A by (simp add: tx_fits_def) (simp add: sample_coinbase_def txout_IsNull_def)
  have "tx_effect sample_hash 6 (cache_coins sample_view) (sample_coinbase []) \<lparr>outHash = ?t, outN = n\<rparr> = None" for n
    using cb(1) ne A by (simp add: tx_effect_def new_coins_def map_add_def Let_def)
  moreover have "tx_effect sample_hash 6 (cache_coins sample_view) (sample_coinbase []) ?p \<noteq> None"
    using cb(1) A by (simp add: tx_effect_def map_add_None)
  ultimately have "tx_fits sample_hash (tx_effect sample_hash 6 (cache_coins sample_view) (sample_coinbase [])) tx_sample"
    using cb(2) by (simp add: tx_fits_def) (simp add: tx_sample_def txout_IsNull_def)
  then show ?thesis using fits by simp
qed

theorem disconnect_undoes_connect_witness:
  "\<exists>us v1. connect_block_coins sample_hash 6 [sample_coinbase [], tx_sample] sample_view = Inr (us, v1) \<and> wf_cache v1"
proof -
  have "IsCoinBase (sample_coinbase [])" "list_all (\<lambda>t. \<not> IsCoinBase t) [tx_sample]" by code_simp+
  then show ?thesis
    using disconnect_undoes_connect [OF sample_view_ok, of 6 "sample_coinbase []" "[tx_sample]" sample_hash "[]" "[]"] sample_block_fits by auto
qed

text \<open>
  A block that pays to an output with image data and is flushed to the database cannot be
  disconnected cleanly: the image is gone from the stored coin, so the output no longer
  matches. Without the flush the same block is disconnected cleanly.
\<close>

definition disconnect_sample :: "(CCoinsViewCache \<Rightarrow> coins_error + CCoinsViewCache) \<Rightarrow> DisconnectResult option" where
  "disconnect_sample between =
     (case connect_block_coins sample_hash 6 [sample_coinbase [65]] sample_view of
        Inl _ \<Rightarrow> None
      | Inr (us, v1) \<Rightarrow>
          (case between v1 of
             Inl _ \<Rightarrow> None
           | Inr v2 \<Rightarrow>
               (case DisconnectBlock sample_hash [sample_coinbase [65]] (Some us) 6 (replicate 32 1) (replicate 32 2) v2 of
                  Inl _ \<Rightarrow> None
                | Inr (r, _) \<Rightarrow> Some r)))"

theorem flushed_image_unclean:
  "disconnect_sample Inr = Some DISCONNECT_OK \<and> disconnect_sample Flush = Some DISCONNECT_UNCLEAN"
proof
  show "disconnect_sample Inr = Some DISCONNECT_OK" by code_simp
  show "disconnect_sample Flush = Some DISCONNECT_UNCLEAN" by code_simp
qed

end
