(* ===== verification/VersionBits.thy ===== *)
theory VersionBits
  imports Chain
begin

text \<open>
  \<^verbatim>\<open>versionbits.cpp\<close>: how a rule change is activated by the version bits of blocks. The state of
  a deployment is a function of the block index alone; the code computes it with a cache of
  states at the ends of periods. \<^verbatim>\<open>AbstractThresholdConditionChecker\<close> is a record of what its
  virtual methods return.
\<close>

datatype ThresholdState =
  THRESHOLD_DEFINED | THRESHOLD_STARTED | THRESHOLD_LOCKED_IN | THRESHOLD_ACTIVE | THRESHOLD_FAILED

type_synonym ThresholdConditionCache = "ptr \<Rightarrow> ThresholdState option"

record threshold_checker =
  Condition :: "addr \<Rightarrow> bool"
  BeginTime :: int
  EndTime :: int
  Period :: int
  Threshold :: int

section \<open>The state of a deployment\<close>

fun count_loop :: "(addr \<Rightarrow> bool) \<Rightarrow> store \<Rightarrow> nat \<Rightarrow> ptr \<Rightarrow> int \<Rightarrow> int option" where
  "count_loop cond s 0 pindexCount count = Some count"
| "count_loop cond s (Suc i) None count = None"
| "count_loop cond s (Suc i) (Some p) count =
     count_loop cond s i (pprev (s p)) (if cond p then count + 1 else count)"

definition state_next :: "store \<Rightarrow> threshold_checker \<Rightarrow> ThresholdState \<Rightarrow> addr \<Rightarrow> ThresholdState option" where
  "state_next s chk state p =
     (case state of
        THRESHOLD_DEFINED \<Rightarrow>
          Some (if GetMedianTimePast s p \<ge> EndTime chk then THRESHOLD_FAILED
                else if GetMedianTimePast s p \<ge> BeginTime chk then THRESHOLD_STARTED else state)
      | THRESHOLD_STARTED \<Rightarrow>
          (if GetMedianTimePast s p \<ge> EndTime chk then Some THRESHOLD_FAILED
           else case count_loop (Condition chk) s (nat (Period chk)) (Some p) 0 of
                  None \<Rightarrow> None
                | Some count \<Rightarrow> Some (if count \<ge> Threshold chk then THRESHOLD_LOCKED_IN else state))
      | THRESHOLD_LOCKED_IN \<Rightarrow> Some THRESHOLD_ACTIVE
      | THRESHOLD_FAILED \<Rightarrow> Some state
      | THRESHOLD_ACTIVE \<Rightarrow> Some state)"

text \<open>The head of the list is the back of \<^verbatim>\<open>vToCompute\<close>.\<close>

partial_function (option) walk_back ::
    "store \<Rightarrow> threshold_checker \<Rightarrow> ptr \<Rightarrow> ThresholdConditionCache \<Rightarrow> addr list
     \<Rightarrow> (ptr \<times> ThresholdConditionCache \<times> addr list) option" where
  "walk_back s chk pindexPrev cache vToCompute =
     (if cache pindexPrev \<noteq> None then Some (pindexPrev, cache, vToCompute)
      else case pindexPrev of
        None \<Rightarrow> Some (pindexPrev, cache(pindexPrev \<mapsto> THRESHOLD_DEFINED), vToCompute)
      | Some p \<Rightarrow>
          (if GetMedianTimePast s p < BeginTime chk
           then Some (pindexPrev, cache(pindexPrev \<mapsto> THRESHOLD_DEFINED), vToCompute)
           else case GetAncestor s p (nHeight (s p) - Period chk) of
                  None \<Rightarrow> None
                | Some q \<Rightarrow> walk_back s chk q cache (p # vToCompute)))"

fun walk_forward :: "store \<Rightarrow> threshold_checker \<Rightarrow> ThresholdState \<Rightarrow> addr list \<Rightarrow> ThresholdConditionCache
    \<Rightarrow> (ThresholdState \<times> ThresholdConditionCache) option" where
  "walk_forward s chk state [] cache = Some (state, cache)"
| "walk_forward s chk state (p # vToCompute) cache =
     (case state_next s chk state p of
        None \<Rightarrow> None
      | Some stateNext \<Rightarrow> walk_forward s chk stateNext vToCompute (cache(Some p \<mapsto> stateNext)))"

definition GetStateFor :: "store \<Rightarrow> threshold_checker \<Rightarrow> ptr \<Rightarrow> ThresholdConditionCache
    \<Rightarrow> (ThresholdState \<times> ThresholdConditionCache) option" where
  "GetStateFor s chk pindexPrev cache =
     (if Period chk = 0 \<and> pindexPrev \<noteq> None then None
      else case (case pindexPrev of
                   None \<Rightarrow> Some None
                 | Some p \<Rightarrow> GetAncestor s p (nHeight (s p) - (nHeight (s p) + 1) mod Period chk)) of
        None \<Rightarrow> None
      | Some pindexPrev \<Rightarrow>
          (case walk_back s chk pindexPrev cache [] of
             None \<Rightarrow> None
           | Some (p, cache, vToCompute) \<Rightarrow>
               (case cache p of
                  None \<Rightarrow> None
                | Some state \<Rightarrow> walk_forward s chk state vToCompute cache)))"

section \<open>Deployments\<close>

record BIP9Deployment =
  deployBit :: nat
  nStartTime :: int
  nTimeout :: int
  nWindowSize :: int
  nThreshold :: int

record deployment_params =
  nRuleChangeActivationThreshold :: int
  nMinerConfirmationWindow :: int
  vDeployments :: "BIP9Deployment list"

definition VERSIONBITS_TOP_BITS :: u32 where "VERSIONBITS_TOP_BITS = 0x20000000"

definition VERSIONBITS_TOP_MASK :: u32 where "VERSIONBITS_TOP_MASK = 0xE0000000"

definition VersionBitsMask :: "deployment_params \<Rightarrow> nat \<Rightarrow> u32" where
  "VersionBitsMask params pos = push_bit (deployBit (vDeployments params ! pos)) 1"

definition VersionBitsCondition :: "store \<Rightarrow> deployment_params \<Rightarrow> nat \<Rightarrow> addr \<Rightarrow> bool" where
  "VersionBitsCondition s params pos p \<longleftrightarrow>
     (let v = word_of_int (nVersion (s p))
      in v AND VERSIONBITS_TOP_MASK = VERSIONBITS_TOP_BITS \<and> v AND VersionBitsMask params pos \<noteq> 0)"

definition VersionBitsConditionChecker :: "store \<Rightarrow> deployment_params \<Rightarrow> nat \<Rightarrow> threshold_checker" where
  "VersionBitsConditionChecker s params pos =
     (let d = vDeployments params ! pos
      in \<lparr>Condition = VersionBitsCondition s params pos,
          BeginTime = nStartTime d,
          EndTime = nTimeout d,
          Period = (if nWindowSize d \<noteq> 0 then nWindowSize d else nMinerConfirmationWindow params),
          Threshold = (if nThreshold d \<noteq> 0 then nThreshold d else nRuleChangeActivationThreshold params)\<rparr>)"

type_synonym VersionBitsCache = "ThresholdConditionCache list"

definition VersionBitsState :: "store \<Rightarrow> ptr \<Rightarrow> deployment_params \<Rightarrow> nat \<Rightarrow> VersionBitsCache
    \<Rightarrow> (ThresholdState \<times> VersionBitsCache) option" where
  "VersionBitsState s pindexPrev params pos cache =
     map_option (map_prod id (\<lambda>c. cache[pos := c]))
       (GetStateFor s (VersionBitsConditionChecker s params pos) pindexPrev (cache ! pos))"

definition VersionBitsCache_Clear :: "VersionBitsCache \<Rightarrow> VersionBitsCache" where
  "VersionBitsCache_Clear cache = map (\<lambda>_. Map.empty) cache"

text \<open>
  The bits of a new block's version. \<open>GetBlockPayee\<close> and \<open>mn_version\<close> are the lookups in the states of
  \<^verbatim>\<open>mnpayments\<close> and \<^verbatim>\<open>mnodeman\<close>: the payee voted for a height, and the protocol version of
  the masternode that is paid by a script.
\<close>

definition check_mn_protocol :: "nat \<Rightarrow> bool" where
  "check_mn_protocol pos = ([False, False, True] ! pos)"

definition DIP0001_PROTOCOL_VERSION :: int where "DIP0001_PROTOCOL_VERSION = 70209"

definition masternode_not_upgraded :: "(int \<Rightarrow> 'script option) \<Rightarrow> ('script \<Rightarrow> int option) \<Rightarrow> int \<Rightarrow> bool" where
  "masternode_not_upgraded GetBlockPayee mn_version height =
     (case GetBlockPayee height of
        None \<Rightarrow> True
      | Some payee \<Rightarrow>
          (case mn_version payee of None \<Rightarrow> True | Some v \<Rightarrow> v < DIP0001_PROTOCOL_VERSION))"

fun block_version_loop :: "store \<Rightarrow> ptr \<Rightarrow> deployment_params \<Rightarrow> bool \<Rightarrow> (int \<Rightarrow> 'script option) \<Rightarrow> ('script \<Rightarrow> int option)
    \<Rightarrow> nat list \<Rightarrow> u32 \<Rightarrow> VersionBitsCache \<Rightarrow> (u32 \<times> VersionBitsCache) option" where
  "block_version_loop s pindexPrev params fAssume GetBlockPayee mn_version [] v cache = Some (v, cache)"
| "block_version_loop s pindexPrev params fAssume GetBlockPayee mn_version (i # is) v cache =
     (case VersionBitsState s pindexPrev params i cache of
        None \<Rightarrow> None
      | Some (state, cache) \<Rightarrow>
          (if check_mn_protocol i \<and> state = THRESHOLD_STARTED \<and> \<not> fAssume
           then case pindexPrev of
                  None \<Rightarrow> None
                | Some p \<Rightarrow>
                    block_version_loop s pindexPrev params fAssume GetBlockPayee mn_version is
                      (if masternode_not_upgraded GetBlockPayee mn_version (nHeight (s p) + 1) then v
                       else v OR VersionBitsMask params i) cache
           else block_version_loop s pindexPrev params fAssume GetBlockPayee mn_version is
                  (if state = THRESHOLD_LOCKED_IN \<or> state = THRESHOLD_STARTED then v OR VersionBitsMask params i else v) cache))"

definition ComputeBlockVersion :: "store \<Rightarrow> ptr \<Rightarrow> deployment_params \<Rightarrow> bool \<Rightarrow> (int \<Rightarrow> 'script option) \<Rightarrow> ('script \<Rightarrow> int option)
    \<Rightarrow> VersionBitsCache \<Rightarrow> (u32 \<times> VersionBitsCache) option" where
  "ComputeBlockVersion s pindexPrev params fAssumeMasternodeIsUpgraded GetBlockPayee mn_version cache =
     block_version_loop s pindexPrev params fAssumeMasternodeIsUpgraded GetBlockPayee mn_version
       [0..<length (vDeployments params)] VERSIONBITS_TOP_BITS cache"

section \<open>The reference: states period by period\<close>

fun window :: "store \<Rightarrow> nat \<Rightarrow> ptr \<Rightarrow> addr list" where
  "window s 0 p = []"
| "window s (Suc n) None = []"
| "window s (Suc n) (Some p) = p # window s n (pprev (s p))"

definition signals :: "store \<Rightarrow> threshold_checker \<Rightarrow> addr \<Rightarrow> int" where
  "signals s chk p = int (length (filter (Condition chk) (window s (nat (Period chk)) (Some p))))"

definition bip9_next :: "store \<Rightarrow> threshold_checker \<Rightarrow> ThresholdState \<Rightarrow> addr \<Rightarrow> ThresholdState" where
  "bip9_next s chk state p =
     (case state of
        THRESHOLD_DEFINED \<Rightarrow>
          (if GetMedianTimePast s p \<ge> EndTime chk then THRESHOLD_FAILED
           else if GetMedianTimePast s p \<ge> BeginTime chk then THRESHOLD_STARTED else THRESHOLD_DEFINED)
      | THRESHOLD_STARTED \<Rightarrow>
          (if GetMedianTimePast s p \<ge> EndTime chk then THRESHOLD_FAILED
           else if signals s chk p \<ge> Threshold chk then THRESHOLD_LOCKED_IN else THRESHOLD_STARTED)
      | THRESHOLD_LOCKED_IN \<Rightarrow> THRESHOLD_ACTIVE
      | THRESHOLD_FAILED \<Rightarrow> THRESHOLD_FAILED
      | THRESHOLD_ACTIVE \<Rightarrow> THRESHOLD_ACTIVE)"

text \<open>The state after \<open>n\<close> periods ending in \<open>p\<close>.\<close>

fun bip9_state :: "store \<Rightarrow> threshold_checker \<Rightarrow> nat \<Rightarrow> ptr \<Rightarrow> ThresholdState" where
  "bip9_state s chk (Suc n) (Some p) = bip9_next s chk (bip9_state s chk n (nth_prev s (nat (Period chk)) p)) p"
| "bip9_state s chk _ _ = THRESHOLD_DEFINED"

definition ref_state :: "store \<Rightarrow> threshold_checker \<Rightarrow> ptr \<Rightarrow> ThresholdState" where
  "ref_state s chk p =
     (case p of None \<Rightarrow> THRESHOLD_DEFINED
      | Some b \<Rightarrow> bip9_state s chk (nat ((nHeight (s b) + 1) div Period chk)) p)"

text \<open>The last block of the period before the one the child of \<open>p\<close> is in.\<close>

definition period_end :: "store \<Rightarrow> threshold_checker \<Rightarrow> ptr \<Rightarrow> ptr" where
  "period_end s chk p =
     (case p of None \<Rightarrow> None | Some b \<Rightarrow> nth_prev s (nat ((nHeight (s b) + 1) mod Period chk)) b)"

definition boundary :: "store \<Rightarrow> threshold_checker \<Rightarrow> ptr \<Rightarrow> bool" where
  "boundary s chk p \<longleftrightarrow> (case p of None \<Rightarrow> True | Some b \<Rightarrow> (nHeight (s b) + 1) mod Period chk = 0)"

definition time_mono :: "store \<Rightarrow> bool" where
  "time_mono s \<longleftrightarrow> (\<forall>p q. pprev (s p) = Some q \<longrightarrow> GetMedianTimePast s q \<le> GetMedianTimePast s p)"

definition cache_ok :: "store \<Rightarrow> threshold_checker \<Rightarrow> ThresholdConditionCache \<Rightarrow> bool" where
  "cache_ok s chk cache \<longleftrightarrow> (\<forall>p st. cache p = Some st \<longrightarrow> boundary s chk p \<and> st = ref_state s chk p)"

section \<open>The code computes the reference\<close>

lemma count_loop_window:
  "wf_heights s \<Longrightarrow> int n \<le> nHeight (s p) + 1 \<Longrightarrow>
   count_loop cond s n (Some p) c = Some (c + int (length (filter cond (window s n (Some p)))))"
proof (induction n arbitrary: p c)
  case (Suc n)
  show ?case
  proof (cases "pprev (s p)")
    case None
    then have "n = 0" using Suc.prems wf_pprev_None [of s p] by simp
    then show ?thesis by simp
  next
    case (Some q)
    then have "int n \<le> nHeight (s q) + 1" using Suc.prems wf_pprev [of s p q] by simp
    then show ?thesis using Suc Some by simp
  qed
qed simp

lemma boundary_height:
  assumes "0 < Period chk" and "boundary s chk (Some b)" and "wf_heights s"
  shows "Period chk \<le> nHeight (s b) + 1"
proof -
  have "0 < nHeight (s b) + 1" using wf_height_nonneg [OF assms(3)] by (simp add: add_strict_increasing)
  moreover have "Period chk dvd nHeight (s b) + 1" using assms(2) by (simp add: boundary_def dvd_eq_mod_eq_0)
  ultimately show ?thesis by (simp add: zdvd_imp_le)
qed

lemma state_next_bip9:
  assumes "0 < Period chk" and "boundary s chk (Some b)" and "wf_heights s"
  shows "state_next s chk st b = Some (bip9_next s chk st b)"
  using count_loop_window [OF assms(3), of "nat (Period chk)" b] boundary_height [OF assms] assms(1)
  by (auto simp: state_next_def bip9_next_def signals_def split: ThresholdState.split)

lemma nth_prev_beyond:
  assumes "wf_heights s"
  shows "nth_prev s (nat (nHeight (s b) + 1)) b = None"
proof -
  have "nat (nHeight (s b) + 1) = Suc (nat (nHeight (s b)))" using wf_height_nonneg [OF assms, of b] by simp
  moreover obtain a where "nth_prev s (nat (nHeight (s b))) b = Some a" "nHeight (s a) = 0"
    using nth_prev_Some [OF assms, of "nat (nHeight (s b))" b] wf_height_nonneg [OF assms, of b] by auto
  ultimately show ?thesis using wf_pprev_None [OF assms, of a] by (simp add: nth_prev_last del: nth_prev.simps)
qed

text \<open>One period back from the end of a period.\<close>

lemma prev_boundary:
  assumes "0 < Period chk" and "boundary s chk (Some b)" and "wf_index s"
  defines "q \<equiv> nth_prev s (nat (Period chk)) b"
  shows "GetAncestor s b (nHeight (s b) - Period chk) = Some q" "boundary s chk q"
    "ref_state s chk (Some b) = bip9_next s chk (ref_state s chk q) b"
    "\<And>a. q = Some a \<Longrightarrow> nHeight (s a) = nHeight (s b) - Period chk"
proof -
  let ?P = "Period chk"
  have wf: "wf_heights s" using assms(3) by (simp add: wf_index_def)
  obtain k where k: "nHeight (s b) + 1 = ?P * k" using assms(2) by (auto simp: boundary_def)
  have ge: "?P \<le> nHeight (s b) + 1" by (rule boundary_height [OF assms(1,2) wf])
  then have k1: "1 \<le> k" using k assms(1) by (metis mult_le_cancel_left1 not_le order_less_le_trans zero_less_one linorder_not_le mult.right_neutral mult_le_cancel_left_pos)
  have n: "nat ((nHeight (s b) + 1) div ?P) = Suc (nat (k - 1))" using k k1 assms(1) by (simp add: Suc_nat_eq_nat_zadd1)
  have r: "ref_state s chk (Some b) = bip9_next s chk (bip9_state s chk (nat (k - 1)) q) b"
    by (simp add: ref_state_def n q_def)
  have "GetAncestor s b (nHeight (s b) - ?P) = Some q \<and> boundary s chk q \<and> ref_state s chk (Some b) = bip9_next s chk (ref_state s chk q) b
      \<and> (\<forall>a. q = Some a \<longrightarrow> nHeight (s a) = nHeight (s b) - ?P)"
  proof (cases "?P \<le> nHeight (s b)")
    case True
    then obtain a where a: "GetAncestor s b (nHeight (s b) - ?P) = Some (Some a)" "q = Some a" "nHeight (s a) = nHeight (s b) - ?P"
      using GetAncestor_Some [OF assms(3), of "nHeight (s b) - ?P" b] assms(1) by (auto simp: q_def)
    have h: "nHeight (s a) + 1 = ?P * (k - 1)" using a(3) k by (simp add: algebra_simps)
    then have "boundary s chk (Some a)" "ref_state s chk (Some a) = bip9_state s chk (nat (k - 1)) (Some a)"
      using assms(1) by (simp_all add: boundary_def ref_state_def)
    then show ?thesis using a r by simp
  next
    case False
    then have e: "nHeight (s b) + 1 = ?P" using ge by simp
    then have "nat (k - 1) = 0" using k assms(1) by auto
    moreover have "q = None" unfolding q_def e [symmetric] by (rule nth_prev_beyond [OF wf])
    moreover have "GetAncestor s b (nHeight (s b) - ?P) = Some None" using e by (simp add: GetAncestor_def)
    ultimately show ?thesis using r by (simp add: boundary_def ref_state_def)
  qed
  then show "GetAncestor s b (nHeight (s b) - ?P) = Some q" "boundary s chk q"
    "ref_state s chk (Some b) = bip9_next s chk (ref_state s chk q) b"
    "\<And>a. q = Some a \<Longrightarrow> nHeight (s a) = nHeight (s b) - ?P" by blast+
qed


lemma time_mono_nth_prev:
  "time_mono s \<Longrightarrow> nth_prev s n b = Some a \<Longrightarrow> GetMedianTimePast s a \<le> GetMedianTimePast s b"
proof (induction n arbitrary: b)
  case (Suc n)
  then obtain c where "pprev (s b) = Some c" "nth_prev s n c = Some a" by (auto split: option.splits)
  then have "GetMedianTimePast s a \<le> GetMedianTimePast s c" "GetMedianTimePast s c \<le> GetMedianTimePast s b"
    using Suc by (auto simp: time_mono_def)
  then show ?case by (rule order_trans)
qed simp

text \<open>The shortcut of the backward walk: before the start time nothing has happened.\<close>

lemma before_start:
  assumes "0 < Period chk" and "wf_index s" and "time_mono s" and "BeginTime chk \<le> EndTime chk"
  shows "boundary s chk (Some b) \<Longrightarrow> GetMedianTimePast s b < BeginTime chk \<Longrightarrow> ref_state s chk (Some b) = THRESHOLD_DEFINED"
proof (induction "nat (nHeight (s b))" arbitrary: b rule: less_induct)
  case less
  let ?q = "nth_prev s (nat (Period chk)) b"
  note pb = prev_boundary [OF assms(1) less.prems(1) assms(2)]
  have "ref_state s chk ?q = THRESHOLD_DEFINED"
  proof (cases ?q)
    case (Some a)
    have "nHeight (s a) < nHeight (s b)" "0 \<le> nHeight (s a)"
      using pb(4) [OF Some] assms(1,2) wf_height_nonneg [of s a] by (auto simp: wf_index_def)
    then have "nat (nHeight (s a)) < nat (nHeight (s b))" by simp
    moreover have "boundary s chk (Some a)" using pb(2) Some by simp
    moreover have "GetMedianTimePast s a < BeginTime chk"
      using time_mono_nth_prev [OF assms(3) Some] less.prems(2) by simp
    ultimately show ?thesis using less.hyps Some by simp
  qed (simp add: ref_state_def)
  then show ?case using pb(3) less.prems(2) assms(4) by (simp add: bip9_next_def)
qed

lemma cache_ok_upd:
  "cache_ok s chk c \<Longrightarrow> boundary s chk p \<Longrightarrow> st = ref_state s chk p \<Longrightarrow> cache_ok s chk (c(p \<mapsto> st))"
  by (simp add: cache_ok_def)

text \<open>
  What the backward walk from \<open>p\<close> leaves for the forward walk: a cached period end \<open>q\<close>, and blocks \<open>w\<close>
  that lead from the state at \<open>q\<close> to the state at \<open>p\<close>.
\<close>

definition walk_done where
  "walk_done s chk p v q c' w \<longleftrightarrow> cache_ok s chk c' \<and> c' q = Some (ref_state s chk q) \<and>
     (\<forall>c2. cache_ok s chk c2 \<longrightarrow>
        (\<exists>c3. walk_forward s chk (ref_state s chk q) (w @ v) c2 = walk_forward s chk (ref_state s chk p) v c3 \<and> cache_ok s chk c3))"

lemma walk_done_here:
  "cache_ok s chk c' \<Longrightarrow> c' p = Some (ref_state s chk p) \<Longrightarrow> walk_done s chk p v p c' []"
  by (auto simp: walk_done_def)

lemma walk_back_correct:
  assumes "0 < Period chk" and "wf_index s" and "time_mono s" and "BeginTime chk \<le> EndTime chk" and "cache_ok s chk cache"
  shows "boundary s chk p \<Longrightarrow>
    \<exists>q c' w. walk_back s chk p cache v = Some (q, c', w @ v) \<and> walk_done s chk p v q c' w"
proof (induction "case p of None \<Rightarrow> 0 | Some b \<Rightarrow> Suc (nat (nHeight (s b)))" arbitrary: p v rule: less_induct)
  case less
  have here: ?case if "walk_back s chk p cache v = Some (p, c', v)" "cache_ok s chk c'" "c' p = Some (ref_state s chk p)" for c'
    using that walk_done_here [of s chk c' p v] by (intro exI [of _ p] exI [of _ c'] exI [of _ "[]"]) simp
  show ?case
  proof (cases "cache p")
    case (Some st)
    then have "st = ref_state s chk p" using assms(5) by (simp add: cache_ok_def)
    then show ?thesis using Some assms(5) by (intro here [of cache]) (simp_all add: walk_back.simps)
  next
    case cn: None
    show ?thesis
    proof (cases p)
      case None
      then show ?thesis using cn cache_ok_upd [OF assms(5) less.prems, of THRESHOLD_DEFINED]
        by (intro here [of "cache(p \<mapsto> THRESHOLD_DEFINED)"]) (simp_all add: walk_back.simps ref_state_def)
    next
      case (Some b)
      have bb: "boundary s chk (Some b)" using less.prems Some by simp
      show ?thesis
      proof (cases "GetMedianTimePast s b < BeginTime chk")
        case True
        then have "ref_state s chk (Some b) = THRESHOLD_DEFINED" using before_start [OF assms(1-4) bb] by simp
        then show ?thesis using cn Some True cache_ok_upd [OF assms(5) bb, of THRESHOLD_DEFINED]
          by (intro here [of "cache(p \<mapsto> THRESHOLD_DEFINED)"]) (simp_all add: walk_back.simps)
      next
        case False
        define a where "a = nth_prev s (nat (Period chk)) b"
        note pb = prev_boundary [OF assms(1) bb assms(2), folded a_def]
        have "(case a of None \<Rightarrow> 0 | Some b \<Rightarrow> Suc (nat (nHeight (s b)))) < (case p of None \<Rightarrow> 0 | Some b \<Rightarrow> Suc (nat (nHeight (s b))))"
        proof (cases a)
          case (Some d)
          then show ?thesis using pb(4) [OF Some] \<open>p = Some b\<close> assms(1,2) wf_height_nonneg [of s d] by (simp add: wf_index_def)
        qed (simp add: Some)
        from less.hyps [OF this pb(2), of "b # v"]
        obtain q c' w where w: "walk_back s chk a cache (b # v) = Some (q, c', w @ b # v)" "walk_done s chk a (b # v) q c' w" by blast
        have "walk_back s chk p cache v = Some (q, c', (w @ [b]) @ v)"
          using cn Some False pb(1) w(1) by (subst walk_back.simps) simp
        moreover have "walk_done s chk p v q c' (w @ [b])"
          unfolding walk_done_def
        proof (intro conjI allI impI)
          show "cache_ok s chk c'" "c' q = Some (ref_state s chk q)" using w(2) by (simp_all add: walk_done_def)
          fix c2 assume "cache_ok s chk c2"
          then obtain c3 where c3: "walk_forward s chk (ref_state s chk q) (w @ b # v) c2 = walk_forward s chk (ref_state s chk a) (b # v) c3" "cache_ok s chk c3"
            using w(2) unfolding walk_done_def by blast
          have "state_next s chk (ref_state s chk a) b = Some (ref_state s chk (Some b))"
            using state_next_bip9 [OF assms(1) bb] assms(2) pb(3) by (simp add: wf_index_def)
          then show "\<exists>c3. walk_forward s chk (ref_state s chk q) ((w @ [b]) @ v) c2 = walk_forward s chk (ref_state s chk p) v c3 \<and> cache_ok s chk c3"
            using c3 cache_ok_upd [OF c3(2) bb refl] Some by auto
        qed
        ultimately show ?thesis by blast
      qed
    qed
  qed
qed

lemma GetAncestor_period_end:
  assumes "0 < Period chk" and "wf_index s"
  shows "GetAncestor s b (nHeight (s b) - (nHeight (s b) + 1) mod Period chk) = Some (period_end s chk (Some b))"
    and "boundary s chk (period_end s chk (Some b))"
proof -
  let ?h = "nHeight (s b)" and ?P = "Period chk"
  let ?r = "(?h + 1) mod ?P"
  have wf: "wf_heights s" using assms(2) by (simp add: wf_index_def)
  have h0: "0 \<le> ?h" by (rule wf_height_nonneg [OF wf])
  have r: "0 \<le> ?r" "?r \<le> ?h + 1" using assms(1) h0 by (simp_all add: zmod_le_nonneg_dividend)
  have "GetAncestor s b (?h - ?r) = Some (period_end s chk (Some b)) \<and> boundary s chk (period_end s chk (Some b))"
  proof (cases "?r = ?h + 1")
    case True
    then have "period_end s chk (Some b) = None" using nth_prev_beyond [OF wf, of b] by (simp add: period_end_def)
    then show ?thesis using True by (simp add: GetAncestor_def boundary_def)
  next
    case False
    then have "0 \<le> ?h - ?r" "?h - ?r \<le> ?h" using r by auto
    then obtain q where q: "GetAncestor s b (?h - ?r) = Some (Some q)" "nth_prev s (nat ?r) b = Some q" "nHeight (s q) = ?h - ?r"
      using GetAncestor_Some [OF assms(2), of "?h - ?r" b] by auto
    have "?h - ?r + 1 = ?P * ((?h + 1) div ?P)" using mult_div_mod_eq [of ?P "?h + 1"] by linarith
    then show ?thesis using q by (simp add: period_end_def boundary_def)
  qed
  then show "GetAncestor s b (?h - ?r) = Some (period_end s chk (Some b))" "boundary s chk (period_end s chk (Some b))" by blast+
qed

lemma GetStateFor_ref:
  assumes "wf_index s" and "0 < Period chk" and "BeginTime chk \<le> EndTime chk" and "time_mono s" and "cache_ok s chk cache"
  shows "\<exists>cache'. GetStateFor s chk p cache = Some (ref_state s chk (period_end s chk p), cache') \<and> cache_ok s chk cache'"
proof -
  let ?e = "period_end s chk p"
  have e: "(case p of None \<Rightarrow> Some None | Some b \<Rightarrow> GetAncestor s b (nHeight (s b) - (nHeight (s b) + 1) mod Period chk)) = Some ?e"
    "boundary s chk ?e"
    using GetAncestor_period_end [OF assms(2,1)] by (cases p; simp add: period_end_def [of _ _ None] boundary_def [of _ _ None])+
  from walk_back_correct [OF assms(2,1,4,3,5) e(2), of "[]"]
  obtain q c w where w: "walk_back s chk ?e cache [] = Some (q, c, w)" "walk_done s chk ?e [] q c w" by auto
  then obtain c3 where "walk_forward s chk (ref_state s chk q) w c = Some (ref_state s chk ?e, c3)" "cache_ok s chk c3" "c q = Some (ref_state s chk q)"
    by (auto simp: walk_done_def)
  then show ?thesis using e(1) w(1) assms(2) by (simp add: GetStateFor_def)
qed

lemma height_mod_period:
  assumes "wf_index s" and "boundary s chk (Some e)" and "nth_prev s n p = Some e"
  shows "(nHeight (s p) + 1) mod Period chk = int n mod Period chk"
proof -
  have "nHeight (s p) + 1 = (nHeight (s e) + 1) + int n" using nth_prev_height [OF _ assms(3)] assms(1) by (simp add: wf_index_def)
  also have "\<dots> mod Period chk = ((nHeight (s e) + 1) mod Period chk + int n) mod Period chk" by (simp only: mod_add_left_eq)
  also have "\<dots> = int n mod Period chk" using assms(2) by (simp add: boundary_def)
  finally show ?thesis .
qed

text \<open>After a locked-in period the deployment is active at the end of every later period.\<close>

lemma active_after:
  assumes "wf_index s" and "0 < Period chk" and "boundary s chk (Some e)" and "ref_state s chk (Some e) = THRESHOLD_LOCKED_IN"
  shows "nth_prev s (nat (Period chk) * Suc k) q = Some e \<Longrightarrow> ref_state s chk (Some q) = THRESHOLD_ACTIVE"
proof (induction k arbitrary: q)
  case (Suc k)
  let ?P = "Period chk"
  obtain a where a: "nth_prev s (nat ?P) q = Some a" "nth_prev s (nat ?P * Suc k) a = Some e"
    using Suc.prems nth_prev_add [of s "nat ?P" "nat ?P * Suc k" q] by (auto split: option.splits)
  have "boundary s chk (Some q)"
    using height_mod_period [OF assms(1,3) Suc.prems] assms(2) by (simp add: boundary_def)
  then show ?case using prev_boundary(3) [OF assms(2) _ assms(1)] a Suc.IH [OF a(2)] by (simp add: bip9_next_def)
next
  case 0
  have "boundary s chk (Some q)"
    using height_mod_period [OF assms(1,3) 0] assms(2) by (simp add: boundary_def)
  then show ?case using prev_boundary(3) [OF assms(2) _ assms(1)] 0 assms(4) by (simp add: bip9_next_def)
qed

lemma period_end_boundary: "boundary s chk p \<Longrightarrow> period_end s chk p = p"
  by (auto simp: boundary_def period_end_def split: option.splits)

text \<open>The end of the period before a block that is \<open>n\<close> blocks after the end of a period.\<close>

lemma period_end_after:
  assumes "wf_index s" and "0 < Period chk" and "boundary s chk (Some e)" and "nth_prev s n p = Some e"
  obtains q where "period_end s chk (Some p) = Some q" "nth_prev s (nat (Period chk) * (n div nat (Period chk))) q = Some e"
proof -
  let ?P = "Period chk" and ?r = "n mod nat (Period chk)"
  have r: "nat ((nHeight (s p) + 1) mod ?P) = ?r"
    using height_mod_period [OF assms(1,3,4)] assms(2) by (simp add: nat_mod_distrib)
  have "n = ?r + nat ?P * (n div nat ?P)" by simp
  then obtain q where "nth_prev s ?r p = Some q" "nth_prev s (nat ?P * (n div nat ?P)) q = Some e"
    using assms(4) nth_prev_add [of s ?r "nat ?P * (n div nat ?P)" p] by (auto split: option.splits)
  then show ?thesis using that r by (simp add: period_end_def)
qed

section \<open>Properties\<close>

text \<open>
  C14. However much of it is already cached, the state the code computes for the child of any
  block is the state that the deployment reaches when its rule is applied period by period from
  the first block on, and the cache stays correct: neither the backward walk with its shortcut
  before the start time nor the order of earlier queries changes an answer.
\<close>

theorem GetStateFor_correct:
  assumes "wf_index s" and "0 < Period chk" and "BeginTime chk \<le> EndTime chk" and "time_mono s" and "cache_ok s chk cache"
  shows "\<exists>cache'. GetStateFor s chk p cache = Some (ref_state s chk (period_end s chk p), cache') \<and> cache_ok s chk cache'"
  by (rule GetStateFor_ref [OF assms])

text \<open>
  C15. A deployment that is started and whose threshold is met in a period that ends before the
  timeout becomes active: the code reports it active for the child of every block at least one
  period after the end of that period.
\<close>

theorem deployment_activates:
  assumes "wf_index s" and "0 < Period chk" and "BeginTime chk \<le> EndTime chk" and "time_mono s"
    and "cache_ok s chk cache0" and "cache_ok s chk cache"
    and "boundary s chk (Some e)"
    and "GetStateFor s chk (nth_prev s (nat (Period chk)) e) cache0 = Some (THRESHOLD_STARTED, cache1)"
    and "GetMedianTimePast s e < EndTime chk" and "Threshold chk \<le> signals s chk e"
    and "nth_prev s n p = Some e" and "Period chk \<le> int n"
  shows "\<exists>cache'. GetStateFor s chk (Some p) cache = Some (THRESHOLD_ACTIVE, cache')"
proof -
  let ?a = "nth_prev s (nat (Period chk)) e"
  note pb = prev_boundary [OF assms(2,7,1)]
  have "ref_state s chk ?a = THRESHOLD_STARTED"
    using GetStateFor_ref [OF assms(1-5), of ?a] assms(8) period_end_boundary [OF pb(2)] by auto
  then have locked: "ref_state s chk (Some e) = THRESHOLD_LOCKED_IN" using pb(3) assms(9,10) by (simp add: bip9_next_def)
  obtain q where q: "period_end s chk (Some p) = Some q" "nth_prev s (nat (Period chk) * (n div nat (Period chk))) q = Some e"
    by (rule period_end_after [OF assms(1,2,7,11)])
  have "1 \<le> n div nat (Period chk)" using assms(2,12) by (simp add: div_greater_zero_iff Suc_le_eq)
  then obtain k where "n div nat (Period chk) = Suc k" by (metis Suc_le_D One_nat_def)
  then have "ref_state s chk (Some q) = THRESHOLD_ACTIVE" using active_after [OF assms(1,2,7) locked] q(2) by simp
  then show ?thesis using GetStateFor_ref [OF assms(1-4,6), of "Some p"] q(1) by auto
qed

text \<open>A deployment with periods of two blocks, signalled by every block of a chain.\<close>

definition sample_checker :: threshold_checker where
  "sample_checker = \<lparr>Condition = (\<lambda>_. True), BeginTime = 0, EndTime = 100, Period = 2, Threshold = 2\<rparr>"

definition flat_store :: store where
  "flat_store i = (line_store i)\<lparr>nTime := 7\<rparr>"

lemma flat_store_wf: "wf_index flat_store"
  using line_store_wf by (auto simp: wf_index_def wf_heights_def skip_ok_def flat_store_def line_store_def)

lemma flat_past_times: "t \<in> set (past_times flat_store n p) \<Longrightarrow> t = 7"
  by (induction flat_store n p rule: past_times.induct) (auto simp: flat_store_def GetBlockTime_def)

lemma flat_MTP [simp]: "GetMedianTimePast flat_store p = 7"
  by (rule flat_past_times [OF median_laws(1)])

lemma flat_time_mono: "time_mono flat_store"
  by (simp add: time_mono_def)

lemma cache_ok_empty: "cache_ok s chk Map.empty"
  by (simp add: cache_ok_def)

lemma flat_started: "\<exists>c. GetStateFor flat_store sample_checker (Some 1) Map.empty = Some (THRESHOLD_STARTED, c)"
proof -
  have "ref_state flat_store sample_checker (period_end flat_store sample_checker (Some 1)) = THRESHOLD_STARTED"
    by (simp add: period_end_def ref_state_def sample_checker_def bip9_next_def flat_store_def [of "Suc 0"] line_store_def)
  then show ?thesis
    using GetStateFor_ref [OF flat_store_wf _ _ flat_time_mono cache_ok_empty, of sample_checker "Some 1"] by (auto simp: sample_checker_def)
qed

theorem GetStateFor_correct_witness:
  "\<exists>cache'. GetStateFor flat_store sample_checker (Some 6) Map.empty
     = Some (ref_state flat_store sample_checker (period_end flat_store sample_checker (Some 6)), cache')
     \<and> cache_ok flat_store sample_checker cache'"
  using GetStateFor_correct [OF flat_store_wf _ _ flat_time_mono cache_ok_empty, of sample_checker "Some 6"] by (simp add: sample_checker_def)

theorem deployment_activates_witness:
  "\<exists>cache'. GetStateFor flat_store sample_checker (Some 6) Map.empty = Some (THRESHOLD_ACTIVE, cache')"
proof -
  obtain c where c: "GetStateFor flat_store sample_checker (Some 1) Map.empty = Some (THRESHOLD_STARTED, c)" using flat_started by blast
  have n: "nth_prev flat_store 2 3 = Some 1" "nth_prev flat_store 3 6 = Some 3"
    by (simp_all add: flat_store_def line_store_def eval_nat_numeral)
  have "signals flat_store sample_checker 3 = 2"
    by (simp add: signals_def sample_checker_def flat_store_def line_store_def eval_nat_numeral)
  moreover have "boundary flat_store sample_checker (Some 3)"
    by (simp add: boundary_def sample_checker_def flat_store_def line_store_def)
  ultimately show ?thesis using c n
      deployment_activates [OF flat_store_wf _ _ flat_time_mono cache_ok_empty cache_ok_empty, of sample_checker 3 c 3 6]
    by (simp add: sample_checker_def)
qed

end
