(* ===== verification/Merkle.thy ===== *)
theory Merkle
  imports Transaction
begin

text \<open>
  \<^verbatim>\<open>consensus/merkle.cpp\<close> and \<^verbatim>\<open>merkleblock.cpp\<close>: Merkle roots and branches of a block's
  transactions, and the partial Merkle trees that prove some of them to a light client. The root is
  computed in constant space, with one pending hash for every set bit of the number of leaves; it is
  proved equal to the level-by-level definition. \<open>None\<close> stands for reading or writing
  \<^verbatim>\<open>inner\<close> out of its 32 slots.
\<close>

definition uint256_null :: bytes where "uint256_null = replicate 32 0"

definition Hash2 :: "crypto \<Rightarrow> bytes \<Rightarrow> bytes \<Rightarrow> bytes" where
  "Hash2 cr left right = Hash256 cr (left @ right)"

section \<open>The constant-space computation\<close>

text \<open>What one level adds to the branch, and whether the hash above depends on the matching leaf.\<close>

definition branch_step :: "bool \<Rightarrow> bytes list \<Rightarrow> int \<Rightarrow> nat \<Rightarrow> bytes \<Rightarrow> bool \<Rightarrow> bytes list \<Rightarrow> bool \<times> bytes list" where
  "branch_step pbranch inner matchlevel level h matchh branch =
     (if pbranch
      then if matchh then (True, branch @ [inner ! level])
           else if matchlevel = int level then (True, branch @ [h])
           else (False, branch)
      else (matchh, branch))"

function merge_levels :: "crypto \<Rightarrow> bool \<Rightarrow> bytes list \<Rightarrow> int \<Rightarrow> nat \<Rightarrow> nat \<Rightarrow> bytes \<Rightarrow> bool \<Rightarrow> bool \<Rightarrow> bytes list
    \<Rightarrow> (nat \<times> bytes \<times> bool \<times> bool \<times> bytes list) option" where
  "merge_levels cr pbranch inner matchlevel count level h mutated matchh branch =
     (if level \<ge> 32 then None
      else if bit count level then Some (level, h, mutated, matchh, branch)
      else case branch_step pbranch inner matchlevel level h matchh branch of
             (matchh, branch) \<Rightarrow>
               merge_levels cr pbranch inner matchlevel count (Suc level) (Hash2 cr (inner ! level) h)
                 (mutated \<or> inner ! level = h) matchh branch)"
  by pat_completeness auto
termination by (relation "measure (\<lambda>(_, _, _, _, _, level, _). 32 - level)") auto

declare merge_levels.simps [simp del]

record merkle_state =
  m_inner :: "bytes list"
  m_matchlevel :: int
  m_mutated :: bool
  m_branch :: "bytes list"

text \<open>One leaf. \<open>count\<close> is a \<^verbatim>\<open>uint32_t\<close>.\<close>

definition merkle_leaf :: "crypto \<Rightarrow> bool \<Rightarrow> nat \<Rightarrow> nat \<Rightarrow> bytes \<Rightarrow> merkle_state \<Rightarrow> merkle_state option" where
  "merkle_leaf cr pbranch branchpos count h st =
     (case merge_levels cr pbranch (m_inner st) (m_matchlevel st) ((count + 1) mod 2 ^ 32) 0 h
             (m_mutated st) (count = branchpos) (m_branch st) of
        None \<Rightarrow> None
      | Some (level, h, mutated, matchh, branch) \<Rightarrow>
          Some \<lparr>m_inner = (m_inner st)[level := h],
                m_matchlevel = (if matchh then int level else m_matchlevel st),
                m_mutated = mutated, m_branch = branch\<rparr>)"

fun merkle_leaves :: "crypto \<Rightarrow> bool \<Rightarrow> nat \<Rightarrow> nat \<Rightarrow> bytes list \<Rightarrow> merkle_state \<Rightarrow> merkle_state option" where
  "merkle_leaves cr pbranch branchpos count [] st = Some st"
| "merkle_leaves cr pbranch branchpos count (h # leaves) st =
     (case merkle_leaf cr pbranch branchpos count h st of
        None \<Rightarrow> None
      | Some st \<Rightarrow> merkle_leaves cr pbranch branchpos ((count + 1) mod 2 ^ 32) leaves st)"

function lowest_level :: "nat \<Rightarrow> nat \<Rightarrow> nat option" where
  "lowest_level count level =
     (if level \<ge> 32 then None else if bit count level then Some level else lowest_level count (Suc level))"
  by pat_completeness auto
termination by (relation "measure (\<lambda>(_, level). 32 - level)") auto

declare lowest_level.simps [simp del]

partial_function (option) merkle_sweep :: "crypto \<Rightarrow> bool \<Rightarrow> bytes list \<Rightarrow> int \<Rightarrow> nat \<Rightarrow> nat \<Rightarrow> bytes \<Rightarrow> bool \<Rightarrow> bytes list
    \<Rightarrow> (bytes \<times> bytes list) option" where
  "merkle_sweep cr pbranch inner matchlevel count level h matchh branch =
     (if count = 2 ^ level then Some (h, branch)
      else case merge_levels cr pbranch inner matchlevel ((count + 2 ^ level) mod 2 ^ 32) (Suc level) (Hash2 cr h h) False matchh
                  (if pbranch \<and> matchh then branch @ [h] else branch) of
             None \<Rightarrow> None
           | Some (level', h', mutated', matchh', branch') \<Rightarrow>
               merkle_sweep cr pbranch inner matchlevel ((count + 2 ^ level) mod 2 ^ 32) level' h' matchh' branch')"

definition MerkleComputation :: "crypto \<Rightarrow> bytes list \<Rightarrow> nat \<Rightarrow> bool \<Rightarrow> (bytes \<times> bool \<times> bytes list) option" where
  "MerkleComputation cr leaves branchpos pbranch =
     (if leaves = [] then Some (uint256_null, False, [])
      else case merkle_leaves cr pbranch branchpos 0 leaves
                  \<lparr>m_inner = replicate 32 uint256_null, m_matchlevel = - 1, m_mutated = False, m_branch = []\<rparr> of
             None \<Rightarrow> None
           | Some st \<Rightarrow>
               (let count = length leaves mod 2 ^ 32
                in case lowest_level count 0 of
                     None \<Rightarrow> None
                   | Some level \<Rightarrow>
                       (case merkle_sweep cr pbranch (m_inner st) (m_matchlevel st) count level (m_inner st ! level)
                               (m_matchlevel st = int level) (m_branch st) of
                          None \<Rightarrow> None
                        | Some (h, branch) \<Rightarrow> Some (h, m_mutated st, branch))))"

definition ComputeMerkleRoot :: "crypto \<Rightarrow> bytes list \<Rightarrow> (bytes \<times> bool) option" where
  "ComputeMerkleRoot cr leaves =
     map_option (\<lambda>(h, mutated, _). (h, mutated)) (MerkleComputation cr leaves (2 ^ 32 - 1) False)"

definition ComputeMerkleBranch :: "crypto \<Rightarrow> bytes list \<Rightarrow> nat \<Rightarrow> bytes list option" where
  "ComputeMerkleBranch cr leaves position =
     map_option (\<lambda>(_, _, branch). branch) (MerkleComputation cr leaves position True)"

fun ComputeMerkleRootFromBranch :: "crypto \<Rightarrow> bytes \<Rightarrow> bytes list \<Rightarrow> nat \<Rightarrow> bytes" where
  "ComputeMerkleRootFromBranch cr hash [] nIndex = hash"
| "ComputeMerkleRootFromBranch cr hash (it # vMerkleBranch) nIndex =
     ComputeMerkleRootFromBranch cr (if odd nIndex then Hash2 cr it hash else Hash2 cr hash it) vMerkleBranch (nIndex div 2)"

definition BlockMerkleRoot :: "crypto \<Rightarrow> CTransaction list \<Rightarrow> (bytes \<times> bool) option" where
  "BlockMerkleRoot cr vtx = ComputeMerkleRoot cr (map (tx_GetHash cr) vtx)"

definition BlockMerkleBranch :: "crypto \<Rightarrow> CTransaction list \<Rightarrow> nat \<Rightarrow> bytes list option" where
  "BlockMerkleBranch cr vtx position = ComputeMerkleBranch cr (map (tx_GetHash cr) vtx) position"

section \<open>The reference: level by level\<close>

fun pair_up :: "crypto \<Rightarrow> bytes list \<Rightarrow> bytes list" where
  "pair_up cr [] = []"
| "pair_up cr [x] = [Hash2 cr x x]"
| "pair_up cr (x # y # xs) = Hash2 cr x y # pair_up cr xs"

lemma length_pair_up [simp]: "length (pair_up cr xs) = (length xs + 1) div 2"
  by (induction cr xs rule: pair_up.induct) auto

fun level_nodes :: "crypto \<Rightarrow> bytes list \<Rightarrow> nat \<Rightarrow> bytes list" where
  "level_nodes cr xs 0 = xs"
| "level_nodes cr xs (Suc k) = pair_up cr (level_nodes cr xs k)"

function merkle_root :: "crypto \<Rightarrow> bytes list \<Rightarrow> bytes" where
  "merkle_root cr [] = uint256_null"
| "merkle_root cr [x] = x"
| "merkle_root cr (x # y # xs) = merkle_root cr (pair_up cr (x # y # xs))"
  by pat_completeness auto
termination by (relation "measure (\<lambda>(_, xs). length xs)") auto

text \<open>Two complete sibling subtrees of real leaves have the same hash.\<close>

definition duplicated :: "crypto \<Rightarrow> bytes list \<Rightarrow> nat \<Rightarrow> bool" where
  "duplicated cr xs m \<longleftrightarrow> (\<exists>k i. 2 ^ k * (2 * i + 2) \<le> m \<and> level_nodes cr xs k ! (2 * i) = level_nodes cr xs k ! (2 * i + 1))"

text \<open>The sibling at level \<open>k\<close> of the ancestor of leaf \<open>p\<close>, itself at the end of an odd level.\<close>

definition sibling :: "crypto \<Rightarrow> bytes list \<Rightarrow> nat \<Rightarrow> nat \<Rightarrow> bytes" where
  "sibling cr xs p k =
     (let q = p div 2 ^ k; v = level_nodes cr xs k
      in if odd q then v ! (q - 1) else if q + 1 < length v then v ! (q + 1) else v ! q)"

definition merkle_branch :: "crypto \<Rightarrow> bytes list \<Rightarrow> nat \<Rightarrow> nat \<Rightarrow> bytes list" where
  "merkle_branch cr xs p k = map (sibling cr xs p) [0..<k]"

section \<open>Nodes of the tree\<close>

lemma nth_pair_up:
  "i < (length xs + 1) div 2 \<Longrightarrow>
   pair_up cr xs ! i = Hash2 cr (xs ! (2 * i)) (if 2 * i + 1 < length xs then xs ! (2 * i + 1) else xs ! (2 * i))"
proof (induction cr xs arbitrary: i rule: pair_up.induct)
  case (3 cr x y xs)
  then show ?case by (cases i) auto
qed simp_all

lemma pair_up_Nil_iff [simp]: "pair_up cr xs = [] \<longleftrightarrow> xs = []"
  by (cases "(cr, xs)" rule: pair_up.cases) simp_all

lemma div_pow_Suc: "n div 2 ^ Suc l = n div 2 ^ l div (2 :: nat)"
  by (simp add: div_mult2_eq [symmetric] mult.commute)

lemma length_level_nodes: "length (level_nodes cr xs k) = (length xs + 2 ^ k - 1) div 2 ^ k"
proof (induction k)
  case (Suc k)
  have "((length xs + 2 ^ k - 1) div 2 ^ k + 1) div 2 = (length xs + 2 ^ k - 1 + 2 ^ k) div 2 ^ k div 2"
    by (subst div_add_self2) simp_all
  also have "length xs + 2 ^ k - 1 + 2 ^ k = length xs + 2 ^ Suc k - 1"
    by (simp add: one_le_power le_add2)
  also have "\<dots> div 2 ^ k div 2 = (length xs + 2 ^ Suc k - 1) div 2 ^ Suc k"
    by (simp add: div_mult2_eq [symmetric] mult.commute)
  finally show ?case using Suc by simp
qed simp

lemma level_index: "i < length (level_nodes cr xs k) \<longleftrightarrow> i * 2 ^ k < length xs"
proof -
  have "i < length (level_nodes cr xs k) \<longleftrightarrow> Suc i \<le> (length xs + 2 ^ k - 1) div 2 ^ k" by (simp add: length_level_nodes Suc_le_eq)
  also have "\<dots> \<longleftrightarrow> Suc i * 2 ^ k \<le> length xs + 2 ^ k - 1" by (rule less_eq_div_iff_mult_less_eq) simp
  also have "\<dots> \<longleftrightarrow> i * 2 ^ k < length xs"
    unfolding mult_Suc using zero_less_power [of "2 :: nat" k] by (intro iffI) linarith+
  finally show ?thesis .
qed

lemma level_node_pair:
  "2 * i + 1 < length (level_nodes cr xs k) \<Longrightarrow>
   level_nodes cr xs (Suc k) ! i = Hash2 cr (level_nodes cr xs k ! (2 * i)) (level_nodes cr xs k ! (2 * i + 1))"
  by (simp add: nth_pair_up)

lemma level_node_single:
  "2 * i + 1 = length (level_nodes cr xs k) \<Longrightarrow>
   level_nodes cr xs (Suc k) ! i = Hash2 cr (level_nodes cr xs k ! (2 * i)) (level_nodes cr xs k ! (2 * i))"
  by (simp add: nth_pair_up)

lemma level_nodes_pair_up: "level_nodes cr (pair_up cr xs) k = level_nodes cr xs (Suc k)"
  by (induction k) simp_all

lemma merkle_root_pair_up: "2 \<le> length xs \<Longrightarrow> merkle_root cr xs = merkle_root cr (pair_up cr xs)"
  by (cases "(cr, xs)" rule: merkle_root.cases) simp_all

text \<open>The root is the only node of the lowest level that has one.\<close>

lemma merkle_root_level:
  "xs \<noteq> [] \<Longrightarrow> length xs \<le> 2 ^ k \<Longrightarrow> k = 0 \<or> 2 ^ (k - 1) < length xs \<Longrightarrow> merkle_root cr xs = level_nodes cr xs k ! 0"
proof (induction k arbitrary: xs)
  case 0
  then obtain x where "xs = [x]" by (cases xs) auto
  then show ?case by simp
next
  case (Suc k)
  have l: "2 ^ k < length xs" "length xs \<le> 2 * 2 ^ k" using Suc.prems by auto
  then have "1 < length xs" using one_le_power [of "2::nat" k] by linarith
  moreover have "merkle_root cr (pair_up cr xs) = level_nodes cr (pair_up cr xs) k ! 0"
  proof (rule Suc.IH)
    show "pair_up cr xs \<noteq> []" using Suc.prems(1) by simp
    show "length (pair_up cr xs) \<le> 2 ^ k" using l by simp
    show "k = 0 \<or> 2 ^ (k - 1) < length (pair_up cr xs)" using l by (cases k) auto
  qed
  ultimately show ?case using merkle_root_pair_up [of xs cr] by (simp add: level_nodes_pair_up)
qed

section \<open>The computation is correct\<close>

definition inner_ok :: "crypto \<Rightarrow> bytes list \<Rightarrow> nat \<Rightarrow> bytes list \<Rightarrow> bool" where
  "inner_ok cr xs m inner \<longleftrightarrow> length inner = 32 \<and>
     (\<forall>l < 32. bit m l \<longrightarrow> inner ! l = level_nodes cr xs l ! (m div 2 ^ l - 1))"

text \<open>After \<open>m\<close> leaves: where the branch of leaf \<open>p\<close> stands.\<close>

definition on_level :: "nat \<Rightarrow> nat \<Rightarrow> nat \<Rightarrow> bool" where
  "on_level m p l \<longleftrightarrow> bit m l \<and> p div 2 ^ l + 1 = m div 2 ^ l"

definition match_ok :: "crypto \<Rightarrow> bytes list \<Rightarrow> nat \<Rightarrow> nat \<Rightarrow> int \<Rightarrow> bytes list \<Rightarrow> bool" where
  "match_ok cr xs m p matchlevel branch \<longleftrightarrow>
     (if p < m then \<exists>l < 32. matchlevel = int l \<and> on_level m p l \<and> branch = merkle_branch cr xs p l
      else matchlevel = - 1 \<and> branch = [])"

text \<open>The hash pending at \<open>level\<close> covers leaf \<open>p\<close> exactly when \<open>matchh\<close> says so.\<close>

definition pending_ok :: "crypto \<Rightarrow> bytes list \<Rightarrow> nat \<Rightarrow> nat \<Rightarrow> int \<Rightarrow> nat \<Rightarrow> nat \<Rightarrow> bool \<Rightarrow> bytes list \<Rightarrow> bool" where
  "pending_ok cr xs m p matchlevel c level matchh branch \<longleftrightarrow>
     (matchh \<longleftrightarrow> p div 2 ^ level + 1 = c div 2 ^ level) \<and>
     (if matchh then branch = merkle_branch cr xs p level else match_ok cr xs m p matchlevel branch)"

lemma on_level_unique:
  assumes "on_level m p l" and "on_level m p l'"
  shows "l = l'"
proof -
  have False if "on_level m p l" "on_level m p l'" "l < l'" for l l'
  proof -
    have "p div 2 ^ Suc l = m div 2 ^ Suc l"
    proof -
      have "odd (m div 2 ^ l)" using that(1) by (simp add: on_level_def bit_iff_odd)
      then obtain j where "m div 2 ^ l = 2 * j + 1" by (rule oddE)
      moreover from this have "p div 2 ^ l = 2 * j" using that(1) by (simp add: on_level_def)
      ultimately show ?thesis by (simp add: div_pow_Suc del: power_Suc)
    qed
    moreover have "2 ^ l' = 2 ^ Suc l * (2::nat) ^ (l' - Suc l)" using that(3) by (simp add: power_add [symmetric] del: power_Suc)
    ultimately have "p div 2 ^ l' = m div 2 ^ l'" by (simp add: div_mult2_eq del: power_Suc)
    then show False using that(2) by (simp add: on_level_def)
  qed
  then show ?thesis using assms by (meson linorder_neqE_nat)
qed

text \<open>One level up in the merge: both children are complete, and \<open>inner\<close> has the left one.\<close>

lemma merge_position:
  fixes m c :: nat
  assumes "m < c" and "c \<le> m + 2 ^ level" and "2 ^ level dvd c" and "\<not> bit c level"
  obtains j where "c div 2 ^ level = 2 * j + 2" "m div 2 ^ level = 2 * j + 1" "c div 2 ^ Suc level = j + 1" "2 ^ Suc level dvd c"
proof -
  obtain q where q: "c = 2 ^ level * q" using assms(3) by (rule dvdE)
  have "even q" using assms(4) q by (simp add: bit_iff_odd)
  then obtain i where i: "q = 2 * i" by (rule evenE)
  have "i \<noteq> 0" using assms(1) q i by (intro notI) simp
  then obtain j where j: "i = j + 1" by (metis Suc_eq_plus1 not0_implies_Suc)
  have "m div 2 ^ level = 2 * j + 1"
  proof (rule div_nat_eqI)
    show "2 ^ level * (2 * j + 1) \<le> m" using assms(2) q i j by (simp add: algebra_simps)
    show "m < 2 ^ level * Suc (2 * j + 1)" using assms(1) q i j by (simp add: algebra_simps)
  qed
  then show ?thesis using that [of j] q i j by (simp add: div_pow_Suc del: power_Suc) (simp add: mult.assoc [symmetric])
qed

lemma merkle_branch_Suc: "merkle_branch cr xs p (Suc l) = merkle_branch cr xs p l @ [sibling cr xs p l]"
  by (simp add: merkle_branch_def)

lemma pending_step:
  assumes "inner_ok cr xs m inner" and "level < 32"
    and "c div 2 ^ level = 2 * j + 2" "m div 2 ^ level = 2 * j + 1" "c div 2 ^ Suc level = j + 1"
    and "2 * j + 2 \<le> length (level_nodes cr xs level)" and "h = level_nodes cr xs level ! (2 * j + 1)"
    and "pending_ok cr xs m p matchlevel c level matchh branch"
    and "branch_step True inner matchlevel level h matchh branch = (matchh', branch')"
  shows "pending_ok cr xs m p matchlevel c (Suc level) matchh' branch'"
proof -
  have b: "bit m level" using assms(4) by (simp add: bit_iff_odd)
  then have i: "inner ! level = level_nodes cr xs level ! (2 * j)" using assms(1,2,4) by (simp add: inner_ok_def)
  show ?thesis
  proof (cases matchh)
    case True
    then have p: "p div 2 ^ level = 2 * j + 1" and br: "branch = merkle_branch cr xs p level"
      using assms(3,8) by (auto simp: pending_ok_def)
    then have "matchh'" "branch' = merkle_branch cr xs p (Suc level)"
      using assms(9) True i by (auto simp: branch_step_def merkle_branch_Suc sibling_def)
    then show ?thesis using p assms(5) by (simp add: pending_ok_def div_pow_Suc del: power_Suc)
  next
    case False
    then have np: "p div 2 ^ level \<noteq> 2 * j + 1" and mo: "match_ok cr xs m p matchlevel branch"
      using assms(3,8) by (auto simp: pending_ok_def)
    show ?thesis
    proof (cases "matchlevel = int level")
      case True
      then have p: "p div 2 ^ level = 2 * j" and br: "branch = merkle_branch cr xs p level"
        using mo assms(4) by (auto simp: match_ok_def on_level_def split: if_splits)
      then have "matchh'" "branch' = merkle_branch cr xs p (Suc level)"
        using assms(6,7,9) True False by (auto simp: branch_step_def merkle_branch_Suc sibling_def)
      then show ?thesis using p assms(5) by (simp add: pending_ok_def div_pow_Suc del: power_Suc)
    next
      case nl: False
      have "p div 2 ^ level \<noteq> 2 * j"
      proof
        assume p: "p div 2 ^ level = 2 * j"
        then have "p div 2 ^ level < m div 2 ^ level" using assms(4) by simp
        then have "p < m" by (metis div_le_mono not_le)
        moreover have "on_level m p level" using p b assms(4) by (simp add: on_level_def)
        ultimately show False using mo nl on_level_unique by (fastforce simp: match_ok_def)
      qed
      then have "p div 2 ^ Suc level \<noteq> j" using np by (auto simp: div_pow_Suc simp del: power_Suc)
      then show ?thesis using assms(5,9) mo nl \<open>\<not> matchh\<close> by (auto simp: branch_step_def pending_ok_def simp del: power_Suc)
    qed
  qed
qed

text \<open>
  The merge from \<open>level\<close> on, with \<open>inner\<close> as it was after \<open>m\<close> leaves: it stops at the lowest set bit of \<open>c\<close>
  with the last node of that level among the first \<open>c\<close> leaves.
\<close>

lemma merge_levels_correct:
  assumes "inner_ok cr xs m inner" and "0 < c" "c < 2 ^ 32"
  shows "m < c \<Longrightarrow> c \<le> m + 2 ^ level \<Longrightarrow> 2 ^ level dvd c \<Longrightarrow> c div 2 ^ level \<le> length (level_nodes cr xs level) \<Longrightarrow>
    h = level_nodes cr xs level ! (c div 2 ^ level - 1) \<Longrightarrow>
    (pb \<Longrightarrow> pending_ok cr xs m p matchlevel c level matchh branch) \<Longrightarrow>
    \<exists>l matchh' branch'. level \<le> l \<and> l < 32 \<and> bit c l \<and> 2 ^ l dvd c \<and> c \<le> m + 2 ^ l \<and> c div 2 ^ l \<le> length (level_nodes cr xs l) \<and>
      merge_levels cr pb inner matchlevel c level h mutated matchh branch =
        Some (l, level_nodes cr xs l ! (c div 2 ^ l - 1),
          mutated \<or> (\<exists>k. level \<le> k \<and> k < l \<and> level_nodes cr xs k ! (c div 2 ^ k - 2) = level_nodes cr xs k ! (c div 2 ^ k - 1)),
          matchh', branch') \<and>
      (pb \<longrightarrow> pending_ok cr xs m p matchlevel c l matchh' branch')"
proof (induction "32 - level" arbitrary: level h mutated matchh branch)
  case 0
  then have "2 ^ 32 dvd c" using power_le_dvd [of 2 level c 32] by simp
  then show ?case using assms(2,3) by (simp add: nat_dvd_not_less)
next
  case (Suc f)
  then have lt: "level < 32" by simp
  show ?case
  proof (cases "bit c level")
    case True
    then show ?thesis using Suc.prems lt by (intro exI [of _ level]) (auto simp: merge_levels.simps [of _ _ _ _ _ level])
  next
    case False
    obtain j where j: "c div 2 ^ level = 2 * j + 2" "m div 2 ^ level = 2 * j + 1" "c div 2 ^ Suc level = j + 1" "2 ^ Suc level dvd c"
      by (rule merge_position [OF Suc.prems(1-3) False])
    have i: "inner ! level = level_nodes cr xs level ! (2 * j)" using assms(1) lt j(2) by (simp add: inner_ok_def bit_iff_odd)
    have h: "h = level_nodes cr xs level ! (2 * j + 1)" using Suc.prems(5) j(1) by simp
    have len: "2 * j + 2 \<le> length (level_nodes cr xs level)" using Suc.prems(4) j(1) by simp
    define h' where "h' = Hash2 cr (inner ! level) h"
    have h': "h' = level_nodes cr xs (Suc level) ! (c div 2 ^ Suc level - 1)"
      unfolding h'_def i h j(3) using level_node_pair [of j cr xs level] len by simp
    obtain matchh' branch' where bs: "branch_step pb inner matchlevel level h matchh branch = (matchh', branch')" by fastforce
    have pend: "pending_ok cr xs m p matchlevel c (Suc level) matchh' branch'" if pb
      using pending_step [OF assms(1) lt j(1,2,3) len h] Suc.prems(6) [OF that] bs that by simp
    have 1: "f = 32 - Suc level" using Suc.hyps(2) by simp
    have 2: "c \<le> m + 2 ^ Suc level" using Suc.prems(2) by simp
    have 3: "c div 2 ^ Suc level \<le> length (level_nodes cr xs (Suc level))" using j(3) len by simp
    note IH = Suc.hyps(1) [OF 1 Suc.prems(1) 2 j(4) 3 h', of matchh' branch' "mutated \<or> inner ! level = h"]
    have eq: "merge_levels cr pb inner matchlevel c level h mutated matchh branch =
        merge_levels cr pb inner matchlevel c (Suc level) h' (mutated \<or> inner ! level = h) matchh' branch'"
      using False lt bs by (subst merge_levels.simps) (simp add: h'_def)
    let ?P = "\<lambda>k. level_nodes cr xs k ! (c div 2 ^ k - 2) = level_nodes cr xs k ! (c div 2 ^ k - 1)"
    have pl: "?P level \<longleftrightarrow> inner ! level = h" by (simp add: j(1) i h)
    have dup: "((mutated \<or> inner ! level = h) \<or> (\<exists>k. Suc level \<le> k \<and> k < l \<and> ?P k)) \<longleftrightarrow> (mutated \<or> (\<exists>k. level \<le> k \<and> k < l \<and> ?P k))"
      if "Suc level \<le> l" for l
      unfolding pl [symmetric] using that by (metis Suc_le_eq le_eq_less_or_eq)
    from IH pend obtain l mh br where r: "Suc level \<le> l" "l < 32" "bit c l" "2 ^ l dvd c" "c \<le> m + 2 ^ l" "c div 2 ^ l \<le> length (level_nodes cr xs l)"
        "merge_levels cr pb inner matchlevel c (Suc level) h' (mutated \<or> inner ! level = h) matchh' branch' =
          Some (l, level_nodes cr xs l ! (c div 2 ^ l - 1), (mutated \<or> inner ! level = h) \<or> (\<exists>k. Suc level \<le> k \<and> k < l \<and> ?P k), mh, br)"
        "pb \<longrightarrow> pending_ok cr xs m p matchlevel c l mh br" by blast
    show ?thesis unfolding eq r(7) dup [OF r(1)] using r(1-6,8) by (intro exI [of _ l] exI [of _ mh] exI [of _ br]) simp
  qed
qed

lemma lowest_bit:
  fixes c :: nat
  assumes "bit c l" "2 ^ l dvd c"
  shows "2 ^ k dvd c \<longleftrightarrow> k \<le> l" and "k < l \<Longrightarrow> \<not> bit c k"
proof -
  have "\<not> 2 ^ Suc l dvd c"
  proof
    assume "2 ^ Suc l dvd c"
    then obtain q where "c = 2 ^ Suc l * q" by (rule dvdE)
    then have "c div 2 ^ l = 2 * q" by simp
    then show False using assms(1) by (simp add: bit_iff_odd)
  qed
  then show "2 ^ k dvd c \<longleftrightarrow> k \<le> l" using assms(2) by (meson not_less_eq_eq power_le_dvd)
  assume "k < l"
  then have "2 ^ Suc k dvd c" using assms(2) by (meson Suc_leI power_le_dvd)
  then obtain q where "c = 2 ^ Suc k * q" by (rule dvdE)
  then have "c div 2 ^ k = 2 * q" by simp
  then show "\<not> bit c k" by (simp add: bit_iff_odd)
qed

lemma above_lowest_bit:
  assumes "bit (Suc m) l" "2 ^ l dvd Suc m" "l < k"
  shows "Suc m div 2 ^ k = m div 2 ^ k" "bit (Suc m) k \<longleftrightarrow> bit m k"
proof -
  have "\<not> 2 ^ k dvd Suc m" using lowest_bit(1) [OF assms(1,2), of k] assms(3) by simp
  then show "Suc m div 2 ^ k = m div 2 ^ k" by (simp add: div_Suc dvd_eq_mod_eq_0)
  then show "bit (Suc m) k \<longleftrightarrow> bit m k" by (simp add: bit_iff_odd)
qed

lemma duplicated_Suc:
  assumes "bit (Suc m) l" "2 ^ l dvd Suc m"
  shows "duplicated cr xs (Suc m) \<longleftrightarrow> duplicated cr xs m \<or>
    (\<exists>k < l. level_nodes cr xs k ! (Suc m div 2 ^ k - 2) = level_nodes cr xs k ! (Suc m div 2 ^ k - 1))"
proof
  assume "duplicated cr xs (Suc m)"
  then obtain k i where ki: "2 ^ k * (2 * i + 2) \<le> Suc m" "level_nodes cr xs k ! (2 * i) = level_nodes cr xs k ! (2 * i + 1)"
    by (auto simp: duplicated_def)
  show "duplicated cr xs m \<or> (\<exists>k < l. level_nodes cr xs k ! (Suc m div 2 ^ k - 2) = level_nodes cr xs k ! (Suc m div 2 ^ k - 1))"
  proof (cases "2 ^ k * (2 * i + 2) = Suc m")
    case True
    then have "Suc m div 2 ^ k = 2 * i + 2" by (metis nonzero_mult_div_cancel_left power_not_zero zero_neq_numeral)
    moreover have "2 ^ Suc k dvd Suc m" using True by (auto simp flip: True intro: dvdI [of _ _ "i + 1"])
    then have "k < l" using lowest_bit(1) [OF assms] by (simp add: Suc_le_eq del: power_Suc)
    ultimately show ?thesis using ki(2) by auto
  next
    case False
    then show ?thesis using ki by (auto simp: duplicated_def)
  qed
next
  have "duplicated cr xs (Suc m)" if "k < l" "level_nodes cr xs k ! (Suc m div 2 ^ k - 2) = level_nodes cr xs k ! (Suc m div 2 ^ k - 1)" for k
  proof -
    have "2 ^ Suc k dvd Suc m" using lowest_bit(1) [OF assms] that(1) by (simp add: Suc_le_eq del: power_Suc)
    then obtain q where q: "Suc m = 2 ^ Suc k * q" by (rule dvdE)
    then have "q \<noteq> 0" by (intro notI) simp
    then obtain i where i: "q = i + 1" by (metis Suc_eq_plus1 not0_implies_Suc)
    have "Suc m div 2 ^ k = 2 * i + 2" unfolding q i by simp
    moreover have "2 ^ k * (2 * i + 2) \<le> Suc m" unfolding q i by simp
    ultimately show ?thesis using that(2) by (auto simp: duplicated_def)
  qed
  moreover have "duplicated cr xs m \<Longrightarrow> duplicated cr xs (Suc m)" unfolding duplicated_def by (metis le_SucI)
  ultimately show "duplicated cr xs m \<or> (\<exists>k < l. level_nodes cr xs k ! (Suc m div 2 ^ k - 2) = level_nodes cr xs k ! (Suc m div 2 ^ k - 1))
    \<Longrightarrow> duplicated cr xs (Suc m)" by blast
qed

lemma inner_ok_Suc:
  assumes "inner_ok cr xs m inner" and "bit (Suc m) l" "2 ^ l dvd Suc m" and "h = level_nodes cr xs l ! (Suc m div 2 ^ l - 1)"
  shows "inner_ok cr xs (Suc m) (inner[l := h])"
  unfolding inner_ok_def
proof (intro conjI allI impI)
  show "length (inner[l := h]) = 32" using assms(1) by (simp add: inner_ok_def)
  fix k :: nat assume k: "k < 32" "bit (Suc m) k"
  show "inner[l := h] ! k = level_nodes cr xs k ! (Suc m div 2 ^ k - 1)"
  proof (cases k l rule: linorder_cases)
    case less
    then show ?thesis using lowest_bit(2) [OF assms(2,3)] k(2) by blast
  next
    case equal
    then show ?thesis using assms(1,4) k(1) by (simp add: inner_ok_def)
  next
    case greater
    then show ?thesis using assms(1) k above_lowest_bit [OF assms(2,3) greater] by (simp add: inner_ok_def)
  qed
qed

lemma match_ok_Suc:
  assumes "bit (Suc m) l" "2 ^ l dvd Suc m" "l < 32" and "pending_ok cr xs m p matchlevel (Suc m) l matchh branch"
  shows "match_ok cr xs (Suc m) p (if matchh then int l else matchlevel) branch"
proof (cases matchh)
  case True
  then have p: "p div 2 ^ l + 1 = Suc m div 2 ^ l" "branch = merkle_branch cr xs p l" using assms(4) by (auto simp: pending_ok_def)
  then have "p div 2 ^ l < Suc m div 2 ^ l" by simp
  then have "p < Suc m" by (metis div_le_mono not_le)
  then show ?thesis using True p assms(1,3) by (auto simp: match_ok_def on_level_def)
next
  case False
  then have np: "p div 2 ^ l + 1 \<noteq> Suc m div 2 ^ l" and mo: "match_ok cr xs m p matchlevel branch" using assms(4) by (auto simp: pending_ok_def)
  obtain q where q: "Suc m = 2 ^ l * q" using assms(2) by (rule dvdE)
  have qp: "0 < q" using q by (cases q) auto
  have last: "p < 2 ^ l * (q - 1)" if "p < Suc m"
  proof -
    have "p div 2 ^ l < q" using that q by (simp add: less_mult_imp_div_less mult.commute)
    moreover have "p div 2 ^ l + 1 \<noteq> q" using np q by simp
    ultimately have "p div 2 ^ l < q - 1" by simp
    then show ?thesis by (simp add: div_less_iff_less_mult mult.commute)
  qed
  show ?thesis
  proof (cases "p < Suc m")
    case True
    have "p < m"
    proof -
      have "2 ^ l * (q - 1) + 2 ^ l = Suc m" using q qp by (simp add: algebra_simps)
      then show ?thesis using last [OF True] one_le_power [of "2::nat" l] by linarith
    qed
    then obtain k where k: "k < 32" "matchlevel = int k" "on_level m p k" "branch = merkle_branch cr xs p k"
      using mo by (auto simp: match_ok_def)
    have "l < k"
    proof (rule ccontr)
      assume "\<not> l < k"
      then consider "k < l" | "k = l" by linarith
      then show False
      proof cases
        case 1
        then have "2 ^ Suc k dvd Suc m" using lowest_bit(1) [OF assms(1,2), of "Suc k"] by (simp add: Suc_le_eq del: power_Suc)
        then obtain r where r: "Suc m = 2 ^ Suc k * r" by (rule dvdE)
        have "m div 2 ^ k = 2 * r - 1"
        proof (rule div_nat_eqI)
          have "0 < r" using r by (cases r) auto
          then have e: "2 ^ k * (2 * r - 1) + 2 ^ k = Suc m" using r by (simp add: algebra_simps)
          then show "2 ^ k * (2 * r - 1) \<le> m" using one_le_power [of "2::nat" k] by linarith
          show "m < 2 ^ k * Suc (2 * r - 1)" using e by simp
        qed
        then have "2 * r - 2 \<le> p div 2 ^ k" using k(3) unfolding on_level_def by linarith
        then have "2 ^ k * (2 * r - 2) \<le> p" by (simp add: less_eq_div_iff_mult_less_eq mult.commute)
        moreover have "2 ^ k * (2 * r - 2) + 2 ^ Suc k \<ge> Suc m" using r by (simp add: algebra_simps)
        moreover have "(2::nat) ^ Suc k \<le> 2 ^ l" using 1 by (simp add: Suc_le_eq del: power_Suc)
        moreover have "2 ^ l * (q - 1) + 2 ^ l = Suc m" using q qp by (simp add: algebra_simps)
        ultimately show False using last [OF True] by linarith
      next
        case 2
        have "m div 2 ^ l = q - 1"
        proof (rule div_nat_eqI)
          have e: "2 ^ l * (q - 1) + 2 ^ l = Suc m" using q qp by (simp add: algebra_simps)
          then show "2 ^ l * (q - 1) \<le> m" using one_le_power [of "2::nat" l] by linarith
          show "m < 2 ^ l * Suc (q - 1)" using e by simp
        qed
        moreover have "odd q" using assms(1) q by (simp add: bit_iff_odd)
        ultimately show False using k(3) 2 qp by (simp add: on_level_def bit_iff_odd)
      qed
    qed
    then show ?thesis using True False k above_lowest_bit [OF assms(1,2), of k] by (auto simp: match_ok_def on_level_def)
  qed (use mo False in \<open>auto simp: match_ok_def\<close>)
qed

text \<open>The state after \<open>m\<close> leaves.\<close>

definition leaf_inv :: "crypto \<Rightarrow> bytes list \<Rightarrow> bool \<Rightarrow> nat \<Rightarrow> nat \<Rightarrow> merkle_state \<Rightarrow> bool" where
  "leaf_inv cr xs pb p m st \<longleftrightarrow> inner_ok cr xs m (m_inner st) \<and> m_mutated st = duplicated cr xs m \<and>
     (pb \<longrightarrow> match_ok cr xs m p (m_matchlevel st) (m_branch st))"

lemma merkle_leaf_correct:
  assumes "leaf_inv cr xs pb p m st" and "m < length xs" "length xs < 2 ^ 32"
  shows "\<exists>st'. merkle_leaf cr pb p m (xs ! m) st = Some st' \<and> leaf_inv cr xs pb p (Suc m) st'"
proof -
  have pend: "pending_ok cr xs m p (m_matchlevel st) (Suc m) 0 (m = p) (m_branch st)" if pb
    using assms(1) that by (auto simp: leaf_inv_def pending_ok_def match_ok_def merkle_branch_def split: if_splits)
  from merge_levels_correct [of cr xs m "m_inner st" "Suc m" 0 "xs ! m" pb p "m_matchlevel st" "m = p" "m_branch st" "m_mutated st"]
  obtain l matchh branch where r: "l < 32" "bit (Suc m) l" "2 ^ l dvd Suc m"
      "merge_levels cr pb (m_inner st) (m_matchlevel st) (Suc m) 0 (xs ! m) (m_mutated st) (m = p) (m_branch st) =
        Some (l, level_nodes cr xs l ! (Suc m div 2 ^ l - 1),
          m_mutated st \<or> (\<exists>k < l. level_nodes cr xs k ! (Suc m div 2 ^ k - 2) = level_nodes cr xs k ! (Suc m div 2 ^ k - 1)), matchh, branch)"
      "pb \<longrightarrow> pending_ok cr xs m p (m_matchlevel st) (Suc m) l matchh branch"
    using assms pend by (auto simp: leaf_inv_def)
  have c1: "(m + 1) mod 2 ^ 32 = Suc m" using assms(2,3) by simp
  have mut: "(m_mutated st \<or> (\<exists>k < l. level_nodes cr xs k ! (Suc m div 2 ^ k - 2) = level_nodes cr xs k ! (Suc m div 2 ^ k - 1)))
      = duplicated cr xs (Suc m)"
    using assms(1) duplicated_Suc [OF r(2,3), of cr xs] by (simp only: leaf_inv_def)
  have "merkle_leaf cr pb p m (xs ! m) st = Some
      \<lparr>m_inner = (m_inner st)[l := level_nodes cr xs l ! (Suc m div 2 ^ l - 1)],
       m_matchlevel = (if matchh then int l else m_matchlevel st),
       m_mutated = duplicated cr xs (Suc m), m_branch = branch\<rparr>"
    by (simp only: merkle_leaf_def c1 r(4) option.case prod.case mut)
  moreover have "inner_ok cr xs m (m_inner st)" using assms(1) by (simp add: leaf_inv_def)
  ultimately show ?thesis
    using inner_ok_Suc [OF _ r(2,3) refl] match_ok_Suc [OF r(2,3,1)] r(5) by (simp add: leaf_inv_def)
qed

lemma merkle_leaves_correct:
  "leaf_inv cr xs pb p m st \<Longrightarrow> m \<le> length xs \<Longrightarrow> length xs < 2 ^ 32 \<Longrightarrow>
   \<exists>st'. merkle_leaves cr pb p m (drop m xs) st = Some st' \<and> leaf_inv cr xs pb p (length xs) st'"
proof (induction "length xs - m" arbitrary: m st)
  case (Suc d)
  then have m: "m < length xs" by simp
  obtain st1 where st1: "merkle_leaf cr pb p m (xs ! m) st = Some st1" "leaf_inv cr xs pb p (Suc m) st1"
    using merkle_leaf_correct [OF Suc.prems(1) m Suc.prems(3)] by blast
  have "(m + 1) mod 2 ^ 32 = Suc m" using m Suc.prems(3) by simp
  then show ?case using Suc.hyps(1) [of "Suc m" st1] Suc.hyps(2) Suc.prems(3) m st1
    by (simp add: Cons_nth_drop_Suc [symmetric])
qed simp

lemma lowest_level_correct:
  "0 < c \<Longrightarrow> c < 2 ^ 32 \<Longrightarrow> 2 ^ level dvd c \<Longrightarrow> \<exists>l. lowest_level c level = Some l \<and> l < 32 \<and> bit c l \<and> 2 ^ l dvd c"
proof (induction "32 - level" arbitrary: level)
  case 0
  then have "2 ^ 32 dvd c" using power_le_dvd [of 2 level c 32] by simp
  then show ?case using 0 by (simp add: nat_dvd_not_less)
next
  case (Suc f)
  show ?case
  proof (cases "bit c level")
    case True
    then show ?thesis using Suc.prems Suc.hyps(2) by (simp add: lowest_level.simps [of c level])
  next
    case False
    obtain q where q: "c = 2 ^ level * q" using Suc.prems(3) by (rule dvdE)
    then have "even q" using False by (simp add: bit_iff_odd)
    then have "2 ^ Suc level dvd c" using q by (auto elim!: evenE)
    then show ?thesis using Suc.hyps(1) [of "Suc level"] Suc.hyps(2) Suc.prems(1,2) False
      by (simp add: lowest_level.simps [of c level])
  qed
qed

text \<open>
  The sweep: \<open>c\<close> is the number of leaves of the tree completed up to \<open>level\<close>, and \<open>h\<close> its last node there.
\<close>

lemma last_node_index:
  fixes n c :: nat
  assumes "n \<le> c" "c < n + 2 ^ level" "2 ^ level dvd c"
  shows "(n + 2 ^ level - 1) div 2 ^ level = c div 2 ^ level"
proof -
  obtain q where q: "c = 2 ^ level * q" using assms(3) by (rule dvdE)
  have "(n + 2 ^ level - 1) div 2 ^ level = q"
    by (rule div_nat_eqI) (use assms(1,2) q in \<open>auto simp: algebra_simps\<close>)
  then show ?thesis using q by simp
qed

definition sweep_inv :: "crypto \<Rightarrow> bytes list \<Rightarrow> bool \<Rightarrow> nat \<Rightarrow> int \<Rightarrow> nat \<Rightarrow> nat \<Rightarrow> bytes \<Rightarrow> bool \<Rightarrow> bytes list \<Rightarrow> bool" where
  "sweep_inv cr xs pb p matchlevel c level h matchh branch \<longleftrightarrow>
     length xs \<le> c \<and> c < length xs + 2 ^ level \<and> 2 ^ level dvd c \<and> c \<le> 2 ^ 31 \<and> bit c level \<and>
     h = level_nodes cr xs level ! (c div 2 ^ level - 1) \<and>
     (c = 2 ^ level \<longrightarrow> level = 0 \<or> 2 ^ (level - 1) < length xs) \<and>
     (pb \<longrightarrow> pending_ok cr xs (length xs) p matchlevel c level matchh branch)"

lemma sweep_step:
  assumes "sweep_inv cr xs pb p matchlevel c level h matchh branch" and "c \<noteq> 2 ^ level"
    and "inner_ok cr xs (length xs) inner" and "pb \<Longrightarrow> p < length xs"
  shows "\<exists>l h' mutated' matchh' branch'. level < l \<and> l < 32 \<and>
    merge_levels cr pb inner matchlevel ((c + 2 ^ level) mod 2 ^ 32) (Suc level) (Hash2 cr h h) False matchh
      (if pb \<and> matchh then branch @ [h] else branch) = Some (l, h', mutated', matchh', branch') \<and>
    (c + 2 ^ level) mod 2 ^ 32 = c + 2 ^ level \<and>
    sweep_inv cr xs pb p matchlevel (c + 2 ^ level) l h' matchh' branch'"
proof -
  let ?n = "length xs" and ?c = "c + 2 ^ level"
  have inv: "?n \<le> c" "c < ?n + 2 ^ level" "2 ^ level dvd c" "c \<le> 2 ^ 31" "bit c level"
    "h = level_nodes cr xs level ! (c div 2 ^ level - 1)"
    "pb \<Longrightarrow> pending_ok cr xs ?n p matchlevel c level matchh branch"
    using assms(1) by (simp_all add: sweep_inv_def)
  obtain q where q: "c = 2 ^ level * q" using inv(3) by (rule dvdE)
  have "odd q" using inv(5) q by (simp add: bit_iff_odd)
  then obtain j where j: "q = 2 * j + 1" by (rule oddE)
  have j0: "0 < j" using assms(2) q j by (cases j) auto
  have len: "length (level_nodes cr xs level) = 2 * j + 1"
    using last_node_index [OF inv(1-3)] q j by (simp add: length_level_nodes)
  have h: "h = level_nodes cr xs level ! (2 * j)" using inv(6) q j by simp
  have cd: "?c = 2 ^ Suc level * (j + 1)" using q j by (simp add: algebra_simps)
  have cdiv: "?c div 2 ^ Suc level = j + 1" unfolding cd by simp
  have c31: "?c \<le> 2 ^ 31"
  proof (rule ccontr)
    assume a: "\<not> ?c \<le> 2 ^ 31"
    have "level < 31"
    proof (rule ccontr)
      assume "\<not> level < 31"
      then have "(2::nat) ^ 31 \<le> 2 ^ level" by (intro power_increasing) simp_all
      then have "2 ^ 31 * 3 \<le> c" using q j j0 mult_le_mono [of "2 ^ 31" "2 ^ level" 3 q] by simp
      then show False using inv(4) by simp
    qed
    then have "2 ^ Suc level dvd (2 :: nat) ^ 31" by (intro le_imp_power_dvd) simp
    then obtain r where r: "(2 :: nat) ^ 31 = 2 ^ Suc level * r" by (rule dvdE)
    then have "r < j + 1" using a cd by (metis mult_le_mono2 not_le)
    then have "2 ^ Suc level * r \<le> 2 ^ Suc level * j" by simp
    moreover have "c = 2 ^ Suc level * j + 2 ^ level" using q j by (simp add: algebra_simps)
    moreover have "0 < (2 :: nat) ^ level" by simp
    ultimately show False using r inv(4) by linarith
  qed
  have h': "Hash2 cr h h = level_nodes cr xs (Suc level) ! (?c div 2 ^ Suc level - 1)"
    unfolding cdiv h using level_node_single [of j cr xs level] len by simp
  have pq: "p div 2 ^ level \<le> 2 * j" if pb
  proof -
    have "p < 2 ^ level * (2 * j + 1)" using assms(4) [OF that] inv(1) q j by simp
    then have "p div 2 ^ level < 2 * j + 1" by (simp add: less_mult_imp_div_less mult.commute)
    then show ?thesis by simp
  qed
  have pend: "pending_ok cr xs ?n p matchlevel ?c (Suc level) matchh (if pb \<and> matchh then branch @ [h] else branch)" if pb
  proof (cases matchh)
    case True
    then have "p div 2 ^ level = 2 * j" "branch = merkle_branch cr xs p level" using inv(7) [OF that] q j by (auto simp: pending_ok_def)
    then show ?thesis using True that cdiv len h
      by (simp add: pending_ok_def merkle_branch_Suc sibling_def div_pow_Suc del: power_Suc)
  next
    case False
    then have "p div 2 ^ level \<noteq> 2 * j" "match_ok cr xs ?n p matchlevel branch" using inv(7) [OF that] q j by (auto simp: pending_ok_def)
    moreover from this have "p div 2 ^ Suc level \<noteq> j" using pq [OF that] by (auto simp: div_pow_Suc simp del: power_Suc)
    ultimately show ?thesis using False cdiv by (simp add: pending_ok_def del: power_Suc)
  qed
  have mod: "?c mod 2 ^ 32 = ?c" using c31 by simp
  have pre: "0 < ?c" "?c < 2 ^ 32" "?n < ?c" "?c \<le> ?n + 2 ^ Suc level" "2 ^ Suc level dvd ?c"
      "?c div 2 ^ Suc level \<le> length (level_nodes cr xs (Suc level))"
    using c31 inv(1,2) cd cdiv len by (auto simp: add_strict_increasing2 simp del: power_Suc) (simp_all add: add_strict_increasing2)
  from merge_levels_correct [OF assms(3) pre h' pend, where mutated = False]
  obtain l matchh' branch' where r: "Suc level \<le> l" "l < 32" "bit ?c l" "2 ^ l dvd ?c"
      "merge_levels cr pb inner matchlevel ?c (Suc level) (Hash2 cr h h) False matchh (if pb \<and> matchh then branch @ [h] else branch) =
        Some (l, level_nodes cr xs l ! (?c div 2 ^ l - 1),
          False \<or> (\<exists>k. Suc level \<le> k \<and> k < l \<and> level_nodes cr xs k ! (?c div 2 ^ k - 2) = level_nodes cr xs k ! (?c div 2 ^ k - 1)), matchh', branch')"
      "pb \<longrightarrow> pending_ok cr xs ?n p matchlevel ?c l matchh' branch'" by blast
  have lt: "?c < ?n + 2 ^ l"
  proof -
    have "(2::nat) ^ Suc level \<le> 2 ^ l" using r(1) by (simp del: power_Suc)
    then show ?thesis using inv(2) by simp
  qed
  have top: "l = 0 \<or> 2 ^ (l - 1) < ?n" if "?c = 2 ^ l"
  proof -
    have "l \<noteq> Suc level" using that assms(2) by auto
    then have "Suc level \<le> l - 1" using r(1) by simp
    then have "(2::nat) ^ Suc level \<le> 2 ^ (l - 1)" by (simp del: power_Suc)
    moreover have "2 ^ l = 2 ^ (l - 1) + (2::nat) ^ (l - 1)" using r(1) by (cases l) auto
    ultimately show ?thesis using that inv(2) by simp
  qed
  have "sweep_inv cr xs pb p matchlevel ?c l (level_nodes cr xs l ! (?c div 2 ^ l - 1)) matchh' branch'"
    unfolding sweep_inv_def using inv(1) lt r(3,4,6) c31 top by auto
  then show ?thesis unfolding mod r(5) option.inject prod.inject using r(1,2) Suc_le_lessD by blast
qed

lemma merkle_sweep_correct:
  assumes "inner_ok cr xs (length xs) inner" and "xs \<noteq> []" and "pb \<Longrightarrow> p < length xs"
  shows "level < 32 \<Longrightarrow> sweep_inv cr xs pb p matchlevel c level h matchh branch \<Longrightarrow>
    \<exists>branch' l. merkle_sweep cr pb inner matchlevel c level h matchh branch = Some (merkle_root cr xs, branch') \<and>
      length xs \<le> 2 ^ l \<and> (l = 0 \<or> 2 ^ (l - 1) < length xs) \<and> (pb \<longrightarrow> branch' = merkle_branch cr xs p l)"
proof (induction "32 - level" arbitrary: level c h matchh branch rule: less_induct)
  case less
  show ?case
  proof (cases "c = 2 ^ level")
    case True
    then have inv: "length xs \<le> 2 ^ level" "level = 0 \<or> 2 ^ (level - 1) < length xs" "h = level_nodes cr xs level ! 0"
      "pb \<longrightarrow> pending_ok cr xs (length xs) p matchlevel (2 ^ level) level matchh branch"
      using less.prems(2) by (simp_all add: sweep_inv_def)
    have "p div 2 ^ level = 0" if pb using inv(1) assms(3) [OF that] by simp
    then have "pb \<longrightarrow> branch = merkle_branch cr xs p level" using inv(4) by (auto simp: pending_ok_def)
    moreover have "merkle_root cr xs = h" unfolding inv(3) by (rule merkle_root_level [OF assms(2) inv(1,2)])
    ultimately show ?thesis using inv(1,2) True by (auto simp: merkle_sweep.simps)
  next
    case False
    obtain l h' mutated' matchh' branch' where s: "level < l" "l < 32"
      "merge_levels cr pb inner matchlevel ((c + 2 ^ level) mod 2 ^ 32) (Suc level) (Hash2 cr h h) False matchh
        (if pb \<and> matchh then branch @ [h] else branch) = Some (l, h', mutated', matchh', branch')"
      "(c + 2 ^ level) mod 2 ^ 32 = c + 2 ^ level" "sweep_inv cr xs pb p matchlevel (c + 2 ^ level) l h' matchh' branch'"
      using sweep_step [OF less.prems(2) False assms(1,3)] by blast
    have "merkle_sweep cr pb inner matchlevel c level h matchh branch =
        merkle_sweep cr pb inner matchlevel (c + 2 ^ level) l h' matchh' branch'"
      by (subst merkle_sweep.simps, subst s(3)) (simp only: s(4) False if_False option.case prod.case)
    then show ?thesis using less.hyps [OF _ s(2,5)] s(1,2) by simp
  qed
qed

text \<open>The computation as a whole, with the tree height \<open>l\<close> up to which the branch goes.\<close>

lemma MerkleComputation_spec:
  assumes "xs \<noteq> []" and "length xs \<le> 2 ^ 31" and "pb \<Longrightarrow> p < length xs"
  shows "\<exists>branch l. MerkleComputation cr xs p pb = Some (merkle_root cr xs, duplicated cr xs (length xs), branch) \<and>
    length xs \<le> 2 ^ l \<and> (l = 0 \<or> 2 ^ (l - 1) < length xs) \<and> (pb \<longrightarrow> branch = merkle_branch cr xs p l)"
proof -
  let ?n = "length xs"
  let ?st0 = "\<lparr>m_inner = replicate 32 uint256_null, m_matchlevel = - 1, m_mutated = False, m_branch = []\<rparr>"
  have n: "0 < ?n" "?n < 2 ^ 32" "?n mod 2 ^ 32 = ?n" using assms by auto
  have "leaf_inv cr xs pb p 0 ?st0" by (simp add: leaf_inv_def inner_ok_def match_ok_def duplicated_def)
  from merkle_leaves_correct [OF this _ n(2)]
  obtain st where st: "merkle_leaves cr pb p 0 xs ?st0 = Some st" "leaf_inv cr xs pb p ?n st" by auto
  obtain l0 where l0: "lowest_level ?n 0 = Some l0" "l0 < 32" "bit ?n l0" "2 ^ l0 dvd ?n"
    using lowest_level_correct [OF n(1,2), of 0] by auto
  have io: "inner_ok cr xs ?n (m_inner st)" using st(2) by (simp add: leaf_inv_def)
  have h0: "m_inner st ! l0 = level_nodes cr xs l0 ! (?n div 2 ^ l0 - 1)" using io l0(2,3) by (simp add: inner_ok_def)
  have "sweep_inv cr xs pb p (m_matchlevel st) ?n l0 (m_inner st ! l0) (m_matchlevel st = int l0) (m_branch st)"
  proof -
    have "pending_ok cr xs ?n p (m_matchlevel st) ?n l0 (m_matchlevel st = int l0) (m_branch st)" if b: pb
    proof -
      have mo: "match_ok cr xs ?n p (m_matchlevel st) (m_branch st)" using st(2) b by (simp add: leaf_inv_def)
      then obtain l where l: "m_matchlevel st = int l" "on_level ?n p l" "m_branch st = merkle_branch cr xs p l"
        using assms(3) [OF b] by (auto simp: match_ok_def)
      have "l = l0 \<longleftrightarrow> p div 2 ^ l0 + 1 = ?n div 2 ^ l0" using on_level_unique [OF l(2), of l0] l(2) l0(3) by (auto simp: on_level_def)
      then show ?thesis using l mo by (auto simp: pending_ok_def)
    qed
    moreover have "l0 = 0 \<or> 2 ^ (l0 - 1) < ?n" if "?n = 2 ^ l0" using that by (cases l0) auto
    ultimately show ?thesis unfolding sweep_inv_def using assms(2) l0(3,4) h0 by auto
  qed
  from merkle_sweep_correct [OF io assms(1,3) l0(2) this]
  show ?thesis unfolding MerkleComputation_def using assms(1) st l0(1) n(3) by (auto simp: leaf_inv_def Let_def)
qed

text \<open>Walking up a branch rebuilds the node above.\<close>

lemma root_from_branch:
  "p < length xs \<Longrightarrow> k \<le> l \<Longrightarrow>
   ComputeMerkleRootFromBranch cr (level_nodes cr xs k ! (p div 2 ^ k)) (map (sibling cr xs p) [k..<l]) (p div 2 ^ k)
     = level_nodes cr xs l ! (p div 2 ^ l)"
proof (induction "l - k" arbitrary: k)
  case (Suc d)
  let ?v = "level_nodes cr xs k" and ?q = "p div 2 ^ k"
  have q: "?q < length ?v" unfolding level_index using Suc.prems(1) by (meson div_times_less_eq_dividend le_less_trans)
  have "level_nodes cr xs (Suc k) ! (?q div 2) = (if odd ?q then Hash2 cr (sibling cr xs p k) (?v ! ?q) else Hash2 cr (?v ! ?q) (sibling cr xs p k))"
    using q by (auto simp: nth_pair_up sibling_def Let_def elim!: oddE evenE)
  moreover have "[k..<l] = k # [Suc k..<l]" using Suc.hyps(2) by (simp add: upt_conv_Cons)
  ultimately show ?case using Suc.hyps(1) [of "Suc k"] Suc.hyps(2) Suc.prems(1) by (simp add: div_pow_Suc del: power_Suc level_nodes.simps) 
qed simp

section \<open>What a root commits to\<close>

text \<open>The pairs that are hashed at one level, and in the whole tree.\<close>

fun pairs_of :: "bytes list \<Rightarrow> (bytes \<times> bytes) list" where
  "pairs_of [] = []"
| "pairs_of [x] = [(x, x)]"
| "pairs_of (x # y # xs) = (x, y) # pairs_of xs"

definition tree_pairs :: "crypto \<Rightarrow> bytes list \<Rightarrow> (bytes \<times> bytes) set" where
  "tree_pairs cr xs = {ab. \<exists>k. 1 < length (level_nodes cr xs k) \<and> ab \<in> set (pairs_of (level_nodes cr xs k))}"

definition collision_free :: "crypto \<Rightarrow> (bytes \<times> bytes) set \<Rightarrow> bool" where
  "collision_free cr S \<longleftrightarrow> inj_on (\<lambda>(a, b). Hash2 cr a b) S"

definition no_leaf_hash :: "crypto \<Rightarrow> (bytes \<times> bytes) set \<Rightarrow> bytes list \<Rightarrow> bool" where
  "no_leaf_hash cr S xs \<longleftrightarrow> (\<forall>(a, b) \<in> S. Hash2 cr a b \<notin> set xs)"

lemma pair_up_pairs_of: "pair_up cr xs = map (\<lambda>(a, b). Hash2 cr a b) (pairs_of xs)"
  by (induction xs rule: pairs_of.induct) simp_all

lemma length_pairs_of [simp]: "length (pairs_of xs) = (length xs + 1) div 2"
  by (induction xs rule: pairs_of.induct) auto

lemma nth_pairs_of:
  "i < (length xs + 1) div 2 \<Longrightarrow> pairs_of xs ! i = (xs ! (2 * i), if 2 * i + 1 < length xs then xs ! (2 * i + 1) else xs ! (2 * i))"
proof (induction xs arbitrary: i rule: pairs_of.induct)
  case (3 x y xs)
  then show ?case by (cases i) auto
qed simp_all

lemma pairs_of_Nil_iff [simp]: "pairs_of xs = [] \<longleftrightarrow> xs = []" "[] = pairs_of xs \<longleftrightarrow> xs = []"
  by (cases xs rule: pairs_of.cases; simp)+

lemma pairs_of_inj:
  "pairs_of xs = pairs_of ys \<Longrightarrow> length xs \<le> length ys \<Longrightarrow>
   xs = ys \<or> (\<exists>zs x. xs = zs @ [x] \<and> ys = zs @ [x, x] \<and> even (length zs))"
proof (induction xs arbitrary: ys rule: pairs_of.induct)
  case 1
  then show ?case by (cases ys rule: pairs_of.cases) auto
next
  case (2 x)
  then show ?case by (cases ys rule: pairs_of.cases) auto
next
  case (3 x y xs)
  then obtain ys' where ys: "ys = x # y # ys'" "pairs_of xs = pairs_of ys'" "length xs \<le> length ys'"
    by (cases ys rule: pairs_of.cases) auto
  from "3.IH" [OF ys(2,3)] show ?case
  proof
    assume "\<exists>zs z. xs = zs @ [z] \<and> ys' = zs @ [z, z] \<and> even (length zs)"
    then obtain zs z where "xs = zs @ [z]" "ys' = zs @ [z, z]" "even (length zs)" by blast
    then show ?thesis unfolding ys(1) by (intro disjI2 exI [of _ "x # y # zs"] exI [of _ z]) simp
  qed (simp add: ys)
qed

lemma tree_pairs_level:
  "1 < length (level_nodes cr xs k) \<Longrightarrow> set (pairs_of (level_nodes cr xs k)) \<subseteq> tree_pairs cr xs"
  by (auto simp: tree_pairs_def)

lemma pair_up_inj:
  assumes "collision_free cr S" and "set (pairs_of xs) \<subseteq> S" "set (pairs_of ys) \<subseteq> S" and "pair_up cr xs = pair_up cr ys"
  shows "pairs_of xs = pairs_of ys"
  using assms inj_on_subset [of "\<lambda>(a, b). Hash2 cr a b" S "set (pairs_of xs) \<union> set (pairs_of ys)"]
  by (simp add: pair_up_pairs_of collision_free_def inj_on_map_eq_map)

text \<open>A node with a missing leaf cannot equal a complete one, unless a pair below is duplicated.\<close>

lemma partial_eq_complete:
  assumes "collision_free cr (tree_pairs cr xs)"
  shows "(u + 1) * 2 ^ k \<le> length xs \<Longrightarrow> v * 2 ^ k < length xs \<Longrightarrow> length xs < (v + 1) * 2 ^ k \<Longrightarrow>
    level_nodes cr xs k ! u = level_nodes cr xs k ! v \<Longrightarrow> duplicated cr xs (length xs)"
proof (induction k arbitrary: u v)
  case (Suc k)
  let ?n = "length xs" and ?w = "level_nodes cr xs k"
  have bounds: "(2 * u + 2) * 2 ^ k \<le> ?n" "2 * v * 2 ^ k < ?n" "?n < (2 * v + 2) * 2 ^ k"
    using Suc.prems(1-3) by (simp_all add: algebra_simps)
  note len = level_index [of _ cr xs k]
  have u: "2 * u + 1 < length ?w"
  proof -
    have "(2 * u + 1) * 2 ^ k < (2 * u + 2) * 2 ^ k" by simp
    then show ?thesis unfolding len using bounds(1) by linarith
  qed
  have v: "2 * v < length ?w" unfolding len using bounds(2) by simp
  define r where "r = (if 2 * v + 1 < length ?w then 2 * v + 1 else 2 * v)"
  have one: "1 < length ?w" using u by simp
  have "(?w ! (2 * u), ?w ! (2 * u + 1)) \<in> tree_pairs cr xs" "(?w ! (2 * v), ?w ! r) \<in> tree_pairs cr xs"
  proof -
    have "pairs_of ?w ! u \<in> set (pairs_of ?w)" "pairs_of ?w ! v \<in> set (pairs_of ?w)" using u v by (auto intro: nth_mem)
    then show "(?w ! (2 * u), ?w ! (2 * u + 1)) \<in> tree_pairs cr xs" "(?w ! (2 * v), ?w ! r) \<in> tree_pairs cr xs"
      using tree_pairs_level [OF one] u v by (auto simp: nth_pairs_of r_def)
  qed
  moreover have "Hash2 cr (?w ! (2 * u)) (?w ! (2 * u + 1)) = Hash2 cr (?w ! (2 * v)) (?w ! r)"
    using Suc.prems(4) u v by (simp add: nth_pair_up r_def split: if_splits)
  ultimately have eq: "?w ! (2 * u) = ?w ! (2 * v)" "?w ! (2 * u + 1) = ?w ! r"
    using assms unfolding collision_free_def inj_on_def by fastforce+
  show ?case
  proof (cases "2 * v + 1 < length ?w")
    case True
    then have lv: "(2 * v + 1) * 2 ^ k < ?n" by (simp only: len)
    show ?thesis
      by (rule Suc.IH [of "2 * u + 1" "2 * v + 1"]) (use bounds lv eq True in \<open>simp_all add: r_def\<close>)
  next
    case False
    then have "?w ! (2 * u) = ?w ! (2 * u + 1)" using eq by (simp add: r_def)
    then show ?thesis unfolding duplicated_def using bounds(1) by (intro exI [of _ k] exI [of _ u]) (simp add: mult.commute)
  qed
qed simp

lemma no_trailing_pair:
  assumes "collision_free cr (tree_pairs cr xs)" and "level_nodes cr xs k = zs @ [x, x]" and "even (length zs)"
  shows "duplicated cr xs (length xs)"
proof -
  obtain i where i: "length zs = 2 * i" using assms(3) by (rule evenE)
  let ?n = "length xs"
  have l: "(?n + 2 ^ k - 1) div 2 ^ k = 2 * i + 2" using arg_cong [OF assms(2), of length] i by (simp add: length_level_nodes)
  then have b: "(2 * i + 2) * 2 ^ k \<le> ?n + 2 ^ k - 1" "?n + 2 ^ k - 1 < (2 * i + 3) * 2 ^ k"
    using div_times_less_eq_dividend [of "?n + 2 ^ k - 1" "2 ^ k"] dividend_less_times_div [of "2 ^ k" "?n + 2 ^ k - 1"]
    by (simp_all add: algebra_simps)
  have e: "level_nodes cr xs k ! (2 * i) = level_nodes cr xs k ! (2 * i + 1)" using i assms(2) by (simp add: nth_append)
  show ?thesis
  proof (cases "(2 * i + 2) * 2 ^ k \<le> ?n")
    case True
    then show ?thesis unfolding duplicated_def using e by (intro exI [of _ k] exI [of _ i]) (simp add: mult.commute)
  next
    case False
    show ?thesis
      by (rule partial_eq_complete [OF assms(1), of "2 * i" k "2 * i + 1"])
        (use b False e zero_less_power [of "2 :: nat" k] in \<open>simp_all add: algebra_simps\<close>)
  qed
qed

text \<open>One level down: equal levels come from equal levels.\<close>

lemma level_down:
  assumes cf: "collision_free cr (tree_pairs cr xs \<union> tree_pairs cr ys)"
    and nd: "\<not> duplicated cr xs (length xs)" "\<not> duplicated cr ys (length ys)"
    and "1 < length (level_nodes cr xs a)" "1 < length (level_nodes cr ys b)"
    and "level_nodes cr xs (Suc a) = level_nodes cr ys (Suc b)"
  shows "level_nodes cr xs a = level_nodes cr ys b"
proof -
  let ?v = "level_nodes cr xs a" and ?w = "level_nodes cr ys b"
  have cfs: "collision_free cr (tree_pairs cr xs)" "collision_free cr (tree_pairs cr ys)"
    using cf by (auto simp: collision_free_def intro: inj_on_subset)
  have pe: "pairs_of ?v = pairs_of ?w"
    using pair_up_inj [OF cf, of ?v ?w] tree_pairs_level [OF assms(4)] tree_pairs_level [OF assms(5)] assms(6) by auto
  show ?thesis
  proof (cases "length ?v \<le> length ?w")
    case True
    then show ?thesis using pairs_of_inj [OF pe True] no_trailing_pair [OF cfs(2)] nd(2) by blast
  next
    case False
    then have "length ?w \<le> length ?v" by simp
    then show ?thesis using pairs_of_inj [OF pe [symmetric]] no_trailing_pair [OF cfs(1)] nd(1) by metis
  qed
qed

lemma level_down_all:
  assumes "collision_free cr (tree_pairs cr xs \<union> tree_pairs cr ys)"
    and "\<not> duplicated cr xs (length xs)" "\<not> duplicated cr ys (length ys)"
  shows "a \<le> b \<Longrightarrow> level_nodes cr xs a = level_nodes cr ys b \<Longrightarrow>
    (\<And>k. k < a \<Longrightarrow> 1 < length (level_nodes cr xs k)) \<Longrightarrow> (\<And>k. k < b \<Longrightarrow> 1 < length (level_nodes cr ys k)) \<Longrightarrow>
    xs = level_nodes cr ys (b - a)"
proof (induction a arbitrary: b)
  case (Suc a)
  then obtain b' where b: "b = Suc b'" by (cases b) auto
  have "level_nodes cr xs a = level_nodes cr ys b'"
    using level_down [OF assms, of a b'] Suc.prems(2) Suc.prems(3) [of a] Suc.prems(4) [of b'] unfolding b by blast
  then show ?case using Suc.IH [of b'] Suc.prems b by simp
qed simp

lemma height_exists: "\<exists>h. n \<le> 2 ^ h \<and> (h = 0 \<or> 2 ^ (h - 1) < (n :: nat))"
proof -
  define h where "h = (LEAST h. n \<le> 2 ^ h)"
  have "n \<le> 2 ^ n" by (simp add: less_imp_le_nat)
  then have "n \<le> 2 ^ h" unfolding h_def by (rule LeastI)
  moreover have "h = 0 \<or> 2 ^ (h - 1) < n"
  proof (cases h)
    case (Suc k)
    then have "\<not> n \<le> 2 ^ k" using not_less_Least [of k "\<lambda>h. n \<le> 2 ^ h"] by (simp add: h_def)
    then show ?thesis using Suc by simp
  qed simp
  ultimately show ?thesis by blast
qed

lemma height_levels:
  assumes "xs \<noteq> []" and "length xs \<le> 2 ^ h" "h = 0 \<or> 2 ^ (h - 1) < length xs"
  shows "level_nodes cr xs h = [merkle_root cr xs]" and "k < h \<Longrightarrow> 1 < length (level_nodes cr xs k)"
proof -
  have "\<not> 1 < length (level_nodes cr xs h)" "0 < length (level_nodes cr xs h)" using assms(1,2) by (simp_all only: level_index) auto
  then have "length (level_nodes cr xs h) = 1" by linarith
  then obtain x where "level_nodes cr xs h = [x]" by (auto simp: length_Suc_conv)
  then show "level_nodes cr xs h = [merkle_root cr xs]" using merkle_root_level [OF assms, of cr] by simp
  assume "k < h"
  then have "(2 :: nat) ^ k \<le> 2 ^ (h - 1)" by (intro power_increasing) auto
  then show "1 < length (level_nodes cr xs k)" unfolding level_index using assms(3) \<open>k < h\<close>
    by (metis le_less_trans less_nat_zero_code mult_1)
qed

lemma tree_top:
  assumes "xs \<noteq> []"
  obtains h where "level_nodes cr xs h = [merkle_root cr xs]" "\<And>k. k < h \<Longrightarrow> 1 < length (level_nodes cr xs k)"
  using height_exists [of "length xs"] height_levels [OF assms] by metis

text \<open>A node above the leaves is the hash of a pair of the tree.\<close>

lemma inner_node_hash:
  assumes "x \<in> set (level_nodes cr xs (Suc k))" "1 < length (level_nodes cr xs k)"
  obtains a b where "(a, b) \<in> tree_pairs cr xs" "x = Hash2 cr a b"
  using assms tree_pairs_level [OF assms(2)] by (auto simp: pair_up_pairs_of)

lemma root_binding_le:
  assumes cf: "collision_free cr (tree_pairs cr xs \<union> tree_pairs cr ys)"
    and nd: "\<not> duplicated cr xs (length xs)" "\<not> duplicated cr ys (length ys)"
    and "level_nodes cr xs a = level_nodes cr ys b" "a \<le> b" "xs \<noteq> []"
    and "\<And>k. k < a \<Longrightarrow> 1 < length (level_nodes cr xs k)" "\<And>k. k < b \<Longrightarrow> 1 < length (level_nodes cr ys k)"
    and "no_leaf_hash cr (tree_pairs cr ys) xs"
  shows "xs = ys"
proof -
  have e: "xs = level_nodes cr ys (b - a)" by (rule level_down_all [OF cf nd assms(5,4,7,8)])
  show ?thesis
  proof (cases "b - a")
    case (Suc k)
    then have "xs ! 0 \<in> set (level_nodes cr ys (Suc k))" "1 < length (level_nodes cr ys k)"
      using e assms(6) assms(8) [of k] nth_mem [of 0 xs] by auto
    then obtain u v where "(u, v) \<in> tree_pairs cr ys" "xs ! 0 = Hash2 cr u v" by (rule inner_node_hash)
    then show ?thesis using assms(6,9) nth_mem [of 0 xs] by (fastforce simp: no_leaf_hash_def)
  qed (use e in simp)
qed

section \<open>Properties\<close>

text \<open>
  C20. The constant-space Merkle computation is the level-by-level one: for up to 2147483648 leaves it never
  leaves its 32 slots, returns the root obtained by pairing up level after level, with the last node
  of an odd level paired with itself, and reports a mutation exactly when two complete sibling subtrees are equal.
  The branch it computes for any leaf leads from that leaf to the same root.
\<close>

theorem ComputeMerkleRoot_correct:
  assumes "xs \<noteq> []" and "length xs \<le> 2 ^ 31" and "p < length xs"
  shows "ComputeMerkleRoot cr xs = Some (merkle_root cr xs, duplicated cr xs (length xs)) \<and>
    (\<exists>branch. ComputeMerkleBranch cr xs p = Some branch \<and> ComputeMerkleRootFromBranch cr (xs ! p) branch p = merkle_root cr xs)"
proof
  show "ComputeMerkleRoot cr xs = Some (merkle_root cr xs, duplicated cr xs (length xs))"
    using MerkleComputation_spec [OF assms(1,2), of False "2 ^ 32 - 1" cr] by (auto simp: ComputeMerkleRoot_def)
  obtain l where l: "ComputeMerkleBranch cr xs p = Some (merkle_branch cr xs p l)" "length xs \<le> 2 ^ l" "l = 0 \<or> 2 ^ (l - 1) < length xs"
    using MerkleComputation_spec [OF assms(1,2), of True p cr] assms(3) by (auto simp: ComputeMerkleBranch_def)
  have "ComputeMerkleRootFromBranch cr (xs ! p) (merkle_branch cr xs p l) p = level_nodes cr xs l ! (p div 2 ^ l)"
    using root_from_branch [OF assms(3), of 0 l cr] by (simp add: merkle_branch_def)
  also have "\<dots> = merkle_root cr xs" using merkle_root_level [OF assms(1) l(2,3)] l(2) assms(3) by simp
  finally show "\<exists>branch. ComputeMerkleBranch cr xs p = Some branch \<and> ComputeMerkleRootFromBranch cr (xs ! p) branch p = merkle_root cr xs"
    using l(1) by blast
qed

text \<open>
  C19. The root commits to the whole list of transactions, its length included: if the code
  computes the same root for two lists and reports neither as mutated, the lists are equal, as long as the
  pairs hashed for the two trees do not collide and no transaction id is the hash of such a pair.
\<close>

theorem merkle_root_binding:
  assumes "ComputeMerkleRoot cr xs = Some (r, False)" and "ComputeMerkleRoot cr ys = Some (r, False)"
    and "xs \<noteq> []" "length xs \<le> 2 ^ 31" "ys \<noteq> []" "length ys \<le> 2 ^ 31"
    and "collision_free cr (tree_pairs cr xs \<union> tree_pairs cr ys)"
    and "no_leaf_hash cr (tree_pairs cr xs \<union> tree_pairs cr ys) (xs @ ys)"
  shows "xs = ys"
proof -
  have x: "merkle_root cr xs = r" "\<not> duplicated cr xs (length xs)"
    using assms(1) MerkleComputation_spec [OF assms(3,4), of False "2 ^ 32 - 1" cr] by (auto simp: ComputeMerkleRoot_def)
  have y: "merkle_root cr ys = r" "\<not> duplicated cr ys (length ys)"
    using assms(2) MerkleComputation_spec [OF assms(5,6), of False "2 ^ 32 - 1" cr] by (auto simp: ComputeMerkleRoot_def)
  have nl: "no_leaf_hash cr (tree_pairs cr ys) xs" "no_leaf_hash cr (tree_pairs cr xs) ys"
    using assms(8) by (auto simp: no_leaf_hash_def)
  obtain a where a: "level_nodes cr xs a = [merkle_root cr xs]" "\<And>k. k < a \<Longrightarrow> 1 < length (level_nodes cr xs k)" by (rule tree_top [OF assms(3)]) blast
  obtain b where b: "level_nodes cr ys b = [merkle_root cr ys]" "\<And>k. k < b \<Longrightarrow> 1 < length (level_nodes cr ys k)" by (rule tree_top [OF assms(5)]) blast
  have ab: "level_nodes cr xs a = level_nodes cr ys b" using a(1) b(1) x(1) y(1) by simp
  show ?thesis
  proof (cases "a \<le> b")
    case True
    then show ?thesis using root_binding_le [OF assms(7) x(2) y(2) ab True assms(3) a(2) b(2) nl(1)] by blast
  next
    case False
    then show ?thesis
      using root_binding_le [OF assms(7) [unfolded Un_commute [of "tree_pairs cr xs"]] y(2) x(2) ab [symmetric] _ assms(5) b(2) a(2) nl(2)] by simp
  qed
qed

definition tagging_hash :: crypto where
  "tagging_hash = \<lparr>RIPEMD160 = id, SHA1 = id, SHA256 = id, Hash160 = id, Hash256 = (\<lambda>b. 7 # b), CheckLowS = (\<lambda>_. True)\<rparr>"

lemma Hash2_tagging [simp]: "Hash2 tagging_hash a b = 7 # a @ b"
  by (simp add: Hash2_def tagging_hash_def)

theorem ComputeMerkleRoot_correct_witness:
  "ComputeMerkleRoot tagging_hash [[1], [2], [3]] = Some ([7, 7, 1, 2, 7, 3, 3], duplicated tagging_hash [[1], [2], [3]] 3) \<and>
   (\<exists>branch. ComputeMerkleBranch tagging_hash [[1], [2], [3]] 2 = Some branch
     \<and> ComputeMerkleRootFromBranch tagging_hash [3] branch 2 = [7, 7, 1, 2, 7, 3, 3])"
  using ComputeMerkleRoot_correct [of "[[1], [2], [3]]" 2 tagging_hash] by (simp add: numeral_3_eq_3)

lemma three_leaf_pairs: "tree_pairs tagging_hash [[1], [2], [3]] = {([1], [2]), ([3], [3]), ([7, 1, 2], [7, 3, 3])}"
proof -
  have two: "1 < length (level_nodes tagging_hash [[1], [2], [3]] k) \<longleftrightarrow> k = 0 \<or> k = 1" for k
  proof -
    have "(2 :: nat) ^ k < 3 \<longleftrightarrow> k = 0 \<or> k = 1"
    proof (cases "k < 2")
      case False
      then have "(2 :: nat) ^ 2 \<le> 2 ^ k" by (intro power_increasing) auto
      then show ?thesis using False by auto
    qed (auto simp: less_2_cases_iff)
    then show ?thesis by (simp add: level_index numeral_3_eq_3)
  qed
  have "tree_pairs tagging_hash [[1], [2], [3]] = set (pairs_of (level_nodes tagging_hash [[1], [2], [3]] 0)) \<union>
      set (pairs_of (level_nodes tagging_hash [[1], [2], [3]] 1))"
    unfolding tree_pairs_def two by blast
  moreover have "set (pairs_of (level_nodes tagging_hash [[1], [2], [3]] 0)) = {([1], [2]), ([3], [3])}" by simp
  moreover have "set (pairs_of (level_nodes tagging_hash [[1], [2], [3]] 1)) = {([7, 1, 2], [7, 3, 3])}" by simp
  ultimately show ?thesis by (simp only: Un_insert_left Un_empty_left)
qed

theorem merkle_root_binding_witness:
  "\<exists>r. ComputeMerkleRoot tagging_hash [[1], [2], [3]] = Some (r, False) \<and> [[1], [2], [3]] = [[1], [2], [3 :: u8]]"
proof -
  have "\<not> duplicated tagging_hash [[1], [2], [3]] 3"
  proof
    assume "duplicated tagging_hash [[1], [2], [3]] 3"
    then obtain k i where ki: "2 ^ k * (2 * i + 2) \<le> (3 :: nat)" "level_nodes tagging_hash [[1], [2], [3]] k ! (2 * i) = level_nodes tagging_hash [[1], [2], [3]] k ! (2 * i + 1)"
      by (auto simp: duplicated_def)
    have "2 ^ k * 2 \<le> (2 :: nat) ^ k * (2 * i + 2)" by simp
    then have "(2 :: nat) ^ k \<le> 1" using ki(1) by linarith
    then have "k = 0" using one_less_power [of "2 :: nat" k] by auto
    moreover from this have "i = 0" using ki(1) by simp
    ultimately show False using ki(2) by simp
  qed
  then have c: "ComputeMerkleRoot tagging_hash [[1], [2], [3]] = Some ([7, 7, 1, 2, 7, 3, 3], False)"
    using MerkleComputation_spec [of "[[1], [2], [3]]" False "2 ^ 32 - 1" tagging_hash] by (auto simp: ComputeMerkleRoot_def numeral_3_eq_3)
  then show ?thesis using merkle_root_binding [OF c c] by (simp add: three_leaf_pairs collision_free_def no_leaf_hash_def)
qed

end
