(* ===== verification/MerkleBlock.thy ===== *)
theory MerkleBlock
  imports Merkle "HOL-Library.Sublist"
begin

text \<open>
  \<^verbatim>\<open>merkleblock.cpp\<close>: a partial Merkle tree proves to a light client that some transactions are in
  a block. Its nodes are visited depth first; a bit says whether a subtree has a matched
  transaction, and a hash is stored for every subtree that has none and for every leaf that is reached.
  \<^verbatim>\<open>unsigned int\<close> values are natural numbers with the wrap-around written out.
\<close>

record CPartialMerkleTree =
  nTransactions :: nat
  vBits :: "bool list"
  vHash :: "bytes list"
  tree_bad :: bool

definition CalcTreeWidth :: "nat \<Rightarrow> nat \<Rightarrow> nat" where
  "CalcTreeWidth n height = (n + 2 ^ height - 1) mod 2 ^ 32 div 2 ^ height"

text \<open>The loop that finds the height; \<open>None\<close> when the shift leaves the width of an \<^verbatim>\<open>int\<close>.\<close>

function tree_height :: "nat \<Rightarrow> nat \<Rightarrow> nat option" where
  "tree_height n height =
     (if height \<ge> 31 then None
      else if CalcTreeWidth n height > 1 then tree_height n (Suc height)
      else Some height)"
  by pat_completeness auto
termination by (relation "measure (\<lambda>(_, height). 31 - height)") auto

declare tree_height.simps [simp del]

fun CalcHash :: "crypto \<Rightarrow> nat \<Rightarrow> bytes list \<Rightarrow> nat \<Rightarrow> nat \<Rightarrow> bytes" where
  "CalcHash cr n vTxid 0 pos = vTxid ! pos"
| "CalcHash cr n vTxid (Suc height) pos =
     (let left = CalcHash cr n vTxid height (pos * 2);
          right = (if pos * 2 + 1 < CalcTreeWidth n height then CalcHash cr n vTxid height (pos * 2 + 1) else left)
      in Hash2 cr left right)"

definition parent_of_match :: "nat \<Rightarrow> bool list \<Rightarrow> nat \<Rightarrow> nat \<Rightarrow> bool" where
  "parent_of_match n vMatch height pos =
     list_ex (\<lambda>p. vMatch ! p) (filter (\<lambda>p. p < n) [pos * 2 ^ height ..< (pos + 1) * 2 ^ height])"

text \<open>What the traversal appends to \<^verbatim>\<open>vBits\<close> and \<^verbatim>\<open>vHash\<close>.\<close>

fun TraverseAndBuild :: "crypto \<Rightarrow> nat \<Rightarrow> bytes list \<Rightarrow> bool list \<Rightarrow> nat \<Rightarrow> nat \<Rightarrow> bool list \<times> bytes list \<Rightarrow> bool list \<times> bytes list" where
  "TraverseAndBuild cr n vTxid vMatch 0 pos (bits, hashes) =
     (bits @ [parent_of_match n vMatch 0 pos], hashes @ [CalcHash cr n vTxid 0 pos])"
| "TraverseAndBuild cr n vTxid vMatch (Suc height) pos (bits, hashes) =
     (if \<not> parent_of_match n vMatch (Suc height) pos
      then (bits @ [False], hashes @ [CalcHash cr n vTxid (Suc height) pos])
      else let s = TraverseAndBuild cr n vTxid vMatch height (pos * 2) (bits @ [True], hashes)
           in if pos * 2 + 1 < CalcTreeWidth n height
              then TraverseAndBuild cr n vTxid vMatch height (pos * 2 + 1) s
              else s)"

definition mk_CPartialMerkleTree :: "crypto \<Rightarrow> bytes list \<Rightarrow> bool list \<Rightarrow> CPartialMerkleTree option" where
  "mk_CPartialMerkleTree cr vTxid vMatch =
     (let n = length vTxid mod 2 ^ 32
      in case tree_height n 0 of
           None \<Rightarrow> None
         | Some h \<Rightarrow>
             (case TraverseAndBuild cr n vTxid vMatch h 0 ([], []) of
                (bits, hashes) \<Rightarrow> Some \<lparr>nTransactions = n, vBits = bits, vHash = hashes, tree_bad = False\<rparr>))"

record extract_state =
  nBitsUsed :: nat
  nHashUsed :: nat
  matches :: "bytes list"
  fBad :: bool

fun TraverseAndExtract :: "crypto \<Rightarrow> CPartialMerkleTree \<Rightarrow> nat \<Rightarrow> nat \<Rightarrow> extract_state \<Rightarrow> bytes \<times> extract_state" where
  "TraverseAndExtract cr t height pos st =
     (if nBitsUsed st \<ge> length (vBits t) then (uint256_null, st\<lparr>fBad := True\<rparr>)
      else let fParentOfMatch = vBits t ! nBitsUsed st;
               st = st\<lparr>nBitsUsed := nBitsUsed st + 1\<rparr>
           in (if height = 0 \<or> \<not> fParentOfMatch
               then if nHashUsed st \<ge> length (vHash t) then (uint256_null, st\<lparr>fBad := True\<rparr>)
                    else let hash = vHash t ! nHashUsed st;
                             st = st\<lparr>nHashUsed := nHashUsed st + 1\<rparr>
                         in (hash, if height = 0 \<and> fParentOfMatch then st\<lparr>matches := matches st @ [hash]\<rparr> else st)
               else case TraverseAndExtract cr t (height - 1) (pos * 2) st of
                      (left, st) \<Rightarrow>
                        (if pos * 2 + 1 < CalcTreeWidth (nTransactions t) (height - 1)
                         then case TraverseAndExtract cr t (height - 1) (pos * 2 + 1) st of
                                (right, st) \<Rightarrow>
                                  (Hash2 cr left right, if right = left then st\<lparr>fBad := True\<rparr> else st)
                         else (Hash2 cr left left, st))))"

declare TraverseAndExtract.simps [simp del]

definition MAX_DIP0001_BLOCK_SIZE :: nat where "MAX_DIP0001_BLOCK_SIZE = 55000000"

text \<open>The root, the matched transaction ids, and the object with its failure flag.\<close>

definition ExtractMatches :: "crypto \<Rightarrow> CPartialMerkleTree \<Rightarrow> (bytes \<times> bytes list \<times> CPartialMerkleTree) option" where
  "ExtractMatches cr t =
     (if nTransactions t = 0 then Some (uint256_null, [], t)
      else if nTransactions t > MAX_DIP0001_BLOCK_SIZE div 60 then Some (uint256_null, [], t)
      else if length (vHash t) > nTransactions t then Some (uint256_null, [], t)
      else if length (vBits t) < length (vHash t) then Some (uint256_null, [], t)
      else case tree_height (nTransactions t) 0 of
             None \<Rightarrow> None
           | Some h \<Rightarrow>
               (case TraverseAndExtract cr t h 0 \<lparr>nBitsUsed = 0, nHashUsed = 0, matches = [], fBad = tree_bad t\<rparr> of
                  (hashMerkleRoot, st) \<Rightarrow>
                    Some (if fBad st then uint256_null
                          else if (nBitsUsed st + 7) div 8 \<noteq> (length (vBits t) + 7) div 8 then uint256_null
                          else if nHashUsed st \<noteq> length (vHash t) then uint256_null
                          else hashMerkleRoot, matches st, t\<lparr>tree_bad := fBad st\<rparr>)))"

section \<open>The shape of the tree\<close>

lemma tree_width: "length xs \<le> 2 ^ 31 \<Longrightarrow> h < 31 \<Longrightarrow> xs \<noteq> [] \<Longrightarrow> CalcTreeWidth (length xs) h = length (level_nodes cr xs h)"
proof -
  assume a: "length xs \<le> 2 ^ 31" "h < 31" "xs \<noteq> []"
  have "(2 :: nat) ^ h \<le> 2 ^ 30" using a(2) by (intro power_increasing) auto
  then have "length xs + 2 ^ h - 1 < 2 ^ 32" using a(1) by simp
  then show ?thesis by (simp add: CalcTreeWidth_def length_level_nodes)
qed

lemma tree_height_correct:
  fixes xs :: "bytes list"
  assumes "xs \<noteq> []" and "length xs \<le> 2 ^ 30"
  shows "\<exists>h. tree_height (length xs) 0 = Some h \<and> h < 31 \<and> length xs \<le> 2 ^ h \<and> (h = 0 \<or> 2 ^ (h - 1) < length xs)"
proof -
  have w: "CalcTreeWidth (length xs) k > 1 \<longleftrightarrow> 2 ^ k < length xs" if "k < 31" for k
    using tree_width [of xs k sample_crypto] that assms level_index [of 1 sample_crypto xs k] by simp
  have step: "k < 31 \<Longrightarrow> k = 0 \<or> 2 ^ (k - 1) < length xs \<Longrightarrow>
      \<exists>h. tree_height (length xs) k = Some h \<and> h < 31 \<and> length xs \<le> 2 ^ h \<and> (h = 0 \<or> 2 ^ (h - 1) < length xs)" for k
  proof (induction "31 - k" arbitrary: k)
    case (Suc d)
    show ?case
    proof (cases "2 ^ k < length xs")
      case True
      then have "(2 :: nat) ^ k < 2 ^ 30" using assms(2) by linarith
      then have "Suc k < 31" using power_less_imp_less_exp [of "2 :: nat" k 30] by simp
      then show ?thesis using Suc.hyps(1) [of "Suc k"] Suc.hyps(2) Suc.prems(1) True w [of k] by (simp add: tree_height.simps [of _ k])
    next
      case False
      then show ?thesis using Suc.prems w [of k] by (auto simp: tree_height.simps [of _ k])
    qed
  qed simp
  show ?thesis using step [of 0] by simp
qed

lemma CalcHash_level:
  assumes "xs \<noteq> []" and "length xs \<le> 2 ^ 31"
  shows "h < 32 \<Longrightarrow> pos < length (level_nodes cr xs h) \<Longrightarrow> CalcHash cr (length xs) xs h pos = level_nodes cr xs h ! pos"
proof (induction h arbitrary: pos)
  case (Suc h)
  have w: "CalcTreeWidth (length xs) h = length (level_nodes cr xs h)" using tree_width [OF assms(2)] Suc.prems(1) assms(1) by simp
  have "2 * pos < length (level_nodes cr xs h)" using Suc.prems(2) by simp
  then show ?case using Suc w by (simp add: nth_pair_up mult.commute Let_def)
qed simp

section \<open>Building and extracting\<close>

text \<open>What a traversal of the subtree at \<open>(height, pos)\<close> writes, and the transactions it marks.\<close>

fun built :: "crypto \<Rightarrow> bytes list \<Rightarrow> bool list \<Rightarrow> nat \<Rightarrow> nat \<Rightarrow> bool list \<times> bytes list" where
  "built cr xs vMatch 0 pos = ([parent_of_match (length xs) vMatch 0 pos], [level_nodes cr xs 0 ! pos])"
| "built cr xs vMatch (Suc h) pos =
     (if \<not> parent_of_match (length xs) vMatch (Suc h) pos then ([False], [level_nodes cr xs (Suc h) ! pos])
      else let l = built cr xs vMatch h (pos * 2); r = built cr xs vMatch h (pos * 2 + 1)
           in if pos * 2 + 1 < length (level_nodes cr xs h) then (True # fst l @ fst r, snd l @ snd r)
              else (True # fst l, snd l))"

definition leaf_range :: "nat \<Rightarrow> nat \<Rightarrow> nat \<Rightarrow> nat list" where
  "leaf_range n h pos = filter (\<lambda>p. p < n) [pos * 2 ^ h ..< (pos + 1) * 2 ^ h]"

definition matched :: "bytes list \<Rightarrow> bool list \<Rightarrow> nat \<Rightarrow> nat \<Rightarrow> bytes list" where
  "matched xs vMatch h pos = map (nth xs) (filter (nth vMatch) (leaf_range (length xs) h pos))"

lemma leaf_range_Suc: "leaf_range n (Suc h) pos = leaf_range n h (pos * 2) @ leaf_range n h (pos * 2 + 1)"
proof -
  have "[pos * 2 ^ Suc h ..< (pos + 1) * 2 ^ Suc h] = [pos * 2 * 2 ^ h ..< (pos * 2 + 1) * 2 ^ h] @ [(pos * 2 + 1) * 2 ^ h ..< (pos * 2 + 1 + 1) * 2 ^ h]"
    using upt_add_eq_append [of "pos * 2 * 2 ^ h" "(pos * 2 + 1) * 2 ^ h" "2 ^ h"] by (simp add: algebra_simps)
  then show ?thesis by (simp add: leaf_range_def)
qed

lemma leaf_range_beyond: "\<not> pos < length (level_nodes cr xs h) \<Longrightarrow> leaf_range (length xs) h pos = []"
  by (auto simp: leaf_range_def filter_empty_conv level_index)

lemma matched_Suc:
  "matched xs vMatch (Suc h) pos = matched xs vMatch h (pos * 2) @ matched xs vMatch h (pos * 2 + 1)"
  by (simp add: matched_def leaf_range_Suc)

lemma parent_of_match_matched: "\<not> parent_of_match (length xs) vMatch h pos \<Longrightarrow> matched xs vMatch h pos = []"
  by (auto simp: parent_of_match_def matched_def leaf_range_def list_ex_iff filter_empty_conv)

lemma TraverseAndBuild_built:
  assumes "xs \<noteq> []" and "length xs \<le> 2 ^ 31"
  shows "h < 32 \<Longrightarrow> pos < length (level_nodes cr xs h) \<Longrightarrow>
    TraverseAndBuild cr (length xs) xs vMatch h pos (bits, hashes) =
      (bits @ fst (built cr xs vMatch h pos), hashes @ snd (built cr xs vMatch h pos))"
proof (induction h arbitrary: pos bits hashes)
  case 0
  then show ?case using CalcHash_level [OF assms, of 0 pos cr] by simp
next
  case (Suc h)
  have w: "CalcTreeWidth (length xs) h = length (level_nodes cr xs h)" using tree_width [OF assms(2)] Suc.prems(1) assms(1) by simp
  have "pos * 2 < length (level_nodes cr xs h)" using Suc.prems(2) by simp
  then show ?case using Suc w CalcHash_level [OF assms Suc.prems]
    by (simp add: Let_def del: CalcHash.simps)
qed

text \<open>There is a bit for every hash, and at most one hash for every leaf.\<close>

lemma built_lengths:
  "pos < length (level_nodes cr xs h) \<Longrightarrow>
   length (snd (built cr xs vMatch h pos)) \<le> length (fst (built cr xs vMatch h pos)) \<and>
   length (snd (built cr xs vMatch h pos)) \<le> length (leaf_range (length xs) h pos)"
proof (induction h arbitrary: pos)
  case 0
  then show ?case by (simp add: leaf_range_def)
next
  case (Suc h)
  have l: "pos * 2 < length (level_nodes cr xs h)" using Suc.prems by simp
  have "length (leaf_range (length xs) h (pos * 2)) \<ge> 1"
  proof -
    have "pos * 2 * 2 ^ h \<in> set (leaf_range (length xs) h (pos * 2))" using l by (simp add: leaf_range_def level_index)
    then show ?thesis by (metis length_pos_if_in_set One_nat_def Suc_leI)
  qed
  then show ?case using Suc.IH [OF l] Suc.IH [of "pos * 2 + 1"] by (auto simp: Let_def leaf_range_Suc)
qed

definition siblings_differ :: "crypto \<Rightarrow> bytes list \<Rightarrow> bool" where
  "siblings_differ cr xs \<longleftrightarrow> (\<forall>k i. 2 * i + 1 < length (level_nodes cr xs k) \<longrightarrow> level_nodes cr xs k ! (2 * i) \<noteq> level_nodes cr xs k ! (2 * i + 1))"

lemma drop_Cons_nth: "drop n zs = x # rest \<Longrightarrow> n < length zs \<and> zs ! n = x \<and> drop (Suc n) zs = rest"
  by (metis Cons_nth_drop_Suc drop_all list.discI list.inject not_le)

lemma drop_append_add: "drop n zs = ys @ rest \<Longrightarrow> drop (n + length ys) zs = rest"
  by (metis add.commute append_eq_conv_conj drop_drop)

lemma extract_built:
  assumes "xs \<noteq> []" "length xs \<le> 2 ^ 31" "siblings_differ cr xs" "nTransactions t = length xs"
  shows "h < 32 \<Longrightarrow> pos < length (level_nodes cr xs h) \<Longrightarrow>
    drop (nBitsUsed st) (vBits t) = fst (built cr xs vMatch h pos) @ rb \<Longrightarrow>
    drop (nHashUsed st) (vHash t) = snd (built cr xs vMatch h pos) @ rh \<Longrightarrow>
    TraverseAndExtract cr t h pos st =
      (level_nodes cr xs h ! pos,
       st\<lparr>nBitsUsed := nBitsUsed st + length (fst (built cr xs vMatch h pos)),
          nHashUsed := nHashUsed st + length (snd (built cr xs vMatch h pos)),
          matches := matches st @ matched xs vMatch h pos\<rparr>)"
proof (induction h arbitrary: pos st rb rh)
  case 0
  have m: "matched xs vMatch 0 pos = (if parent_of_match (length xs) vMatch 0 pos then [xs ! pos] else [])"
    using "0.prems"(2) by (simp add: matched_def leaf_range_def parent_of_match_def)
  show ?case using drop_Cons_nth [of "nBitsUsed st" "vBits t"] drop_Cons_nth [of "nHashUsed st" "vHash t"] "0.prems"
    by (subst TraverseAndExtract.simps) (simp add: Let_def m)
next
  case (Suc h)
  let ?v = "level_nodes cr xs h" and ?pm = "parent_of_match (length xs) vMatch (Suc h) pos"
  have w: "CalcTreeWidth (nTransactions t) h = length ?v" using tree_width [OF assms(2)] Suc.prems(1) assms(1,4) by simp
  have l: "pos * 2 < length ?v" using Suc.prems(2) by simp
  show ?case
  proof (cases ?pm)
    case False
    then show ?thesis
      using drop_Cons_nth [of "nBitsUsed st" "vBits t" False] drop_Cons_nth [of "nHashUsed st" "vHash t"] Suc.prems parent_of_match_matched [OF False]
      by (subst TraverseAndExtract.simps) (simp add: Let_def del: level_nodes.simps)
  next
    case True
    let ?bl = "built cr xs vMatch h (pos * 2)" and ?br = "built cr xs vMatch h (pos * 2 + 1)"
    let ?st1 = "st\<lparr>nBitsUsed := nBitsUsed st + 1\<rparr>"
    show ?thesis
    proof (cases "pos * 2 + 1 < length ?v")
      case two: True
      have d: "drop (nBitsUsed st) (vBits t) = True # fst ?bl @ fst ?br @ rb" "drop (nHashUsed st) (vHash t) = snd ?bl @ snd ?br @ rh"
        using Suc.prems(3,4) True two by (simp_all add: Let_def)
      note b = drop_Cons_nth [OF d(1)]
      let ?st2 = "?st1\<lparr>nBitsUsed := nBitsUsed ?st1 + length (fst ?bl), nHashUsed := nHashUsed ?st1 + length (snd ?bl), matches := matches ?st1 @ matched xs vMatch h (pos * 2)\<rparr>"
      have e1: "TraverseAndExtract cr t h (pos * 2) ?st1 = (?v ! (pos * 2), ?st2)"
        by (rule Suc.IH [OF _ l, of ?st1]) (use Suc.prems(1) b d(2) in simp_all)
      have e2: "TraverseAndExtract cr t h (pos * 2 + 1) ?st2 = (?v ! (pos * 2 + 1),
          ?st2\<lparr>nBitsUsed := nBitsUsed ?st2 + length (fst ?br), nHashUsed := nHashUsed ?st2 + length (snd ?br), matches := matches ?st2 @ matched xs vMatch h (pos * 2 + 1)\<rparr>)"
        by (rule Suc.IH [OF _ two, of ?st2])
          (use Suc.prems(1) b drop_append_add [of "Suc (nBitsUsed st)" "vBits t" "fst ?bl" "fst ?br @ rb"] drop_append_add [OF d(2)] in simp_all)
      have ne: "?v ! (pos * 2 + 1) \<noteq> ?v ! (pos * 2)" using assms(3) two unfolding siblings_differ_def by (metis mult.commute)
      have root: "Hash2 cr (?v ! (pos * 2)) (?v ! (pos * 2 + 1)) = level_nodes cr xs (Suc h) ! pos"
        using level_node_pair [of pos cr xs h] two by (simp add: mult.commute)
      have "TraverseAndExtract cr t (Suc h) pos st = (Hash2 cr (?v ! (pos * 2)) (?v ! (pos * 2 + 1)),
          ?st2\<lparr>nBitsUsed := nBitsUsed ?st2 + length (fst ?br), nHashUsed := nHashUsed ?st2 + length (snd ?br), matches := matches ?st2 @ matched xs vMatch h (pos * 2 + 1)\<rparr>)"
        using b two ne by (subst TraverseAndExtract.simps) (simp add: Let_def e1 [simplified] e2 [simplified] w del: level_nodes.simps)
      then show ?thesis unfolding root using True two by (simp add: Let_def matched_Suc add.assoc del: level_nodes.simps)
    next
      case one: False
      have d: "drop (nBitsUsed st) (vBits t) = True # fst ?bl @ rb" "drop (nHashUsed st) (vHash t) = snd ?bl @ rh"
        using Suc.prems(3,4) True one by (simp_all add: Let_def)
      note b = drop_Cons_nth [OF d(1)]
      have e1: "TraverseAndExtract cr t h (pos * 2) ?st1 = (?v ! (pos * 2),
          ?st1\<lparr>nBitsUsed := nBitsUsed ?st1 + length (fst ?bl), nHashUsed := nHashUsed ?st1 + length (snd ?bl), matches := matches ?st1 @ matched xs vMatch h (pos * 2)\<rparr>)"
        by (rule Suc.IH [OF _ l, of ?st1]) (use Suc.prems(1) b d(2) in simp_all)
      have "2 * pos + 1 = length ?v" using one l by simp
      then have root: "Hash2 cr (?v ! (pos * 2)) (?v ! (pos * 2)) = level_nodes cr xs (Suc h) ! pos"
        using level_node_single [of pos cr xs h] by (simp add: mult.commute)
      have "matched xs vMatch h (pos * 2 + 1) = []" using leaf_range_beyond [OF one] by (simp add: matched_def)
      then show ?thesis using b one True root
        by (subst TraverseAndExtract.simps) (simp add: Let_def e1 [simplified] w matched_Suc del: level_nodes.simps)
    qed
  qed
qed

section \<open>What an extracted tree proves\<close>











section \<open>Properties\<close>

text \<open>
  C22. A partial tree built for a block gives back what it was built from: for up to 916666
  transactions whose sibling subtrees all differ, the constructor succeeds and
  \<^verbatim>\<open>ExtractMatches\<close> returns the Merkle root of the block and exactly the matched transactions, in order.
\<close>

theorem partial_merkle_tree_roundtrip:
  assumes "vTxid \<noteq> []" and "length vTxid \<le> 916666" and "siblings_differ cr vTxid"
  shows "\<exists>t. mk_CPartialMerkleTree cr vTxid vMatch = Some t \<and>
    ExtractMatches cr t = Some (merkle_root cr vTxid, map (nth vTxid) (filter (nth vMatch) [0..<length vTxid]), t)"
proof -
  let ?n = "length vTxid"
  have n: "?n mod 2 ^ 32 = ?n" "?n \<le> 2 ^ 31" "?n \<le> 2 ^ 30" using assms(2) by simp_all
  obtain h where h: "tree_height ?n 0 = Some h" "h < 31" "?n \<le> 2 ^ h" "h = 0 \<or> 2 ^ (h - 1) < ?n"
    using tree_height_correct [OF assms(1) n(3)] by blast
  have top: "level_nodes cr vTxid h = [merkle_root cr vTxid]" by (rule height_levels [OF assms(1) h(3,4)])
  let ?b = "built cr vTxid vMatch h 0"
  define t where "t = \<lparr>nTransactions = ?n, vBits = fst ?b, vHash = snd ?b, tree_bad = False\<rparr>"
  have mk: "mk_CPartialMerkleTree cr vTxid vMatch = Some t"
    using TraverseAndBuild_built [OF assms(1) n(2), of h 0 cr vMatch "[]" "[]"] h top n(1) by (simp add: mk_CPartialMerkleTree_def t_def Let_def case_prod_beta)
  have "leaf_range ?n h 0 = [0..<?n]"
    using upt_add_eq_append [of 0 ?n "2 ^ h - ?n"] h(3) by (simp add: leaf_range_def)
  then have m: "matched vTxid vMatch h 0 = map (nth vTxid) (filter (nth vMatch) [0..<?n])" and lr: "length (leaf_range ?n h 0) = ?n"
    by (simp_all add: matched_def)
  let ?st = "\<lparr>nBitsUsed = 0, nHashUsed = 0, matches = [], fBad = False\<rparr>"
  have ex: "TraverseAndExtract cr t h 0 ?st = (merkle_root cr vTxid,
      ?st\<lparr>nBitsUsed := length (fst ?b), nHashUsed := length (snd ?b), matches := map (nth vTxid) (filter (nth vMatch) [0..<?n])\<rparr>)"
    using extract_built [OF assms(1) n(2) assms(3), of t h 0 ?st vMatch "[]" "[]"] h(2) top m by (simp add: t_def)
  have "length (snd ?b) \<le> length (fst ?b)" "length (snd ?b) \<le> ?n" using built_lengths [of 0 cr vTxid h vMatch] top lr by auto
  then have "ExtractMatches cr t = Some (merkle_root cr vTxid, map (nth vTxid) (filter (nth vMatch) [0..<?n]), t)"
    using ex h(1) assms(1,2) by (simp add: ExtractMatches_def t_def MAX_DIP0001_BLOCK_SIZE_def)
  then show ?thesis using mk by blast
qed


lemma three_leaves_differ: "siblings_differ tagging_hash [[1], [2], [3]]"
  unfolding siblings_differ_def level_index
proof (intro allI impI)
  fix k i :: nat assume a: "(2 * i + 1) * 2 ^ k < length [[1], [2], [3 :: u8]]"
  have "(2 :: nat) ^ k \<le> (2 * i + 1) * 2 ^ k" by simp
  then have "(2 :: nat) ^ k < 2 ^ 2" using a by simp
  then have "k < 2" by (rule power_less_imp_less_exp [rotated]) simp
  moreover have "2 * i + 1 \<le> (2 * i + 1) * 2 ^ k" using mult_le_mono2 [of 1 "2 ^ k" "2 * i + 1"] by simp
  then have "i = 0" using a by simp
  ultimately show "level_nodes tagging_hash [[1], [2], [3]] k ! (2 * i) \<noteq> level_nodes tagging_hash [[1], [2], [3]] k ! (2 * i + 1)"
    by (auto simp: less_2_cases_iff)
qed

theorem partial_merkle_tree_roundtrip_witness:
  "\<exists>t. mk_CPartialMerkleTree tagging_hash [[1], [2], [3]] [False, True, True] = Some t \<and>
     ExtractMatches tagging_hash t = Some ([7, 7, 1, 2, 7, 3, 3], [[2], [3]], t)"
proof -
  have "filter (nth [False, True, True]) [0..<3] = [1, 2 :: nat]" by (simp add: upt_rec)
  then show ?thesis
    using partial_merkle_tree_roundtrip [OF _ _ three_leaves_differ, of "[False, True, True]"] by (simp add: numeral_3_eq_3)
qed






text \<open>
  The condition on the number of transactions is needed: for the same block, a tree that states two transactions
  makes the code report the inner node above the first two leaves.
\<close>

lemma inner_node_reported:
  "ExtractMatches tagging_hash \<lparr>nTransactions = 2, vBits = [True, True, False], vHash = [[7, 1, 2], [7, 3, 3]], tree_bad = False\<rparr>
     = Some (merkle_root tagging_hash [[1], [2], [3]], [[7, 1, 2]],
         \<lparr>nTransactions = 2, vBits = [True, True, False], vHash = [[7, 1, 2], [7, 3, 3]], tree_bad = False\<rparr>)"
proof -
  have "tree_height 2 0 = Some 1" by (simp add: tree_height.simps CalcTreeWidth_def)
  then show ?thesis
    by (simp add: ExtractMatches_def MAX_DIP0001_BLOCK_SIZE_def TraverseAndExtract.simps CalcTreeWidth_def Let_def)
qed

end
