(* ===== verification/BlockChecks.thy ===== *)
theory BlockChecks
  imports ActiveChain Validation MerkleBlock VersionBits
begin

text \<open>
  The checks of \<^verbatim>\<open>validation.cpp\<close> on headers and blocks, and \<^verbatim>\<open>AcceptBlockHeader\<close> and \<^verbatim>\<open>AcceptBlock\<close>, which
  put what passes them into the block tree. The record \<open>block_ctx\<close> has the chain parameters and what the code asks other
  parts of the node: the hash of a header, the adjusted time, whether the InstantSend spork is active and which outpoints
  it locks, the Kimoto Gravity Well and the comparison of difficulties in floating point before block 68590. Where
  a block is written on disk is an argument of \<^verbatim>\<open>AcceptBlock\<close>.
\<close>

section \<open>Blocks\<close>

record CBlock = CBlockHeader +
  block_vtx :: "CTransaction list"
  fChecked :: bool

record block_ctx =
  ctx_crypto :: crypto
  ctx_GetHash :: "CBlockHeader \<Rightarrow> bytes"
  ctx_consensus :: ConsensusParams
  ctx_deployments :: deployment_params
  ctx_hashGenesisBlock :: bytes
  ctx_isMain :: bool
  nMajorityWindow :: int
  nMajorityEnforceBlockUpgrade :: int
  nMajorityRejectBlockOutdated :: int
  ctx_KimotoGravityWell :: "store \<Rightarrow> ptr \<Rightarrow> ConsensusParams \<Rightarrow> u32 option"
  ctx_difficulty_close :: "u32 \<Rightarrow> u32 \<Rightarrow> bool"
  ctx_AdjustedTime :: int
  ctx_instantsend_filter :: bool
  ctx_LockedOutPoint :: "COutPoint \<Rightarrow> bytes option"
  fCheckpointsEnabled :: bool
  mapCheckpoints :: "(int \<times> bytes) list"

definition hdr :: "CBlock \<Rightarrow> CBlockHeader" where
  "hdr block = CBlockHeader.truncate block"

definition block_GetHash :: "block_ctx \<Rightarrow> CBlock \<Rightarrow> bytes" where
  "block_GetHash ctx block = ctx_GetHash ctx (hdr block)"

definition ser_header :: "CBlockHeader \<Rightarrow> bytes" where
  "ser_header h = WriteLE32 (word_of_int (hdr_nVersion h)) @ ser_uint256 (hdr_hashPrevBlock h) @ ser_uint256 (hdr_hashMerkleRoot h)
     @ WriteLE32 (hdr_nTime h) @ WriteLE32 (hdr_nBits h) @ WriteLE32 (hdr_nNonce h)"

definition ser_block :: "CBlock \<Rightarrow> bytes" where
  "ser_block block = ser_header (hdr block) @ ser_vector ser_tx (block_vtx block)"

definition hdr_GetBlockTime :: "CBlockHeader \<Rightarrow> int" where
  "hdr_GetBlockTime h = int (unat (hdr_nTime h))"


definition MaxBlockSize :: "bool \<Rightarrow> nat" where
  "MaxBlockSize fDIP0001Active = (if fDIP0001Active then MAX_DIP0001_BLOCK_SIZE else MAX_LEGACY_BLOCK_SIZE)"

definition MaxBlockSigOps :: "bool \<Rightarrow> nat" where
  "MaxBlockSigOps fDIP0001Active = MaxBlockSize fDIP0001Active div 50"

definition MAX_STANDARD_TX_SIZE :: nat where "MAX_STANDARD_TX_SIZE = 25000000"

definition REJECT_OBSOLETE :: nat where "REJECT_OBSOLETE = 0x11"

section \<open>Checks without context\<close>

definition CheckBlockHeader :: "block_ctx \<Rightarrow> CBlockHeader \<Rightarrow> CValidationState \<Rightarrow> bool \<Rightarrow> bool \<times> CValidationState" where
  "CheckBlockHeader ctx block state fCheckPOW =
     (if fCheckPOW \<and> \<not> CheckProofOfWork (ctx_GetHash ctx block) (hdr_nBits block) (ctx_consensus ctx)
      then (False, DoS state 50 REJECT_INVALID ''high-hash'' False)
      else if hdr_GetBlockTime block > ctx_AdjustedTime ctx + 2 * 60 * 60
      then (False, Invalid state REJECT_INVALID ''time-too-new'')
      else (True, state))"

text \<open>Whether a transaction spends an outpoint that InstantSend locked for another one.\<close>

definition conflicts_with_lock :: "block_ctx \<Rightarrow> CTransaction \<Rightarrow> bool" where
  "conflicts_with_lock ctx tx \<longleftrightarrow> \<not> IsCoinBase tx \<and>
     list_ex (\<lambda>txin. case ctx_LockedOutPoint ctx (prevout txin) of None \<Rightarrow> False
                      | Some hashLocked \<Rightarrow> hashLocked \<noteq> tx_GetHash (ctx_crypto ctx) tx) (vin tx)"

fun check_transactions :: "CTransaction list \<Rightarrow> CValidationState \<Rightarrow> bool \<times> CValidationState" where
  "check_transactions [] state = (True, state)"
| "check_transactions (tx # txs) state =
     (case CheckTransaction tx state of (ok, state') \<Rightarrow> if ok then check_transactions txs state' else (False, state'))"

definition block_sigops :: "CTransaction list \<Rightarrow> nat" where
  "block_sigops txs = foldl (\<lambda>n tx. (n + GetLegacySigOpCount tx) mod 2 ^ 32) 0 txs"

text \<open>
  The block is returned too, since \<^verbatim>\<open>fChecked\<close> is a mutable field. The time at which a block with
  a locked conflict was rejected, which \<^verbatim>\<open>mapRejectedBlocks\<close> keeps, is left out.
\<close>

definition CheckBlock :: "block_ctx \<Rightarrow> CBlock \<Rightarrow> CValidationState \<Rightarrow> bool \<Rightarrow> bool \<Rightarrow> (bool \<times> CValidationState \<times> CBlock) option" where
  "CheckBlock ctx block state fCheckPOW fCheckMerkleRoot =
     (if fChecked block then Some (True, state, block)
      else case CheckBlockHeader ctx (hdr block) state fCheckPOW of
        (False, state') \<Rightarrow> Some (False, state', block)
      | (True, _) \<Rightarrow>
          (case (if fCheckMerkleRoot then BlockMerkleRoot (ctx_crypto ctx) (block_vtx block) else Some (hdr_hashMerkleRoot block, False)) of
             None \<Rightarrow> None
           | Some (hashMerkleRoot2, mutated) \<Rightarrow>
               let fail = (\<lambda>level reason corrupt. Some (False, DoS state level REJECT_INVALID reason corrupt, block))
               in if hdr_hashMerkleRoot block \<noteq> hashMerkleRoot2 then fail 100 ''bad-txnmrklroot'' True
                  else if mutated then fail 100 ''bad-txns-duplicate'' True
                  else if block_vtx block = [] \<or> length (block_vtx block) > MaxBlockSize True
                          \<or> length (ser_block block) > MaxBlockSize True then fail 100 ''bad-blk-length'' False
                  else if \<not> IsCoinBase (block_vtx block ! 0) then fail 100 ''bad-cb-missing'' False
                  else if list_ex IsCoinBase (tl (block_vtx block)) then fail 100 ''bad-cb-multiple'' False
                  else if ctx_instantsend_filter ctx \<and> list_ex (conflicts_with_lock ctx) (block_vtx block)
                  then fail 0 ''conflict-tx-lock'' False
                  else case check_transactions (block_vtx block) state of
                    (False, state') \<Rightarrow> Some (False, state', block)
                  | (True, state') \<Rightarrow>
                      if block_sigops (block_vtx block) > MaxBlockSigOps True
                      then Some (False, DoS state' 100 REJECT_INVALID ''bad-blk-sigops'' False, block)
                      else Some (True, state', if fCheckPOW \<and> fCheckMerkleRoot then block\<lparr>fChecked := True\<rparr> else block)))"

section \<open>Checks against the block tree\<close>

fun majority_loop :: "store \<Rightarrow> int \<Rightarrow> nat \<Rightarrow> nat \<Rightarrow> nat \<Rightarrow> ptr \<Rightarrow> nat" where
  "majority_loop s minVersion 0 nRequired nFound pstart = nFound"
| "majority_loop s minVersion (Suc i) nRequired nFound None = nFound"
| "majority_loop s minVersion (Suc i) nRequired nFound (Some p) =
     (if nFound < nRequired
      then majority_loop s minVersion i nRequired (if nVersion (s p) \<ge> minVersion then Suc nFound else nFound) (pprev (s p))
      else nFound)"

text \<open>\<^verbatim>\<open>nRequired\<close> is an \<^verbatim>\<open>int\<close> of the parameters converted to \<^verbatim>\<open>unsigned\<close>.\<close>

definition IsSuperMajority :: "block_ctx \<Rightarrow> store \<Rightarrow> int \<Rightarrow> ptr \<Rightarrow> int \<Rightarrow> bool" where
  "IsSuperMajority ctx s minVersion pstart nRequired =
     (let required = unat (word_of_int nRequired :: u32)
      in majority_loop s minVersion (nat (nMajorityWindow ctx)) required 0 pstart \<ge> required)"

definition GetLastCheckpoint :: "block_ctx \<Rightarrow> 'e node_scheme \<Rightarrow> ptr" where
  "GetLastCheckpoint ctx st =
     (case List.find (\<lambda>(h, hash). map_of (mapBlockIndex st) hash \<noteq> None) (rev (mapCheckpoints ctx)) of
        None \<Rightarrow> None | Some (h, hash) \<Rightarrow> map_of (mapBlockIndex st) hash)"

definition CheckIndexAgainstCheckpoint :: "block_ctx \<Rightarrow> 'e node_scheme \<Rightarrow> addr \<Rightarrow> CValidationState \<Rightarrow> bool \<times> CValidationState" where
  "CheckIndexAgainstCheckpoint ctx st pindexPrev state =
     (if phashBlock (index st pindexPrev) = ctx_hashGenesisBlock ctx then (True, state)
      else case GetLastCheckpoint ctx st of
             None \<Rightarrow> (True, state)
           | Some cp \<Rightarrow>
               (if nHeight (index st pindexPrev) + 1 < nHeight (index st cp) then (False, DoS state 100 0 '''' False)
                else (True, state)))"

definition ContextualCheckBlockHeader :: "block_ctx \<Rightarrow> store \<Rightarrow> CBlockHeader \<Rightarrow> CValidationState \<Rightarrow> addr \<Rightarrow> (bool \<times> CValidationState) option" where
  "ContextualCheckBlockHeader ctx s block state pindexPrev =
     (case GetNextWorkRequired (ctx_KimotoGravityWell ctx) s pindexPrev (hdr_GetBlockTime block) (ctx_consensus ctx) of
        None \<Rightarrow> None
      | Some nBitsNext \<Rightarrow>
          let obsolete = (\<lambda>v. hdr_nVersion block < v \<and> IsSuperMajority ctx s v (Some pindexPrev) (nMajorityRejectBlockOutdated ctx));
              bits_ok = (if ctx_isMain ctx \<and> nHeight (s pindexPrev) + 1 \<le> 68589 then ctx_difficulty_close ctx (hdr_nBits block) nBitsNext
                         else hdr_nBits block = nBitsNext)
          in Some (if \<not> bits_ok then (False, DoS state 100 REJECT_INVALID ''bad-diffbits'' False)
                   else if hdr_GetBlockTime block \<le> GetMedianTimePast s pindexPrev
                   then (False, Invalid state REJECT_INVALID ''time-too-old'')
                   else if obsolete 2 \<or> obsolete 3 \<or> obsolete 4 then (False, Invalid state REJECT_OBSOLETE ''bad-version'')
                   else (True, state)))"

definition DEPLOYMENT_CSV :: nat where "DEPLOYMENT_CSV = 1"
definition DEPLOYMENT_DIP0001 :: nat where "DEPLOYMENT_DIP0001 = 2"

text \<open>The loop over the transactions ends with a verdict or with the number of signature operations.\<close>

fun contextual_loop :: "bool \<Rightarrow> int \<Rightarrow> int \<Rightarrow> CTransaction list \<Rightarrow> CValidationState \<Rightarrow> nat \<Rightarrow> CValidationState + nat" where
  "contextual_loop dip1 height cutoff [] state nSigOps = Inr nSigOps"
| "contextual_loop dip1 height cutoff (tx # txs) state nSigOps =
     (if \<not> IsFinalTx tx height cutoff then Inl (DoS state 10 REJECT_INVALID ''bad-txns-nonfinal'' False)
      else if dip1 \<and> length (ser_tx tx) > MAX_STANDARD_TX_SIZE then Inl (DoS state 100 REJECT_INVALID ''bad-txns-oversized'' False)
      else contextual_loop dip1 height cutoff txs state ((nSigOps + GetLegacySigOpCount tx) mod 2 ^ 32))"

text \<open>\<^verbatim>\<open>vtx[0].vin[0]\<close> is undefined behaviour when there is no input; \<open>None\<close> then.\<close>

definition ContextualCheckBlock :: "block_ctx \<Rightarrow> store \<Rightarrow> CBlock \<Rightarrow> CValidationState \<Rightarrow> ptr \<Rightarrow> VersionBitsCache
    \<Rightarrow> (bool \<times> CValidationState \<times> VersionBitsCache) option" where
  "ContextualCheckBlock ctx s block state pindexPrev cache =
     (let height = (case pindexPrev of None \<Rightarrow> 0 | Some p \<Rightarrow> nHeight (s p) + 1)
      in case VersionBitsState s pindexPrev (ctx_deployments ctx) DEPLOYMENT_CSV cache of
           None \<Rightarrow> None
         | Some (csv, cache1) \<Rightarrow>
             (case (if csv = THRESHOLD_ACTIVE then map_option (GetMedianTimePast s) pindexPrev else Some (hdr_GetBlockTime (hdr block))) of
                None \<Rightarrow> None
              | Some cutoff \<Rightarrow>
                  (case VersionBitsState s pindexPrev (ctx_deployments ctx) DEPLOYMENT_DIP0001 cache1 of
                     None \<Rightarrow> None
                   | Some (dip, cache2) \<Rightarrow>
                       let dip1 = (dip = THRESHOLD_ACTIVE);
                           result = (\<lambda>r. Some (fst r, snd r, cache2))
                       in if block_vtx block = [] \<or> length (block_vtx block) > MaxBlockSize dip1
                             \<or> length (ser_block block) > MaxBlockSize dip1
                          then result (False, DoS state 100 REJECT_INVALID ''bad-blk-length'' False)
                          else case contextual_loop dip1 height cutoff (block_vtx block) state 0 of
                            Inl state' \<Rightarrow> result (False, state')
                          | Inr nSigOps \<Rightarrow>
                              if nSigOps > MaxBlockSigOps dip1 then result (False, DoS state 100 REJECT_INVALID ''bad-blk-sigops'' False)
                              else if hdr_nVersion block \<ge> 2
                                      \<and> IsSuperMajority ctx s 2 pindexPrev (nMajorityEnforceBlockUpgrade ctx)
                              then (case vin (block_vtx block ! 0) of
                                      [] \<Rightarrow> None
                                    | txin # _ \<Rightarrow>
                                        let expect = push_int64 [] height
                                        in if length (scriptSig txin) < length expect \<or> take (length expect) (scriptSig txin) \<noteq> expect
                                           then result (False, DoS state 100 REJECT_INVALID ''bad-cb-height'' False)
                                           else result (True, state))
                              else result (True, state))))"

section \<open>Accepting headers and blocks\<close>

definition state_Error :: "CValidationState \<Rightarrow> string \<Rightarrow> CValidationState" where
  "state_Error state reason =
     (if mode state = MODE_VALID then state\<lparr>strRejectReason := reason, mode := MODE_ERROR\<rparr> else state\<lparr>mode := MODE_ERROR\<rparr>)"

text \<open>\<open>new\<close> is the address the allocator would return. The third component is \<^verbatim>\<open>*ppindex\<close>.\<close>

definition AcceptBlockHeader :: "block_ctx \<Rightarrow> addr \<Rightarrow> CBlockHeader \<Rightarrow> CValidationState \<Rightarrow> 'e node_scheme
    \<Rightarrow> (bool \<times> CValidationState \<times> ptr \<times> 'e node_scheme) option" where
  "AcceptBlockHeader ctx new block state st =
     (let hash = ctx_GetHash ctx block;
          add = map_option (\<lambda>(st', p). (True, state, Some p, st')) (AddToBlockIndex hash new block st);
          fail = (\<lambda>state'. Some (False, state', None, st))
      in if hash = ctx_hashGenesisBlock ctx then add
         else case map_of (mapBlockIndex st) hash of
           Some p \<Rightarrow>
             (if is_failed (index st p) then Some (False, Invalid state 0 ''duplicate'', Some p, st)
              else Some (True, state, Some p, st))
         | None \<Rightarrow>
             (case CheckBlockHeader ctx block state True of
                (False, state') \<Rightarrow> fail state'
              | (True, _) \<Rightarrow>
                  (case map_of (mapBlockIndex st) (hdr_hashPrevBlock block) of
                     None \<Rightarrow> fail (DoS state 10 0 ''bad-prevblk'' False)
                   | Some pindexPrev \<Rightarrow>
                       if is_failed (index st pindexPrev) then fail (DoS state 100 REJECT_INVALID ''bad-prevblk'' False)
                       else if fCheckpointsEnabled ctx \<and> \<not> fst (CheckIndexAgainstCheckpoint ctx st pindexPrev state)
                       then fail (snd (CheckIndexAgainstCheckpoint ctx st pindexPrev state))
                       else case ContextualCheckBlockHeader ctx (index st) block state pindexPrev of
                              None \<Rightarrow> None
                            | Some (ok, state') \<Rightarrow> if ok then add else fail state')))"

definition MIN_BLOCKS_TO_KEEP :: int where "MIN_BLOCKS_TO_KEEP = 288"

text \<open>
  \<open>diskpos\<close> is where \<^verbatim>\<open>FindBlockPos\<close> puts the block, \<open>None\<close> when the disk is full; \<open>written\<close> is whether \<^verbatim>\<open>WriteBlockToDisk\<close>
  succeeds, which the code does not let stop it. Left out: the handler for a \<^verbatim>\<open>std::runtime_error\<close> thrown while the block is
  written, which aborts the node, and the flush of the caches when pruning is due after the last step.
\<close>

definition AcceptBlock :: "block_ctx \<Rightarrow> addr \<Rightarrow> (int \<times> u32) option \<Rightarrow> bool \<Rightarrow> CBlock \<Rightarrow> CValidationState \<Rightarrow> bool \<Rightarrow> VersionBitsCache \<Rightarrow> 'e node_scheme
    \<Rightarrow> (bool \<times> CValidationState \<times> ptr \<times> VersionBitsCache \<times> 'e node_scheme) option" where
  "AcceptBlock ctx new diskpos written block state fRequested cache st =
     (case AcceptBlockHeader ctx new (hdr block) state st of
        None \<Rightarrow> None
      | Some (False, state1, pi, st1) \<Rightarrow> Some (False, state1, pi, cache, st1)
      | Some (True, state1, None, st1) \<Rightarrow> None
      | Some (True, state1, Some p, st1) \<Rightarrow>
          let fHasMoreWork = (case Tip (chainActive st1) of None \<Rightarrow> True
                              | Some tip \<Rightarrow> CompareTo (nChainWork (index st1 p)) (nChainWork (index st1 tip)) > 0);
              fTooFarAhead = (nHeight (index st1 p) > Height (chainActive st1) + MIN_BLOCKS_TO_KEEP)
          in if has_data (index st1 p) \<or> (\<not> fRequested \<and> (nTx (index st1 p) \<noteq> 0 \<or> \<not> fHasMoreWork \<or> fTooFarAhead))
             then Some (True, state1, Some p, cache, st1)
             else
               let reject = (\<lambda>state' cache'. Some (False, state', Some p, cache',
                               if mode state' = MODE_INVALID \<and> \<not> corruptionPossible state'
                               then or_status BLOCK_FAILED_VALID p st1 else st1))
               in case CheckBlock ctx block state1 True True of
                    None \<Rightarrow> None
                  | Some (False, state2, block2) \<Rightarrow> reject state2 cache
                  | Some (True, state2, block2) \<Rightarrow>
                      (case ContextualCheckBlock ctx (index st1) block2 state2 (pprev (index st1 p)) cache of
                         None \<Rightarrow> None
                       | Some (False, state3, cache1) \<Rightarrow> reject state3 cache1
                       | Some (True, state3, cache1) \<Rightarrow>
                           (case diskpos of
                              None \<Rightarrow> Some (False, state_Error state3 ''out of disk space'', Some p, cache1, st1)
                            | Some pos \<Rightarrow>
                                map_option (\<lambda>st2. (True, if written then state3 else state_Error state3 ''Failed to write block'', Some p, cache1, st2))
                                  (ReceivedBlockTransactions (of_nat (length (block_vtx block))) p pos st1))))"

section \<open>What the checks decide\<close>

lemma IsSuperMajority_iff:
  "IsSuperMajority ctx s v p n \<longleftrightarrow>
     unat (word_of_int n :: u32) \<le> length (filter (\<lambda>q. v \<le> nVersion (s q)) (window s (nat (nMajorityWindow ctx)) p))"
proof -
  have "r \<le> majority_loop s v i r f p \<longleftrightarrow> r \<le> f + length (filter (\<lambda>q. v \<le> nVersion (s q)) (window s i p))" for i r f
    by (induction s v i r f p rule: majority_loop.induct) auto
  then show ?thesis by (simp add: IsSuperMajority_def Let_def)
qed

lemma block_sigops_sum: "block_sigops txs = sum_list (map GetLegacySigOpCount txs) mod 2 ^ 32"
proof (induction txs rule: rev_induct)
  case (snoc tx txs)
  have "block_sigops (txs @ [tx]) = (block_sigops txs + GetLegacySigOpCount tx) mod 2 ^ 32" by (simp add: block_sigops_def)
  then show ?case unfolding snoc.IH by (simp only: map_append sum_list_append mod_add_left_eq list.map sum_list.Cons sum_list.Nil add_0_right)
qed (simp add: block_sigops_def)

lemma CheckTransaction_verdict:
  "CheckTransaction tx state = (ok, st) \<Longrightarrow> if ok then st = state else mode st \<noteq> MODE_VALID \<and> \<not> corruptionPossible st"
proof -
  have "\<not> corruptionPossible (DoS state l c r False)" for l c r by (simp add: DoS_def Let_def)
  then show "CheckTransaction tx state = (ok, st) \<Longrightarrow> if ok then st = state else mode st \<noteq> MODE_VALID \<and> \<not> corruptionPossible st"
    by (auto simp: CheckTransaction_def DoS_mode split: if_splits option.splits)
qed

lemma CheckTransaction_fst: "fst (CheckTransaction tx state) = fst (CheckTransaction tx state')"
  using CheckTransaction_iff_lemma [of tx state] CheckTransaction_iff_lemma [of tx state'] by blast

lemma check_transactions_verdict:
  "check_transactions txs state = (ok, st) \<Longrightarrow>
     (ok \<longleftrightarrow> list_all (\<lambda>tx. fst (CheckTransaction tx state_init)) txs)
     \<and> (if ok then st = state else mode st \<noteq> MODE_VALID \<and> \<not> corruptionPossible st)"
proof (induction txs)
  case (Cons tx txs)
  obtain o1 s1 where c: "CheckTransaction tx state = (o1, s1)" by fastforce
  have f: "fst (CheckTransaction tx state_init) = o1" using c CheckTransaction_fst [of tx state_init state] by simp
  show ?case using Cons CheckTransaction_verdict [OF c] c f by (cases o1) auto
qed auto

definition header_ok :: "block_ctx \<Rightarrow> CBlockHeader \<Rightarrow> bool" where
  "header_ok ctx h \<longleftrightarrow> CheckProofOfWork (ctx_GetHash ctx h) (hdr_nBits h) (ctx_consensus ctx)
     \<and> hdr_GetBlockTime h \<le> ctx_AdjustedTime ctx + 7200"

text \<open>The rules on the transactions of a block that need no context.\<close>

definition body_ok :: "block_ctx \<Rightarrow> CBlock \<Rightarrow> bool" where
  "body_ok ctx block \<longleftrightarrow> block_vtx block \<noteq> [] \<and> length (block_vtx block) \<le> 55000000 \<and> length (ser_block block) \<le> 55000000
     \<and> IsCoinBase (hd (block_vtx block)) \<and> list_all (\<lambda>tx. \<not> IsCoinBase tx) (tl (block_vtx block))
     \<and> (ctx_instantsend_filter ctx \<longrightarrow> list_all (\<lambda>tx. \<not> conflicts_with_lock ctx tx) (block_vtx block))
     \<and> list_all (\<lambda>tx. fst (CheckTransaction tx state_init)) (block_vtx block)
     \<and> sum_list (map GetLegacySigOpCount (block_vtx block)) mod 2 ^ 32 \<le> 1100000"

lemma CheckBlockHeader_verdict:
  "CheckBlockHeader ctx h state True = (ok, st) \<Longrightarrow>
     (ok \<longleftrightarrow> header_ok ctx h) \<and> (if ok then st = state else mode st \<noteq> MODE_VALID \<and> \<not> corruptionPossible st)"
  by (auto simp: CheckBlockHeader_def header_ok_def Invalid_def DoS_mode DoS_def Let_def split: if_splits)

text \<open>The value of \<^verbatim>\<open>CheckBlock\<close> with its intermediate results named.\<close>

lemma CheckBlock_cascade:
  assumes "\<not> fChecked block" and "BlockMerkleRoot (ctx_crypto ctx) (block_vtx block) = Some (root, mutated)"
    and h: "CheckBlockHeader ctx (hdr block) state True = (ho, hs)" and c: "check_transactions (block_vtx block) state = (co, cs)"
  shows "CheckBlock ctx block state True True =
    (let fail = (\<lambda>level reason corrupt. Some (False, DoS state level REJECT_INVALID reason corrupt, block)) in
     if \<not> ho then Some (False, hs, block)
     else if hdr_hashMerkleRoot block \<noteq> root then fail 100 ''bad-txnmrklroot'' True
     else if mutated then fail 100 ''bad-txns-duplicate'' True
     else if block_vtx block = [] \<or> length (block_vtx block) > MaxBlockSize True \<or> length (ser_block block) > MaxBlockSize True
     then fail 100 ''bad-blk-length'' False
     else if \<not> IsCoinBase (block_vtx block ! 0) then fail 100 ''bad-cb-missing'' False
     else if list_ex IsCoinBase (tl (block_vtx block)) then fail 100 ''bad-cb-multiple'' False
     else if ctx_instantsend_filter ctx \<and> list_ex (conflicts_with_lock ctx) (block_vtx block) then fail 0 ''conflict-tx-lock'' False
     else if \<not> co then Some (False, cs, block)
     else if block_sigops (block_vtx block) > MaxBlockSigOps True then Some (False, DoS cs 100 REJECT_INVALID ''bad-blk-sigops'' False, block)
     else Some (True, cs, block\<lparr>fChecked := True\<rparr>))"
  using assms(1,2) unfolding CheckBlock_def h c Let_def by (cases ho; cases co) simp_all

lemma body_ok_cascade:
  assumes "check_transactions (block_vtx block) state = (co, cs)"
  shows "body_ok ctx block \<longleftrightarrow>
     \<not> (block_vtx block = [] \<or> length (block_vtx block) > MaxBlockSize True \<or> length (ser_block block) > MaxBlockSize True)
     \<and> IsCoinBase (block_vtx block ! 0) \<and> \<not> list_ex IsCoinBase (tl (block_vtx block))
     \<and> \<not> (ctx_instantsend_filter ctx \<and> list_ex (conflicts_with_lock ctx) (block_vtx block))
     \<and> co \<and> \<not> block_sigops (block_vtx block) > MaxBlockSigOps True"
proof -
  have size: "MaxBlockSize True = 55000000" "MaxBlockSigOps True = 1100000"
    by (simp_all add: MaxBlockSize_def MaxBlockSigOps_def MAX_DIP0001_BLOCK_SIZE_def)
  have "co = list_all (\<lambda>tx. fst (CheckTransaction tx state_init)) (block_vtx block)"
    using check_transactions_verdict [OF assms] by blast
  then show ?thesis
    unfolding body_ok_def block_sigops_sum size by (cases "block_vtx block = []") (auto simp: hd_conv_nth list_all_iff list_ex_iff)
qed

lemma CheckBlock_verdict:
  assumes "\<not> fChecked block" and "BlockMerkleRoot (ctx_crypto ctx) (block_vtx block) = Some (root, mutated)"
  shows "\<exists>ok st b. CheckBlock ctx block state True True = Some (ok, st, b)
     \<and> (ok \<longleftrightarrow> header_ok ctx (hdr block) \<and> hdr_hashMerkleRoot block = root \<and> \<not> mutated \<and> body_ok ctx block)
     \<and> (if ok then st = state \<and> b = block\<lparr>fChecked := True\<rparr>
        else mode st \<noteq> MODE_VALID \<and> b = block
          \<and> (corruptionPossible st \<longleftrightarrow> header_ok ctx (hdr block) \<and> (hdr_hashMerkleRoot block \<noteq> root \<or> mutated)))"
proof -
  obtain ho hs where h: "CheckBlockHeader ctx (hdr block) state True = (ho, hs)" by fastforce
  obtain co cs where c: "check_transactions (block_vtx block) state = (co, cs)" by fastforce
  have hv: "ho = header_ok ctx (hdr block)" "\<not> ho \<Longrightarrow> mode hs \<noteq> MODE_VALID \<and> \<not> corruptionPossible hs"
    using CheckBlockHeader_verdict [OF h] by (auto split: if_splits)
  have cv: "co \<Longrightarrow> cs = state" "\<not> co \<Longrightarrow> mode cs \<noteq> MODE_VALID \<and> \<not> corruptionPossible cs"
    using check_transactions_verdict [OF c] by (auto split: if_splits)
  have corrupt: "corruptionPossible (DoS s l r t b) = b" for s l r t b by (simp add: DoS_def Let_def)
  show ?thesis
    unfolding CheckBlock_cascade [OF assms h c] body_ok_cascade [OF c] Let_def hv(1) [symmetric]
    using hv(2) cv by (simp add: corrupt DoS_mode)
qed

section \<open>Accepting is a run of the block tree\<close>

definition genesis_ok :: "block_ctx \<Rightarrow> bool" where
  "genesis_ok ctx \<longleftrightarrow> (\<forall>h. ctx_GetHash ctx h = ctx_hashGenesisBlock ctx \<longrightarrow> hdr_hashPrevBlock h \<noteq> ctx_hashGenesisBlock ctx)"

lemma map_of_addrs: "map_of (mapBlockIndex st) h = Some p \<Longrightarrow> p \<in> addrs st"
  unfolding addrs_def by (drule map_of_SomeD) (rule rev_image_eqI, auto)

lemma AddToBlockIndex_run:
  assumes "node_ok st" "new \<notin> addrs st" "hdr_hashPrevBlock block \<noteq> hash" "AddToBlockIndex hash new block st = Some (st', p)"
  shows "(node_step env)\<^sup>*\<^sup>* st st'" "p \<in> addrs st'" "tx_total st' = tx_total st"
  using AddToBlockIndex_ok [OF assms(1-3)] assms(4) node_step.header [OF assms(2-4), of env] map_of_addrs [of st' hash p] by auto

lemma AcceptBlockHeader_run:
  assumes ok: "node_ok st" and new: "new \<notin> addrs st" and gen: "genesis_ok ctx"
    and acc: "AcceptBlockHeader ctx new h state st = Some (r, state', pi, st')"
  shows "(node_step env)\<^sup>*\<^sup>* st st' \<and> tx_total st' = tx_total st \<and> (r \<longrightarrow> (\<exists>p \<in> addrs st'. pi = Some p))"
proof -
  define hash where "hash = ctx_GetHash ctx h"
  define add where "add = map_option (\<lambda>(st', p). (True, state, Some p, st')) (AddToBlockIndex hash new h st)"
  have adds: "(node_step env)\<^sup>*\<^sup>* st st' \<and> tx_total st' = tx_total st \<and> (r \<longrightarrow> (\<exists>p \<in> addrs st'. pi = Some p))"
    if a: "add = Some (r, state', pi, st')" and n: "hdr_hashPrevBlock h \<noteq> hash"
  proof -
    obtain p where "AddToBlockIndex hash new h st = Some (st', p)" "pi = Some p" using a by (auto simp: add_def)
    then show ?thesis using AddToBlockIndex_run [OF ok new n] by blast
  qed
  note step = acc [unfolded AcceptBlockHeader_def Let_def, folded hash_def, folded add_def]
  show ?thesis
  proof (cases "hash = ctx_hashGenesisBlock ctx")
    case True
    then show ?thesis using adds step gen by (auto simp: genesis_ok_def hash_def)
  next
    case False
    show ?thesis
    proof (cases "map_of (mapBlockIndex st) hash")
      case (Some p)
      then have "st' = st \<and> (r \<longrightarrow> pi = Some p)" using step False by (auto split: if_splits)
      then show ?thesis using map_of_addrs [OF Some] by auto
    next
      case None
      have "st' = st \<and> \<not> r \<or> add = Some (r, state', pi, st') \<and> map_of (mapBlockIndex st) (hdr_hashPrevBlock h) \<noteq> None"
        using step False None by (auto split: if_splits option.splits prod.splits bool.splits)
      then show ?thesis
      proof (elim disjE conjE)
        assume a: "add = Some (r, state', pi, st')" and n: "map_of (mapBlockIndex st) (hdr_hashPrevBlock h) \<noteq> None"
        have "hdr_hashPrevBlock h \<noteq> hash" using n None by auto
        with a show ?thesis by (rule adds)
      qed simp
    qed
  qed
qed

lemma length_u32: "n \<noteq> 0 \<Longrightarrow> n \<le> 55000000 \<Longrightarrow> (of_nat n :: u32) \<noteq> 0 \<and> unat (of_nat n :: u32) = n"
  by (auto simp: unat_of_nat unat_eq_0 [symmetric])

lemma ContextualCheckBlock_vtx:
  assumes "ContextualCheckBlock ctx s block state prev cache = Some (True, state', cache')"
  shows "block_vtx block \<noteq> [] \<and> length (block_vtx block) \<le> 55000000"
proof -
  have "MaxBlockSize b \<le> 55000000" for b by (simp add: MaxBlockSize_def MAX_DIP0001_BLOCK_SIZE_def MAX_LEGACY_BLOCK_SIZE_def)
  then have "n \<le> 55000000" if "\<not> MaxBlockSize b < n" for b n using that by (meson le_trans not_le)
  then show ?thesis
    using assms unfolding ContextualCheckBlock_def Let_def by (auto split: option.splits if_splits prod.splits)
qed

lemma tx_total_upd: "tx_total (upd_entry p (\<lambda>b. b\<lparr>nTx := n\<rparr>) st) \<le> tx_total st + unat n"
proof -
  have fin: "finite (addrs st)" by (simp add: addrs_def)
  have "tx_total (upd_entry p (\<lambda>b. b\<lparr>nTx := n\<rparr>) st) \<le> (\<Sum>a \<in> addrs st. unat (nTx (index st a)) + (if a = p then unat n else 0))"
    unfolding tx_total_def addrs_simps by (rule sum_mono) (simp add: upd_entry_def)
  also have "\<dots> \<le> tx_total st + unat n" using fin by (simp add: sum.distrib tx_total_def sum.delta)
  finally show ?thesis .
qed

lemma CheckBlock_vtx: "CheckBlock ctx block state a m = Some (ok, st, b) \<Longrightarrow> block_vtx b = block_vtx block"
  unfolding CheckBlock_def Let_def by (auto split: if_splits option.splits prod.splits bool.splits)

lemma AcceptBlock_run:
  assumes ok: "node_ok st" and new: "new \<notin> addrs st" and gen: "genesis_ok ctx"
    and fits: "tx_total st + length (block_vtx block) < 2 ^ 32"
    and acc: "AcceptBlock ctx new diskpos written block state req cache st = Some (r, state', pi, cache', st')"
  shows "(node_step env)\<^sup>*\<^sup>* st st'"
proof -
  obtain r1 state1 p1 st1 where h: "AcceptBlockHeader ctx new (hdr block) state st = Some (r1, state1, p1, st1)"
    using acc by (cases "AcceptBlockHeader ctx new (hdr block) state st") (auto simp: AcceptBlock_def)
  note run1 = AcceptBlockHeader_run [OF ok new gen h, of env]
  then have ok1: "node_ok st1" using reachable_node_ok ok by blast
  show ?thesis
  proof (cases r1)
    case False
    then have "st' = st1" using acc h by (auto simp: AcceptBlock_def)
    then show ?thesis using run1 by blast
  next
    case True
    then obtain p where p: "p1 = Some p" "p \<in> addrs st1" using run1 by blast
    have data: "(node_step env)\<^sup>*\<^sup>* st1 st'"
      if r: "ReceivedBlockTransactions (of_nat (length (block_vtx block))) p pos st1 = Some st'" and d: "\<not> has_data (index st1 p)"
        and v: "block_vtx block \<noteq> []" "length (block_vtx block) \<le> 55000000" for pos
    proof -
      have n: "(of_nat (length (block_vtx block)) :: u32) \<noteq> 0" "unat (of_nat (length (block_vtx block)) :: u32) = length (block_vtx block)"
        using length_u32 [of "length (block_vtx block)"] v by auto
      have "tx_total (upd_entry p (\<lambda>b. b\<lparr>nTx := of_nat (length (block_vtx block))\<rparr>) st1) < 2 ^ 32"
        using tx_total_upd [of p "of_nat (length (block_vtx block))" st1] n(2) fits run1 by linarith
      then show ?thesis using node_step.data [OF p(2) d n(1) _ r] by blast
    qed
    define skip where "skip \<longleftrightarrow> has_data (index st1 p) \<or> (\<not> req \<and> (nTx (index st1 p) \<noteq> 0
        \<or> \<not> (case Tip (chainActive st1) of None \<Rightarrow> True
             | Some tip \<Rightarrow> CompareTo (nChainWork (index st1 p)) (nChainWork (index st1 tip)) > 0)
        \<or> nHeight (index st1 p) > Height (chainActive st1) + MIN_BLOCKS_TO_KEEP))"
    have r1: "r1 = True" using True by simp
    note step = acc [unfolded AcceptBlock_def h option.case prod.case r1 bool.case p(1) Let_def, folded skip_def]
    show ?thesis
    proof (cases skip)
      case True
      then have "st' = st1" using step by simp
      then show ?thesis using run1 by blast
    next
      case False
      have rej: "(node_step env)\<^sup>*\<^sup>* st1 st'" if "st' = (if b then or_status BLOCK_FAILED_VALID p st1 else st1)" for b
        using that node_step.reject [of env st1 p] by (cases b) auto
      obtain ok2 s2 b2 where cb: "CheckBlock ctx block state1 True True = Some (ok2, s2, b2)"
        using step False by (cases "CheckBlock ctx block state1 True True") auto
      have "(node_step env)\<^sup>*\<^sup>* st1 st'"
      proof (cases ok2)
        case False
        then have "st' = (if mode s2 = MODE_INVALID \<and> \<not> corruptionPossible s2 then or_status BLOCK_FAILED_VALID p st1 else st1)"
            using step \<open>\<not> skip\<close> cb by auto
          then show ?thesis by (rule rej)
      next
        case True
        obtain ok3 s3 c3 where cc: "ContextualCheckBlock ctx (index st1) b2 s2 (pprev (index st1 p)) cache = Some (ok3, s3, c3)"
          using step False cb True by (cases "ContextualCheckBlock ctx (index st1) b2 s2 (pprev (index st1 p)) cache") auto
        show ?thesis
        proof (cases ok3)
          case False
          then have "st' = (if mode s3 = MODE_INVALID \<and> \<not> corruptionPossible s3 then or_status BLOCK_FAILED_VALID p st1 else st1)"
            using step \<open>\<not> skip\<close> cb \<open>ok2\<close> cc by auto
          then show ?thesis by (rule rej)
        next
          case ok3: True
          have v: "block_vtx block \<noteq> []" "length (block_vtx block) \<le> 55000000"
            using ContextualCheckBlock_vtx [of ctx "index st1" b2 s2 "pprev (index st1 p)" cache s3 c3] cc ok3 CheckBlock_vtx [OF cb] by auto
          show ?thesis
          proof (cases diskpos)
            case None
            then have "st' = st1" using step False cb True cc ok3 by simp
            then show ?thesis by simp
          next
            case (Some pos)
            then have "ReceivedBlockTransactions (of_nat (length (block_vtx block))) p pos st1 = Some st'"
              using step False cb True cc ok3 by auto
            then show ?thesis using data v False by (auto simp: skip_def)
          qed
        qed
      qed
      then show ?thesis using run1 by (meson rtranclp_trans)
    qed
  qed
qed

section \<open>Properties\<close>

text \<open>
  C7. \<^verbatim>\<open>CheckBlock\<close> on a block it has not checked before always gives a verdict. It accepts exactly the blocks whose header has
  enough work and is not from the future, whose Merkle root is that of the transactions with no duplicated subtree,
  and whose transactions pass the context-free rules; then the block is remembered as checked. A rejected block is reported as possibly corrupt exactly when the
  header is fine but the transactions may not be the ones it commits to, so that a header is never marked invalid because of
  transactions that do not belong to it.
\<close>

theorem CheckBlock_correct:
  assumes "\<not> fChecked block" and "BlockMerkleRoot (ctx_crypto ctx) (block_vtx block) = Some (root, mutated)"
  shows "\<exists>ok st b. CheckBlock ctx block state True True = Some (ok, st, b)
     \<and> (ok \<longleftrightarrow> header_ok ctx (hdr block) \<and> hdr_hashMerkleRoot block = root \<and> \<not> mutated \<and> body_ok ctx block)
     \<and> (if ok then st = state \<and> b = block\<lparr>fChecked := True\<rparr>
        else mode st \<noteq> MODE_VALID \<and> b = block
          \<and> (corruptionPossible st \<longleftrightarrow> header_ok ctx (hdr block) \<and> (hdr_hashMerkleRoot block \<noteq> root \<or> mutated)))"
  by (rule CheckBlock_verdict [OF assms])

text \<open>
  C6. Whatever \<^verbatim>\<open>AcceptBlock\<close> does with a block, in a reachable state, is a run of the steps of the block tree: a header is
  added only under a known parent, block data only once and with at least one transaction, and nothing else changes but the mark of a
  failed block. So the invariant of the block tree holds after it.
\<close>

theorem AcceptBlock_refines:
  assumes "(node_step env)\<^sup>*\<^sup>* (node_init e) st" and "new \<notin> addrs st" and "genesis_ok ctx"
    and "tx_total st + length (block_vtx block) < 2 ^ 32"
    and "AcceptBlock ctx new diskpos written block state fRequested cache st = Some (r, state', pi, cache', st')"
  shows "(node_step env)\<^sup>*\<^sup>* st st' \<and> node_ok st'"
proof
  have ok: "node_ok st" by (rule reachable_node_ok [OF assms(1) node_init_ok])
  show run: "(node_step env)\<^sup>*\<^sup>* st st'" by (rule AcceptBlock_run [OF ok assms(2-5)])
  show "node_ok st'" by (rule reachable_node_ok [OF run ok])
qed

text \<open>Witnesses: a block without transactions, whose header has no work.\<close>

definition sample_ctx :: block_ctx where
  "sample_ctx = \<lparr>ctx_crypto = sample_hash, ctx_GetHash = (\<lambda>h. hdr_hashPrevBlock h @ WriteLE32 (hdr_nNonce h)), ctx_consensus = mainParams,
     ctx_deployments = \<lparr>nRuleChangeActivationThreshold = 1, nMinerConfirmationWindow = 1, vDeployments = []\<rparr>,
     ctx_hashGenesisBlock = [0] @ WriteLE32 7, ctx_isMain = False, nMajorityWindow = 1000, nMajorityEnforceBlockUpgrade = 750,
     nMajorityRejectBlockOutdated = 950, ctx_KimotoGravityWell = (\<lambda>_ _ _. None), ctx_difficulty_close = (=), ctx_AdjustedTime = 0,
     ctx_instantsend_filter = True, ctx_LockedOutPoint = (\<lambda>_. None), fCheckpointsEnabled = False, mapCheckpoints = []\<rparr>"

definition sample_block :: "u32 \<Rightarrow> CBlock" where
  "sample_block nonce = \<lparr>hdr_nVersion = 1, hdr_hashPrevBlock = [0], hdr_hashMerkleRoot = uint256_null, hdr_nTime = 0, hdr_nBits = 0, hdr_nNonce = nonce,
     block_vtx = [], fChecked = False\<rparr>"

lemma sample_header: "\<not> header_ok sample_ctx (hdr (sample_block n))"
  by (simp add: header_ok_def sample_block_def hdr_def CBlockHeader.truncate_def CheckProofOfWork_def SetCompact_def Let_def
      EqualTo_uval wf_of_u64 uval_of_u64)

lemma sample_root: "BlockMerkleRoot (ctx_crypto sample_ctx) (block_vtx (sample_block n)) = Some (uint256_null, False)"
  by (simp add: sample_block_def BlockMerkleRoot_def ComputeMerkleRoot_def MerkleComputation_def)

theorem CheckBlock_correct_witness:
  "\<not> fChecked (sample_block 7)
   \<and> (\<exists>st b. CheckBlock sample_ctx (sample_block 7) state_init True True = Some (False, st, b) \<and> mode st \<noteq> MODE_VALID \<and> \<not> corruptionPossible st)"
proof -
  have "\<not> fChecked (sample_block 7)" by (simp add: sample_block_def)
  then show ?thesis using CheckBlock_correct [OF _ sample_root, of 7 state_init] sample_header [of 7] by auto
qed

lemma sample_genesis_ok: "genesis_ok sample_ctx"
proof -
  have len: "length (WriteLE32 (w :: u32)) = 4" for w by simp
  have "xs \<noteq> [0] @ WriteLE32 7" if "xs @ WriteLE32 n = [0] @ WriteLE32 7" for xs and n :: u32
  proof
    assume "xs = [0] @ WriteLE32 7"
    with that have "length (xs @ WriteLE32 n) = length xs" by simp
    then show False by (simp add: len)
  qed
  then show ?thesis by (simp add: genesis_ok_def sample_ctx_def)
qed

lemma sample_accept:
  "\<exists>r state' pi cache' st'. AcceptBlock sample_ctx 0 None True (sample_block 7) state_init True [] (node_init ()) = Some (r, state', pi, cache', st')"
proof -
  let ?h = "hdr (sample_block 7)"
  have g: "ctx_GetHash sample_ctx ?h = ctx_hashGenesisBlock sample_ctx" "hdr_hashPrevBlock ?h \<noteq> ctx_hashGenesisBlock sample_ctx"
    by (simp_all add: sample_ctx_def sample_block_def hdr_def CBlockHeader.truncate_def)
  have "0 \<notin> addrs (node_init ())" by (simp add: addrs_def node_init_def)
  then obtain st p where "AddToBlockIndex (ctx_GetHash sample_ctx ?h) 0 ?h (node_init ()) = Some (st, p)"
    using AddToBlockIndex_ok [OF node_init_ok, where new = 0 and block = ?h and hash = "ctx_GetHash sample_ctx ?h"] g by metis
  then have h: "AcceptBlockHeader sample_ctx 0 ?h state_init (node_init ()) = Some (True, state_init, Some p, st)"
    using g by (simp add: AcceptBlockHeader_def Let_def)
  have "\<not> fChecked (sample_block 7)" by (simp add: sample_block_def)
  then obtain s b where "CheckBlock sample_ctx (sample_block 7) state_init True True = Some (False, s, b)"
    using CheckBlock_verdict [OF _ sample_root, of 7 state_init] sample_header [of 7] by auto
  then show ?thesis by (auto simp: AcceptBlock_def h Let_def)
qed

theorem AcceptBlock_refines_witness:
  "genesis_ok sample_ctx
   \<and> (\<exists>r state' pi cache' st'. AcceptBlock sample_ctx 0 None True (sample_block 7) state_init True [] (node_init ()) = Some (r, state', pi, cache', st')
        \<and> (node_step idle_env)\<^sup>*\<^sup>* (node_init ()) st' \<and> node_ok st')"
proof -
  have "(node_step idle_env)\<^sup>*\<^sup>* (node_init ()) (node_init ())" "0 \<notin> addrs (node_init ())"
    "tx_total (node_init ()) + length (block_vtx (sample_block 7)) < 2 ^ 32"
    by (simp_all add: addrs_def node_init_def tx_total_def sample_block_def)
  note run = AcceptBlock_refines [OF this(1,2) sample_genesis_ok this(3)]
  then show ?thesis using sample_genesis_ok sample_accept by fast
qed

end
