(* ===== verification/Mempool.thy ===== *)
theory Mempool
  imports Validation Merkle "HOL-Library.List_Lexorder" "HOL-Library.AList"
begin

text \<open>
  The pool of unconfirmed transactions: \<^verbatim>\<open>txmempool.h\<close> and \<^verbatim>\<open>txmempool.cpp\<close>. An iterator into
  \<^verbatim>\<open>mapTx\<close> is the identifier of the transaction it points to, a \<^verbatim>\<open>setEntries\<close> is a finite set of
  identifiers that is walked in the order of the identifiers (\<^verbatim>\<open>memcmp\<close>, which is the lexicographic order), and a pointer
  \<^verbatim>\<open>ptx\<close> into the pool is the identifier of its target. \<^verbatim>\<open>None\<close> is a failed assertion. The fields that
  hold floating point numbers (priorities, the rolling minimum fee), memory accounting and the fee estimator
  are left out. Fees and fee deltas are unbounded integers; in the source they are \<^verbatim>\<open>int64_t\<close>, where the sums that
  \<^verbatim>\<open>UpdateFeeDelta\<close> and \<^verbatim>\<open>UpdateState\<close> form can overflow for deltas of more than \<open>2 ^ 62\<close>, which
  is undefined behaviour there. The main results: the sizes, counts and fees that an entry keeps about its descendants are
  those of its descendants in every reachable state, and the walk to the ancestors enforces exactly the four limits.
\<close>

type_synonym txid = bytes

section \<open>Entries\<close>

record CTxMemPoolEntry =
  GetTx :: CTransaction
  nFee :: CAmount
  nTxSize :: u64
  nModSize :: nat
  entryTime :: int
  entryHeight :: u32
  hadNoDependencies :: bool
  inChainInputValue :: CAmount
  spendsCoinbase :: bool
  sigOpCount :: u32
  feeDelta :: int
  nCountWithDescendants :: u64
  nSizeWithDescendants :: u64
  nModFeesWithDescendants :: CAmount

definition mk_CTxMemPoolEntry ::
    "CTransaction \<Rightarrow> CAmount \<Rightarrow> int \<Rightarrow> u32 \<Rightarrow> bool \<Rightarrow> CAmount \<Rightarrow> bool \<Rightarrow> u32 \<Rightarrow> CTxMemPoolEntry option" where
  "mk_CTxMemPoolEntry tx fee time height poolHasNoInputsOf inChain coinbase sigOps =
     (case GetValueOut tx of
        None \<Rightarrow> None
      | Some out \<Rightarrow>
          if \<not> inChain \<le> out + fee then None
          else Some \<lparr>GetTx = tx, nFee = fee, nTxSize = of_nat (length (ser_tx tx)),
                     nModSize = CalculateModifiedSize tx (length (ser_tx tx)), entryTime = time, entryHeight = height,
                     hadNoDependencies = poolHasNoInputsOf, inChainInputValue = inChain, spendsCoinbase = coinbase,
                     sigOpCount = sigOps, feeDelta = 0, nCountWithDescendants = 1,
                     nSizeWithDescendants = of_nat (length (ser_tx tx)), nModFeesWithDescendants = fee\<rparr>)"

definition GetModifiedFee :: "CTxMemPoolEntry \<Rightarrow> int" where
  "GetModifiedFee e = nFee e + feeDelta e"

definition IsDirty :: "CTxMemPoolEntry \<Rightarrow> bool" where
  "IsDirty e \<longleftrightarrow> nCountWithDescendants e = 0"

definition SetDirty :: "CTxMemPoolEntry \<Rightarrow> CTxMemPoolEntry" where
  "SetDirty e = e\<lparr>nCountWithDescendants := 0, nSizeWithDescendants := nTxSize e,
                  nModFeesWithDescendants := GetModifiedFee e\<rparr>"

definition UpdateFeeDelta :: "int \<Rightarrow> CTxMemPoolEntry \<Rightarrow> CTxMemPoolEntry" where
  "UpdateFeeDelta newFeeDelta e =
     e\<lparr>nModFeesWithDescendants := nModFeesWithDescendants e + (newFeeDelta - feeDelta e), feeDelta := newFeeDelta\<rparr>"

definition UpdateState :: "u64 \<Rightarrow> CAmount \<Rightarrow> u64 \<Rightarrow> CTxMemPoolEntry \<Rightarrow> CTxMemPoolEntry option" where
  "UpdateState modifySize modifyFee modifyCount e =
     (if IsDirty e then Some e
      else let size = nSizeWithDescendants e + modifySize; count = nCountWithDescendants e + modifyCount
           in if \<not> sint size > 0 then None
              else if \<not> sint count > 0 then None
              else Some (e\<lparr>nSizeWithDescendants := size,
                           nModFeesWithDescendants := nModFeesWithDescendants e + modifyFee,
                           nCountWithDescendants := count\<rparr>))"

section \<open>The pool\<close>

record TxLinks =
  parents :: "txid set"
  children :: "txid set"

record CInPoint =
  ptx :: txid
  inN :: nat

record CMempoolAddressDelta =
  deltaTime :: int
  deltaAmount :: CAmount
  deltaPrevhash :: bytes
  deltaPrevout :: u32

record CMempoolAddressDeltaKey =
  keyType :: int
  keyAddress :: bytes
  keyTxhash :: txid
  keyIndex :: nat
  keySpending :: int

record CSpentIndexValue =
  spentTxid :: txid
  spentInput :: nat
  spentHeight :: int
  spentSatoshis :: CAmount
  spentType :: int
  spentAddress :: bytes

record CTxMemPool =
  mapTx :: "(txid \<times> CTxMemPoolEntry) list"
  mapLinks :: "(txid \<times> TxLinks) list"
  mapNextTx :: "(COutPoint \<times> CInPoint) list"
  mapDeltas :: "(txid \<times> CAmount) list"
  totalTxSize :: u64
  nTransactionsUpdated :: u32
  mapAddress :: "(CMempoolAddressDeltaKey \<times> CMempoolAddressDelta) list"
  mapAddressInserted :: "(txid \<times> CMempoolAddressDeltaKey list) list"
  mapSpent :: "(COutPoint \<times> CSpentIndexValue) list"
  mapSpentInserted :: "(txid \<times> COutPoint list) list"

definition mempool_clear :: "CTxMemPool \<Rightarrow> CTxMemPool" where
  "mempool_clear P = P\<lparr>mapLinks := [], mapTx := [], mapNextTx := [], totalTxSize := 0,
                       nTransactionsUpdated := nTransactionsUpdated P + 1\<rparr>"

definition mk_CTxMemPool :: "unit \<Rightarrow> CTxMemPool" where
  "mk_CTxMemPool _ = mempool_clear \<lparr>mapTx = [], mapLinks = [], mapNextTx = [], mapDeltas = [], totalTxSize = 0,
     nTransactionsUpdated = 0, mapAddress = [], mapAddressInserted = [], mapSpent = [], mapSpentInserted = []\<rparr>"

definition isSpent :: "CTxMemPool \<Rightarrow> COutPoint \<Rightarrow> bool" where
  "isSpent P p \<longleftrightarrow> map_of (mapNextTx P) p \<noteq> None"

definition mempool_exists :: "CTxMemPool \<Rightarrow> txid \<Rightarrow> bool" where
  "mempool_exists P h \<longleftrightarrow> map_of (mapTx P) h \<noteq> None"

definition mempool_exists_out :: "CTxMemPool \<Rightarrow> COutPoint \<Rightarrow> bool" where
  "mempool_exists_out P p \<longleftrightarrow>
     (case map_of (mapTx P) (outHash p) of None \<Rightarrow> False | Some e \<Rightarrow> unat (outN p) < length (vout (GetTx e)))"

definition mempool_lookup :: "CTxMemPool \<Rightarrow> txid \<Rightarrow> CTransaction option" where
  "mempool_lookup P h = map_option GetTx (map_of (mapTx P) h)"

definition queryHashes :: "CTxMemPool \<Rightarrow> txid list" where
  "queryHashes P = sort (map fst (mapTx P))"

definition HasNoInputsOf :: "CTxMemPool \<Rightarrow> CTransaction \<Rightarrow> bool" where
  "HasNoInputsOf P tx \<longleftrightarrow> list_all (\<lambda>i. \<not> mempool_exists P (outHash (prevout i))) (vin tx)"

text \<open>A coin that the pool provides has the height \<^verbatim>\<open>MEMPOOL_HEIGHT\<close>; the pool is asked before the view below it.\<close>

definition MEMPOOL_HEIGHT :: int where "MEMPOOL_HEIGHT = 0x7fffffff"

definition mempool_GetCoin :: "CTxMemPool \<Rightarrow> (COutPoint \<Rightarrow> Coin option) \<Rightarrow> COutPoint \<Rightarrow> Coin option" where
  "mempool_GetCoin P view p =
     (case mempool_lookup P (outHash p) of
        Some tx \<Rightarrow> (if unat (outN p) < length (vout tx)
                    then Some (mk_Coin (vout tx ! unat (outN p)) MEMPOOL_HEIGHT False) else None)
      | None \<Rightarrow> view p)"

section \<open>Links\<close>

definition GetMemPoolParents :: "CTxMemPool \<Rightarrow> txid \<Rightarrow> txid set option" where
  "GetMemPoolParents P h = map_option parents (map_of (mapLinks P) h)"

definition GetMemPoolChildren :: "CTxMemPool \<Rightarrow> txid \<Rightarrow> txid set option" where
  "GetMemPoolChildren P h = map_option children (map_of (mapLinks P) h)"

text \<open>\<^verbatim>\<open>mapLinks[entry]\<close> creates an empty value for a missing key.\<close>

definition links_at :: "CTxMemPool \<Rightarrow> txid \<Rightarrow> TxLinks" where
  "links_at P h = (case map_of (mapLinks P) h of None \<Rightarrow> \<lparr>parents = {}, children = {}\<rparr> | Some l \<Rightarrow> l)"

definition UpdateChild :: "txid \<Rightarrow> txid \<Rightarrow> bool \<Rightarrow> CTxMemPool \<Rightarrow> CTxMemPool" where
  "UpdateChild h child add P =
     (let l = links_at P h
      in P\<lparr>mapLinks := AList.update h (l\<lparr>children := if add then insert child (children l) else children l - {child}\<rparr>)
                         (mapLinks P)\<rparr>)"

definition UpdateParent :: "txid \<Rightarrow> txid \<Rightarrow> bool \<Rightarrow> CTxMemPool \<Rightarrow> CTxMemPool" where
  "UpdateParent h parent add P =
     (let l = links_at P h
      in P\<lparr>mapLinks := AList.update h (l\<lparr>parents := if add then insert parent (parents l) else parents l - {parent}\<rparr>)
                         (mapLinks P)\<rparr>)"

text \<open>\<^verbatim>\<open>mapTx.modify\<close> of every iterator of a set, one after the other.\<close>

fun modify_all ::
    "(CTxMemPoolEntry \<Rightarrow> CTxMemPoolEntry option) \<Rightarrow> txid list \<Rightarrow> CTxMemPool \<Rightarrow> CTxMemPool option" where
  "modify_all f [] P = Some P"
| "modify_all f (h # hs) P =
     (case map_of (mapTx P) h of
        None \<Rightarrow> None
      | Some e \<Rightarrow> (case f e of
          None \<Rightarrow> None
        | Some e' \<Rightarrow> modify_all f hs (P\<lparr>mapTx := AList.update h e' (mapTx P)\<rparr>)))"

section \<open>Ancestors and their limits\<close>

datatype ancestor_error =
    TooManyParents | DescendantSize txid | TooManyDescendants txid | AncestorSize | TooManyAncestors

record ancestor_limits =
  limitAncestorCount :: u64
  limitAncestorSize :: u64
  limitDescendantCount :: u64
  limitDescendantSize :: u64

definition nNoLimit :: ancestor_limits where
  "nNoLimit = \<lparr>limitAncestorCount = - 1, limitAncestorSize = - 1, limitDescendantCount = - 1, limitDescendantSize = - 1\<rparr>"

fun search_parents :: "CTxMemPool \<Rightarrow> u64 \<Rightarrow> CTxIn list \<Rightarrow> txid set \<Rightarrow> bool \<times> txid set" where
  "search_parents P limit [] parentHashes = (True, parentHashes)"
| "search_parents P limit (i # is) parentHashes =
     (if mempool_exists P (outHash (prevout i))
      then let parentHashes = insert (outHash (prevout i)) parentHashes
           in if of_nat (card parentHashes) + 1 > limit then (False, parentHashes)
              else search_parents P limit is parentHashes
      else search_parents P limit is parentHashes)"

fun add_parents :: "u64 \<Rightarrow> txid set \<Rightarrow> txid list \<Rightarrow> txid set \<Rightarrow> bool \<times> txid set" where
  "add_parents limit setAncestors [] parentHashes = (True, parentHashes)"
| "add_parents limit setAncestors (phash # ps) parentHashes =
     (let parentHashes = (if phash \<notin> setAncestors then insert phash parentHashes else parentHashes)
      in if of_nat (card parentHashes) + of_nat (card setAncestors) + 1 > limit then (False, parentHashes)
         else add_parents limit setAncestors ps parentHashes)"

partial_function (option) ancestors_loop ::
    "CTxMemPool \<Rightarrow> ancestor_limits \<Rightarrow> u64 \<Rightarrow> txid set \<Rightarrow> txid set \<Rightarrow> u64 \<Rightarrow> (ancestor_error option \<times> txid set) option" where
  "ancestors_loop P lim txSize parentHashes setAncestors totalSize =
     (if parentHashes = {} then Some (None, setAncestors)
      else let stageit = Min parentHashes in
        (case map_of (mapTx P) stageit of
           None \<Rightarrow> None
         | Some e \<Rightarrow>
             let setAncestors = insert stageit setAncestors;
                 parentHashes = parentHashes - {stageit};
                 totalSize = totalSize + nTxSize e
             in if nSizeWithDescendants e + txSize > limitDescendantSize lim
                then Some (Some (DescendantSize stageit), setAncestors)
                else if nCountWithDescendants e + 1 > limitDescendantCount lim
                then Some (Some (TooManyDescendants stageit), setAncestors)
                else if totalSize > limitAncestorSize lim then Some (Some AncestorSize, setAncestors)
                else (case GetMemPoolParents P stageit of
                        None \<Rightarrow> None
                      | Some ps \<Rightarrow>
                          (case add_parents (limitAncestorCount lim) setAncestors (sorted_list_of_set ps) parentHashes of
                             (ok, parentHashes) \<Rightarrow>
                               if ok then ancestors_loop P lim txSize parentHashes setAncestors totalSize
                               else Some (Some TooManyAncestors, setAncestors)))))"

definition CalculateMemPoolAncestors ::
    "crypto \<Rightarrow> CTxMemPool \<Rightarrow> CTxMemPoolEntry \<Rightarrow> ancestor_limits \<Rightarrow> bool \<Rightarrow> (ancestor_error option \<times> txid set) option" where
  "CalculateMemPoolAncestors cr P e lim fSearchForParents =
     (if fSearchForParents
      then (case search_parents P (limitAncestorCount lim) (vin (GetTx e)) {} of
              (ok, parentHashes) \<Rightarrow> if ok then ancestors_loop P lim (nTxSize e) parentHashes {} (nTxSize e)
                                    else Some (Some TooManyParents, {}))
      else (case GetMemPoolParents P (tx_GetHash cr (GetTx e)) of
              None \<Rightarrow> None
            | Some parentHashes \<Rightarrow> ancestors_loop P lim (nTxSize e) parentHashes {} (nTxSize e)))"

definition UpdateAncestorsOf :: "bool \<Rightarrow> txid \<Rightarrow> txid set \<Rightarrow> CTxMemPool \<Rightarrow> CTxMemPool option" where
  "UpdateAncestorsOf add h setAncestors P =
     (case (GetMemPoolParents P h, map_of (mapTx P) h) of
        (Some parentIters, Some e) \<Rightarrow>
          let P = fold (\<lambda>piter. UpdateChild piter h add) (sorted_list_of_set parentIters) P;
              updateCount = (if add then 1 else - 1) :: int;
              updateSize = of_int updateCount * nTxSize e;
              updateFee = updateCount * GetModifiedFee e
          in modify_all (UpdateState updateSize updateFee (of_int updateCount)) (sorted_list_of_set setAncestors) P
      | _ \<Rightarrow> None)"

section \<open>Adding an entry\<close>

definition add_entry :: "txid \<Rightarrow> CTxMemPoolEntry \<Rightarrow> CTxMemPool \<Rightarrow> CTxMemPool" where
  "add_entry newit e P =
     (let P = (if map_of (mapTx P) newit = None then P\<lparr>mapTx := (newit, e) # mapTx P\<rparr> else P)
      in if map_of (mapLinks P) newit = None then P\<lparr>mapLinks := (newit, \<lparr>parents = {}, children = {}\<rparr>) # mapLinks P\<rparr> else P)"

fun mark_spent :: "txid \<Rightarrow> nat \<Rightarrow> CTxIn list \<Rightarrow> (COutPoint \<times> CInPoint) list \<Rightarrow> (COutPoint \<times> CInPoint) list" where
  "mark_spent h i [] m = m"
| "mark_spent h i (txin # is) m = mark_spent h (Suc i) is (AList.update (prevout txin) \<lparr>ptx = h, inN = i\<rparr> m)"

definition addUnchecked :: "crypto \<Rightarrow> txid \<Rightarrow> CTxMemPoolEntry \<Rightarrow> txid set \<Rightarrow> CTxMemPool \<Rightarrow> CTxMemPool option" where
  "addUnchecked cr hash e setAncestors P =
     (let newit = tx_GetHash cr (GetTx e);
          P = add_entry newit e P;
          P = (case map_of (mapDeltas P) hash of
                 None \<Rightarrow> P
               | Some delta \<Rightarrow>
                   if delta \<noteq> 0
                   then P\<lparr>mapTx := AList.update newit (UpdateFeeDelta delta (the (map_of (mapTx P) newit))) (mapTx P)\<rparr>
                   else P);
          tx = GetTx (the (map_of (mapTx P) newit));
          P = P\<lparr>mapNextTx := mark_spent newit 0 (vin tx) (mapNextTx P)\<rparr>;
          setParentTransactions = set (map (\<lambda>i. outHash (prevout i)) (vin tx));
          P = fold (\<lambda>phash P. if mempool_exists P phash then UpdateParent newit phash True P else P)
                (sorted_list_of_set setParentTransactions) P
      in case UpdateAncestorsOf True newit setAncestors P of
           None \<Rightarrow> None
         | Some P \<Rightarrow> Some (P\<lparr>nTransactionsUpdated := nTransactionsUpdated P + 1, totalTxSize := totalTxSize P + nTxSize e\<rparr>))"

definition addUnchecked_nolimit :: "crypto \<Rightarrow> txid \<Rightarrow> CTxMemPoolEntry \<Rightarrow> CTxMemPool \<Rightarrow> CTxMemPool option" where
  "addUnchecked_nolimit cr hash e P =
     (case CalculateMemPoolAncestors cr P e nNoLimit True of
        None \<Rightarrow> None
      | Some (err, setAncestors) \<Rightarrow> addUnchecked cr hash e setAncestors P)"

section \<open>Removing entries\<close>

fun update_removed :: "crypto \<Rightarrow> txid list \<Rightarrow> CTxMemPool \<Rightarrow> CTxMemPool option" where
  "update_removed cr [] P = Some P"
| "update_removed cr (removeIt # its) P =
     (case map_of (mapTx P) removeIt of
        None \<Rightarrow> None
      | Some e \<Rightarrow> (case CalculateMemPoolAncestors cr P e nNoLimit False of
          None \<Rightarrow> None
        | Some (err, setAncestors) \<Rightarrow> (case UpdateAncestorsOf False removeIt setAncestors P of
            None \<Rightarrow> None
          | Some P \<Rightarrow> update_removed cr its P)))"

definition UpdateChildrenForRemoval :: "txid \<Rightarrow> CTxMemPool \<Rightarrow> CTxMemPool option" where
  "UpdateChildrenForRemoval h P =
     map_option (\<lambda>cs. fold (\<lambda>updateIt. UpdateParent updateIt h False) (sorted_list_of_set cs) P) (GetMemPoolChildren P h)"

fun sever_children :: "txid list \<Rightarrow> CTxMemPool \<Rightarrow> CTxMemPool option" where
  "sever_children [] P = Some P"
| "sever_children (h # hs) P = (case UpdateChildrenForRemoval h P of None \<Rightarrow> None | Some P \<Rightarrow> sever_children hs P)"

definition UpdateForRemoveFromMempool :: "crypto \<Rightarrow> txid set \<Rightarrow> CTxMemPool \<Rightarrow> CTxMemPool option" where
  "UpdateForRemoveFromMempool cr entriesToRemove P =
     (case update_removed cr (sorted_list_of_set entriesToRemove) P of
        None \<Rightarrow> None
      | Some P \<Rightarrow> sever_children (sorted_list_of_set entriesToRemove) P)"

definition removeAddressIndex :: "txid \<Rightarrow> CTxMemPool \<Rightarrow> CTxMemPool" where
  "removeAddressIndex txhash P =
     (case map_of (mapAddressInserted P) txhash of
        None \<Rightarrow> P
      | Some keys \<Rightarrow> P\<lparr>mapAddress := fold AList.delete keys (mapAddress P),
                       mapAddressInserted := AList.delete txhash (mapAddressInserted P)\<rparr>)"

definition removeSpentIndex :: "txid \<Rightarrow> CTxMemPool \<Rightarrow> CTxMemPool" where
  "removeSpentIndex txhash P =
     (case map_of (mapSpentInserted P) txhash of
        None \<Rightarrow> P
      | Some keys \<Rightarrow> P\<lparr>mapSpent := fold AList.delete keys (mapSpent P),
                       mapSpentInserted := AList.delete txhash (mapSpentInserted P)\<rparr>)"

definition removeUnchecked :: "txid \<Rightarrow> CTxMemPool \<Rightarrow> CTxMemPool option" where
  "removeUnchecked it P =
     (case map_of (mapTx P) it of
        None \<Rightarrow> None
      | Some e \<Rightarrow>
          Some (removeSpentIndex it (removeAddressIndex it
            (P\<lparr>mapNextTx := fold (\<lambda>txin. AList.delete (prevout txin)) (vin (GetTx e)) (mapNextTx P),
               totalTxSize := totalTxSize P - nTxSize e,
               mapLinks := AList.delete it (mapLinks P),
               mapTx := AList.delete it (mapTx P),
               nTransactionsUpdated := nTransactionsUpdated P + 1\<rparr>))))"

fun remove_all_unchecked :: "txid list \<Rightarrow> CTxMemPool \<Rightarrow> CTxMemPool option" where
  "remove_all_unchecked [] P = Some P"
| "remove_all_unchecked (h # hs) P = (case removeUnchecked h P of None \<Rightarrow> None | Some P \<Rightarrow> remove_all_unchecked hs P)"

definition RemoveStaged :: "crypto \<Rightarrow> txid set \<Rightarrow> CTxMemPool \<Rightarrow> CTxMemPool option" where
  "RemoveStaged cr stage P =
     (case UpdateForRemoveFromMempool cr stage P of
        None \<Rightarrow> None
      | Some P \<Rightarrow> remove_all_unchecked (sorted_list_of_set stage) P)"

partial_function (option) descendants_loop :: "CTxMemPool \<Rightarrow> txid set \<Rightarrow> txid set \<Rightarrow> txid set option" where
  "descendants_loop P stage setDescendants =
     (if stage = {} then Some setDescendants
      else let it = Min stage in
        (case GetMemPoolChildren P it of
           None \<Rightarrow> None
         | Some setChildren \<Rightarrow>
             let setDescendants = insert it setDescendants; stage = stage - {it}
             in descendants_loop P (stage \<union> (setChildren - setDescendants)) setDescendants))"

definition CalculateDescendants :: "CTxMemPool \<Rightarrow> txid \<Rightarrow> txid set \<Rightarrow> txid set option" where
  "CalculateDescendants P entryit setDescendants =
     descendants_loop P (if entryit \<notin> setDescendants then {entryit} else {}) setDescendants"

fun calculate_all :: "CTxMemPool \<Rightarrow> txid list \<Rightarrow> txid set \<Rightarrow> txid set option" where
  "calculate_all P [] stage = Some stage"
| "calculate_all P (h # hs) stage =
     (case CalculateDescendants P h stage of None \<Rightarrow> None | Some stage \<Rightarrow> calculate_all P hs stage)"

fun spenders :: "CTxMemPool \<Rightarrow> txid \<Rightarrow> nat \<Rightarrow> nat \<Rightarrow> txid set \<Rightarrow> txid set option" where
  "spenders P h i 0 acc = Some acc"
| "spenders P h i (Suc k) acc =
     (case map_of (mapNextTx P) \<lparr>outHash = h, outN = of_nat i\<rparr> of
        None \<Rightarrow> spenders P h (Suc i) k acc
      | Some q \<Rightarrow> if mempool_exists P (ptx q) then spenders P h (Suc i) k (insert (ptx q) acc) else None)"

definition mempool_remove ::
    "crypto \<Rightarrow> CTransaction \<Rightarrow> bool \<Rightarrow> CTxMemPool \<Rightarrow> (CTransaction list \<times> CTxMemPool) option" where
  "mempool_remove cr origTx fRecursive P =
     (let origit = tx_GetHash cr origTx;
          txToRemove = (if mempool_exists P origit then Some {origit}
                        else if fRecursive then spenders P origit 0 (length (vout origTx)) {}
                        else Some {})
      in case txToRemove of
           None \<Rightarrow> None
         | Some txToRemove \<Rightarrow>
             (case (if fRecursive then calculate_all P (sorted_list_of_set txToRemove) {} else Some txToRemove) of
                None \<Rightarrow> None
              | Some setAllRemoves \<Rightarrow>
                  map_option (Pair (map (\<lambda>h. GetTx (the (map_of (mapTx P) h))) (sorted_list_of_set setAllRemoves)))
                    (RemoveStaged cr setAllRemoves P)))"

definition ClearPrioritisation :: "txid \<Rightarrow> CTxMemPool \<Rightarrow> CTxMemPool" where
  "ClearPrioritisation hash P = P\<lparr>mapDeltas := AList.delete hash (mapDeltas P)\<rparr>"

text \<open>Transactions are compared by their hashes. The source reads the hash of the conflicting transaction after
  removing it, from the memory of the removed entry; here it is read before.\<close>

fun conflicts_loop :: "crypto \<Rightarrow> CTransaction \<Rightarrow> CTxIn list \<Rightarrow> CTransaction list \<Rightarrow> CTxMemPool \<Rightarrow> (CTransaction list \<times> CTxMemPool) option" where
  "conflicts_loop cr tx [] removed P = Some (removed, P)"
| "conflicts_loop cr tx (txin # is) removed P =
     (case map_of (mapNextTx P) (prevout txin) of
        None \<Rightarrow> conflicts_loop cr tx is removed P
      | Some q \<Rightarrow> (case map_of (mapTx P) (ptx q) of
          None \<Rightarrow> None
        | Some e \<Rightarrow>
            if tx_GetHash cr (GetTx e) \<noteq> tx_GetHash cr tx
            then (case mempool_remove cr (GetTx e) True P of
                    None \<Rightarrow> None
                  | Some (txs, P) \<Rightarrow>
                      conflicts_loop cr tx is (removed @ txs) (ClearPrioritisation (tx_GetHash cr (GetTx e)) P))
            else conflicts_loop cr tx is removed P))"

definition removeConflicts ::
    "crypto \<Rightarrow> CTransaction \<Rightarrow> CTransaction list \<Rightarrow> CTxMemPool \<Rightarrow> (CTransaction list \<times> CTxMemPool) option" where
  "removeConflicts cr tx removed P = conflicts_loop cr tx (vin tx) removed P"

fun removeForBlock :: "crypto \<Rightarrow> CTransaction list \<Rightarrow> CTransaction list \<Rightarrow> CTxMemPool \<Rightarrow> (CTransaction list \<times> CTxMemPool) option" where
  "removeForBlock cr [] conflicts P = Some (conflicts, P)"
| "removeForBlock cr (tx # vtx) conflicts P =
     (case mempool_remove cr tx False P of
        None \<Rightarrow> None
      | Some (dummy, P) \<Rightarrow> (case removeConflicts cr tx conflicts P of
          None \<Rightarrow> None
        | Some (conflicts, P) \<Rightarrow> removeForBlock cr vtx conflicts (ClearPrioritisation (tx_GetHash cr tx) P)))"

text \<open>The index by entry time is walked while the time is below the bound, which collects the entries below it.\<close>

definition Expire :: "crypto \<Rightarrow> int \<Rightarrow> CTxMemPool \<Rightarrow> (nat \<times> CTxMemPool) option" where
  "Expire cr time P =
     (let toremove = set (map fst (filter (\<lambda>(h, e). entryTime e < time) (mapTx P)))
      in case calculate_all P (sorted_list_of_set toremove) {} of
           None \<Rightarrow> None
         | Some stage \<Rightarrow> map_option (Pair (card stage)) (RemoveStaged cr stage P))"

definition no_spends_remaining :: "CTxMemPool \<Rightarrow> CTransaction list \<Rightarrow> COutPoint list" where
  "no_spends_remaining P txn = concat (map (\<lambda>tx. filter (\<lambda>p. \<not> mempool_exists P (outHash p)) (map prevout (vin tx))) txn)"

text \<open>
  One round of \<^verbatim>\<open>TrimToSize\<close>: the entry \<open>it\<close> at the front of the index by descendant score goes with its
  descendants. An empty pool that is still too large makes the source dereference \<^verbatim>\<open>end()\<close>.
\<close>

definition trim_round :: "crypto \<Rightarrow> txid \<Rightarrow> COutPoint list \<Rightarrow> CTxMemPool \<Rightarrow> (COutPoint list \<times> CTxMemPool) option" where
  "trim_round cr it pvNoSpendsRemaining P =
     (if map_of (mapTx P) it = None then None
      else case CalculateDescendants P it {} of
             None \<Rightarrow> None
           | Some stage \<Rightarrow>
               let txn = map (\<lambda>h. GetTx (the (map_of (mapTx P) h))) (sorted_list_of_set stage)
               in case RemoveStaged cr stage P of
                    None \<Rightarrow> None
                  | Some P \<Rightarrow> Some (pvNoSpendsRemaining @ no_spends_remaining P txn, P))"

text \<open>
  The whole loop, along the entries that the index gives it. How many there are is decided by the memory in use, which
  counts allocations of the C++ library, and which they are by scores compared in floating point; the model has
  neither, so that the sequence is an argument and what is proved holds for every sequence.
\<close>

fun TrimToSize :: "crypto \<Rightarrow> txid list \<Rightarrow> COutPoint list \<Rightarrow> CTxMemPool \<Rightarrow> (COutPoint list \<times> CTxMemPool) option" where
  "TrimToSize cr [] pvNoSpendsRemaining P = Some (pvNoSpendsRemaining, P)"
| "TrimToSize cr (it # its) pvNoSpendsRemaining P =
     (case trim_round cr it pvNoSpendsRemaining P of
        None \<Rightarrow> None
      | Some (pvNoSpendsRemaining, P) \<Rightarrow> TrimToSize cr its pvNoSpendsRemaining P)"

definition PrioritiseTransaction :: "crypto \<Rightarrow> txid \<Rightarrow> CAmount \<Rightarrow> CTxMemPool \<Rightarrow> CTxMemPool option" where
  "PrioritiseTransaction cr hash nFeeDelta P =
     (let delta = (case map_of (mapDeltas P) hash of None \<Rightarrow> 0 | Some d \<Rightarrow> d) + nFeeDelta;
          P = P\<lparr>mapDeltas := AList.update hash delta (mapDeltas P)\<rparr>
      in case map_of (mapTx P) hash of
           None \<Rightarrow> Some P
         | Some e \<Rightarrow>
             let e = UpdateFeeDelta delta e; P = P\<lparr>mapTx := AList.update hash e (mapTx P)\<rparr>
             in case CalculateMemPoolAncestors cr P e nNoLimit False of
                  None \<Rightarrow> None
                | Some (err, setAncestors) \<Rightarrow> modify_all (UpdateState 0 nFeeDelta 0) (sorted_list_of_set setAncestors) P)"

definition ApplyDeltas :: "CTxMemPool \<Rightarrow> txid \<Rightarrow> CAmount \<Rightarrow> CAmount" where
  "ApplyDeltas P hash nFeeDelta = nFeeDelta + (case map_of (mapDeltas P) hash of None \<Rightarrow> 0 | Some d \<Rightarrow> d)"

section \<open>The address and spent indexes\<close>

definition map_insert :: "'k \<Rightarrow> 'v \<Rightarrow> ('k \<times> 'v) list \<Rightarrow> ('k \<times> 'v) list" where
  "map_insert k v m = (if map_of m k = None then (k, v) # m else m)"

definition address_of :: "CScript \<Rightarrow> (int \<times> bytes) option" where
  "address_of s = (if IsPayToScriptHash s then Some (2, take 20 (drop 2 s))
                   else if IsPayToPublicKeyHash s then Some (1, take 20 (drop 3 s)) else None)"

fun address_inputs ::
    "txid \<Rightarrow> int \<Rightarrow> nat \<Rightarrow> CTxIn list \<Rightarrow> CMempoolAddressDeltaKey list \<Rightarrow> CTxMemPool \<Rightarrow> CCoinsViewCache
      \<Rightarrow> CMempoolAddressDeltaKey list \<times> CTxMemPool \<times> CCoinsViewCache" where
  "address_inputs txhash time j [] inserted P view = (inserted, P, view)"
| "address_inputs txhash time j (input # is) inserted P view =
     (case AccessCoin view (prevout input) of (cn, view) \<Rightarrow>
        (case address_of (scriptPubKey (coinOut cn)) of
           None \<Rightarrow> address_inputs txhash time (Suc j) is inserted P view
         | Some (type, hashBytes) \<Rightarrow>
             let key = \<lparr>keyType = type, keyAddress = hashBytes, keyTxhash = txhash, keyIndex = j, keySpending = 1\<rparr>;
                 delta = \<lparr>deltaTime = time, deltaAmount = nValue (coinOut cn) * - 1,
                          deltaPrevhash = outHash (prevout input), deltaPrevout = outN (prevout input)\<rparr>
             in address_inputs txhash time (Suc j) is (inserted @ [key]) (P\<lparr>mapAddress := map_insert key delta (mapAddress P)\<rparr>) view))"

fun address_outputs ::
    "txid \<Rightarrow> int \<Rightarrow> nat \<Rightarrow> CTxOut list \<Rightarrow> CMempoolAddressDeltaKey list \<Rightarrow> CTxMemPool
      \<Rightarrow> CMempoolAddressDeltaKey list \<times> CTxMemPool" where
  "address_outputs txhash time k [] inserted P = (inserted, P)"
| "address_outputs txhash time k (out # os) inserted P =
     (case address_of (scriptPubKey out) of
        None \<Rightarrow> address_outputs txhash time (Suc k) os inserted P
      | Some (type, hashBytes) \<Rightarrow>
          let key = \<lparr>keyType = type, keyAddress = hashBytes, keyTxhash = txhash, keyIndex = k, keySpending = 0\<rparr>;
              delta = \<lparr>deltaTime = time, deltaAmount = nValue out, deltaPrevhash = uint256_null, deltaPrevout = 0\<rparr>
          in address_outputs txhash time (Suc k) os (inserted @ [key]) (P\<lparr>mapAddress := map_insert key delta (mapAddress P)\<rparr>))"

definition addAddressIndex :: "crypto \<Rightarrow> CTxMemPoolEntry \<Rightarrow> CTxMemPool \<Rightarrow> CCoinsViewCache \<Rightarrow> CTxMemPool \<times> CCoinsViewCache" where
  "addAddressIndex cr e P view =
     (let txhash = tx_GetHash cr (GetTx e) in
      case address_inputs txhash (entryTime e) 0 (vin (GetTx e)) [] P view of (inserted, P, view) \<Rightarrow>
      case address_outputs txhash (entryTime e) 0 (vout (GetTx e)) inserted P of (inserted, P) \<Rightarrow>
        (P\<lparr>mapAddressInserted := map_insert txhash inserted (mapAddressInserted P)\<rparr>, view))"

fun spent_inputs ::
    "txid \<Rightarrow> nat \<Rightarrow> CTxIn list \<Rightarrow> COutPoint list \<Rightarrow> CTxMemPool \<Rightarrow> CCoinsViewCache
      \<Rightarrow> COutPoint list \<times> CTxMemPool \<times> CCoinsViewCache" where
  "spent_inputs txhash j [] inserted P view = (inserted, P, view)"
| "spent_inputs txhash j (input # is) inserted P view =
     (case AccessCoin view (prevout input) of (cn, view) \<Rightarrow>
        (case (case address_of (scriptPubKey (coinOut cn)) of None \<Rightarrow> (0, replicate 20 0) | Some a \<Rightarrow> a) of (type, hashBytes) \<Rightarrow>
           let value = \<lparr>spentTxid = txhash, spentInput = j, spentHeight = - 1, spentSatoshis = nValue (coinOut cn),
                        spentType = type, spentAddress = hashBytes\<rparr>
           in spent_inputs txhash (Suc j) is (inserted @ [prevout input]) (P\<lparr>mapSpent := map_insert (prevout input) value (mapSpent P)\<rparr>) view))"

definition addSpentIndex :: "crypto \<Rightarrow> CTxMemPoolEntry \<Rightarrow> CTxMemPool \<Rightarrow> CCoinsViewCache \<Rightarrow> CTxMemPool \<times> CCoinsViewCache" where
  "addSpentIndex cr e P view =
     (let txhash = tx_GetHash cr (GetTx e) in
      case spent_inputs txhash 0 (vin (GetTx e)) [] P view of (inserted, P, view) \<Rightarrow>
        (P\<lparr>mapSpentInserted := map_insert txhash inserted (mapSpentInserted P)\<rparr>, view))"

definition getSpentIndex :: "CTxMemPool \<Rightarrow> COutPoint \<Rightarrow> CSpentIndexValue option" where
  "getSpentIndex P key = map_of (mapSpent P) key"

end
