(* ===== verification/MempoolInvariant.thy ===== *)
theory MempoolInvariant
  imports Mempool
begin

text \<open>
  The invariant of the memory pool and its preservation by every operation of \<open>Mempool\<close>.
\<close>

section \<open>Graphs of links\<close>

text \<open>A relation holds the pairs of a child and its parent; \<open>below R k\<close> is \<open>k\<close> with its descendants.\<close>

definition below :: "('a \<times> 'a) set \<Rightarrow> 'a \<Rightarrow> 'a set" where
  "below R k = {d. (d, k) \<in> R\<^sup>*}"

lemma below_refl [simp]: "k \<in> below R k"
  by (simp add: below_def)

lemma below_ne [simp]: "below R k \<noteq> {}"
  using below_refl by fast

lemma below_diff_ne [simp]: "below R k - (D - {k}) \<noteq> {}"
  using below_refl by fast

lemma below_add:
  assumes fresh: "h \<notin> Field R" and new: "h \<notin> Q"
  shows "k \<noteq> h \<Longrightarrow> below (R \<union> {h} \<times> Q) k = below R k \<union> (if k \<in> R\<^sup>* `` Q then {h} else {})"
    and "below (R \<union> {h} \<times> Q) h = {h}"
proof -
  let ?R = "R \<union> {h} \<times> Q"
  have old: "(d, k) \<in> R\<^sup>*" if "(d, k) \<in> ?R\<^sup>*" "d \<noteq> h" for d k
    using that
  proof (induction rule: rtrancl_induct)
    case (step y z)
    then have "y \<noteq> h" using fresh new by (auto simp: Field_def elim: rtranclE)
    then show ?case using step by auto
  qed simp
  have into: "d = h" if "(d, h) \<in> ?R\<^sup>*" for d
    using that
  proof (cases rule: rtranclE)
    case (step y)
    then show ?thesis using fresh new by (auto simp: Field_def)
  qed
  have h: "(h, k) \<in> ?R\<^sup>* \<longleftrightarrow> k \<in> R\<^sup>* `` Q" if kh: "k \<noteq> h" for k
  proof
    assume "(h, k) \<in> ?R\<^sup>*"
    then obtain q where q: "(h, q) \<in> ?R" "(q, k) \<in> ?R\<^sup>*" by (cases rule: converse_rtranclE) (use kh in auto)
    then have "q \<in> Q" using fresh by (auto simp: Field_def)
    then show "k \<in> R\<^sup>* `` Q" using old [OF q(2)] new by blast
  next
    assume "k \<in> R\<^sup>* `` Q"
    then obtain q where "q \<in> Q" "(q, k) \<in> R\<^sup>*" by blast
    then have "(h, q) \<in> ?R" "(q, k) \<in> ?R\<^sup>*" by (auto intro: rtrancl_mono [THEN subsetD, rotated])
    then show "(h, k) \<in> ?R\<^sup>*" by (rule converse_rtrancl_into_rtrancl)
  qed
  have mono: "R\<^sup>* \<subseteq> ?R\<^sup>*" by (rule rtrancl_mono) simp
  show "below ?R k = below R k \<union> (if k \<in> R\<^sup>* `` Q then {h} else {})" if k: "k \<noteq> h"
  proof -
    have "(h, k) \<notin> R\<^sup>*" using fresh k by (auto simp: Field_def elim: converse_rtranclE)
    then have "d \<in> below ?R k \<longleftrightarrow> d \<in> below R k \<union> (if k \<in> R\<^sup>* `` Q then {h} else {})" for d
      using old [of d k] mono h [OF k] by (cases "d = h") (auto simp: below_def)
    then show ?thesis by blast
  qed
  show "below ?R h = {h}" using into by (auto simp: below_def)
qed

lemma acyclic_add:
  assumes "acyclic R" "h \<notin> Field R" "h \<notin> Q"
  shows "acyclic (R \<union> {h} \<times> Q)"
proof (rule acyclicI, rule allI, rule notI)
  fix x assume c: "(x, x) \<in> (R \<union> {h} \<times> Q)\<^sup>+"
  obtain y where y: "(x, y) \<in> R \<union> {h} \<times> Q" "(y, x) \<in> (R \<union> {h} \<times> Q)\<^sup>*" using c by (meson tranclD)
  show False
  proof (cases "x = h")
    case True
    then have "y \<in> below (R \<union> {h} \<times> Q) h" using y by (simp add: below_def)
    then have "y = h" using below_add(2) [OF assms(2,3)] by simp
    then show False using y True assms(2,3) by (auto simp: Field_def)
  next
    case False
    then have xy: "(x, y) \<in> R" using y by auto
    then have "y \<noteq> h" using assms(2) by (auto simp: Field_def)
    moreover have "y \<in> below (R \<union> {h} \<times> Q) x" using y by (simp add: below_def)
    ultimately have "y \<in> below R x" using below_add(1) [OF assms(2,3) False] by (auto split: if_splits)
    then have "(x, x) \<in> R\<^sup>+" using xy by (auto simp: below_def intro: rtrancl_into_trancl2)
    then show False using assms(1) by (simp add: acyclic_def)
  qed
qed

text \<open>Taking out a set whose every member has all its descendants, or all its ancestors, in the set.\<close>

definition severable :: "('a \<times> 'a) set \<Rightarrow> 'a set \<Rightarrow> bool" where
  "severable R S \<longleftrightarrow> (\<forall>s\<in>S. below R s \<subseteq> S \<or> R\<^sup>* `` {s} \<subseteq> S)"

lemma below_remove:
  assumes "severable R S" "k \<notin> S"
  shows "below (R \<inter> (- S) \<times> (- S)) k = below R k - S"
proof
  let ?R = "R \<inter> (- S) \<times> (- S)"
  have "d \<notin> S" if "(d, k) \<in> ?R\<^sup>*" for d using that by (rule converse_rtranclE) (use assms in auto)
  moreover have "?R\<^sup>* \<subseteq> R\<^sup>*" by (rule rtrancl_mono) auto
  ultimately show "below ?R k \<subseteq> below R k - S" by (auto simp: below_def)
  have "d \<notin> S \<Longrightarrow> (d, k) \<in> ?R\<^sup>*" if "(d, k) \<in> R\<^sup>*" for d
    using that
  proof (induction rule: converse_rtrancl_induct)
    case (step y z)
    have "z \<notin> S"
    proof
      assume z: "z \<in> S"
      then have "below R z \<subseteq> S \<or> R\<^sup>* `` {z} \<subseteq> S" using assms(1) by (simp add: severable_def)
      moreover have "y \<in> below R z" using step.hyps by (auto simp: below_def)
      moreover have "k \<in> R\<^sup>* `` {z}" using step.hyps by auto
      ultimately show False using step.prems assms(2) by blast
    qed
    then show ?case using step by (auto intro: converse_rtrancl_into_rtrancl)
  qed simp
  then show "below R k - S \<subseteq> below ?R k" by (auto simp: below_def)
qed

section \<open>The structure of a pool\<close>

definition pool_keys :: "CTxMemPool \<Rightarrow> txid set" where
  "pool_keys P = set (map fst (mapTx P))"

definition par :: "CTxMemPool \<Rightarrow> txid \<Rightarrow> txid set" where
  "par P h = parents (links_at P h)"

definition chl :: "CTxMemPool \<Rightarrow> txid \<Rightarrow> txid set" where
  "chl P h = children (links_at P h)"

definition up :: "CTxMemPool \<Rightarrow> (txid \<times> txid) set" where
  "up P = {(c, p). p \<in> par P c}"

definition entry_at :: "CTxMemPool \<Rightarrow> txid \<Rightarrow> CTxMemPoolEntry" where
  "entry_at P h = the (map_of (mapTx P) h)"

abbreviation tx_size :: "CTxMemPool \<Rightarrow> txid \<Rightarrow> u64" where
  "tx_size P h \<equiv> nTxSize (entry_at P h)"

definition graph_ok :: "CTxMemPool \<Rightarrow> bool" where
  "graph_ok P \<longleftrightarrow> distinct (map fst (mapTx P)) \<and> distinct (map fst (mapLinks P))
     \<and> set (map fst (mapLinks P)) = pool_keys P \<and> (\<forall>h\<in>pool_keys P. par P h \<subseteq> pool_keys P)"

lemma finite_pool_keys [simp]: "finite (pool_keys P)"
  by (simp add: pool_keys_def)

lemma finite_in_pool: "Y \<subseteq> pool_keys P \<Longrightarrow> finite Y"
  using finite_subset [OF _ finite_pool_keys] .

lemma map_of_mapTx: "map_of (mapTx P) h = (if h \<in> pool_keys P then Some (entry_at P h) else None)"
  by (auto simp: pool_keys_def entry_at_def map_of_eq_None_iff dest!: weak_map_of_SomeI split: option.splits)

lemma mempool_exists_iff [simp]: "mempool_exists P h \<longleftrightarrow> h \<in> pool_keys P"
  by (simp add: mempool_exists_def map_of_mapTx)

lemma map_of_mapLinks: "graph_ok P \<Longrightarrow> map_of (mapLinks P) h = (if h \<in> pool_keys P then Some (links_at P h) else None)"
  by (auto simp: graph_ok_def links_at_def map_of_eq_None_iff split: option.splits)

lemma GetMemPoolParents_eq: "graph_ok P \<Longrightarrow> h \<in> pool_keys P \<Longrightarrow> GetMemPoolParents P h = Some (par P h)"
  by (simp add: GetMemPoolParents_def map_of_mapLinks par_def)

lemma GetMemPoolChildren_eq: "graph_ok P \<Longrightarrow> h \<in> pool_keys P \<Longrightarrow> GetMemPoolChildren P h = Some (chl P h)"
  by (simp add: GetMemPoolChildren_def map_of_mapLinks chl_def)

lemma par_outside: "graph_ok P \<Longrightarrow> h \<notin> pool_keys P \<Longrightarrow> par P h = {}"
  by (simp add: par_def links_at_def map_of_mapLinks)

lemma par_keys: "graph_ok P \<Longrightarrow> par P h \<subseteq> pool_keys P"
  using par_outside by (cases "h \<in> pool_keys P") (auto simp: graph_ok_def)

lemma finite_par: "graph_ok P \<Longrightarrow> finite (par P h)"
  using par_keys finite_subset by fastforce

lemma up_Field: "graph_ok P \<Longrightarrow> Field (up P) \<subseteq> pool_keys P"
  using par_keys par_outside by (fastforce simp: up_def Field_def)

lemma up_keys: "graph_ok P \<Longrightarrow> Q \<subseteq> pool_keys P \<Longrightarrow> (up P)\<^sup>* `` Q \<subseteq> pool_keys P"
  using par_keys by (auto simp: up_def elim!: rtrancl_induct)

lemma below_keys: "graph_ok P \<Longrightarrow> k \<in> pool_keys P \<Longrightarrow> below (up P) k \<subseteq> pool_keys P"
  using up_Field by (fastforce simp: below_def Field_def elim: converse_rtranclE)

section \<open>The walk to the ancestors\<close>

definition fits :: "u64 \<Rightarrow> txid set \<Rightarrow> txid set \<Rightarrow> bool" where
  "fits limit W S \<longleftrightarrow> of_nat (card W) + of_nat (card S) + 1 \<le> limit"

lemma add_parents_ok:
  "add_parents limit S ps W = (True, W') \<Longrightarrow> W' = W \<union> (set ps - S) \<and> (ps \<noteq> [] \<longrightarrow> fits limit W' S)"
proof (induction ps arbitrary: W)
  case (Cons p ps)
  let ?W = "if p \<notin> S then insert p W else W"
  have "add_parents limit S ps ?W = (True, W')" "fits limit ?W S"
    using Cons.prems by (auto simp: Let_def fits_def not_less split: if_splits)
  moreover from this(1) have "W' = ?W" if "ps = []" using that by simp
  ultimately show ?case using Cons.IH [of ?W] by (cases "ps = []") auto
qed simp

lemma add_parents_fits:
  "(\<And>X. W \<subseteq> X \<Longrightarrow> X \<subseteq> W \<union> (set ps - S) \<Longrightarrow> fits limit X S) \<Longrightarrow> \<exists>W'. add_parents limit S ps W = (True, W')"
proof (induction ps arbitrary: W)
  case (Cons p ps)
  let ?W = "if p \<notin> S then insert p W else W"
  have "fits limit ?W S" by (rule Cons.prems) auto
  moreover have "fits limit X S" if "?W \<subseteq> X" "X \<subseteq> ?W \<union> (set ps - S)" for X
    by (rule Cons.prems) (use that in \<open>auto split: if_splits\<close>)
  then have "\<exists>W'. add_parents limit S ps ?W = (True, W')" by (rule Cons.IH)
  ultimately show ?case by (auto simp: Let_def fits_def not_less split: if_splits)
qed simp

text \<open>The limits as the walk compares them.\<close>

definition ancestor_fits :: "CTxMemPool \<Rightarrow> ancestor_limits \<Rightarrow> u64 \<Rightarrow> txid \<Rightarrow> bool" where
  "ancestor_fits P lim txSize a \<longleftrightarrow> nSizeWithDescendants (entry_at P a) + txSize \<le> limitDescendantSize lim
     \<and> nCountWithDescendants (entry_at P a) + 1 \<le> limitDescendantCount lim"

definition walk_fits :: "CTxMemPool \<Rightarrow> ancestor_limits \<Rightarrow> u64 \<Rightarrow> txid set \<Rightarrow> bool" where
  "walk_fits P lim txSize A \<longleftrightarrow> (\<forall>a\<in>A. ancestor_fits P lim txSize a)
     \<and> (\<forall>Y\<subseteq>A. Y \<noteq> {} \<longrightarrow> txSize + (\<Sum>a\<in>Y. tx_size P a) \<le> limitAncestorSize lim)
     \<and> (\<forall>X\<subseteq>A. \<forall>Y\<subseteq>A. X \<inter> Y = {} \<longrightarrow> X \<union> Y \<noteq> {} \<longrightarrow> fits (limitAncestorCount lim) X Y)"

lemma ancestors_loop_spec:
  assumes g: "graph_ok P"
  shows "W \<inter> S = {} \<Longrightarrow> W \<union> S \<subseteq> pool_keys P \<Longrightarrow> (\<And>s. s \<in> S \<Longrightarrow> par P s \<subseteq> S \<union> W) \<Longrightarrow>
    totalSize = txSize + (\<Sum>a\<in>S. tx_size P a) \<Longrightarrow> T = (up P)\<^sup>* `` (S \<union> W) \<Longrightarrow>
    \<exists>err A. ancestors_loop P lim txSize W S totalSize = Some (err, A)
      \<and> (err = None \<longrightarrow> A = T \<and> (\<forall>a\<in>T - S. ancestor_fits P lim txSize a)
           \<and> (T \<noteq> S \<longrightarrow> txSize + (\<Sum>a\<in>T. tx_size P a) \<le> limitAncestorSize lim)
           \<and> (fits (limitAncestorCount lim) W S \<longrightarrow> fits (limitAncestorCount lim) {} T))
      \<and> (walk_fits P lim txSize T \<longrightarrow> err = None)"
proof (induction "card (pool_keys P - S)" arbitrary: W S totalSize rule: less_induct)
  case (less S W)
  note dis = less.prems(1) and sub = less.prems(2) and clo = less.prems(3) and tot = less.prems(4) and T = less.prems(5)
  have fin: "finite W" "finite S" using sub finite_subset [OF _ finite_pool_keys] by auto
  show ?case
  proof (cases "W = {}")
    case True
    have "(up P)\<^sup>* `` S \<subseteq> S" using clo True by (fastforce simp: up_def elim: rtrancl_induct)
    then have "T = S" using T True by auto
    then show ?thesis using True by (subst ancestors_loop.simps) simp
  next
    case False
    define w where "w = Min W"
    have w: "w \<in> W" using False fin by (simp add: w_def)
    then have wk: "w \<in> pool_keys P" "w \<notin> S" using sub dis by auto
    let ?S = "insert w S" and ?W = "W - {w}" and ?tot = "totalSize + tx_size P w"
    obtain ok W' where ap: "add_parents (limitAncestorCount lim) ?S (sorted_list_of_set (par P w)) ?W = (ok, W')" by fastforce
    have ps: "set (sorted_list_of_set (par P w)) = par P w" using finite_par [OF g] by simp
    have step: "ancestors_loop P lim txSize W S totalSize =
        (if nSizeWithDescendants (entry_at P w) + txSize > limitDescendantSize lim then Some (Some (DescendantSize w), ?S)
         else if nCountWithDescendants (entry_at P w) + 1 > limitDescendantCount lim then Some (Some (TooManyDescendants w), ?S)
         else if ?tot > limitAncestorSize lim then Some (Some AncestorSize, ?S)
         else if ok then ancestors_loop P lim txSize W' ?S ?tot else Some (Some TooManyAncestors, ?S))"
      using False wk ap by (subst ancestors_loop.simps) (simp add: w_def [symmetric] Let_def map_of_mapTx GetMemPoolParents_eq [OF g])
    have tot': "?tot = txSize + (\<Sum>a\<in>?S. tx_size P a)" using tot wk(2) fin by (simp add: add_ac)
    have ST: "S \<union> W \<subseteq> T" using T by auto
    have pT: "par P w \<subseteq> T" using w T by (auto simp: up_def intro: r_into_rtrancl)
    have T': "(up P)\<^sup>* `` (?S \<union> (?W \<union> (par P w - ?S))) = T"
    proof
      have "(up P)\<^sup>* `` par P w \<subseteq> (up P)\<^sup>* `` {w}" by (auto simp: up_def intro: converse_rtrancl_into_rtrancl)
      then show "(up P)\<^sup>* `` (?S \<union> (?W \<union> (par P w - ?S))) \<subseteq> T" using T w by blast
    qed (use T w in blast)
    have walk: "\<not> nSizeWithDescendants (entry_at P w) + txSize > limitDescendantSize lim
        \<and> \<not> nCountWithDescendants (entry_at P w) + 1 > limitDescendantCount lim
        \<and> \<not> ?tot > limitAncestorSize lim \<and> ok" if f: "walk_fits P lim txSize T"
    proof -
      have sT: "?S \<subseteq> T" using w ST by auto
      then have "ancestor_fits P lim txSize w" "?tot \<le> limitAncestorSize lim"
        using f unfolding walk_fits_def tot' by auto
      moreover have "fits (limitAncestorCount lim) X ?S" if "?W \<subseteq> X" "X \<subseteq> ?W \<union> (par P w - ?S)" for X
      proof -
        have X: "X \<subseteq> T" "X \<inter> ?S = {}" using that ST pT dis by auto
        have "X \<union> ?S \<noteq> {}" by simp
        then show ?thesis using f [unfolded walk_fits_def] X sT by meson
      qed
      then have ok using add_parents_fits [of ?W "sorted_list_of_set (par P w)" ?S "limitAncestorCount lim"] ap ps by auto
      ultimately show ?thesis by (simp add: ancestor_fits_def not_less)
    qed
    show ?thesis
    proof (cases "ok \<and> ancestor_fits P lim txSize w \<and> ?tot \<le> limitAncestorSize lim")
      case True
      then have W': "W' = ?W \<union> (par P w - ?S)" and fit: "par P w \<noteq> {} \<longrightarrow> fits (limitAncestorCount lim) W' ?S"
        using add_parents_ok [of "limitAncestorCount lim" ?S "sorted_list_of_set (par P w)" ?W W'] ap ps by auto
      have eq: "ancestors_loop P lim txSize W S totalSize = ancestors_loop P lim txSize W' ?S ?tot"
        unfolding step using True by (auto simp: ancestor_fits_def not_less)
      have smaller: "card (pool_keys P - ?S) < card (pool_keys P - S)" using wk by (intro psubset_card_mono) auto
      have c1: "par P s \<subseteq> ?S \<union> W'" if "s \<in> ?S" for s using that clo w unfolding W' by blast
      have c2: "W' \<inter> ?S = {}" "W' \<union> ?S \<subseteq> pool_keys P" using W' dis sub wk par_keys [OF g] by auto
      have c3: "T = (up P)\<^sup>* `` (?S \<union> W')" using T' W' by simp
      obtain err A where r: "ancestors_loop P lim txSize W' ?S ?tot = Some (err, A)"
        and A: "err = None \<longrightarrow> A = T \<and> (\<forall>a\<in>T - ?S. ancestor_fits P lim txSize a)
           \<and> (T \<noteq> ?S \<longrightarrow> txSize + (\<Sum>a\<in>T. tx_size P a) \<le> limitAncestorSize lim)
           \<and> (fits (limitAncestorCount lim) W' ?S \<longrightarrow> fits (limitAncestorCount lim) {} T)"
        and B: "walk_fits P lim txSize T \<longrightarrow> err = None"
        using less.hyps [OF smaller c2 c1 tot' c3] by blast
      have cards: "of_nat (card ?W) + of_nat (card ?S) = (of_nat (card W) + of_nat (card S) :: u64)"
        using wk fin by (simp add: card_Suc_Diff1 [OF fin(1) w, symmetric])
      have "fits (limitAncestorCount lim) W S \<longrightarrow> fits (limitAncestorCount lim) W' ?S"
        using fit W' cards by (cases "par P w = {}") (simp_all add: fits_def)
      moreover have "txSize + (\<Sum>a\<in>T. tx_size P a) \<le> limitAncestorSize lim" if "T = ?S" using True tot' that by simp
      moreover have "\<forall>a\<in>T - S. ancestor_fits P lim txSize a" if "err = None" using A that True by auto
      ultimately show ?thesis unfolding eq r using A B by blast
    next
      case False
      then obtain e A where "ancestors_loop P lim txSize W S totalSize = Some (Some e, A)"
        using step by (auto simp: ancestor_fits_def not_less split: if_splits)
      moreover have "\<not> walk_fits P lim txSize T" using walk False by (auto simp: ancestor_fits_def not_less)
      ultimately show ?thesis by blast
    qed
  qed
qed

text \<open>What the walk finds, when every comparison holds.\<close>

lemma walk_nNoLimit [simp]: "walk_fits P nNoLimit txSize A"
  by (simp add: walk_fits_def ancestor_fits_def fits_def nNoLimit_def)

lemma ancestors_nolimit:
  assumes "graph_ok P" "h \<in> pool_keys P" "tx_GetHash cr (GetTx e) = h"
  shows "CalculateMemPoolAncestors cr P e nNoLimit False = Some (None, (up P)\<^sup>* `` par P h)"
proof -
  obtain err A where "ancestors_loop P nNoLimit (nTxSize e) (par P h) {} (nTxSize e) = Some (err, A)"
    "err = None \<longrightarrow> A = (up P)\<^sup>* `` par P h" "err = None"
    using ancestors_loop_spec [OF assms(1), of "par P h" "{}" "nTxSize e" "nTxSize e" _ nNoLimit] par_keys [OF assms(1)] by auto
  then show ?thesis using assms by (simp add: CalculateMemPoolAncestors_def GetMemPoolParents_eq)
qed

definition pool_parents :: "CTxMemPool \<Rightarrow> CTransaction \<Rightarrow> txid set" where
  "pool_parents P tx = (\<lambda>i. outHash (prevout i)) ` set (vin tx) \<inter> pool_keys P"

lemma search_parents_ok:
  assumes "search_parents P limit is W = (True, W')"
  shows "W' = W \<union> ((\<lambda>i. outHash (prevout i)) ` set is \<inter> pool_keys P) \<and> (W' = W \<or> fits limit W' {})"
  using assms
proof (induction "is" arbitrary: W)
  case (Cons i "is")
  show ?case
  proof (cases "outHash (prevout i) \<in> pool_keys P")
    case True
    let ?W = "insert (outHash (prevout i)) W"
    have "search_parents P limit is ?W = (True, W')" "fits limit ?W {}"
      using Cons.prems True by (auto simp: Let_def fits_def not_less split: if_splits)
    then show ?thesis using Cons.IH [of ?W] True by auto
  qed (use Cons in auto)
qed simp

lemma search_parents_fits:
  assumes "\<And>X. X \<noteq> {} \<Longrightarrow> W \<subseteq> X \<Longrightarrow> X \<subseteq> W \<union> ((\<lambda>i. outHash (prevout i)) ` set is \<inter> pool_keys P) \<Longrightarrow> fits limit X {}"
  shows "\<exists>W'. search_parents P limit is W = (True, W')"
  using assms
proof (induction "is" arbitrary: W)
  case (Cons i "is")
  show ?case
  proof (cases "outHash (prevout i) \<in> pool_keys P")
    case True
    let ?W = "insert (outHash (prevout i)) W"
    have f: "fits limit X {}" if "?W \<subseteq> X" "X \<subseteq> ?W \<union> ((\<lambda>i. outHash (prevout i)) ` set is \<inter> pool_keys P)" for X
      by (rule Cons.prems) (use that True in auto)
    have "\<exists>W'. search_parents P limit is ?W = (True, W')" by (rule Cons.IH) (rule f)
    moreover have "fits limit ?W {}" by (rule f) auto
    ultimately show ?thesis using True by (auto simp: Let_def fits_def not_less)
  next
    case False
    then show ?thesis using Cons by auto
  qed
qed simp

lemma ancestors_search:
  assumes "graph_ok P"
  defines "A \<equiv> \<lambda>e. (up P)\<^sup>* `` pool_parents P (GetTx e)"
  obtains err S where "CalculateMemPoolAncestors cr P e lim True = Some (err, S)"
    and "err = None \<longrightarrow> S = A e \<and> (\<forall>a\<in>A e. ancestor_fits P lim (nTxSize e) a)
      \<and> (A e \<noteq> {} \<longrightarrow> nTxSize e + (\<Sum>a\<in>A e. tx_size P a) \<le> limitAncestorSize lim \<and> fits (limitAncestorCount lim) {} (A e))"
    and "walk_fits P lim (nTxSize e) (A e) \<longrightarrow> err = None"
proof -
  obtain ok W where sp: "search_parents P (limitAncestorCount lim) (vin (GetTx e)) {} = (ok, W)" by fastforce
  show thesis
  proof (cases ok)
    case True
    have W: "W = pool_parents P (GetTx e)" "W = {} \<or> fits (limitAncestorCount lim) W {}"
      using search_parents_ok [of P "limitAncestorCount lim" "vin (GetTx e)" "{}" W] sp True by (auto simp: pool_parents_def)
    then have "W \<subseteq> pool_keys P" "A e = (up P)\<^sup>* `` ({} \<union> W)" by (auto simp: pool_parents_def A_def)
    moreover have "W \<noteq> {} \<longleftrightarrow> A e \<noteq> {}" using W(1) by (auto simp: A_def)
    ultimately show thesis using that ancestors_loop_spec [OF assms(1), of W "{}" "nTxSize e" "nTxSize e" "A e" lim] sp True W(2)
      by (auto simp: CalculateMemPoolAncestors_def)
  next
    case False
    have "\<not> walk_fits P lim (nTxSize e) (A e)"
    proof
      assume w: "walk_fits P lim (nTxSize e) (A e)"
      have "fits (limitAncestorCount lim) X {}" if "X \<noteq> {}" "X \<subseteq> pool_parents P (GetTx e)" for X
      proof -
        have "X \<subseteq> A e" using that by (auto simp: A_def)
        then show ?thesis using w \<open>X \<noteq> {}\<close> unfolding walk_fits_def by blast
      qed
      then show False using search_parents_fits [of "{}" "vin (GetTx e)" P "limitAncestorCount lim"] sp False
        by (auto simp: pool_parents_def)
    qed
    then show thesis using that sp False by (auto simp: CalculateMemPoolAncestors_def)
  qed
qed

section \<open>Updating all entries and all links\<close>

definition map_entries :: "(txid \<Rightarrow> CTxMemPoolEntry \<Rightarrow> CTxMemPoolEntry) \<Rightarrow> CTxMemPool \<Rightarrow> CTxMemPool" where
  "map_entries f P = P\<lparr>mapTx := map (\<lambda>(k, e). (k, f k e)) (mapTx P)\<rparr>"

definition map_links :: "(txid \<Rightarrow> TxLinks \<Rightarrow> TxLinks) \<Rightarrow> CTxMemPool \<Rightarrow> CTxMemPool" where
  "map_links f P = P\<lparr>mapLinks := map (\<lambda>(k, l). (k, f k l)) (mapLinks P)\<rparr>"

lemma map_of_map_snd: "map_of (map (\<lambda>(k, e). (k, f k e)) m) h = map_option (f h) (map_of m h)"
  by (induction m) auto

lemma map_fst_map_snd [simp]: "map fst (map (\<lambda>(k, e). (k, f k e)) m) = map fst m"
  by (induction m) auto

lemma update_as_map:
  "distinct (map fst m) \<Longrightarrow> map_of m k = Some v \<Longrightarrow>
   AList.update k (f v) m = map (\<lambda>(k', v). (k', if k' = k then f v else v)) m"
  by (induction m) (auto intro!: map_idI [symmetric] simp: rev_image_eqI)

lemma map_entries_simps [simp]:
  "pool_keys (map_entries f P) = pool_keys P" "mapLinks (map_entries f P) = mapLinks P"
  "mapNextTx (map_entries f P) = mapNextTx P" "mapDeltas (map_entries f P) = mapDeltas P"
  "totalTxSize (map_entries f P) = totalTxSize P" "links_at (map_entries f P) = links_at P"
  "map fst (mapTx (map_entries f P)) = map fst (mapTx P)"
  "par (map_entries f P) = par P" "chl (map_entries f P) = chl P" "up (map_entries f P) = up P"
  by (simp_all add: map_entries_def pool_keys_def links_at_def par_def chl_def up_def fun_eq_iff del: map_map)

lemma entry_at_map_entries [simp]: "h \<in> pool_keys P \<Longrightarrow> entry_at (map_entries f P) h = f h (entry_at P h)"
  using map_of_mapTx [of P h] by (cases "map_of (mapTx P) h") (simp_all add: map_entries_def entry_at_def map_of_map_snd)

lemma map_entries_comp [simp]: "map_entries f (map_entries g P) = map_entries (\<lambda>k e. f k (g k e)) P"
  by (simp add: map_entries_def split_def o_def)

lemma map_entries_cong:
  assumes "distinct (map fst (mapTx P))" "\<And>k. k \<in> pool_keys P \<Longrightarrow> f k (entry_at P k) = g k (entry_at P k)"
  shows "map_entries f P = map_entries g P"
proof -
  have "f k e = g k e" if "(k, e) \<in> set (mapTx P)" for k e
    using assms(2) [of k] map_of_is_SomeI [OF assms(1) that] that by (force simp: pool_keys_def entry_at_def)
  then have "map (\<lambda>(k, e). (k, f k e)) (mapTx P) = map (\<lambda>(k, e). (k, g k e)) (mapTx P)" by (intro map_cong) auto
  then show ?thesis by (simp add: map_entries_def)
qed

lemma map_links_simps [simp]:
  "pool_keys (map_links f P) = pool_keys P" "mapTx (map_links f P) = mapTx P"
  "mapNextTx (map_links f P) = mapNextTx P" "mapDeltas (map_links f P) = mapDeltas P"
  "totalTxSize (map_links f P) = totalTxSize P" "entry_at (map_links f P) = entry_at P"
  "map fst (mapLinks (map_links f P)) = map fst (mapLinks P)"
  by (simp_all add: map_links_def pool_keys_def entry_at_def fun_eq_iff del: map_map)

lemma map_links_keys [simp]: "fst ` set (mapLinks (map_links f P)) = fst ` set (mapLinks P)"
  using map_links_simps(7) [of f P] by (metis set_map)

lemma links_at_map_links [simp]: "graph_ok P \<Longrightarrow> h \<in> pool_keys P \<Longrightarrow> links_at (map_links f P) h = f h (links_at P h)"
  using map_of_mapLinks [of P h] by (cases "map_of (mapLinks P) h") (simp_all add: map_links_def links_at_def map_of_map_snd)

lemma map_links_comp [simp]: "map_links f (map_links g P) = map_links (\<lambda>k l. f k (g k l)) P"
  by (simp add: map_links_def split_def o_def)

lemma map_links_entries: "map_links f (map_entries g P) = map_entries g (map_links f P)"
  by (simp add: map_links_def map_entries_def)

lemma map_links_cong:
  assumes "graph_ok P" "\<And>k. k \<in> pool_keys P \<Longrightarrow> f k (links_at P k) = g k (links_at P k)"
  shows "map_links f P = map_links g P"
proof -
  have d: "distinct (map fst (mapLinks P))" and k: "set (map fst (mapLinks P)) = pool_keys P"
    using assms(1) by (auto simp: graph_ok_def)
  have "f k e = g k e" if "(k, e) \<in> set (mapLinks P)" for k e
    using assms(2) [of k] map_of_is_SomeI [OF d that] that k by (force simp: links_at_def)
  then have "map (\<lambda>(k, e). (k, f k e)) (mapLinks P) = map (\<lambda>(k, e). (k, g k e)) (mapLinks P)" by (intro map_cong) auto
  then show ?thesis by (simp add: map_links_def)
qed

lemma links_at_outside: "graph_ok P \<Longrightarrow> h \<notin> pool_keys P \<Longrightarrow> links_at P h = \<lparr>parents = {}, children = {}\<rparr>"
  by (simp add: links_at_def map_of_mapLinks)

lemma links_at_map_links_outside [simp]:
  "graph_ok P \<Longrightarrow> h \<notin> pool_keys P \<Longrightarrow> links_at (map_links f P) h = \<lparr>parents = {}, children = {}\<rparr>"
  using map_of_mapLinks [of P h] by (simp add: map_links_def links_at_def map_of_map_snd)

lemma modify_all_spec:
  assumes "distinct (map fst (mapTx P))" "distinct hs" "set hs \<subseteq> pool_keys P"
    and "\<And>h. h \<in> set hs \<Longrightarrow> f (entry_at P h) = Some (g h (entry_at P h))"
  shows "modify_all f hs P = Some (map_entries (\<lambda>k e. if k \<in> set hs then g k e else e) P)"
  using assms
proof (induction hs arbitrary: P)
  case Nil
  then show ?case by (simp add: map_entries_def)
next
  case (Cons h hs)
  let ?P = "map_entries (\<lambda>k e. if k = h then g h e else e) P"
  have e: "map_of (mapTx P) h = Some (entry_at P h)" using Cons.prems(3) by (simp add: map_of_mapTx)
  have upd: "P\<lparr>mapTx := AList.update h (g h (entry_at P h)) (mapTx P)\<rparr> = ?P"
    using update_as_map [OF Cons.prems(1) e, of "g h"] by (simp add: map_entries_def)
  have "modify_all f hs ?P = Some (map_entries (\<lambda>k e. if k \<in> set hs then g k e else e) ?P)"
    by (rule Cons.IH) (use Cons.prems in auto)
  moreover have "map_entries (\<lambda>k e. if k \<in> set hs then g k e else e) ?P = map_entries (\<lambda>k e. if k \<in> set (h # hs) then g k e else e) P"
    using Cons.prems(1,2) by (auto intro!: map_entries_cong)
  ultimately show ?case using e upd Cons.prems(4) by simp
qed

lemma fold_UpdateChild:
  assumes "graph_ok P" "distinct ps" "set ps \<subseteq> pool_keys P"
  shows "fold (\<lambda>p. UpdateChild p h add) ps P = map_links (\<lambda>k l. if k \<in> set ps
    then l\<lparr>children := if add then insert h (children l) else children l - {h}\<rparr> else l) P"
  using assms
proof (induction ps arbitrary: P)
  case (Cons p ps)
  let ?P = "map_links (\<lambda>k l. if k = p then l\<lparr>children := if add then insert h (children l) else children l - {h}\<rparr> else l) P"
  have l: "map_of (mapLinks P) p = Some (links_at P p)" using Cons.prems by (simp add: map_of_mapLinks)
  have upd: "UpdateChild p h add P = ?P"
    using update_as_map [OF _ l, of "\<lambda>l. l\<lparr>children := if add then insert h (children l) else children l - {h}\<rparr>"] Cons.prems(1)
    by (simp add: UpdateChild_def Let_def map_links_def graph_ok_def)
  have "graph_ok ?P" using Cons.prems(1) by (auto simp: graph_ok_def par_def)
  then have "fold (\<lambda>p. UpdateChild p h add) ps ?P = map_links (\<lambda>k l. if k \<in> set ps
      then l\<lparr>children := if add then insert h (children l) else children l - {h}\<rparr> else l) ?P"
    by (rule Cons.IH) (use Cons.prems in auto)
  then show ?case using Cons.prems by (auto simp: upd intro!: map_links_cong)
qed (simp add: map_links_def)

section \<open>The invariant\<close>

abbreviation mod_fee :: "CTxMemPool \<Rightarrow> txid \<Rightarrow> int" where
  "mod_fee P h \<equiv> GetModifiedFee (entry_at P h)"

text \<open>The state about descendants that an entry should have when they are the members of \<open>Y\<close>.\<close>

definition with_totals :: "CTxMemPool \<Rightarrow> txid set \<Rightarrow> CTxMemPoolEntry \<Rightarrow> CTxMemPoolEntry" where
  "with_totals P Y e = e\<lparr>nCountWithDescendants := of_nat (card Y), nSizeWithDescendants := (\<Sum>d\<in>Y. tx_size P d),
     nModFeesWithDescendants := (\<Sum>d\<in>Y. mod_fee P d)\<rparr>"

lemma with_totals_eq_iff:
  "e = with_totals P Y e \<longleftrightarrow> nCountWithDescendants e = of_nat (card Y) \<and> nSizeWithDescendants e = (\<Sum>d\<in>Y. tx_size P d)
     \<and> nModFeesWithDescendants e = (\<Sum>d\<in>Y. mod_fee P d)"
  by (cases e) (auto simp: with_totals_def)

definition totals_ok :: "CTxMemPool \<Rightarrow> txid \<Rightarrow> bool" where
  "totals_ok P h \<longleftrightarrow> entry_at P h = with_totals P (below (up P) h) (entry_at P h)"

definition pool_small :: "CTxMemPool \<Rightarrow> bool" where
  "pool_small P \<longleftrightarrow> (\<Sum>h\<in>pool_keys P. unat (tx_size P h)) < 2 ^ 63 \<and> (\<forall>h\<in>pool_keys P. tx_size P h \<noteq> 0)"

definition spends_ok :: "CTxMemPool \<Rightarrow> bool" where
  "spends_ok P \<longleftrightarrow> (\<forall>p q. map_of (mapNextTx P) p = Some q \<longleftrightarrow>
     ptx q \<in> pool_keys P \<and> inN q < length (vin (GetTx (entry_at P (ptx q)))) \<and> prevout (vin (GetTx (entry_at P (ptx q))) ! inN q) = p)"

definition delta_of :: "CTxMemPool \<Rightarrow> txid \<Rightarrow> int" where
  "delta_of P h = (case map_of (mapDeltas P) h of None \<Rightarrow> 0 | Some d \<Rightarrow> d)"

definition entry_ok :: "crypto \<Rightarrow> CTxMemPool \<Rightarrow> txid \<Rightarrow> bool" where
  "entry_ok cr P h \<longleftrightarrow> tx_GetHash cr (GetTx (entry_at P h)) = h \<and> par P h \<subseteq> pool_parents P (GetTx (entry_at P h))
     \<and> feeDelta (entry_at P h) = delta_of P h"

definition links_ok :: "crypto \<Rightarrow> CTxMemPool \<Rightarrow> bool" where
  "links_ok cr P \<longleftrightarrow> graph_ok P \<and> (\<forall>p c. c \<in> chl P p \<longleftrightarrow> p \<in> par P c) \<and> acyclic (up P) \<and> pool_small P
     \<and> (\<forall>h\<in>pool_keys P. entry_ok cr P h \<and> totals_ok P h)
     \<and> totalTxSize P = (\<Sum>h\<in>pool_keys P. tx_size P h) \<and> spends_ok P"

lemma links_okD:
  assumes "links_ok cr P"
  shows "graph_ok P" "\<And>c p. c \<in> chl P p \<longleftrightarrow> p \<in> par P c" "acyclic (up P)" "pool_small P"
    "\<And>h. h \<in> pool_keys P \<Longrightarrow> entry_ok cr P h" "\<And>h. h \<in> pool_keys P \<Longrightarrow> totals_ok P h" "spends_ok P"
    "totalTxSize P = (\<Sum>h\<in>pool_keys P. tx_size P h)"
  using assms by (auto simp: links_ok_def)

text \<open>In the pool no sum wraps, so the assertions of \<^verbatim>\<open>UpdateState\<close> hold for every nonempty set of descendants.\<close>

lemma unat_sum:
  assumes "finite Y" "(\<Sum>d\<in>Y. unat (f d)) < 2 ^ 64"
  shows "unat (\<Sum>d\<in>Y. f d :: u64) = (\<Sum>d\<in>Y. unat (f d))"
  using assms
proof (induction Y rule: finite_induct)
  case (insert x Y)
  then have "unat (\<Sum>d\<in>Y. f d) = (\<Sum>d\<in>Y. unat (f d))" by simp
  then show ?case using insert by (simp add: unat_add_no_wrap)
qed simp

lemma totals_bounds:
  assumes "pool_small P" "Y \<subseteq> pool_keys P"
  shows "unat (\<Sum>d\<in>Y. tx_size P d) = (\<Sum>d\<in>Y. unat (tx_size P d))" "(\<Sum>d\<in>Y. unat (tx_size P d)) < 2 ^ 63"
    "card Y \<le> (\<Sum>d\<in>Y. unat (tx_size P d))"
proof -
  have f: "finite Y" using assms(2) by (rule finite_in_pool)
  have "(\<Sum>d\<in>Y. unat (tx_size P d)) \<le> (\<Sum>d\<in>pool_keys P. unat (tx_size P d))" using assms(2) by (intro sum_mono2) auto
  then show s: "(\<Sum>d\<in>Y. unat (tx_size P d)) < 2 ^ 63" using assms(1) by (simp add: pool_small_def)
  then show "unat (\<Sum>d\<in>Y. tx_size P d) = (\<Sum>d\<in>Y. unat (tx_size P d))" using f by (intro unat_sum) auto
  have "1 \<le> unat (tx_size P d)" if "d \<in> Y" for d
    using that assms by (auto simp: pool_small_def Suc_le_eq unat_gt_0)
  then show "card Y \<le> (\<Sum>d\<in>Y. unat (tx_size P d))" using sum_mono [of Y "\<lambda>_. 1" "\<lambda>d. unat (tx_size P d)"] by simp
qed

lemma sint_positive: "0 < unat (x :: u64) \<Longrightarrow> unat x < 2 ^ 63 \<Longrightarrow> sint x > 0"
  using sint_small [of x] by linarith

lemma totals_positive:
  assumes "pool_small P" "Y \<subseteq> pool_keys P" "Y \<noteq> {}"
  shows "sint (\<Sum>d\<in>Y. tx_size P d) > 0" "sint (of_nat (card Y) :: u64) > 0" "(of_nat (card Y) :: u64) \<noteq> 0"
    "unat (of_nat (card Y) :: u64) = card Y"
proof -
  have f: "finite Y" using assms(2) by (rule finite_in_pool)
  note b = totals_bounds [OF assms(1,2)]
  have c: "card Y > 0" using f assms(3) by (simp add: card_gt_0_iff)
  show u: "unat (of_nat (card Y) :: u64) = card Y" using b by (simp add: unsigned_of_nat take_bit_nat_eq_self)
  show "sint (\<Sum>d\<in>Y. tx_size P d) > 0" using b c by (intro sint_positive) linarith+
  show "sint (of_nat (card Y) :: u64) > 0" using b c u by (intro sint_positive) linarith+
  show "(of_nat (card Y) :: u64) \<noteq> 0" using u c by (metis less_irrefl unat_0)
qed

lemma UpdateState_totals:
  assumes "pool_small P" "Y \<subseteq> pool_keys P" "Y \<noteq> {}" "\<not> IsDirty e"
    and "e = with_totals P X e" "dc = of_nat (card Y) - of_nat (card X)"
    "ds = (\<Sum>d\<in>Y. tx_size P d) - (\<Sum>d\<in>X. tx_size P d)" "df = (\<Sum>d\<in>Y. mod_fee P d) - (\<Sum>d\<in>X. mod_fee P d)"
  shows "UpdateState ds df dc e = Some (with_totals P Y e)"
proof -
  note with_totals_eq_iff [THEN iffD1, OF assms(5)]
  then show ?thesis using totals_positive [OF assms(1-3)] assms(4,6-8)
    by (simp add: UpdateState_def Let_def with_totals_def)
qed

lemma UpdateState_remove:
  assumes "pool_small P" "Y \<subseteq> pool_keys P" "Y \<noteq> {}" "\<not> IsDirty e" "e = with_totals P (insert r Y) e" "r \<notin> Y"
  shows "UpdateState (of_int (- 1) * tx_size P r) (- 1 * mod_fee P r) (of_int (- 1)) e = Some (with_totals P Y e)"
  by (rule UpdateState_totals [OF assms(1-5)]) (use assms(6) finite_in_pool [OF assms(2)] in simp_all)

lemma with_totals_simps [simp]:
  "with_totals P X (with_totals P Y e) = with_totals P X e" "GetTx (with_totals P Y e) = GetTx e"
  "nTxSize (with_totals P Y e) = nTxSize e" "GetModifiedFee (with_totals P Y e) = GetModifiedFee e"
  "feeDelta (with_totals P Y e) = feeDelta e" "entryTime (with_totals P Y e) = entryTime e"
  by (simp_all add: with_totals_def GetModifiedFee_def)

lemma IsDirty_with_totals [simp]:
  "pool_small P \<Longrightarrow> Y \<subseteq> pool_keys P \<Longrightarrow> Y \<noteq> {} \<Longrightarrow> \<not> IsDirty (with_totals P Y e)"
  using totals_positive(3) by (simp add: IsDirty_def with_totals_def)

text \<open>No entry is dirty: \<^verbatim>\<open>SetDirty\<close> is only called after a reorganisation, by \<^verbatim>\<open>UpdateTransactionsFromBlock\<close>.\<close>

lemma links_ok_clean:
  assumes "links_ok cr P" "h \<in> pool_keys P"
  shows "\<not> IsDirty (entry_at P h)"
proof -
  have "\<not> IsDirty (with_totals P (below (up P) h) (entry_at P h))"
    using assms by (intro IsDirty_with_totals below_keys) (auto simp: links_ok_def)
  then show ?thesis using assms by (simp add: links_ok_def totals_ok_def)
qed

section \<open>Removal\<close>

text \<open>The pool after the first loop of \<^verbatim>\<open>UpdateForRemoveFromMempool\<close> has treated the entries of \<open>D\<close>.\<close>

definition shrunk :: "CTxMemPool \<Rightarrow> txid set \<Rightarrow> CTxMemPool" where
  "shrunk P D = map_entries (\<lambda>k. with_totals P (below (up P) k - (D - {k})))
     (map_links (\<lambda>k l. l\<lparr>children := children l - D\<rparr>) P)"

lemma shrunk_structure:
  assumes "graph_ok P"
  shows "graph_ok (shrunk P D)" "par (shrunk P D) = par P" "up (shrunk P D) = up P" "pool_keys (shrunk P D) = pool_keys P"
proof -
  show p: "par (shrunk P D) = par P"
  proof
    fix h show "par (shrunk P D) h = par P h"
      using assms by (cases "h \<in> pool_keys P") (simp_all add: shrunk_def par_def links_at_outside)
  qed
  then show "up (shrunk P D) = up P" by (simp add: up_def)
  show k: "pool_keys (shrunk P D) = pool_keys P" by (simp add: shrunk_def)
  show "graph_ok (shrunk P D)" using assms p k by (simp add: graph_ok_def) (simp add: shrunk_def)
qed

lemma shrunk_empty:
  assumes "links_ok cr P"
  shows "shrunk P {} = P"
proof -
  have "map_links (\<lambda>k l. l\<lparr>children := children l - {}\<rparr>) P = P" by (simp add: map_links_def)
  moreover have "map_entries (\<lambda>k. with_totals P (below (up P) k - ({} - {k}))) P = map_entries (\<lambda>k e. e) P"
    using links_okD(1,6) [OF assms] by (intro map_entries_cong) (auto simp: graph_ok_def totals_ok_def)
  ultimately show ?thesis by (simp add: shrunk_def map_entries_def)
qed

lemma shrunk_step:
  assumes P: "links_ok cr P" and r: "r \<in> pool_keys P" "r \<notin> D"
  shows "UpdateAncestorsOf False r ((up P)\<^sup>* `` par P r) (shrunk P D) = Some (shrunk P (insert r D))"
proof -
  let ?A = "(up P)\<^sup>* `` par P r" and ?Q = "shrunk P D"
  note g = links_okD(1) [OF P] and sm = links_okD(4) [OF P]
  note st = shrunk_structure [OF g, of D]
  have A: "?A \<subseteq> pool_keys P" using up_keys [OF g par_keys [OF g]] .
  note finA = finite_in_pool [OF A]
  have anc: "a \<in> ?A \<longleftrightarrow> (r, a) \<in> (up P)\<^sup>+" for a by (auto simp: up_def trancl_unfold_left relcomp_unfold)
  have ne: "r \<notin> ?A" using links_okD(3) [OF P] anc by (simp add: acyclic_def)
  have bel: "r \<in> below (up P) k \<longleftrightarrow> k \<in> ?A \<or> k = r" for k using anc by (auto simp: below_def rtrancl_eq_or_trancl)
  have er: "nTxSize (entry_at ?Q r) = tx_size P r" "GetModifiedFee (entry_at ?Q r) = mod_fee P r"
    using r by (simp_all add: shrunk_def)
  let ?f = "UpdateState (of_int (- 1) * tx_size P r) (- 1 * mod_fee P r) (of_int (- 1))"
  let ?L = "map_links (\<lambda>k l. if k \<in> par P r then l\<lparr>children := children l - {r}\<rparr> else l) ?Q"
  define g where "g = (\<lambda>k. with_totals P (below (up P) k - (insert r D - {k})))"
  have "?f (entry_at ?L a) = Some (g a (entry_at ?L a))" if a: "a \<in> ?A" for a
  proof -
    let ?X = "below (up P) a - (D - {a})" and ?Y = "below (up P) a - (insert r D - {a})"
    have bk: "below (up P) a \<subseteq> pool_keys P" using below_keys [OF \<open>graph_ok P\<close>, of a] a A by blast
    have X: "?X \<subseteq> pool_keys P" "?Y \<subseteq> pool_keys P" "?X \<noteq> {}" "?Y \<noteq> {}"
      using bk below_diff_ne [of "up P" a] by blast+
    have e: "entry_at ?L a = with_totals P ?X (entry_at P a)" using a A by (auto simp: shrunk_def)
    have ins: "?X = insert r ?Y" "r \<notin> ?Y" using r(2) a bel [of a] ne by auto
    have "?f (with_totals P ?X (entry_at P a)) = Some (with_totals P ?Y (with_totals P ?X (entry_at P a)))"
      by (rule UpdateState_remove [OF sm X(2,4) _ _ ins(2)]) (use sm X in \<open>simp_all add: ins(1) [symmetric]\<close>)
    then show ?thesis using sm X unfolding e g_def by simp
  qed
  then have "modify_all ?f (sorted_list_of_set ?A) ?L = Some (map_entries (\<lambda>k e. if k \<in> ?A then g k e else e) ?L)"
    using modify_all_spec [of ?L "sorted_list_of_set ?A" ?f g] A finA st by (simp add: graph_ok_def)
  moreover have "map_entries (\<lambda>k e. if k \<in> ?A then g k e else e) ?L = shrunk P (insert r D)"
  proof -
    define G where "G = (\<lambda>k. with_totals P (below (up P) k - (D - {k})))"
    let ?H = "map_links (\<lambda>k l. l\<lparr>children := children l - insert r D\<rparr>) P"
    have "r \<in> children (links_at P k) \<Longrightarrow> k \<in> par P r" for k using links_okD(2) [OF P] by (simp add: chl_def)
    then have "map_links (\<lambda>k l. if k \<in> par P r then l\<lparr>children := children l - D - {r}\<rparr> else l\<lparr>children := children l - D\<rparr>) P = ?H"
      by (intro map_links_cong [OF \<open>graph_ok P\<close>]) (auto intro!: TxLinks.equality)
    then have eqL: "?L = map_entries G ?H" by (simp add: shrunk_def map_links_entries G_def if_distrib cong: if_cong)
    have eqk: "(if k \<in> ?A then g k (G k (entry_at P k)) else G k (entry_at P k)) = g k (entry_at P k)" if "k \<in> pool_keys P" for k
    proof -
      have "below (up P) k - (D - {k}) = below (up P) k - (insert r D - {k})" if "k \<notin> ?A" using that bel [of k] by auto
      then show ?thesis by (auto simp: G_def g_def)
    qed
    have "map_entries (\<lambda>k e. if k \<in> ?A then g k e else e) ?L = map_entries (\<lambda>k e. if k \<in> ?A then g k (G k e) else G k e) ?H"
      unfolding eqL map_entries_comp ..
    also have "\<dots> = map_entries g ?H"
    proof (rule map_entries_cong)
      show "(if k \<in> ?A then g k (G k (entry_at ?H k)) else G k (entry_at ?H k)) = g k (entry_at ?H k)" if "k \<in> pool_keys ?H" for k
        using that unfolding map_links_simps by (rule eqk)
    qed (use \<open>graph_ok P\<close> in \<open>simp add: graph_ok_def\<close>)
    finally show ?thesis by (simp add: shrunk_def g_def)
  qed
  moreover have "fold (\<lambda>p. UpdateChild p r False) (sorted_list_of_set (par P r)) ?Q = ?L"
    using fold_UpdateChild [OF st(1), of "sorted_list_of_set (par P r)" r False] finite_par [OF \<open>graph_ok P\<close>] par_keys [OF \<open>graph_ok P\<close>] st(4)
    by (simp cong: if_cong)
  ultimately show ?thesis using r er st
    by (simp add: UpdateAncestorsOf_def GetMemPoolParents_eq map_of_mapTx Let_def)
qed

lemma update_removed_spec:
  assumes P: "links_ok cr P" and "distinct rs" "set rs \<subseteq> pool_keys P" "set rs \<inter> D = {}"
  shows "update_removed cr rs (shrunk P D) = Some (shrunk P (set rs \<union> D))"
  using assms(2-4)
proof (induction rs arbitrary: D)
  case (Cons r rs)
  note st = shrunk_structure [OF links_okD(1) [OF P], of D]
  have r: "r \<in> pool_keys P" "r \<notin> D" using Cons.prems by auto
  have "tx_GetHash cr (GetTx (entry_at (shrunk P D) r)) = r"
    using links_okD(5) [OF P r(1)] r(1) by (simp add: shrunk_def entry_ok_def)
  then have "CalculateMemPoolAncestors cr (shrunk P D) (entry_at (shrunk P D) r) nNoLimit False = Some (None, (up P)\<^sup>* `` par P r)"
    using ancestors_nolimit [OF st(1)] st r by simp
  moreover have "update_removed cr rs (shrunk P (insert r D)) = Some (shrunk P (set rs \<union> insert r D))"
    by (rule Cons.IH) (use Cons.prems in auto)
  ultimately show ?case using r st shrunk_step [OF P r] by (simp add: map_of_mapTx)
qed simp

text \<open>Then the links from the remaining children are cut.\<close>

definition severed :: "txid set \<Rightarrow> txid set \<Rightarrow> CTxMemPool \<Rightarrow> CTxMemPool" where
  "severed S D Q = map_links (\<lambda>k l. if k \<in> S then l else l\<lparr>parents := parents l - D\<rparr>) Q"

lemma fold_UpdateParent:
  assumes "graph_ok P" "distinct cs" "set cs \<subseteq> pool_keys P"
  shows "fold (\<lambda>c. UpdateParent c h False) cs P =
    map_links (\<lambda>k l. if k \<in> set cs then l\<lparr>parents := parents l - {h}\<rparr> else l) P"
  using assms
proof (induction cs arbitrary: P)
  case (Cons c cs)
  let ?P = "map_links (\<lambda>k l. if k = c then l\<lparr>parents := parents l - {h}\<rparr> else l) P"
  have l: "map_of (mapLinks P) c = Some (links_at P c)" using Cons.prems by (simp add: map_of_mapLinks)
  have upd: "UpdateParent c h False P = ?P"
    using update_as_map [OF _ l, of "\<lambda>l. l\<lparr>parents := parents l - {h}\<rparr>"] Cons.prems(1)
    by (simp add: UpdateParent_def Let_def map_links_def graph_ok_def)
  have "graph_ok ?P" using Cons.prems(1) by (auto simp: graph_ok_def par_def)
  then have "fold (\<lambda>c. UpdateParent c h False) cs ?P =
      map_links (\<lambda>k l. if k \<in> set cs then l\<lparr>parents := parents l - {h}\<rparr> else l) ?P"
    by (rule Cons.IH) (use Cons.prems in auto)
  then show ?case using Cons.prems by (auto simp: upd intro!: map_links_cong)
qed (simp add: map_links_def)

lemma severed_graph: "graph_ok Q \<Longrightarrow> graph_ok (severed S D Q)"
  by (auto simp: graph_ok_def severed_def par_def)

lemma sever_children_spec:
  assumes Q: "graph_ok Q" and chl: "\<And>r c. r \<in> S \<Longrightarrow> c \<in> chl Q r \<longleftrightarrow> c \<notin> S \<and> r \<in> par Q c"
    and "set rs \<subseteq> S" "S \<subseteq> pool_keys Q" "D \<subseteq> S"
  shows "sever_children rs (severed S D Q) = Some (severed S (set rs \<union> D) Q)"
  using assms(3,5)
proof (induction rs arbitrary: D)
  case (Cons r rs)
  let ?Q = "severed S D Q"
  have r: "r \<in> S" "r \<in> pool_keys Q" using Cons.prems assms(4) by auto
  have c: "chl ?Q r = chl Q r" using r Q by (simp add: chl_def severed_def)
  have sub: "chl Q r \<subseteq> pool_keys Q" using chl [OF r(1)] par_outside [OF Q] by auto
  have "UpdateChildrenForRemoval r ?Q = Some (map_links (\<lambda>k l. if k \<in> chl Q r then l\<lparr>parents := parents l - {r}\<rparr> else l) ?Q)"
    using fold_UpdateParent [OF severed_graph [OF Q, of S D], of "sorted_list_of_set (chl Q r)" r] sub finite_in_pool [OF sub]
      GetMemPoolChildren_eq [OF severed_graph [OF Q, of S D], of r] r c
    by (simp add: UpdateChildrenForRemoval_def severed_def)
  moreover have "map_links (\<lambda>k l. if k \<in> chl Q r then l\<lparr>parents := parents l - {r}\<rparr> else l) ?Q = severed S (insert r D) Q"
    unfolding severed_def map_links_comp
    by (intro map_links_cong [OF Q]) (use chl [OF r(1)] in \<open>auto simp: par_def intro!: TxLinks.equality\<close>)
  moreover have "sever_children rs (severed S (insert r D) Q) = Some (severed S (set rs \<union> insert r D) Q)"
    by (rule Cons.IH) (use Cons.prems in auto)
  ultimately show ?case by simp
qed simp

lemma remove_indexes_simps [simp]:
  "mapTx (removeSpentIndex h P) = mapTx P" "mapTx (removeAddressIndex h P) = mapTx P"
  "mapLinks (removeSpentIndex h P) = mapLinks P" "mapLinks (removeAddressIndex h P) = mapLinks P"
  "mapNextTx (removeSpentIndex h P) = mapNextTx P" "mapNextTx (removeAddressIndex h P) = mapNextTx P"
  "mapDeltas (removeSpentIndex h P) = mapDeltas P" "mapDeltas (removeAddressIndex h P) = mapDeltas P"
  "totalTxSize (removeSpentIndex h P) = totalTxSize P" "totalTxSize (removeAddressIndex h P) = totalTxSize P"
  by (simp_all add: removeSpentIndex_def removeAddressIndex_def split: option.splits)

abbreviation without :: "'k set \<Rightarrow> ('k \<times> 'v) list \<Rightarrow> ('k \<times> 'v) list" where
  "without S m \<equiv> filter (\<lambda>(k, v). k \<notin> S) m"

lemma delete_without [simp]: "AList.delete k (without S m) = without (insert k S) m"
  by (induction m) (auto simp: AList.delete_eq)

lemma delete_as_without: "AList.delete k m = without {k} m"
  by (induction m) auto

lemma fold_delete_without: "fold (\<lambda>i. AList.delete (f i)) is m = without (f ` set is) m"
  by (induction "is" arbitrary: m) (auto simp: AList.delete_eq filter_filter split_def intro: filter_cong)

lemma map_of_without: "map_of (without S m) k = (if k \<in> S then None else map_of m k)"
  by (induction m) auto

lemma keys_without: "fst ` set (without S m) = fst ` set m - S"
  by force

definition inputs_of :: "CTxMemPool \<Rightarrow> txid \<Rightarrow> COutPoint set" where
  "inputs_of P h = prevout ` set (vin (GetTx (entry_at P h)))"

definition taken_out :: "txid set \<Rightarrow> CTxMemPool \<Rightarrow> CTxMemPool \<Rightarrow> bool" where
  "taken_out S P P' \<longleftrightarrow> mapTx P' = without S (mapTx P) \<and> mapLinks P' = without S (mapLinks P)
     \<and> mapNextTx P' = without (\<Union>h\<in>S. inputs_of P h) (mapNextTx P)
     \<and> totalTxSize P' = totalTxSize P - (\<Sum>h\<in>S. tx_size P h) \<and> mapDeltas P' = mapDeltas P"

lemma taken_out_keys:
  assumes "taken_out S P P'"
  shows "pool_keys P' = pool_keys P - S" "h \<notin> S \<Longrightarrow> entry_at P' h = entry_at P h" "h \<notin> S \<Longrightarrow> links_at P' h = links_at P h"
  using assms by (auto simp: taken_out_def pool_keys_def entry_at_def links_at_def map_of_without image_iff)

lemma remove_all_unchecked_spec:
  assumes "distinct rs" "set rs \<subseteq> pool_keys P"
  shows "\<exists>P'. remove_all_unchecked rs P = Some P' \<and> taken_out (set rs) P P'"
  using assms
proof (induction rs arbitrary: P)
  case Nil
  then show ?case by (simp add: taken_out_def filter_True)
next
  case (Cons r rs)
  obtain P1 where P1: "removeUnchecked r P = Some P1" "taken_out {r} P P1"
    using Cons.prems
    by (auto simp: removeUnchecked_def map_of_mapTx taken_out_def fold_delete_without inputs_of_def delete_as_without)
  note k = taken_out_keys [OF P1(2)]
  obtain P' where P': "remove_all_unchecked rs P1 = Some P'" "taken_out (set rs) P1 P'"
    using Cons.IH [of P1] Cons.prems k(1) by auto
  have same: "entry_at P1 h = entry_at P h" if "h \<in> set rs" for h using that k(2) [of h] Cons.prems(1) by fastforce
  then have "inputs_of P1 h = inputs_of P h" if "h \<in> set rs" for h using that by (simp add: inputs_of_def)
  moreover have "tx_size P1 h = tx_size P h" if "h \<in> set rs" for h using that same by simp
  ultimately have "taken_out (set (r # rs)) P P'"
    using P1(2) P'(2) Cons.prems(1) by (auto simp: taken_out_def filter_filter split_def intro!: filter_cong)
  then show ?case using P1(1) P'(1) by auto
qed

text \<open>The three passes together.\<close>

definition staged :: "CTxMemPool \<Rightarrow> txid set \<Rightarrow> CTxMemPool" where
  "staged P S = severed S S (shrunk P S)"

lemma UpdateForRemoveFromMempool_spec:
  assumes P: "links_ok cr P" and S: "S \<subseteq> pool_keys P"
  shows "UpdateForRemoveFromMempool cr S P = Some (staged P S)"
proof -
  note g = links_okD(1) [OF P]
  note st = shrunk_structure [OF g, of S] and f = finite_in_pool [OF S]
  have "update_removed cr (sorted_list_of_set S) P = Some (shrunk P S)"
    using update_removed_spec [OF P, of "sorted_list_of_set S" "{}"] S f shrunk_empty [OF P] by simp
  moreover have "c \<in> chl (shrunk P S) r \<longleftrightarrow> c \<notin> S \<and> r \<in> par (shrunk P S) c" if "r \<in> S" for r c
    using that S g st(2) links_okD(2) [OF P, of c r] by (auto simp: chl_def shrunk_def)
  then have "sever_children (sorted_list_of_set S) (severed S {} (shrunk P S)) = Some (severed S S (shrunk P S))"
    using sever_children_spec [OF st(1), of S "sorted_list_of_set S" "{}"] S f st(4) by simp
  moreover have "severed S {} (shrunk P S) = shrunk P S"
    using map_links_cong [OF st(1), of _ "\<lambda>k l. l"] by (simp add: severed_def map_links_def)
  ultimately show ?thesis by (simp add: UpdateForRemoveFromMempool_def staged_def)
qed

lemma staged_simps:
  assumes "graph_ok P" "h \<in> pool_keys P" "h \<notin> S"
  shows "links_at (staged P S) h = \<lparr>parents = par P h - S, children = chl P h - S\<rparr>"
    "entry_at (staged P S) h = with_totals P (below (up P) h - S) (entry_at P h)"
  using assms shrunk_structure [OF assms(1), of S]
  by (auto simp: staged_def severed_def shrunk_def par_def chl_def intro!: TxLinks.equality)

lemma staged_fields [simp]:
  "pool_keys (staged P S) = pool_keys P" "mapNextTx (staged P S) = mapNextTx P" "mapDeltas (staged P S) = mapDeltas P"
  "totalTxSize (staged P S) = totalTxSize P"
  by (simp_all add: staged_def severed_def shrunk_def)

lemma staged_entry:
  assumes "h \<in> pool_keys P"
  shows "GetTx (entry_at (staged P S) h) = GetTx (entry_at P h)" "tx_size (staged P S) h = tx_size P h"
    "mod_fee (staged P S) h = mod_fee P h" "feeDelta (entry_at (staged P S) h) = feeDelta (entry_at P h)"
  using assms by (simp_all add: staged_def severed_def shrunk_def)

lemma staged_graph: "graph_ok P \<Longrightarrow> graph_ok (staged P S)"
  by (simp add: staged_def severed_graph shrunk_structure)

lemma acyclic_subset_pairs: "acyclic R \<Longrightarrow> acyclic (R \<inter> X)"
  by (rule acyclic_subset) auto

lemma taken_out_spends:
  assumes P: "spends_ok P" and S: "S \<subseteq> pool_keys P" and T: "taken_out S (staged P S) P'"
  shows "spends_ok P'"
  unfolding spends_ok_def
proof (intro allI)
  fix p q
  note k = taken_out_keys [OF T]
  let ?X = "\<Union>h\<in>S. inputs_of P h"
  have X: "(\<Union>h\<in>S. inputs_of (staged P S) h) = ?X" using S by (auto simp: inputs_of_def staged_entry(1) subset_iff)
  have m: "map_of (mapNextTx P') p = (if p \<in> ?X then None else map_of (mapNextTx P) p)"
    using T unfolding taken_out_def X by (simp only: map_of_without staged_fields)
  have old: "map_of (mapNextTx P) p = Some q \<longleftrightarrow> ptx q \<in> pool_keys P \<and> inN q < length (vin (GetTx (entry_at P (ptx q))))
      \<and> prevout (vin (GetTx (entry_at P (ptx q))) ! inN q) = p" for q using P by (simp add: spends_ok_def)
  have inX: "ptx q \<in> S \<longleftrightarrow> p \<in> ?X" if q: "map_of (mapNextTx P) p = Some q"
  proof
    assume "ptx q \<in> S"
    then show "p \<in> ?X" using old [of q] q by (force simp: inputs_of_def)
  next
    assume "p \<in> ?X"
    then obtain h i where h: "h \<in> S" "i < length (vin (GetTx (entry_at P h)))" "prevout (vin (GetTx (entry_at P h)) ! i) = p"
      by (auto simp: inputs_of_def in_set_conv_nth)
    then have "map_of (mapNextTx P) p = Some \<lparr>ptx = h, inN = i\<rparr>" using old [of "\<lparr>ptx = h, inN = i\<rparr>"] S by auto
    then show "ptx q \<in> S" using q h by auto
  qed
  have tx: "GetTx (entry_at P' (ptx q)) = GetTx (entry_at P (ptx q))" if "ptx q \<in> pool_keys P'"
    using that k staged_entry(1) by auto
  show "map_of (mapNextTx P') p = Some q \<longleftrightarrow> ptx q \<in> pool_keys P' \<and> inN q < length (vin (GetTx (entry_at P' (ptx q))))
      \<and> prevout (vin (GetTx (entry_at P' (ptx q))) ! inN q) = p"
  proof (cases "ptx q \<in> pool_keys P'")
    case True
    then have "ptx q \<in> pool_keys P" "ptx q \<notin> S" using k(1) by auto
    then show ?thesis using True old [of q] inX unfolding m tx [OF True] by (cases "p \<in> ?X") auto
  next
    case False
    then have "map_of (mapNextTx P) p = Some q \<longrightarrow> p \<in> ?X" using old [of q] inX k(1) by auto
    then show ?thesis using False unfolding m by auto
  qed
qed

lemma taken_out_links_ok:
  assumes P: "links_ok cr P" and S: "S \<subseteq> pool_keys P" "severable (up P) S" and T: "taken_out S (staged P S) P'"
  shows "links_ok cr P'" "pool_keys P' = pool_keys P - S" "\<And>h. h \<notin> S \<Longrightarrow> h \<in> pool_keys P \<Longrightarrow> GetTx (entry_at P' h) = GetTx (entry_at P h)"
    "\<And>h. h \<notin> S \<Longrightarrow> h \<in> pool_keys P \<Longrightarrow> par P' h = par P h - S" "mapDeltas P' = mapDeltas P"
    "\<And>h. h \<notin> S \<Longrightarrow> h \<in> pool_keys P \<Longrightarrow> entryTime (entry_at P' h) = entryTime (entry_at P h)"
proof -
  note g = links_okD(1) [OF P] and k = taken_out_keys [OF T]
  show keys: "pool_keys P' = pool_keys P - S" using k(1) by simp
  show "mapDeltas P' = mapDeltas P" using T by (simp add: taken_out_def)
  note md = this
  have e: "entry_at P' h = with_totals P (below (up P) h - S) (entry_at P h)"
    if "h \<in> pool_keys P'" for h using that keys k(2) staged_simps(2) [OF g] by auto
  have same: "GetTx (entry_at P' h) = GetTx (entry_at P h)" "tx_size P' h = tx_size P h" "mod_fee P' h = mod_fee P h"
    "feeDelta (entry_at P' h) = feeDelta (entry_at P h)"
    if "h \<in> pool_keys P'" for h using that keys k(2) staged_entry by auto
  show "\<And>h. h \<notin> S \<Longrightarrow> h \<in> pool_keys P \<Longrightarrow> GetTx (entry_at P' h) = GetTx (entry_at P h)" using same keys by auto
  show "\<And>h. h \<notin> S \<Longrightarrow> h \<in> pool_keys P \<Longrightarrow> entryTime (entry_at P' h) = entryTime (entry_at P h)" using e keys by simp
  have l: "links_at P' h = (if h \<in> pool_keys P' then \<lparr>parents = par P h - S, children = chl P h - S\<rparr> else \<lparr>parents = {}, children = {}\<rparr>)" for h
  proof (cases "h \<in> S")
    case True
    then show ?thesis using T keys by (simp add: links_at_def taken_out_def map_of_without)
  next
    case False
    then show ?thesis using k(3) [of h] keys staged_simps(1) [OF g _ False] links_at_outside [OF staged_graph [OF g, of S], of h] by auto
  qed
  have p: "par P' h = (if h \<in> S then {} else par P h - S)" "chl P' h = (if h \<in> S then {} else chl P h - S)" for h
    using l [of h] keys links_at_outside [OF g, of h] by (auto simp: par_def chl_def)
  then show "\<And>h. h \<notin> S \<Longrightarrow> h \<in> pool_keys P \<Longrightarrow> par P' h = par P h - S" by simp
  have up: "up P' = up P \<inter> (- S) \<times> (- S)" using p by (auto simp: up_def split: if_splits)
  have bel: "below (up P') h = below (up P) h - S" if "h \<in> pool_keys P'" for h
    using that keys below_remove [OF S(2)] by (simp add: up)
  have g': "graph_ok P'"
    unfolding graph_ok_def
  proof (intro conjI ballI)
    show "distinct (map fst (mapTx P'))" "distinct (map fst (mapLinks P'))"
      using T staged_graph [OF g, of S] by (auto simp: taken_out_def graph_ok_def distinct_map_filter)
    show "set (map fst (mapLinks P')) = pool_keys P'"
    proof -
      have "fst ` set (mapLinks P') = fst ` set (mapLinks (staged P S)) - S" using T unfolding taken_out_def by (simp only: keys_without)
      then show ?thesis using staged_graph [OF g, of S] keys by (simp add: graph_ok_def)
    qed
    show "par P' h \<subseteq> pool_keys P'" if "h \<in> pool_keys P'" for h using p(1) [of h] par_keys [OF g, of h] keys by auto
  qed
  have small: "pool_small P'"
  proof -
    have "(\<Sum>h\<in>pool_keys P'. unat (tx_size P' h)) = (\<Sum>h\<in>pool_keys P'. unat (tx_size P h))" using same by simp
    also have "\<dots> < 2 ^ 63" by (rule totals_bounds [OF links_okD(4) [OF P]]) (use keys in auto)
    finally show ?thesis using links_okD(4) [OF P] same keys by (auto simp: pool_small_def)
  qed
  have tot: "totals_ok P' h" if h: "h \<in> pool_keys P'" for h
  proof -
    let ?Y = "below (up P) h - S"
    have hP: "h \<in> pool_keys P" "h \<notin> S" using h keys by auto
    have Y: "?Y \<subseteq> pool_keys P'" using below_keys [OF g hP(1)] keys by auto
    then have "(\<Sum>d\<in>?Y. tx_size P' d) = (\<Sum>d\<in>?Y. tx_size P d)" "(\<Sum>d\<in>?Y. mod_fee P' d) = (\<Sum>d\<in>?Y. mod_fee P d)"
      using same by (auto intro!: sum.cong)
    then have w: "with_totals P' ?Y = with_totals P ?Y" by (simp add: with_totals_def fun_eq_iff)
    show ?thesis by (simp add: totals_ok_def e [OF h] bel [OF h] w)
  qed
  have ent: "entry_ok cr P' h" if h: "h \<in> pool_keys P'" for h
  proof -
    have "entry_ok cr P h" using links_okD(5) [OF P] h keys by simp
    then show ?thesis using h keys p same [OF h] md by (auto simp: entry_ok_def delta_of_def pool_parents_def)
  qed
  have sum: "totalTxSize P' = (\<Sum>h\<in>pool_keys P'. tx_size P' h)"
  proof -
    have "totalTxSize P' = (\<Sum>h\<in>pool_keys P. tx_size P h) - (\<Sum>h\<in>S. tx_size (staged P S) h)"
      using T links_okD(8) [OF P] by (simp add: taken_out_def)
    also have "(\<Sum>h\<in>S. tx_size (staged P S) h) = (\<Sum>h\<in>S. tx_size P h)" using S(1) staged_entry(2) by (intro sum.cong) auto
    also have "(\<Sum>h\<in>pool_keys P. tx_size P h) - \<dots> = (\<Sum>h\<in>pool_keys P'. tx_size P h)"
      unfolding keys using S(1) by (simp add: sum_diff)
    finally show ?thesis using same by simp
  qed
  have sp: "spends_ok P'"
    using taken_out_spends [OF links_okD(7) [OF P] S(1) T] .
  have "\<forall>p c. c \<in> chl P' p \<longleftrightarrow> p \<in> par P' c" using p links_okD(2) [OF P] by auto
  moreover have "acyclic (up P')" unfolding up by (rule acyclic_subset_pairs [OF links_okD(3) [OF P]])
  ultimately show "links_ok cr P'" using g' small ent tot sum sp by (auto simp: links_ok_def)
qed

text \<open>\<^verbatim>\<open>RemoveStaged\<close> takes a severable set out and keeps the invariant.\<close>

definition removed_from :: "txid set \<Rightarrow> CTxMemPool \<Rightarrow> CTxMemPool \<Rightarrow> bool" where
  "removed_from S P P' \<longleftrightarrow> pool_keys P' = pool_keys P - S \<and> mapDeltas P' = mapDeltas P
     \<and> (\<forall>h\<in>pool_keys P - S. GetTx (entry_at P' h) = GetTx (entry_at P h)
          \<and> entryTime (entry_at P' h) = entryTime (entry_at P h) \<and> par P' h = par P h - S)"

lemma RemoveStaged_ok:
  assumes "links_ok cr P" "S \<subseteq> pool_keys P" "severable (up P) S"
  obtains P' where "RemoveStaged cr S P = Some P'" "links_ok cr P'" "removed_from S P P'"
proof -
  have f: "finite S" using assms(2) by (rule finite_in_pool)
  obtain P' where P': "remove_all_unchecked (sorted_list_of_set S) (staged P S) = Some P'" "taken_out S (staged P S) P'"
    using remove_all_unchecked_spec [of "sorted_list_of_set S" "staged P S"] assms(2) f by auto
  show thesis
    by (rule that [of P']) (use P'(1) taken_out_links_ok [OF assms P'(2)] UpdateForRemoveFromMempool_spec [OF assms(1,2)] in
        \<open>auto simp: RemoveStaged_def removed_from_def\<close>)
qed

section \<open>The walk to the descendants\<close>

text \<open>A set is closed when it holds the descendants of its members.\<close>

definition closed_down :: "CTxMemPool \<Rightarrow> txid set \<Rightarrow> bool" where
  "closed_down P S \<longleftrightarrow> (\<forall>s\<in>S. below (up P) s \<subseteq> S)"

lemma severable_closed: "closed_down P S \<Longrightarrow> severable (up P) S"
  by (simp add: closed_down_def severable_def)

lemma closed_downI:
  assumes "\<And>s c. s \<in> S \<Longrightarrow> s \<in> par P c \<Longrightarrow> c \<in> S"
  shows "closed_down P S"
proof -
  have "d \<in> S" if "(d, s) \<in> (up P)\<^sup>*" "s \<in> S" for d s
    using that by (induction rule: converse_rtrancl_induct) (use assms in \<open>auto simp: up_def\<close>)
  then show ?thesis by (auto simp: closed_down_def below_def)
qed

definition below_all :: "CTxMemPool \<Rightarrow> txid set \<Rightarrow> txid set" where
  "below_all P S = (\<Union>s\<in>S. below (up P) s)"

lemma below_all_closed: "closed_down P (below_all P S)"
  by (auto simp: closed_down_def below_all_def below_def intro: rtrancl_trans)

lemma below_all_keys: "graph_ok P \<Longrightarrow> S \<subseteq> pool_keys P \<Longrightarrow> below_all P S \<subseteq> pool_keys P"
  using below_keys by (fastforce simp: below_all_def)

lemma descendants_loop_spec:
  assumes g: "graph_ok P" and chl: "\<And>c p. c \<in> chl P p \<longleftrightarrow> p \<in> par P c"
  shows "W \<inter> S = {} \<Longrightarrow> W \<union> S \<subseteq> pool_keys P \<Longrightarrow> (\<And>s c. s \<in> S \<Longrightarrow> s \<in> par P c \<Longrightarrow> c \<in> S \<union> W) \<Longrightarrow>
    descendants_loop P W S = Some (below_all P (S \<union> W))"
proof (induction "card (pool_keys P - S)" arbitrary: W S rule: less_induct)
  case (less S W)
  note dis = less.prems(1) and sub = less.prems(2) and clo = less.prems(3)
  show ?case
  proof (cases "W = {}")
    case True
    have "closed_down P S" by (rule closed_downI) (use clo True in auto)
    then have "below_all P S = S" by (auto simp: closed_down_def below_all_def intro: bexI [of _ s for s] below_refl)
    then show ?thesis using True by (subst descendants_loop.simps) simp
  next
    case False
    have "finite W" using sub finite_in_pool [of W P] by blast
    define w where "w = Min W"
    have w: "w \<in> W" using False \<open>finite W\<close> by (simp add: w_def)
    then have wk: "w \<in> pool_keys P" "w \<notin> S" using sub dis by auto
    let ?S = "insert w S" and ?W = "W - {w} \<union> (chl P w - insert w S)"
    have step: "descendants_loop P W S = descendants_loop P ?W ?S"
      using False wk by (subst descendants_loop.simps) (simp add: w_def [symmetric] Let_def GetMemPoolChildren_eq [OF g])
    have "card (pool_keys P - ?S) < card (pool_keys P - S)" using wk by (intro psubset_card_mono) auto
    moreover have "chl P w \<subseteq> pool_keys P" using chl par_outside [OF g] by fastforce
    ultimately have "descendants_loop P ?W ?S = Some (below_all P (?S \<union> ?W))"
      using dis sub clo wk chl by (intro less.hyps) blast+
    moreover have "below_all P (?S \<union> ?W) = below_all P (S \<union> W)"
    proof -
      have "below (up P) c \<subseteq> below (up P) w" if "c \<in> chl P w" for c
        using that chl by (auto simp: below_def up_def intro: rtrancl_into_rtrancl)
      then show ?thesis using w by (auto simp: below_all_def)
    qed
    ultimately show ?thesis using step by simp
  qed
qed

lemma CalculateDescendants_closed:
  assumes "graph_ok P" "\<And>c p. c \<in> chl P p \<longleftrightarrow> p \<in> par P c" "h \<in> pool_keys P" "S \<subseteq> pool_keys P" "closed_down P S"
  shows "CalculateDescendants P h S = Some (below_all P (insert h S))"
proof -
  have c: "c \<in> S" if "s \<in> S" "s \<in> par P c" for s c
    using assms(5) that by (auto simp: closed_down_def below_def up_def intro: r_into_rtrancl)
  show ?thesis
    using descendants_loop_spec [OF assms(1,2), of "{h}" S] descendants_loop_spec [OF assms(1,2), of "{}" S] assms(3,4) c
    by (auto simp: CalculateDescendants_def insert_absorb)
qed

lemma calculate_all_spec:
  assumes "graph_ok P" "\<And>c p. c \<in> chl P p \<longleftrightarrow> p \<in> par P c" "set hs \<subseteq> pool_keys P" "S \<subseteq> pool_keys P" "closed_down P S"
  shows "calculate_all P hs S = Some (below_all P (set hs \<union> S))"
  using assms(3-5)
proof (induction hs arbitrary: S)
  case Nil
  then have "below_all P S = S" by (auto simp: closed_down_def below_all_def intro: below_refl)
  then show ?case by simp
next
  case (Cons h hs)
  have "below_all P (insert h S) \<subseteq> pool_keys P" by (rule below_all_keys [OF assms(1)]) (use Cons.prems in auto)
  then have "calculate_all P hs (below_all P (insert h S)) = Some (below_all P (set hs \<union> below_all P (insert h S)))"
    using Cons.IH Cons.prems below_all_closed by auto
  moreover have "below_all P (set hs \<union> below_all P (insert h S)) = below_all P (set (h # hs) \<union> S)"
    by (auto simp: below_all_def below_def intro: rtrancl_trans)
  ultimately show ?case using CalculateDescendants_closed [OF assms(1,2)] Cons.prems by simp
qed

lemma remove_below:
  assumes "links_ok cr P" "S \<subseteq> pool_keys P"
  obtains P' where "calculate_all P (sorted_list_of_set S) {} = Some (below_all P S)"
    "RemoveStaged cr (below_all P S) P = Some P'" "links_ok cr P'" "removed_from (below_all P S) P P'"
proof -
  note g = links_okD(1,2) [OF assms(1)]
  have "calculate_all P (sorted_list_of_set S) {} = Some (below_all P S)"
    using calculate_all_spec [OF g, of "sorted_list_of_set S" "{}"] assms(2) finite_in_pool [OF assms(2)] by (simp add: closed_down_def)
  then show thesis
    using that RemoveStaged_ok [OF assms(1) below_all_keys [OF g(1) assms(2)] severable_closed [OF below_all_closed]] by metis
qed

section \<open>Adding an entry\<close>

definition fresh_entry :: "CTxMemPoolEntry \<Rightarrow> bool" where
  "fresh_entry e \<longleftrightarrow> feeDelta e = 0 \<and> nCountWithDescendants e = 1 \<and> nSizeWithDescendants e = nTxSize e
     \<and> nModFeesWithDescendants e = nFee e"

lemma mk_CTxMemPoolEntry_fresh:
  "mk_CTxMemPoolEntry tx fee t ht b v cb so = Some e \<Longrightarrow> fresh_entry e \<and> GetTx e = tx \<and> nTxSize e = of_nat (length (ser_tx tx))"
  by (auto simp: mk_CTxMemPoolEntry_def fresh_entry_def split: option.splits if_splits)

definition inserted :: "CTxMemPool \<Rightarrow> txid \<Rightarrow> CTxMemPoolEntry \<Rightarrow> CTxMemPool" where
  "inserted P h e = P\<lparr>mapTx := (h, e) # mapTx P,
     mapLinks := (h, \<lparr>parents = pool_parents P (GetTx e), children = {}\<rparr>) # mapLinks P,
     mapNextTx := mark_spent h 0 (vin (GetTx e)) (mapNextTx P)\<rparr>"

lemma fold_UpdateParent_head:
  "mapLinks P = (h, l) # m \<Longrightarrow>
   fold (\<lambda>p P. if mempool_exists P p then UpdateParent h p True P else P) ps P =
     P\<lparr>mapLinks := (h, l\<lparr>parents := parents l \<union> (set ps \<inter> pool_keys P)\<rparr>) # m\<rparr>"
proof (induction ps arbitrary: P l)
  case (Cons p ps)
  show ?case
  proof (cases "p \<in> pool_keys P")
    case True
    let ?P = "UpdateParent h p True P"
    have l: "mapLinks ?P = (h, l\<lparr>parents := insert p (parents l)\<rparr>) # m" and k: "pool_keys ?P = pool_keys P"
      using Cons.prems by (simp_all add: UpdateParent_def links_at_def Let_def pool_keys_def)
    have upd: "?P\<lparr>mapLinks := Z\<rparr> = P\<lparr>mapLinks := Z\<rparr>" for Z by (simp add: UpdateParent_def Let_def)
    have "fold (\<lambda>p P. if mempool_exists P p then UpdateParent h p True P else P) ps ?P =
        ?P\<lparr>mapLinks := (h, l\<lparr>parents := parents l \<union> (set (p # ps) \<inter> pool_keys P)\<rparr>) # m\<rparr>"
      using Cons.IH [OF l] k True by (simp add: insert_commute Int_insert_left)
    then show ?thesis using True upd by simp
  qed (use Cons in simp)
qed simp

lemma addUnchecked_eq:
  assumes "graph_ok P" "tx_GetHash cr (GetTx e) = h" "h \<notin> pool_keys P" "feeDelta e = 0"
    and "h \<notin> (\<lambda>i. outHash (prevout i)) ` set (vin (GetTx e))"
  shows "addUnchecked cr h e A P =
    (case UpdateAncestorsOf True h A (inserted P h (UpdateFeeDelta (delta_of P h) e)) of
       None \<Rightarrow> None
     | Some P' \<Rightarrow> Some (P'\<lparr>nTransactionsUpdated := nTransactionsUpdated P' + 1, totalTxSize := totalTxSize P' + nTxSize e\<rparr>))"
proof -
  let ?e = "UpdateFeeDelta (delta_of P h) e"
  have none: "map_of (mapTx P) h = None" "map_of (mapLinks P) h = None"
    using assms(1,3) by (simp_all add: map_of_mapTx map_of_mapLinks)
  have tx: "GetTx ?e = GetTx e" by (simp add: UpdateFeeDelta_def)
  have zero: "UpdateFeeDelta 0 e = e" using assms(4) by (simp add: UpdateFeeDelta_def)
  let ?P0 = "P\<lparr>mapTx := (h, e) # mapTx P, mapLinks := (h, \<lparr>parents = {}, children = {}\<rparr>) # mapLinks P\<rparr>"
  have ins: "add_entry h e P = ?P0" using none by (simp add: add_entry_def)
  have comm: "P\<lparr>mapLinks := a, mapTx := b\<rparr> = P\<lparr>mapTx := b, mapLinks := a\<rparr>" for a b by simp
  let ?P1 = "P\<lparr>mapTx := (h, ?e) # mapTx P, mapLinks := (h, \<lparr>parents = {}, children = {}\<rparr>) # mapLinks P, mapNextTx := mark_spent h 0 (vin (GetTx e)) (mapNextTx P)\<rparr>"
  let ?ps = "sorted_list_of_set (set (map (\<lambda>i. outHash (prevout i)) (vin (GetTx e))))"
  have "set ?ps \<inter> pool_keys ?P1 = pool_parents P (GetTx e)"
    using assms(5) by (auto simp: pool_parents_def pool_keys_def)
  then have "fold (\<lambda>p P. if mempool_exists P p then UpdateParent h p True P else P) ?ps ?P1 = inserted P h ?e"
    using fold_UpdateParent_head [of ?P1 h "\<lparr>parents = {}, children = {}\<rparr>" "mapLinks P" ?ps] tx by (simp add: inserted_def)
  then show ?thesis using tx zero
    by (cases "map_of (mapDeltas P) h") (auto simp: addUnchecked_def Let_def assms(2) ins delta_of_def comm)
qed

lemma mark_spent_iff:
  assumes "distinct (map prevout is)"
  shows "map_of (mark_spent h i is m) p = Some q \<longleftrightarrow>
    (p \<notin> prevout ` set is \<and> map_of m p = Some q) \<or> (\<exists>j<length is. prevout (is ! j) = p \<and> q = \<lparr>ptx = h, inN = i + j\<rparr>)"
  using assms
proof (induction "is" arbitrary: i m)
  case (Cons x "is")
  have shift: "(\<exists>j<Suc (length is). prevout ((x # is) ! j) = p \<and> q = \<lparr>ptx = h, inN = i + j\<rparr>)
      \<longleftrightarrow> (prevout x = p \<and> q = \<lparr>ptx = h, inN = i\<rparr>) \<or> (\<exists>j<length is. prevout (is ! j) = p \<and> q = \<lparr>ptx = h, inN = Suc i + j\<rparr>)"
    by (auto simp: less_Suc_eq_0_disj)
  have "p \<noteq> prevout x" if "p \<in> prevout ` set is" using that Cons.prems by (metis distinct.simps(2) list.map(2) list.set_map)
  then show ?case using Cons by (auto simp: update_conv' shift)
qed simp

lemma inserted_facts:
  assumes "graph_ok P" "h \<notin> pool_keys P" "h \<notin> (\<lambda>i. outHash (prevout i)) ` set (vin (GetTx e))"
  shows "pool_keys (inserted P h e) = insert h (pool_keys P)"
    "entry_at (inserted P h e) k = (if k = h then e else entry_at P k)"
    "par (inserted P h e) k = (if k = h then pool_parents P (GetTx e) else par P k)"
    "chl (inserted P h e) k = (if k = h then {} else chl P k)"
    "up (inserted P h e) = up P \<union> {h} \<times> pool_parents P (GetTx e)"
    "graph_ok (inserted P h e)"
proof -
  let ?I = "inserted P h e"
  show k: "pool_keys ?I = insert h (pool_keys P)" by (simp add: inserted_def pool_keys_def)
  show "entry_at ?I k = (if k = h then e else entry_at P k)" for k by (simp add: inserted_def entry_at_def)
  have l: "links_at ?I k = (if k = h then \<lparr>parents = pool_parents P (GetTx e), children = {}\<rparr> else links_at P k)" for k
    by (simp add: inserted_def links_at_def)
  show p: "par ?I k = (if k = h then pool_parents P (GetTx e) else par P k)" for k by (simp add: par_def l)
  show "chl ?I k = (if k = h then {} else chl P k)" for k by (simp add: chl_def l)
  show "up ?I = up P \<union> {h} \<times> pool_parents P (GetTx e)" using par_outside [OF assms(1,2)] by (auto simp: up_def p split: if_splits)
  have "h \<notin> set (map fst (mapLinks P))" using assms(1,2) unfolding graph_ok_def by blast
  moreover have "par ?I k \<subseteq> pool_keys ?I" for k using par_keys [OF assms(1)] by (auto simp: p k pool_parents_def)
  ultimately show "graph_ok ?I" using assms(1,2) k unfolding graph_ok_def by (auto simp: inserted_def pool_keys_def)
qed

definition addable :: "crypto \<Rightarrow> CTxMemPool \<Rightarrow> CTxMemPoolEntry \<Rightarrow> bool" where
  "addable cr P e \<longleftrightarrow> fresh_entry e \<and> tx_GetHash cr (GetTx e) \<notin> pool_keys P
     \<and> tx_GetHash cr (GetTx e) \<notin> (\<lambda>i. outHash (prevout i)) ` set (vin (GetTx e))
     \<and> nTxSize e \<noteq> 0 \<and> (\<Sum>h\<in>pool_keys P. unat (tx_size P h)) + unat (nTxSize e) < 2 ^ 63
     \<and> distinct (map prevout (vin (GetTx e))) \<and> (\<forall>i\<in>set (vin (GetTx e)). \<not> isSpent P (prevout i))"

lemma inserted_spends:
  assumes "spends_ok P" "h \<notin> pool_keys P" "distinct (map prevout (vin (GetTx e)))"
    "\<forall>i\<in>set (vin (GetTx e)). \<not> isSpent P (prevout i)" "graph_ok P" "h \<notin> (\<lambda>i. outHash (prevout i)) ` set (vin (GetTx e))"
  shows "spends_ok (inserted P h e)"
  unfolding spends_ok_def
proof (intro allI)
  fix p q
  note i = inserted_facts [OF assms(5,2,6)]
  have m: "map_of (mapNextTx (inserted P h e)) p = Some q \<longleftrightarrow> (p \<notin> prevout ` set (vin (GetTx e)) \<and> map_of (mapNextTx P) p = Some q)
      \<or> (\<exists>j<length (vin (GetTx e)). prevout (vin (GetTx e) ! j) = p \<and> q = \<lparr>ptx = h, inN = j\<rparr>)"
    using mark_spent_iff [OF assms(3), of h 0 "mapNextTx P" p q] by (simp add: inserted_def)
  have old: "map_of (mapNextTx P) p = Some q \<longleftrightarrow> ptx q \<in> pool_keys P \<and> inN q < length (vin (GetTx (entry_at P (ptx q))))
      \<and> prevout (vin (GetTx (entry_at P (ptx q))) ! inN q) = p" using assms(1) by (simp add: spends_ok_def)
  have free: "map_of (mapNextTx P) p \<noteq> Some q" if "p \<in> prevout ` set (vin (GetTx e))" using that assms(4) by (auto simp: isSpent_def)
  show "map_of (mapNextTx (inserted P h e)) p = Some q \<longleftrightarrow> ptx q \<in> pool_keys (inserted P h e)
      \<and> inN q < length (vin (GetTx (entry_at (inserted P h e) (ptx q)))) \<and> prevout (vin (GetTx (entry_at (inserted P h e) (ptx q))) ! inN q) = p"
  proof (cases "ptx q = h")
    case True
    then have "q = \<lparr>ptx = h, inN = inN q\<rparr>" by simp
    then show ?thesis using True m old assms(2) i by (metis CInPoint.select_convs(2) insertI1)
  next
    case False
    then show ?thesis using m old free i by auto
  qed
qed

lemma addUnchecked_links_ok:
  assumes P: "links_ok cr P" and a: "addable cr P e" and h: "h = tx_GetHash cr (GetTx e)"
  defines "Q \<equiv> pool_parents P (GetTx e)"
  obtains P' where "addUnchecked cr h e ((up P)\<^sup>* `` Q) P = Some P'" "links_ok cr P'" "pool_keys P' = insert h (pool_keys P)"
    "\<And>k. par P' k = (if k = h then Q else par P k)"
    "GetTx (entry_at P' h) = GetTx e" "\<And>k. k \<in> pool_keys P \<Longrightarrow> GetTx (entry_at P' k) = GetTx (entry_at P k)"
proof -
  note g = links_okD(1) [OF P]
  have a': "fresh_entry e" "h \<notin> pool_keys P" "h \<notin> (\<lambda>i. outHash (prevout i)) ` set (vin (GetTx e))" using a h by (auto simp: addable_def)
  define e' where "e' = UpdateFeeDelta (delta_of P h) e"
  have e': "GetTx e' = GetTx e" "nTxSize e' = nTxSize e" "feeDelta e' = delta_of P h" "nCountWithDescendants e' = 1"
    "nSizeWithDescendants e' = nTxSize e'" "nModFeesWithDescendants e' = GetModifiedFee e'"
    using a'(1) by (simp_all add: e'_def UpdateFeeDelta_def fresh_entry_def GetModifiedFee_def)
  define I where "I = inserted P h e'"
  note i = inserted_facts [OF g a'(2), of e', unfolded e'(1), OF a'(3), folded I_def Q_def]
  let ?A = "(up P)\<^sup>* `` Q"
  have Q: "Q \<subseteq> pool_keys P" by (simp add: Q_def pool_parents_def)
  have A: "?A \<subseteq> pool_keys P" by (rule up_keys [OF g Q])
  have hF: "h \<notin> Field (up P)" "h \<notin> Q" using up_Field [OF g] Q a'(2) by auto
  have small: "pool_small I"
  proof -
    have "(\<Sum>k\<in>pool_keys P. unat (tx_size I k)) = (\<Sum>k\<in>pool_keys P. unat (tx_size P k))" using a'(2) i(2) by (auto intro!: sum.cong)
    then show ?thesis using a links_okD(4) [OF P] a'(2) e'(2) i(1,2) by (auto simp: pool_small_def addable_def)
  qed
  have size: "tx_size I k = tx_size P k" "mod_fee I k = mod_fee P k" if "k \<in> pool_keys P" for k using that a'(2) i(2) by auto
  have sums: "(\<Sum>d\<in>Y. tx_size I d) = (\<Sum>d\<in>Y. tx_size P d)" "(\<Sum>d\<in>Y. mod_fee I d) = (\<Sum>d\<in>Y. mod_fee P d)" if "Y \<subseteq> pool_keys P" for Y
    using that size by (auto intro!: sum.cong)
  have bel: "below (up P) k \<subseteq> pool_keys P" "h \<notin> below (up P) k" if "k \<in> pool_keys P" for k using below_keys [OF g that] a'(2) by auto
  have wt: "with_totals I Y x = with_totals P Y x" if "Y \<subseteq> pool_keys P" for Y x using sums [OF that] by (simp add: with_totals_def)
  define L where "L = map_links (\<lambda>k l. if k \<in> Q then l\<lparr>children := insert h (children l)\<rparr> else l) I"
  define gg where "gg = (\<lambda>k. with_totals I (insert h (below (up P) k)))"
  let ?f = "UpdateState (of_int 1 * nTxSize e') (1 * GetModifiedFee e') (of_int 1)"
  have upd: "?f (entry_at L k) = Some (gg k (entry_at L k))" if k: "k \<in> ?A" for k
  proof -
    have kP: "k \<in> pool_keys P" "k \<noteq> h" using k A a'(2) by auto
    note clean = links_ok_clean [OF P kP(1)]
    have eL: "entry_at L k = entry_at P k" using kP i(2) [of k] by (simp add: L_def)
    have "entry_at P k = with_totals P (below (up P) k) (entry_at P k)" using links_okD(6) [OF P kP(1)] by (simp add: totals_ok_def)
    then have w: "entry_at P k = with_totals I (below (up P) k) (entry_at P k)" using wt [OF bel(1) [OF kP(1)]] by simp
    have "?f (entry_at P k) = Some (with_totals I (insert h (below (up P) k)) (entry_at P k))"
      by (rule UpdateState_totals [OF small _ _ clean w])
        (use bel [OF kP(1)] finite_in_pool [OF bel(1) [OF kP(1)]] i(1) i(2) [of h] in auto)
    then show ?thesis by (simp add: eL gg_def)
  qed
  define P5 where "P5 = map_entries (\<lambda>k e. if k \<in> ?A then gg k e else e) L"
  have mod: "modify_all ?f (sorted_list_of_set ?A) L = Some P5"
    unfolding P5_def using modify_all_spec [of L "sorted_list_of_set ?A" ?f gg] upd A finite_in_pool [OF A] i(1,6) by (auto simp: L_def graph_ok_def)
  have kids: "fold (\<lambda>p. UpdateChild p h True) (sorted_list_of_set Q) I = L"
    using fold_UpdateChild [OF i(6), of "sorted_list_of_set Q" h True] finite_in_pool [OF Q] Q i(1) by (simp add: L_def cong: if_cong) blast
  have ua: "UpdateAncestorsOf True h ?A I = Some P5"
    using mod kids i by (simp add: UpdateAncestorsOf_def GetMemPoolParents_eq map_of_mapTx Let_def)
  define P' where "P' = P5\<lparr>nTransactionsUpdated := nTransactionsUpdated P5 + 1, totalTxSize := totalTxSize P5 + nTxSize e\<rparr>"
  have run: "addUnchecked cr h e ?A P = Some P'"
    using addUnchecked_eq [OF g h [symmetric] a'(2) _ a'(3), of ?A] ua a'(1) by (simp add: fresh_entry_def e'_def I_def P'_def)
  have keys: "pool_keys P' = insert h (pool_keys P)" 
  proof -
    have "pool_keys P' = pool_keys P5" by (simp add: P'_def pool_keys_def)
    then show ?thesis by (simp add: P5_def L_def i(1))
  qed
  have ent: "entry_at P' k = (if k \<in> ?A then gg k (entry_at P k) else if k = h then e' else entry_at P k)" if "k \<in> pool_keys P'" for k
  proof -
    have "entry_at P' k = entry_at P5 k" by (simp add: P'_def entry_at_def)
    also have "\<dots> = (if k \<in> ?A then gg k (entry_at I k) else entry_at I k)" using that keys i(1) by (simp add: P5_def L_def)
    finally show ?thesis using i(2) A a'(2) by auto
  qed
  have same: "GetTx (entry_at P' k) = GetTx (entry_at I k)" "tx_size P' k = tx_size I k" "mod_fee P' k = mod_fee I k"
    "feeDelta (entry_at P' k) = feeDelta (entry_at I k)" if "k \<in> pool_keys P'" for k
    using ent [OF that] i(2) [of k] A a'(2) by (auto simp: gg_def)
  have lk: "links_at P' k = links_at L k" for k by (simp add: P'_def P5_def links_at_def)
  have par: "par P' k = (if k = h then Q else par P k)" for k
  proof (cases "k \<in> pool_keys I")
    case True
    then have "par P' k = par I k" using i(6) by (simp add: par_def lk L_def)
    then show ?thesis using i(3) [of k] by simp
  next
    case False
    then show ?thesis using i(1,6) links_at_outside [OF g, of k] by (simp add: par_def lk L_def)
  qed
  have chl: "chl P' k = (if k \<in> Q then insert h (chl P k) else if k = h then {} else chl P k)" for k
  proof (cases "k \<in> pool_keys I")
    case True
    then have "chl P' k = (if k \<in> Q then insert h (chl I k) else chl I k)" using i(6) by (simp add: chl_def lk L_def)
    then show ?thesis using i(4) [of k] hF by auto
  next
    case False
    then show ?thesis using i(1,6) Q links_at_outside [OF g, of k] by (auto simp: chl_def lk L_def)
  qed
  have up: "up P' = up P \<union> {h} \<times> Q" using par_outside [OF g a'(2)] by (auto simp: up_def par split: if_splits)
  show thesis
  proof (rule that [OF run _ keys par])
    show "GetTx (entry_at P' h) = GetTx e" using same(1) [of h] keys i(2) e'(1) by simp
    show "GetTx (entry_at P' k) = GetTx (entry_at P k)" if "k \<in> pool_keys P" for k
      using same(1) [of k] that keys i(2) a'(2) by auto
    show "links_ok cr P'"
      unfolding links_ok_def
    proof (intro conjI ballI)
      show "graph_ok P'"
      proof -
        have "distinct (map fst (mapTx P'))" "map fst (mapLinks P') = map fst (mapLinks I)"
          using i(6) by (simp_all add: P'_def P5_def L_def graph_ok_def)
        moreover have "par P' k \<subseteq> pool_keys P'" for k using par_keys [OF g, of k] Q keys by (auto simp: par)
        ultimately show ?thesis using i(1,6) keys unfolding graph_ok_def by auto
      qed
      show "\<forall>p c. c \<in> chl P' p \<longleftrightarrow> p \<in> par P' c"
      proof -
        have "h \<notin> par P c" for c using par_keys [OF g, of c] a'(2) by blast
        then show ?thesis using links_okD(2) [OF P] hF par_outside [OF g a'(2)] by (auto simp: par chl)
      qed
      show "acyclic (up P')" unfolding up by (rule acyclic_add [OF links_okD(3) [OF P] hF])
      show "pool_small P'" using small same(2) keys i(1) by (simp add: pool_small_def)
      show "totalTxSize P' = (\<Sum>k\<in>pool_keys P'. tx_size P' k)"
      proof -
        have "totalTxSize P' = (\<Sum>k\<in>pool_keys P. tx_size P k) + nTxSize e"
          using links_okD(8) [OF P] by (simp add: P'_def P5_def L_def I_def inserted_def)
        also have "\<dots> = (\<Sum>k\<in>pool_keys I. tx_size I k)" using sums(1) [of "pool_keys P"] i(1) i(2) [of h] a'(2) e'(2) by simp
        finally show ?thesis using same(2) keys i(1) by simp
      qed
      show "spends_ok P'"
      proof -
        have "spends_ok I" unfolding I_def
          by (rule inserted_spends) (use links_okD(7) [OF P] a'(2,3) e'(1) a g in \<open>auto simp: addable_def\<close>)
        moreover have "mapNextTx P' = mapNextTx I" by (simp add: P'_def P5_def L_def)
        ultimately show ?thesis using same(1) keys i(1) by (auto simp: spends_ok_def)
      qed
      fix k assume k: "k \<in> pool_keys P'"
      show "entry_ok cr P' k"
      proof (cases "k = h")
        case True
        have "mapDeltas P' = mapDeltas P" by (simp add: P'_def P5_def L_def I_def inserted_def)
        then have "delta_of P' h = delta_of P h" by (simp add: delta_of_def)
        moreover have "Q \<subseteq> pool_parents P' (GetTx e)" using keys by (auto simp: Q_def pool_parents_def)
        moreover have "GetTx (entry_at P' h) = GetTx e" "feeDelta (entry_at P' h) = delta_of P h"
          using same(1,4) [OF k] True i(2) [of h] e'(1,3) by simp_all
        ultimately show ?thesis using True h by (simp add: entry_ok_def par)
      next
        case False
        then have "k \<in> pool_keys P" using k keys by auto
        moreover have "mapDeltas P' = mapDeltas P" by (simp add: P'_def P5_def L_def I_def inserted_def)
        ultimately show ?thesis using links_okD(5) [OF P, of k] same [OF k] i(2) [of k] False keys
          by (auto simp: entry_ok_def par delta_of_def pool_parents_def)
      qed
      have wt': "with_totals P' Y x = with_totals I Y x" if "Y \<subseteq> pool_keys P'" for Y x
      proof -
        have "(\<Sum>d\<in>Y. tx_size P' d) = (\<Sum>d\<in>Y. tx_size I d)" "(\<Sum>d\<in>Y. mod_fee P' d) = (\<Sum>d\<in>Y. mod_fee I d)"
          using that same(2,3) by (auto intro!: sum.cong)
        then show ?thesis by (simp add: with_totals_def)
      qed
      show "totals_ok P' k"
      proof (cases "k = h")
        case True
        have eh: "entry_at P' h = e'" using ent [of h] A a'(2) keys by auto
        have "e' = with_totals P' {h} e'" using e' eh by (simp add: with_totals_def)
        then show ?thesis using True e' eh below_add(2) [OF hF] by (simp add: totals_ok_def up)
      next
        case False
        then have kP: "k \<in> pool_keys P" using k keys by auto
        have Y: "below (up P') k = below (up P) k \<union> (if k \<in> ?A then {h} else {})" unfolding up by (rule below_add(1) [OF hF False])
        have sub: "below (up P') k \<subseteq> pool_keys P'" "k \<in> below (up P') k" using bel(1) [OF kP] keys Y by auto
        note t = links_okD(6) [OF P kP, unfolded totals_ok_def]
        have "entry_at P' k = with_totals I (below (up P') k) (entry_at P k)"
          using ent [OF k] False t wt [OF bel(1) [OF kP]] Y by (auto simp: gg_def)
        then show ?thesis using wt' [OF sub(1)] by (simp add: totals_ok_def)
      qed
    qed
  qed
qed

section \<open>Changing a fee\<close>

lemma mapDeltas_update_simps [simp]:
  "pool_keys (P\<lparr>mapDeltas := m\<rparr>) = pool_keys P" "entry_at (P\<lparr>mapDeltas := m\<rparr>) = entry_at P"
  by (simp_all add: pool_keys_def entry_at_def fun_eq_iff)

lemma PrioritiseTransaction_eq:
  "PrioritiseTransaction cr h d P =
    (let P1 = P\<lparr>mapDeltas := AList.update h (delta_of P h + d) (mapDeltas P)\<rparr> in
     if h \<notin> pool_keys P then Some P1
     else let e = UpdateFeeDelta (delta_of P h + d) (entry_at P h); P2 = P1\<lparr>mapTx := AList.update h e (mapTx P1)\<rparr>
          in case CalculateMemPoolAncestors cr P2 e nNoLimit False of
               None \<Rightarrow> None
             | Some (err, A) \<Rightarrow> modify_all (UpdateState 0 d 0) (sorted_list_of_set A) P2)"
  by (simp add: PrioritiseTransaction_def delta_of_def Let_def map_of_mapTx)

lemma PrioritiseTransaction_links_ok:
  assumes P: "links_ok cr P"
  obtains P' where "PrioritiseTransaction cr h d P = Some P'" "links_ok cr P'" "pool_keys P' = pool_keys P" "par P' = par P"
    "\<And>k. k \<in> pool_keys P \<Longrightarrow> GetTx (entry_at P' k) = GetTx (entry_at P k)"
proof -
  note g = links_okD(1) [OF P] and sm = links_okD(4) [OF P]
  define P1 where "P1 = P\<lparr>mapDeltas := AList.update h (delta_of P h + d) (mapDeltas P)\<rparr>"
  have P1: "pool_keys P1 = pool_keys P" "entry_at P1 = entry_at P" "links_at P1 = links_at P" "par P1 = par P" "chl P1 = chl P" "up P1 = up P"
    "mapTx P1 = mapTx P" "mapLinks P1 = mapLinks P" "mapNextTx P1 = mapNextTx P" "totalTxSize P1 = totalTxSize P"
    by (simp_all add: P1_def pool_keys_def entry_at_def links_at_def par_def chl_def up_def fun_eq_iff)
  have delta: "delta_of P1 k = (if k = h then delta_of P h + d else delta_of P k)" for k
    by (simp add: P1_def delta_of_def update_conv')
  show thesis
  proof (cases "h \<in> pool_keys P")
    case False
    have run: "PrioritiseTransaction cr h d P = Some P1"
      using False by (simp add: PrioritiseTransaction_eq Let_def P1_def)
    have "links_ok cr P1"
      using P False unfolding links_ok_def graph_ok_def entry_ok_def totals_ok_def pool_small_def spends_ok_def pool_parents_def with_totals_def
      by (auto simp: P1 delta)
    then show thesis using that [OF run] P1 by simp
  next
    case True
    let ?A = "(up P)\<^sup>* `` par P h"
    have A: "?A \<subseteq> pool_keys P" using up_keys [OF g par_keys [OF g]] .
    have anc: "a \<in> ?A \<longleftrightarrow> (h, a) \<in> (up P)\<^sup>+" for a by (auto simp: up_def trancl_unfold_left relcomp_unfold)
    have ne: "h \<notin> ?A" using links_okD(3) [OF P] anc by (simp add: acyclic_def)
    have bel: "h \<in> below (up P) k \<longleftrightarrow> k \<in> ?A \<or> k = h" for k using anc by (auto simp: below_def rtrancl_eq_or_trancl)
    define e' where "e' = UpdateFeeDelta (delta_of P h + d) (entry_at P h)"
    define P2 where "P2 = map_entries (\<lambda>k e. if k = h then UpdateFeeDelta (delta_of P h + d) e else e) P1"
    have g1: "graph_ok P1" using g by (simp add: graph_ok_def P1)
    have "map_of (mapTx P1) h = Some (entry_at P h)" using True by (simp add: map_of_mapTx P1)
    then have p2: "P1\<lparr>mapTx := AList.update h e' (mapTx P1)\<rparr> = P2"
      using update_as_map [of "mapTx P1" h "entry_at P h" "UpdateFeeDelta (delta_of P h + d)"] g1
      by (simp add: P2_def map_entries_def e'_def graph_ok_def)
    have g2: "graph_ok P2" using g1 by (simp add: graph_ok_def P2_def)
    have "tx_GetHash cr (GetTx e') = h" using links_okD(5) [OF P True] by (simp add: entry_ok_def e'_def UpdateFeeDelta_def)
    then have walk: "CalculateMemPoolAncestors cr P2 e' nNoLimit False = Some (None, ?A)"
      using ancestors_nolimit [OF g2, of h cr e'] True by (simp add: P2_def P1)
    define gg where "gg = (\<lambda>(k :: txid) e. e\<lparr>nModFeesWithDescendants := nModFeesWithDescendants (e :: CTxMemPoolEntry) + d\<rparr>)"
    have upd: "UpdateState 0 d 0 (entry_at P2 k) = Some (gg k (entry_at P2 k))" if k: "k \<in> ?A" for k
    proof -
      have kP: "k \<in> pool_keys P" "k \<noteq> h" using k A ne by auto
      have e: "entry_at P2 k = entry_at P k" using kP by (simp add: P2_def P1)
      let ?Y = "below (up P) k"
      have "entry_at P k = with_totals P ?Y (entry_at P k)" using links_okD(6) [OF P kP(1)] by (simp add: totals_ok_def)
      note with_totals_eq_iff [THEN iffD1, OF this]
      then show ?thesis using totals_positive [OF sm below_keys [OF g kP(1)] below_ne] links_ok_clean [OF P kP(1)]
        by (auto simp: e UpdateState_def Let_def gg_def)
    qed
    define P' where "P' = map_entries (\<lambda>k e. if k \<in> ?A then gg k e else e) P2"
    have mod: "modify_all (UpdateState 0 d 0) (sorted_list_of_set ?A) P2 = Some P'"
      unfolding P'_def using modify_all_spec [of P2 "sorted_list_of_set ?A" "UpdateState 0 d 0" gg] upd A finite_in_pool [OF A] g2
      by (auto simp: graph_ok_def P2_def P1)
    have run: "PrioritiseTransaction cr h d P = Some P'"
      using True walk mod p2 by (simp add: PrioritiseTransaction_eq Let_def P1_def [symmetric] e'_def [symmetric])
    have P': "pool_keys P' = pool_keys P" "par P' = par P" "chl P' = chl P" "up P' = up P" "mapDeltas P' = mapDeltas P1"
      "totalTxSize P' = totalTxSize P" "mapNextTx P' = mapNextTx P" by (simp_all add: P'_def P2_def P1)
    have ent: "entry_at P' k = (if k \<in> ?A then gg k (entry_at P k) else if k = h then e' else entry_at P k)" if "k \<in> pool_keys P" for k
      using that ne by (auto simp: P'_def P2_def P1 e'_def)
    have fee: "mod_fee P' k = mod_fee P k + (if k = h then d else 0)" "GetTx (entry_at P' k) = GetTx (entry_at P k)" "tx_size P' k = tx_size P k"
      "feeDelta (entry_at P' k) = (if k = h then delta_of P h + d else delta_of P k)" if k: "k \<in> pool_keys P" for k
      using ent [OF k] links_okD(5) [OF P k] ne by (auto simp: gg_def e'_def UpdateFeeDelta_def GetModifiedFee_def entry_ok_def)
    have sums: "(\<Sum>x\<in>Y. mod_fee P' x) = (\<Sum>x\<in>Y. mod_fee P x) + (if h \<in> Y then d else 0)" "(\<Sum>x\<in>Y. tx_size P' x) = (\<Sum>x\<in>Y. tx_size P x)"
      if Y: "Y \<subseteq> pool_keys P" for Y
    proof -
      have "(\<Sum>x\<in>Y. mod_fee P' x) = (\<Sum>x\<in>Y. mod_fee P x + (if x = h then d else 0))" using Y fee(1) by (intro sum.cong) auto
      then show "(\<Sum>x\<in>Y. mod_fee P' x) = (\<Sum>x\<in>Y. mod_fee P x) + (if h \<in> Y then d else 0)"
        using finite_in_pool [OF Y] by (simp add: sum.distrib sum.delta)
      show "(\<Sum>x\<in>Y. tx_size P' x) = (\<Sum>x\<in>Y. tx_size P x)" using Y fee(3) by (intro sum.cong) auto
    qed
    have tot: "totals_ok P' k" if k: "k \<in> pool_keys P" for k
    proof -
      note t = links_okD(6) [OF P k, unfolded totals_ok_def with_totals_eq_iff] and b = below_keys [OF g k]
      have fd: "feeDelta (entry_at P k) = delta_of P k" using links_okD(5) [OF P k] by (simp add: entry_ok_def)
      show ?thesis unfolding totals_ok_def with_totals_eq_iff P'(4) sums [OF b] using t ent [OF k] fd bel [of k] ne
        by (auto simp: gg_def e'_def UpdateFeeDelta_def)
    qed
    have "links_ok cr P'"
      unfolding links_ok_def
    proof (intro conjI ballI)
      show "graph_ok P'" using g2 by (simp add: graph_ok_def P'_def)
      show "\<forall>p c. c \<in> chl P' p \<longleftrightarrow> p \<in> par P' c" using links_okD(2) [OF P] P' by simp
      show "acyclic (up P')" "pool_small P'" "totalTxSize P' = (\<Sum>h\<in>pool_keys P'. tx_size P' h)" "spends_ok P'"
        using links_okD(3,4,7,8) [OF P] fee(2,3) sums(2) [of "pool_keys P"] by (auto simp: P' pool_small_def spends_ok_def)
      fix k assume "k \<in> pool_keys P'"
      then have k: "k \<in> pool_keys P" by (simp add: P')
      then show "totals_ok P' k" by (rule tot)
      have "delta_of P' k = delta_of P1 k" by (simp add: delta_of_def P')
      then show "entry_ok cr P' k" using links_okD(5) [OF P k] fee(2,4) [OF k] delta by (simp add: entry_ok_def P' pool_parents_def)
    qed
    then show thesis by (rule that [OF run]) (use P' fee(2) in auto)
  qed
qed

section \<open>Consistent pools\<close>

text \<open>Outside a reorganisation the links are exactly the spending relation.\<close>

definition pool_ok :: "crypto \<Rightarrow> CTxMemPool \<Rightarrow> bool" where
  "pool_ok cr P \<longleftrightarrow> links_ok cr P \<and> (\<forall>h\<in>pool_keys P. par P h = pool_parents P (GetTx (entry_at P h)))"

lemma pool_okD: "pool_ok cr P \<Longrightarrow> links_ok cr P"
  by (simp add: pool_ok_def)

text \<open>What is left of a pool after removals.\<close>

definition subpool :: "CTxMemPool \<Rightarrow> CTxMemPool \<Rightarrow> bool" where
  "subpool P' P \<longleftrightarrow> pool_keys P' \<subseteq> pool_keys P \<and> (\<forall>h\<in>pool_keys P'. GetTx (entry_at P' h) = GetTx (entry_at P h)
     \<and> entryTime (entry_at P' h) = entryTime (entry_at P h))"

lemma subpool_refl [simp]: "subpool P P"
  by (simp add: subpool_def)

lemma subpool_trans: "subpool P2 P1 \<Longrightarrow> subpool P1 P \<Longrightarrow> subpool P2 P"
  by (auto simp: subpool_def)

lemma removed_subpool: "removed_from S P P' \<Longrightarrow> subpool P' P"
  by (auto simp: removed_from_def subpool_def)

lemma removed_pool_ok:
  assumes "pool_ok cr P" "links_ok cr P'" "removed_from S P P'"
  shows "pool_ok cr P'"
  using assms by (auto simp: pool_ok_def removed_from_def pool_parents_def)

lemma spender_iff:
  assumes "pool_ok cr P"
  shows "map_of (mapNextTx P) p = Some q \<longleftrightarrow> ptx q \<in> pool_keys P \<and> inN q < length (vin (GetTx (entry_at P (ptx q))))
     \<and> prevout (vin (GetTx (entry_at P (ptx q))) ! inN q) = p"
  using assms by (simp add: pool_ok_def links_ok_def spends_ok_def)

lemma subpool_spent:
  assumes "pool_ok cr P" "pool_ok cr P'" "subpool P' P" "map_of (mapNextTx P') p = Some q"
  shows "map_of (mapNextTx P) p = Some q"
proof -
  have q: "ptx q \<in> pool_keys P'" "inN q < length (vin (GetTx (entry_at P' (ptx q))))" "prevout (vin (GetTx (entry_at P' (ptx q))) ! inN q) = p"
    using assms(4) spender_iff [OF assms(2)] by blast+
  have "ptx q \<in> pool_keys P" "GetTx (entry_at P' (ptx q)) = GetTx (entry_at P (ptx q))" using assms(3) q(1) by (auto simp: subpool_def)
  then show ?thesis unfolding spender_iff [OF assms(1)] using q by simp
qed

lemma spenders_ok:
  assumes P: "pool_ok cr P" and "acc \<subseteq> pool_keys P"
  shows "\<exists>S. spenders P h i k acc = Some S \<and> S \<subseteq> pool_keys P"
  using assms(2) by (induction k arbitrary: i acc) (auto simp: spender_iff [OF P] split: option.splits)

lemma remove_recursive_ok:
  assumes P: "pool_ok cr P"
  obtains txs P' where "mempool_remove cr tx True P = Some (txs, P')" "pool_ok cr P'" "subpool P' P" "tx_GetHash cr tx \<notin> pool_keys P'"
proof -
  let ?h = "tx_GetHash cr tx"
  obtain S where S: "(if ?h \<in> pool_keys P then Some {?h} else spenders P ?h 0 (length (vout tx)) {}) = Some S" "S \<subseteq> pool_keys P"
    "?h \<in> pool_keys P \<longrightarrow> ?h \<in> S"
  proof (cases "?h \<in> pool_keys P")
    case False
    then show ?thesis using that spenders_ok [OF P, of "{}" ?h 0 "length (vout tx)"] by auto
  qed (use that [of "{?h}"] in auto)
  obtain P' where r: "calculate_all P (sorted_list_of_set S) {} = Some (below_all P S)"
    "RemoveStaged cr (below_all P S) P = Some P'" "links_ok cr P'" "removed_from (below_all P S) P P'"
    using remove_below [OF pool_okD [OF P] S(2)] by blast
  have "S \<subseteq> below_all P S" by (auto simp: below_all_def)
  then have "?h \<notin> pool_keys P'" using S(3) r(4) by (auto simp: removed_from_def)
  moreover have "\<exists>txs. mempool_remove cr tx True P = Some (txs, P')" 
    using S(1) r(1,2) by (cases "?h \<in> pool_keys P") (auto simp: mempool_remove_def Let_def simp del: calculate_all.simps)
  ultimately show thesis using that [OF _ removed_pool_ok [OF P r(3,4)] removed_subpool [OF r(4)]] by blast
qed

text \<open>A transaction of a block is taken out alone; its parents in the pool must have been taken out before.\<close>

lemma remove_single_ok:
  assumes P: "pool_ok cr P" and top: "tx_GetHash cr tx \<in> pool_keys P \<Longrightarrow> pool_parents P (GetTx (entry_at P (tx_GetHash cr tx))) = {}"
  obtains txs P' where "mempool_remove cr tx False P = Some (txs, P')" "pool_ok cr P'" "subpool P' P" "tx_GetHash cr tx \<notin> pool_keys P'"
proof -
  let ?h = "tx_GetHash cr tx"
  define S where "S = (if ?h \<in> pool_keys P then {?h} else {})"
  have S: "S \<subseteq> pool_keys P" by (simp add: S_def)
  have "par P ?h = {}" if "?h \<in> pool_keys P" using top that P by (simp add: pool_ok_def)
  then have "(up P)\<^sup>* `` {?h} \<subseteq> {?h}" if "?h \<in> pool_keys P" using that by (auto simp: up_def elim: converse_rtranclE)
  then have sev: "severable (up P) S" by (auto simp: severable_def S_def)
  obtain P' where r: "RemoveStaged cr S P = Some P'" "links_ok cr P'" "removed_from S P P'"
    using RemoveStaged_ok [OF pool_okD [OF P] S sev] by blast
  have "?h \<notin> pool_keys P'" using r(3) by (auto simp: removed_from_def S_def split: if_splits)
  moreover have "\<exists>txs. mempool_remove cr tx False P = Some (txs, P')" using r(1) by (auto simp: mempool_remove_def Let_def S_def split: if_splits)
  ultimately show thesis using that [OF _ removed_pool_ok [OF P r(2,3)] removed_subpool [OF r(3)]] by blast
qed

lemma ClearPrioritisation_simps [simp]:
  "pool_keys (ClearPrioritisation h P) = pool_keys P" "entry_at (ClearPrioritisation h P) = entry_at P"
  "mapNextTx (ClearPrioritisation h P) = mapNextTx P"
  by (simp_all add: ClearPrioritisation_def)

lemma ClearPrioritisation_ok:
  assumes P: "pool_ok cr P" and "h \<notin> pool_keys P"
  shows "pool_ok cr (ClearPrioritisation h P)"
proof -
  let ?C = "ClearPrioritisation h P"
  have s: "links_at ?C = links_at P" "par ?C = par P" "chl ?C = chl P" "up ?C = up P" "mapTx ?C = mapTx P" "mapLinks ?C = mapLinks P"
    "totalTxSize ?C = totalTxSize P"
    by (simp_all add: ClearPrioritisation_def links_at_def par_def chl_def up_def fun_eq_iff)
  have "delta_of ?C k = delta_of P k" if "k \<in> pool_keys P" for k
    using that assms(2) by (auto simp: delta_of_def ClearPrioritisation_def delete_conv')
  then have "entry_ok cr ?C k \<longleftrightarrow> entry_ok cr P k" if "k \<in> pool_keys P" for k
    using that by (simp add: entry_ok_def s pool_parents_def)
  moreover have "totals_ok ?C k \<longleftrightarrow> totals_ok P k" for k by (simp add: totals_ok_def s with_totals_eq_iff)
  ultimately show ?thesis using P
    by (auto simp: pool_ok_def links_ok_def graph_ok_def pool_small_def spends_ok_def pool_parents_def s)
qed

lemma conflicts_loop_ok:
  assumes "pool_ok cr P" "tx_GetHash cr tx \<notin> pool_keys P"
  obtains txs P' where "conflicts_loop cr tx is removed P = Some (txs, P')" "pool_ok cr P'" "subpool P' P"
    "\<And>i. i \<in> set is \<Longrightarrow> \<not> isSpent P' (prevout i)"
  using assms
proof (induction "is" arbitrary: P removed thesis)
  case (Cons i "is")
  note P = Cons.prems(2) and h = Cons.prems(3)
  show thesis
  proof (cases "map_of (mapNextTx P) (prevout i)")
    case None
    obtain txs P' where r: "conflicts_loop cr tx is removed P = Some (txs, P')" "pool_ok cr P'" "subpool P' P"
      "\<And>i. i \<in> set is \<Longrightarrow> \<not> isSpent P' (prevout i)" using Cons.IH [OF _ P h, of removed] by blast
    moreover have "\<not> isSpent P' (prevout i)"
      using subpool_spent [OF P r(2,3), of "prevout i"] None by (cases "map_of (mapNextTx P') (prevout i)") (auto simp: isSpent_def)
    ultimately show ?thesis by (intro Cons.prems(1) [of txs P']) (auto simp: None)
  next
    case (Some q)
    let ?e = "entry_at P (ptx q)"
    have k: "ptx q \<in> pool_keys P" using Some spender_iff [OF P] by blast
    then have hash: "tx_GetHash cr (GetTx ?e) = ptx q" using P by (simp add: pool_ok_def links_ok_def entry_ok_def)
    obtain t P1 where r1: "mempool_remove cr (GetTx ?e) True P = Some (t, P1)" "pool_ok cr P1" "subpool P1 P" "ptx q \<notin> pool_keys P1"
      using remove_recursive_ok [OF P, of "GetTx ?e"] hash by metis
    let ?P2 = "ClearPrioritisation (ptx q) P1"
    have P2: "pool_ok cr ?P2" "subpool ?P2 P" "tx_GetHash cr tx \<notin> pool_keys ?P2"
      using ClearPrioritisation_ok [OF r1(2,4)] r1(3) h by (auto simp: subpool_def)
    obtain txs P' where r: "conflicts_loop cr tx is (removed @ t) ?P2 = Some (txs, P')" "pool_ok cr P'" "subpool P' ?P2"
      "\<And>i. i \<in> set is \<Longrightarrow> \<not> isSpent P' (prevout i)" using Cons.IH [OF _ P2(1,3), of "removed @ t"] by blast
    have sub: "subpool P' P" by (rule subpool_trans [OF r(3) P2(2)])
    have "\<not> isSpent P' (prevout i)"
    proof
      assume "isSpent P' (prevout i)"
      then obtain q' where q': "map_of (mapNextTx P') (prevout i) = Some q'" by (auto simp: isSpent_def)
      then have "q' = q" using subpool_spent [OF P r(2) sub] Some by auto
      then have "ptx q \<in> pool_keys P'" using q' spender_iff [OF r(2)] by blast
      then show False using r(3) r1(4) by (auto simp: subpool_def)
    qed
    moreover have "conflicts_loop cr tx (i # is) removed P = Some (txs, P')"
      using Some k hash r1(1) r(1) h by (auto simp: map_of_mapTx)
    ultimately show ?thesis using r(2,4) sub by (intro Cons.prems(1) [of txs P']) auto
  qed
qed auto

text \<open>The transactions of a block, in an order in which the parents of each that are in the pool come before it.\<close>

definition hashes :: "crypto \<Rightarrow> CTransaction list \<Rightarrow> txid set" where
  "hashes cr vtx = tx_GetHash cr ` set vtx"

fun parents_first :: "crypto \<Rightarrow> CTxMemPool \<Rightarrow> txid set \<Rightarrow> CTransaction list \<Rightarrow> bool" where
  "parents_first cr P before [] \<longleftrightarrow> True"
| "parents_first cr P before (tx # vtx) \<longleftrightarrow> pool_parents P tx \<subseteq> before
     \<and> (tx_GetHash cr tx \<in> pool_keys P \<longrightarrow> GetTx (entry_at P (tx_GetHash cr tx)) = tx)
     \<and> parents_first cr P (insert (tx_GetHash cr tx) before) vtx"

lemma parents_first_subpool:
  "parents_first cr P K vtx \<Longrightarrow> subpool P' P \<Longrightarrow> parents_first cr P' K vtx"
  by (induction vtx arbitrary: K) (auto simp: subpool_def pool_parents_def)

lemma removeForBlock_ok:
  assumes "pool_ok cr P" "parents_first cr P K vtx" "pool_keys P \<inter> K = {}"
  obtains txs P' where "removeForBlock cr vtx conflicts P = Some (txs, P')" "pool_ok cr P'" "subpool P' P"
    "pool_keys P' \<inter> hashes cr vtx = {}" "\<And>tx i. tx \<in> set vtx \<Longrightarrow> i \<in> set (vin tx) \<Longrightarrow> \<not> isSpent P' (prevout i)"
  using assms
proof (induction vtx arbitrary: P K conflicts thesis)
  case Nil
  show ?case by (rule Nil.prems(1)) (use Nil.prems in \<open>auto simp: hashes_def\<close>)
next
  case (Cons tx vtx)
  let ?h = "tx_GetHash cr tx"
  note P = Cons.prems(2) and K = Cons.prems(4)
  have "pool_parents P (GetTx (entry_at P ?h)) = {}" if "?h \<in> pool_keys P"
    using Cons.prems(3) K that by (auto simp: pool_parents_def)
  then obtain t P1 where r1: "mempool_remove cr tx False P = Some (t, P1)" "pool_ok cr P1" "subpool P1 P" "?h \<notin> pool_keys P1"
    using remove_single_ok [OF P, of tx] by blast
  obtain c P2 where r2: "removeConflicts cr tx conflicts P1 = Some (c, P2)" "pool_ok cr P2" "subpool P2 P1"
      "\<And>i. i \<in> set (vin tx) \<Longrightarrow> \<not> isSpent P2 (prevout i)"
    using conflicts_loop_ok [OF r1(2,4), of "vin tx" conflicts] by (auto simp: removeConflicts_def)
  have h2: "?h \<notin> pool_keys P2" using r1(4) r2(3) by (auto simp: subpool_def)
  let ?P3 = "ClearPrioritisation ?h P2"
  have P3: "pool_ok cr ?P3" "subpool ?P3 P2" using ClearPrioritisation_ok [OF r2(2) h2] by (auto simp: subpool_def)
  have sub3: "subpool ?P3 P" using subpool_trans [OF P3(2) subpool_trans [OF r2(3) r1(3)]] .
  have pf: "parents_first cr ?P3 (insert ?h K) vtx" by (rule parents_first_subpool [OF _ sub3]) (use Cons.prems(3) in simp)
  have K3: "pool_keys ?P3 \<inter> insert ?h K = {}" using K h2 sub3 by (auto simp: subpool_def)
  obtain txs P' where r: "removeForBlock cr vtx c ?P3 = Some (txs, P')" "pool_ok cr P'" "subpool P' ?P3"
    "pool_keys P' \<inter> hashes cr vtx = {}" "\<And>tx i. tx \<in> set vtx \<Longrightarrow> i \<in> set (vin tx) \<Longrightarrow> \<not> isSpent P' (prevout i)"
    using Cons.IH [OF _ P3(1) pf K3, of c] by blast
  have "\<not> isSpent P' (prevout i)" if "i \<in> set (vin tx)" for i
    using subpool_spent [OF P3(1) r(2,3), of "prevout i"] r2(4) [OF that]
    by (cases "map_of (mapNextTx P') (prevout i)") (auto simp: isSpent_def)
  moreover have "pool_keys P' \<inter> hashes cr (tx # vtx) = {}" using r(3,4) h2 by (auto simp: subpool_def hashes_def)
  ultimately show ?case using r subpool_trans [OF r(3) sub3] r1(1) r2(1) by (intro Cons.prems(1) [of txs P']) auto
qed

lemma Expire_ok:
  assumes P: "pool_ok cr P"
  obtains n P' where "Expire cr time P = Some (n, P')" "pool_ok cr P'" "subpool P' P" "\<forall>h\<in>pool_keys P'. time \<le> entryTime (entry_at P' h)"
    "int n = int (card (pool_keys P)) - int (card (pool_keys P'))"
proof -
  define S where "S = set (map fst (filter (\<lambda>(h, e). entryTime e < time) (mapTx P)))"
  have d: "distinct (map fst (mapTx P))" using links_okD(1) [OF pool_okD [OF P]] by (simp add: graph_ok_def)
  have S: "S \<subseteq> pool_keys P" by (auto simp: S_def pool_keys_def)
  have old: "h \<in> S" if "h \<in> pool_keys P" "entryTime (entry_at P h) < time" for h
    using that map_of_mapTx [of P h] by (auto simp: S_def dest!: map_of_SomeD intro!: image_eqI [of _ _ "(h, entry_at P h)"])
  obtain P' where r: "calculate_all P (sorted_list_of_set S) {} = Some (below_all P S)"
    "RemoveStaged cr (below_all P S) P = Some P'" "links_ok cr P'" "removed_from (below_all P S) P P'"
    using remove_below [OF pool_okD [OF P] S] by blast
  have sub: "S \<subseteq> below_all P S" "below_all P S \<subseteq> pool_keys P"
    using below_all_keys [OF links_okD(1) [OF pool_okD [OF P]] S] by (auto simp: below_all_def)
  have keys: "pool_keys P' = pool_keys P - below_all P S" using r(4) by (simp add: removed_from_def)
  show thesis
  proof (rule that [OF _ removed_pool_ok [OF P r(3,4)] removed_subpool [OF r(4)]])
    show "Expire cr time P = Some (card (below_all P S), P')" using r(1,2) by (simp add: Expire_def S_def [symmetric] Let_def del: set_map)
    show "\<forall>h\<in>pool_keys P'. time \<le> entryTime (entry_at P' h)"
      using old sub(1) r(4) by (auto simp: removed_from_def) (meson linorder_not_less subsetD)
    show "int (card (below_all P S)) = int (card (pool_keys P)) - int (card (pool_keys P'))"
      using sub(2) finite_in_pool [OF sub(2)] card_mono [OF _ sub(2)] by (simp add: keys card_Diff_subset of_nat_diff)
  qed
qed

text \<open>A round of trimming on an entry of the pool returns and takes that entry out.\<close>

lemma trim_round_ok:
  assumes "pool_ok cr P" and "it \<in> pool_keys P"
  shows "\<exists>ps P1. trim_round cr it pv P = Some (ps, P1) \<and> pool_ok cr P1 \<and> subpool P1 P \<and> pool_keys P1 \<subset> pool_keys P"
proof -
  note g = links_okD(1,2) [OF pool_okD [OF assms(1)]]
  have d: "CalculateDescendants P it {} = Some (below_all P {it})"
    using CalculateDescendants_closed [OF g assms(2), of "{}"] by (simp add: closed_down_def)
  obtain P1 where r: "RemoveStaged cr (below_all P {it}) P = Some P1" "links_ok cr P1" "removed_from (below_all P {it}) P P1"
    using remove_below [OF pool_okD [OF assms(1)], of "{it}"] assms(2) by auto
  have "it \<in> below_all P {it}" by (simp add: below_all_def)
  then have "pool_keys P1 \<subset> pool_keys P" using r(3) assms(2) by (auto simp: removed_from_def)
  moreover have "map_of (mapTx P) it = Some (entry_at P it)" using assms(2) by (simp add: map_of_mapTx)
  ultimately show ?thesis
    using d r(1) removed_pool_ok [OF assms(1) r(2,3)] removed_subpool [OF r(3)] by (simp add: trim_round_def Let_def)
qed

text \<open>The loop keeps the invariant and has at most as many rounds as the pool has entries.\<close>

lemma TrimToSize_ok:
  "pool_ok cr P \<Longrightarrow> TrimToSize cr its pv P = Some (ps, P') \<Longrightarrow>
   pool_ok cr P' \<and> subpool P' P \<and> length its + card (pool_keys P') \<le> card (pool_keys P)"
proof (induction its arbitrary: P pv)
  case (Cons it its)
  then obtain pv1 P1 where r: "trim_round cr it pv P = Some (pv1, P1)" "TrimToSize cr its pv1 P1 = Some (ps, P')"
    by (auto split: option.splits)
  then have "it \<in> pool_keys P" by (auto simp: trim_round_def map_of_mapTx split: if_splits)
  then have P1: "pool_ok cr P1" "subpool P1 P" "pool_keys P1 \<subset> pool_keys P" using trim_round_ok [OF Cons.prems(1), of it pv] r(1) by auto
  then have "card (pool_keys P1) < card (pool_keys P)" by (intro psubset_card_mono) auto
  then show ?case using Cons.IH [OF P1(1) r(2)] subpool_trans [OF _ P1(2)] by auto
qed auto

text \<open>The invariant reads only these fields.\<close>

definition pool_core :: "CTxMemPool \<Rightarrow> (txid \<times> CTxMemPoolEntry) list \<times> (txid \<times> TxLinks) list \<times> (COutPoint \<times> CInPoint) list \<times> (txid \<times> CAmount) list \<times> u64" where
  "pool_core P = (mapTx P, mapLinks P, mapNextTx P, mapDeltas P, totalTxSize P)"

lemma pool_ok_cong:
  assumes "pool_core P' = pool_core P"
  shows "pool_ok cr P' \<longleftrightarrow> pool_ok cr P"
proof -
  have f: "mapTx P' = mapTx P" "mapLinks P' = mapLinks P" "mapNextTx P' = mapNextTx P" "mapDeltas P' = mapDeltas P"
    "totalTxSize P' = totalTxSize P" using assms by (simp_all add: pool_core_def)
  then have s: "pool_keys P' = pool_keys P" "entry_at P' = entry_at P" "links_at P' = links_at P" "delta_of P' = delta_of P"
    by (simp_all add: pool_keys_def entry_at_def links_at_def delta_of_def fun_eq_iff)
  then have "par P' = par P" "chl P' = chl P" "up P' = up P" by (simp_all add: par_def chl_def up_def fun_eq_iff)
  then show ?thesis using s f
    by (simp add: pool_ok_def links_ok_def graph_ok_def pool_small_def entry_ok_def totals_ok_def with_totals_eq_iff spends_ok_def pool_parents_def)
qed

lemma pool_core_simps [simp]:
  "pool_core (P\<lparr>mapAddress := m\<rparr>) = pool_core P" "pool_core (P\<lparr>mapAddressInserted := n\<rparr>) = pool_core P"
  "pool_core (P\<lparr>mapSpent := k\<rparr>) = pool_core P" "pool_core (P\<lparr>mapSpentInserted := l\<rparr>) = pool_core P"
  by (simp_all add: pool_core_def)

lemma address_inputs_core: "address_inputs h t j is ins P view = (ins', P', view') \<Longrightarrow> pool_core P' = pool_core P"
  by (induction "is" arbitrary: j ins P view) (auto simp: Let_def split: prod.splits option.splits)

lemma address_outputs_core: "address_outputs h t k os ins P = (ins', P') \<Longrightarrow> pool_core P' = pool_core P"
  by (induction os arbitrary: k ins P) (auto simp: Let_def split: prod.splits option.splits)

lemma spent_inputs_core: "spent_inputs h j is ins P view = (ins', P', view') \<Longrightarrow> pool_core P' = pool_core P"
  by (induction "is" arbitrary: j ins P view) (auto simp: Let_def split: prod.splits)

lemma addAddressIndex_core: "addAddressIndex cr e P view = (P', view') \<Longrightarrow> pool_core P' = pool_core P"
  using address_inputs_core address_outputs_core by (fastforce simp: addAddressIndex_def Let_def split: prod.splits)

lemma addSpentIndex_core: "addSpentIndex cr e P view = (P', view') \<Longrightarrow> pool_core P' = pool_core P"
  using spent_inputs_core by (fastforce simp: addSpentIndex_def Let_def split: prod.splits)

lemma empty_pool_ok: "mapTx P = [] \<Longrightarrow> mapLinks P = [] \<Longrightarrow> mapNextTx P = [] \<Longrightarrow> totalTxSize P = 0 \<Longrightarrow> pool_ok cr P"
  by (simp add: pool_ok_def links_ok_def graph_ok_def pool_small_def spends_ok_def pool_keys_def par_def chl_def up_def links_at_def acyclic_def)

lemma addUnchecked_ok:
  assumes P: "pool_ok cr P" and a: "addable cr P e" and h: "h = tx_GetHash cr (GetTx e)" and nc: "\<And>p. isSpent P p \<Longrightarrow> outHash p \<noteq> h"
  obtains P' where "addUnchecked cr h e ((up P)\<^sup>* `` pool_parents P (GetTx e)) P = Some P'" "pool_ok cr P'"
    "pool_keys P' = insert h (pool_keys P)" "GetTx (entry_at P' h) = GetTx e"
    "\<And>k. k \<in> pool_keys P \<Longrightarrow> GetTx (entry_at P' k) = GetTx (entry_at P k)"
proof -
  obtain P' where r: "addUnchecked cr h e ((up P)\<^sup>* `` pool_parents P (GetTx e)) P = Some P'" "links_ok cr P'"
    "pool_keys P' = insert h (pool_keys P)" "\<And>k. par P' k = (if k = h then pool_parents P (GetTx e) else par P k)"
    "GetTx (entry_at P' h) = GetTx e" "\<And>k. k \<in> pool_keys P \<Longrightarrow> GetTx (entry_at P' k) = GetTx (entry_at P k)"
    using addUnchecked_links_ok [OF pool_okD [OF P] a h] by blast
  have hk: "h \<notin> pool_keys P" "h \<notin> (\<lambda>i. outHash (prevout i)) ` set (vin (GetTx e))" using a h by (auto simp: addable_def)
  have "outHash (prevout i) \<noteq> h" if k: "k \<in> pool_keys P" and i: "i \<in> set (vin (GetTx (entry_at P k)))" for k i
  proof -
    obtain j where "j < length (vin (GetTx (entry_at P k)))" "vin (GetTx (entry_at P k)) ! j = i" using i by (auto simp: in_set_conv_nth)
    then have "map_of (mapNextTx P) (prevout i) = Some \<lparr>ptx = k, inN = j\<rparr>" using k spender_iff [OF P] by simp
    then show ?thesis using nc [of "prevout i"] by (simp add: isSpent_def)
  qed
  then have "pool_parents P' (GetTx (entry_at P k)) = pool_parents P (GetTx (entry_at P k))" if "k \<in> pool_keys P" for k
    using that r(3) by (auto simp: pool_parents_def)
  moreover have "pool_parents P' (GetTx e) = pool_parents P (GetTx e)" using hk r(3) by (auto simp: pool_parents_def)
  ultimately have "pool_ok cr P'" using P r hk by (auto simp: pool_ok_def)
  then show thesis by (rule that [OF r(1) _ r(3,5,6)])
qed

lemma PrioritiseTransaction_ok:
  assumes "pool_ok cr P"
  obtains P' where "PrioritiseTransaction cr h d P = Some P'" "pool_ok cr P'"
proof -
  obtain P' where r: "PrioritiseTransaction cr h d P = Some P'" "links_ok cr P'" "pool_keys P' = pool_keys P" "par P' = par P"
    "\<And>k. k \<in> pool_keys P \<Longrightarrow> GetTx (entry_at P' k) = GetTx (entry_at P k)"
    using PrioritiseTransaction_links_ok [OF pool_okD [OF assms], of h d] by metis
  then have "pool_ok cr P'" using assms by (simp add: pool_ok_def pool_parents_def)
  then show thesis using that r(1) by blast
qed

lemma nolimit_search:
  assumes "pool_ok cr P" "CalculateMemPoolAncestors cr P e lim True = Some (None, A)"
  shows "A = (up P)\<^sup>* `` pool_parents P (GetTx e)"
  by (rule ancestors_search [OF links_okD(1) [OF pool_okD [OF assms(1)]], of cr e lim]) (use assms(2) in auto)

section \<open>The pool as a state machine\<close>

text \<open>The steps of the pool. A transaction is accepted when its ancestors fit the limits, it is not in the pool and it spends
  nothing that the pool spends, as \<^verbatim>\<open>AcceptToMemoryPool\<close> checks before it calls \<^verbatim>\<open>addUnchecked\<close>; a block removes its
  transactions in an order in which parents come first.\<close>

inductive mempool_step :: "crypto \<Rightarrow> CTxMemPool \<Rightarrow> CTxMemPool \<Rightarrow> bool" for cr where
  accept: "addable cr P e \<Longrightarrow> (\<And>p. isSpent P p \<Longrightarrow> outHash p \<noteq> tx_GetHash cr (GetTx e)) \<Longrightarrow>
    CalculateMemPoolAncestors cr P e lim True = Some (None, A) \<Longrightarrow>
    addUnchecked cr (tx_GetHash cr (GetTx e)) e A P = Some P' \<Longrightarrow> mempool_step cr P P'"
| address_index: "addAddressIndex cr e P view = (P', view') \<Longrightarrow> mempool_step cr P P'"
| spent_index: "addSpentIndex cr e P view = (P', view') \<Longrightarrow> mempool_step cr P P'"
| remove_recursive: "mempool_remove cr tx True P = Some (txs, P') \<Longrightarrow> mempool_step cr P P'"
| block: "parents_first cr P {} vtx \<Longrightarrow> removeForBlock cr vtx [] P = Some (txs, P') \<Longrightarrow> mempool_step cr P P'"
| expire: "Expire cr time P = Some (n, P') \<Longrightarrow> mempool_step cr P P'"
| trim: "TrimToSize cr its [] P = Some (ps, P') \<Longrightarrow> mempool_step cr P P'"
| prioritise: "PrioritiseTransaction cr h d P = Some P' \<Longrightarrow> mempool_step cr P P'"
| clear: "mempool_step cr P (mempool_clear P)"

inductive_cases mempool_stepE: "mempool_step cr P P'"

lemma mempool_step_ok:
  assumes "mempool_step cr P P'" "pool_ok cr P"
  shows "pool_ok cr P'"
  using assms
proof (induction rule: mempool_step.induct)
  case (accept P e lim A P')
  then show ?case using addUnchecked_ok [OF accept.prems accept.hyps(1) refl] nolimit_search [OF accept.prems accept.hyps(3)] by auto
next
  case (address_index e P view P' view')
  then show ?case using addAddressIndex_core pool_ok_cong by blast
next
  case (spent_index e P view P' view')
  then show ?case using addSpentIndex_core pool_ok_cong by blast
next
  case (remove_recursive tx P txs P')
  then show ?case using remove_recursive_ok [of cr P tx] by auto
next
  case (block P vtx txs P')
  then show ?case using removeForBlock_ok [of cr P "{}" vtx "[]"] by auto
next
  case (expire time P n P')
  then show ?case using Expire_ok [of cr P time] by auto
next
  case (trim its P ps P')
  then show ?case using TrimToSize_ok [of cr P its "[]"] by auto
next
  case (prioritise h d P P')
  then show ?case using PrioritiseTransaction_ok [of cr P h d] by auto
next
  case (clear P)
  then show ?case by (intro empty_pool_ok) (simp_all add: mempool_clear_def)
qed

lemma mempool_reachable_ok: "(mempool_step cr)\<^sup>*\<^sup>* (mk_CTxMemPool ()) P \<Longrightarrow> pool_ok cr P"
  by (induction rule: rtranclp_induct) (auto simp: mk_CTxMemPool_def mempool_clear_def intro: mempool_step_ok empty_pool_ok)

section \<open>Properties\<close>

text \<open>The limits that a new entry has to keep, in numbers: on its ancestors together with it, and on every ancestor's descendants
  together with it.\<close>

definition within_limits :: "CTxMemPool \<Rightarrow> CTxMemPoolEntry \<Rightarrow> ancestor_limits \<Rightarrow> bool" where
  "within_limits P e lim \<longleftrightarrow> (let A = (up P)\<^sup>* `` pool_parents P (GetTx e) in
     (A \<noteq> {} \<longrightarrow> card A + 1 \<le> unat (limitAncestorCount lim) \<and> (\<Sum>d\<in>A. unat (tx_size P d)) + unat (nTxSize e) \<le> unat (limitAncestorSize lim))
     \<and> (\<forall>a\<in>A. card (below (up P) a) + 1 \<le> unat (limitDescendantCount lim)
          \<and> (\<Sum>d\<in>below (up P) a. unat (tx_size P d)) + unat (nTxSize e) \<le> unat (limitDescendantSize lim)))"

lemma fits_iff:
  assumes "pool_small P" "X \<union> Y \<subseteq> pool_keys P" "X \<inter> Y = {}"
  shows "fits limit X Y \<longleftrightarrow> card (X \<union> Y) + 1 \<le> unat limit"
proof -
  have f: "finite X" "finite Y" using assms(2) finite_in_pool [of _ P] by auto
  have c: "card (X \<union> Y) < 2 ^ 63" using totals_bounds(2,3) [OF assms(1,2)] by linarith
  have "of_nat (card X) + of_nat (card Y) + 1 = (of_nat (card (X \<union> Y) + 1) :: u64)" using f assms(3) by (simp add: card_Un_disjoint)
  moreover have "unat (of_nat (card (X \<union> Y) + 1) :: u64) = card (X \<union> Y) + 1" using c by (simp add: unsigned_of_nat take_bit_nat_eq_self del: of_nat_add of_nat_Suc)
  ultimately show ?thesis unfolding fits_def word_le_nat_alt by (simp only:)
qed

lemma walk_fits_iff:
  assumes P: "pool_ok cr P"
    and small: "(\<Sum>h\<in>pool_keys P. unat (tx_size P h)) + unat (nTxSize e) < 2 ^ 63"
  shows "a \<in> pool_keys P \<Longrightarrow> ancestor_fits P lim (nTxSize e) a \<longleftrightarrow> card (below (up P) a) + 1 \<le> unat (limitDescendantCount lim)
      \<and> (\<Sum>d\<in>below (up P) a. unat (tx_size P d)) + unat (nTxSize e) \<le> unat (limitDescendantSize lim)"
    and "Y \<subseteq> pool_keys P \<Longrightarrow> nTxSize e + (\<Sum>a\<in>Y. tx_size P a) \<le> limitAncestorSize lim \<longleftrightarrow> (\<Sum>d\<in>Y. unat (tx_size P d)) + unat (nTxSize e) \<le> unat (limitAncestorSize lim)"
proof -
  have sm: "pool_small P" using P by (simp add: pool_ok_def links_ok_def)
  have sum: "unat (nTxSize e + (\<Sum>a\<in>Y. tx_size P a)) = (\<Sum>d\<in>Y. unat (tx_size P d)) + unat (nTxSize e)" if Y: "Y \<subseteq> pool_keys P" for Y
  proof -
    have "(\<Sum>d\<in>Y. unat (tx_size P d)) \<le> (\<Sum>d\<in>pool_keys P. unat (tx_size P d))" using Y by (intro sum_mono2) auto
    then show ?thesis using small totals_bounds(1) [OF sm Y] by (subst unat_add_no_wrap) auto
  qed
  then show "nTxSize e + (\<Sum>a\<in>Y. tx_size P a) \<le> limitAncestorSize lim \<longleftrightarrow> (\<Sum>d\<in>Y. unat (tx_size P d)) + unat (nTxSize e) \<le> unat (limitAncestorSize lim)"
    if "Y \<subseteq> pool_keys P" using that by (simp add: word_le_nat_alt)
  show "ancestor_fits P lim (nTxSize e) a \<longleftrightarrow> card (below (up P) a) + 1 \<le> unat (limitDescendantCount lim)
      \<and> (\<Sum>d\<in>below (up P) a. unat (tx_size P d)) + unat (nTxSize e) \<le> unat (limitDescendantSize lim)" if a: "a \<in> pool_keys P"
  proof -
    let ?Y = "below (up P) a"
    have Y: "?Y \<subseteq> pool_keys P" by (rule below_keys [OF links_okD(1) [OF pool_okD [OF P]] a])
    have "entry_at P a = with_totals P ?Y (entry_at P a)" using P a by (simp add: pool_ok_def links_ok_def totals_ok_def)
    note t = with_totals_eq_iff [THEN iffD1, OF this]
    have "card ?Y < 2 ^ 63" using totals_bounds(2,3) [OF sm Y] by linarith
    then have "unat (of_nat (card ?Y) + 1 :: u64) = card ?Y + 1" using totals_positive(4) [OF sm Y below_ne] by (subst unat_add_no_wrap) auto
    then show "ancestor_fits P lim (nTxSize e) a \<longleftrightarrow> card ?Y + 1 \<le> unat (limitDescendantCount lim)
        \<and> (\<Sum>d\<in>?Y. unat (tx_size P d)) + unat (nTxSize e) \<le> unat (limitDescendantSize lim)"
      using sum [OF Y] t by (auto simp: ancestor_fits_def word_le_nat_alt add.commute)
  qed
qed

lemma ancestors_within_limits:
  assumes P: "pool_ok cr P"
    and small: "(\<Sum>h\<in>pool_keys P. unat (tx_size P h)) + unat (nTxSize e) < 2 ^ 63"
  shows "\<exists>err S. CalculateMemPoolAncestors cr P e lim True = Some (err, S)
    \<and> (err = None \<longleftrightarrow> within_limits P e lim) \<and> (err = None \<longrightarrow> S = (up P)\<^sup>* `` pool_parents P (GetTx e))"
proof -
  define A where "A = (up P)\<^sup>* `` pool_parents P (GetTx e)"
  note w = walk_fits_iff [OF assms]
  have g: "graph_ok P" and sm: "pool_small P" using P by (auto simp: pool_ok_def links_ok_def)
  have A: "A \<subseteq> pool_keys P" unfolding A_def by (rule up_keys [OF g]) (auto simp: pool_parents_def)
  obtain err S where r: "CalculateMemPoolAncestors cr P e lim True = Some (err, S)"
    and yes: "err = None \<longrightarrow> S = A \<and> (\<forall>a\<in>A. ancestor_fits P lim (nTxSize e) a)
      \<and> (A \<noteq> {} \<longrightarrow> nTxSize e + (\<Sum>a\<in>A. tx_size P a) \<le> limitAncestorSize lim \<and> fits (limitAncestorCount lim) {} A)"
    and no: "walk_fits P lim (nTxSize e) A \<longrightarrow> err = None"
    using ancestors_search [OF g, of cr e lim] unfolding A_def by blast
  have "within_limits P e lim" if "err = None"
    unfolding within_limits_def Let_def A_def [symmetric] using yes that w(1) [OF subsetD [OF A]] w(2) [OF A] fits_iff [OF sm, of "{}" A] A by auto
  moreover have "walk_fits P lim (nTxSize e) A" if wl: "within_limits P e lim"
  proof -
    have sums: "(\<Sum>d\<in>Y. unat (tx_size P d)) \<le> (\<Sum>d\<in>A. unat (tx_size P d))" if "Y \<subseteq> A" for Y
      using that finite_in_pool [OF A] by (intro sum_mono2) auto
    have "fits (limitAncestorCount lim) X Y" if XY: "X \<subseteq> A" "Y \<subseteq> A" "X \<inter> Y = {}" "X \<union> Y \<noteq> {}" for X Y
    proof -
      have "card (X \<union> Y) \<le> card A" using XY finite_in_pool [OF A] by (intro card_mono) auto
      moreover have "A \<noteq> {}" using XY by auto
      ultimately have "card (X \<union> Y) + 1 \<le> unat (limitAncestorCount lim)" using wl by (simp add: within_limits_def Let_def A_def [symmetric])
      then show ?thesis using fits_iff [OF sm _ XY(3)] XY(1,2) A by (simp add: subset_trans)
    qed
    moreover have "nTxSize e + (\<Sum>a\<in>Y. tx_size P a) \<le> limitAncestorSize lim" if Y: "Y \<subseteq> A" "Y \<noteq> {}" for Y
    proof -
      have "A \<noteq> {}" using Y by auto
      then have "(\<Sum>d\<in>A. unat (tx_size P d)) + unat (nTxSize e) \<le> unat (limitAncestorSize lim)"
        using wl by (simp add: within_limits_def Let_def A_def [symmetric])
      then show ?thesis using sums [OF Y(1)] w(2) [of Y] Y A by auto
    qed
    moreover have "ancestor_fits P lim (nTxSize e) a" if "a \<in> A" for a
      using wl that w(1) [of a] A by (auto simp: within_limits_def Let_def A_def [symmetric])
    ultimately show ?thesis by (simp add: walk_fits_def)
  qed
  ultimately show ?thesis using r yes no by (auto simp: A_def)
qed

definition sample_tx :: "bytes \<Rightarrow> u32 \<Rightarrow> CTransaction" where
  "sample_tx h n = \<lparr>txVersion = 2, vin = [\<lparr>prevout = \<lparr>outHash = h, outN = n\<rparr>, scriptSig = [], nSequence = - 1\<rparr>],
     vout = [\<lparr>nValue = 50, scriptPubKey = [0x51], imgbase64 = [], nRounds = - 10\<rparr>], nLockTime = 0\<rparr>"

definition sample_entry :: "bytes \<Rightarrow> u32 \<Rightarrow> CTxMemPoolEntry" where
  "sample_entry h n = the (mk_CTxMemPoolEntry (sample_tx h n) 7 0 0 True 0 False 0)"

definition sample_parent :: txid where
  "sample_parent = tx_GetHash sample_hash (sample_tx (replicate 32 7) 1)"

definition sample_pool :: CTxMemPool where
  "sample_pool = the (addUnchecked sample_hash sample_parent (sample_entry (replicate 32 7) 1) {} (mk_CTxMemPool ()))"

lemma sample_parent_eq: "sample_parent = [2, 0, 0, 0, 1] @ replicate 27 7"
  unfolding sample_parent_def by code_simp

lemma sample_parent_ne: "sample_parent \<noteq> replicate 32 7"
  unfolding sample_parent_eq by code_simp

lemma sample_mk: "\<exists>e. mk_CTxMemPoolEntry (sample_tx h n) 7 0 0 True 0 False 0 = Some e"
  by (simp add: mk_CTxMemPoolEntry_def GetValueOut_def sample_tx_def MoneyRange_def MAX_MONEY_def COIN_def)

lemma sample_entry_facts:
  "fresh_entry (sample_entry h n)" "GetTx (sample_entry h n) = sample_tx h n"
  "nTxSize (sample_entry h n) = of_nat (length (ser_tx (sample_tx h n)))"
  using sample_mk [of h n] mk_CTxMemPoolEntry_fresh [of "sample_tx h n" 7 0 0 True 0 False 0] by (auto simp: sample_entry_def)

lemma sample_entry_sizes: "nTxSize (sample_entry (replicate 32 7) 1) = 62" "nTxSize (sample_entry sample_parent 0) = 62"
  unfolding sample_entry_facts sample_parent_eq by code_simp+

lemma sample_addable: "addable sample_hash (mk_CTxMemPool ()) (sample_entry (replicate 32 7) 1)"
  using sample_entry_facts [of "replicate 32 7" 1] sample_entry_sizes(1)
  by (simp add: addable_def sample_parent_def [symmetric] mk_CTxMemPool_def mempool_clear_def pool_keys_def isSpent_def)
     (simp add: sample_tx_def sample_parent_ne)

lemma sample_pool_facts:
  "addUnchecked sample_hash sample_parent (sample_entry (replicate 32 7) 1) {} (mk_CTxMemPool ()) = Some sample_pool"
  "pool_ok sample_hash sample_pool" "pool_keys sample_pool = {sample_parent}"
  "GetTx (entry_at sample_pool sample_parent) = sample_tx (replicate 32 7) 1"
proof -
  have e: "pool_keys (mk_CTxMemPool ()) = {}" "pool_ok sample_hash (mk_CTxMemPool ())" "\<not> isSpent (mk_CTxMemPool ()) p" for p
    by (auto simp: mk_CTxMemPool_def mempool_clear_def pool_keys_def isSpent_def intro: empty_pool_ok)
  obtain P' where r: "addUnchecked sample_hash sample_parent (sample_entry (replicate 32 7) 1) {} (mk_CTxMemPool ()) = Some P'"
    "pool_ok sample_hash P'" "pool_keys P' = {sample_parent}" "GetTx (entry_at P' sample_parent) = sample_tx (replicate 32 7) 1"
    using addUnchecked_ok [OF e(2) sample_addable, of sample_parent] e sample_entry_facts(2) [of "replicate 32 7" 1]
    by (auto simp: sample_parent_def pool_parents_def)
  then have "sample_pool = P'" by (simp add: sample_pool_def)
  then show "addUnchecked sample_hash sample_parent (sample_entry (replicate 32 7) 1) {} (mk_CTxMemPool ()) = Some sample_pool"
    "pool_ok sample_hash sample_pool" "pool_keys sample_pool = {sample_parent}"
    "GetTx (entry_at sample_pool sample_parent) = sample_tx (replicate 32 7) 1" using r by simp_all
qed

lemma sample_parent_size: "tx_size sample_pool sample_parent = 62"
  by code_simp

text \<open>
  C2. The invariant of the memory pool. In every state that the pool reaches by accepting transactions, writing its indexes,
  connecting blocks, expiring, trimming, prioritising and clearing: the links between entries are exactly the spending relation
  and have no cycle, \<^verbatim>\<open>mapNextTx\<close> holds exactly the inputs of the entries, the counts, sizes and fees that every entry keeps
  about its descendants are those of its descendants in the pool, so that none is dirty, and \<^verbatim>\<open>totalTxSize\<close> is the sum of the
  sizes. This is the pool outside a reorganisation: while the transactions of a disconnected block come back before
  \<^verbatim>\<open>UpdateTransactionsFromBlock\<close> has run, the links are not complete; a transaction whose outputs the pool already spends is not
  accepted by a step.
\<close>

theorem mempool_invariant:
  assumes "(mempool_step cr)\<^sup>*\<^sup>* (mk_CTxMemPool ()) P"
  shows "pool_ok cr P"
  by (rule mempool_reachable_ok [OF assms])

theorem mempool_invariant_witness: "pool_ok sample_hash sample_pool \<and> pool_keys sample_pool = {sample_parent}"
proof -
  have "CalculateMemPoolAncestors sample_hash (mk_CTxMemPool ()) (sample_entry (replicate 32 7) 1) nNoLimit True = Some (None, {})"
    by (simp add: CalculateMemPoolAncestors_def sample_entry_facts sample_tx_def mk_CTxMemPool_def mempool_clear_def pool_keys_def ancestors_loop.simps)
  then have "mempool_step sample_hash (mk_CTxMemPool ()) sample_pool"
    using mempool_step.accept [OF sample_addable, of nNoLimit "{}" sample_pool] sample_pool_facts(1)
    by (simp add: sample_entry_facts sample_parent_def isSpent_def mk_CTxMemPool_def mempool_clear_def)
  then show ?thesis using mempool_invariant [OF r_into_rtranclp] sample_pool_facts(3) by blast
qed

text \<open>
  C13. The limits on chains of unconfirmed transactions. In a consistent pool \<^verbatim>\<open>CalculateMemPoolAncestors\<close> returns for every new
  entry; it succeeds exactly when the entry with all its ancestors keeps the limits on count and size, and every ancestor with its
  descendants and the new entry keeps the limits on descendants; and then it has found exactly the ancestors.
\<close>

theorem CalculateMemPoolAncestors_correct:
  assumes "pool_ok cr P"
    and "(\<Sum>h\<in>pool_keys P. unat (tx_size P h)) + unat (nTxSize e) < 2 ^ 63"
  shows "\<exists>err S. CalculateMemPoolAncestors cr P e lim True = Some (err, S)
    \<and> (err = None \<longleftrightarrow> within_limits P e lim) \<and> (err = None \<longrightarrow> S = (up P)\<^sup>* `` pool_parents P (GetTx e))"
  by (rule ancestors_within_limits [OF assms])

theorem CalculateMemPoolAncestors_correct_witness:
  "\<exists>err S. CalculateMemPoolAncestors sample_hash sample_pool (sample_entry sample_parent 0) nNoLimit True = Some (err, S)
    \<and> (err = None \<longleftrightarrow> within_limits sample_pool (sample_entry sample_parent 0) nNoLimit)
    \<and> (err = None \<longrightarrow> S = (up sample_pool)\<^sup>* `` pool_parents sample_pool (sample_tx sample_parent 0))"
  using CalculateMemPoolAncestors_correct [OF sample_pool_facts(2), of "sample_entry sample_parent 0" nNoLimit] sample_parent_size sample_entry_sizes(2)
  by (simp add: sample_pool_facts(3) sample_entry_facts(2))

text \<open>
  C12. Connecting a block. When the parents of each transaction of the block that are in the pool come before it in the block, no
  assertion fails, the pool stays consistent, none of the block's transactions is left in the pool, and nothing left in
  the pool spends an output that the block spends.
\<close>

theorem removeForBlock_correct:
  assumes "pool_ok cr P" and "parents_first cr P {} vtx"
  shows "\<exists>txs P'. removeForBlock cr vtx conflicts P = Some (txs, P') \<and> pool_ok cr P' \<and> subpool P' P
    \<and> pool_keys P' \<inter> hashes cr vtx = {} \<and> (\<forall>tx\<in>set vtx. \<forall>i\<in>set (vin tx). \<not> isSpent P' (prevout i))"
  using removeForBlock_ok [OF assms] by (metis inf_bot_right)

theorem removeForBlock_correct_witness:
  "\<exists>txs P'. removeForBlock sample_hash [sample_tx (replicate 32 7) 1] [] sample_pool = Some (txs, P') \<and> pool_ok sample_hash P'
    \<and> pool_keys P' = {}"
proof -
  have "parents_first sample_hash sample_pool {} [sample_tx (replicate 32 7) 1]"
    using sample_pool_facts(3,4) sample_parent_ne by (simp add: sample_parent_def pool_parents_def) (simp add: sample_tx_def)
  then show ?thesis
    using removeForBlock_correct [OF sample_pool_facts(2), of "[sample_tx (replicate 32 7) 1]" "[]"] sample_pool_facts(3)
    by (auto simp: hashes_def sample_parent_def subpool_def)
qed

end
