(* ===== verification/KeyedHashes.thy ===== *)
theory KeyedHashes
  imports Serialize
begin

text \<open>
  The keyed hashes of \<^verbatim>\<open>hash.cpp\<close> that are not cryptographic: MurmurHash3, which the Bloom filters use, and SipHash-2-4, which
  salts the keys of hash tables. The specialised SipHash routines are compared with the definition of
  SipHash-2-4 on byte strings.
\<close>

unbundle bit_operations_syntax

section \<open>MurmurHash3\<close>

definition ROTL32 :: "u32 \<Rightarrow> nat \<Rightarrow> u32" where
  "ROTL32 x r = push_bit r x OR drop_bit (32 - r) x"

definition murmur_c1 :: u32 where "murmur_c1 = 0xcc9e2d51"

definition murmur_c2 :: u32 where "murmur_c2 = 0x1b873593"

definition murmur_mix :: "u32 \<Rightarrow> u32" where
  "murmur_mix k1 = ROTL32 (k1 * murmur_c1) 15 * murmur_c2"

definition murmur_block :: "bytes \<Rightarrow> nat \<Rightarrow> u32 \<Rightarrow> u32" where
  "murmur_block v i h1 = ROTL32 (h1 XOR murmur_mix (ReadLE32 (drop (i * 4) v))) 13 * 5 + 0xe6546b64"

text \<open>The cases of the \<^verbatim>\<open>switch\<close> fall through.\<close>

definition murmur_tail :: "bytes \<Rightarrow> u32 \<Rightarrow> u32" where
  "murmur_tail t h1 =
     (let n = length t;
          k1 = (if n = 3 then push_bit 16 (ucast (t ! 2)) else 0);
          k1 = (if n \<ge> 2 then k1 XOR push_bit 8 (ucast (t ! 1)) else k1)
      in if n \<ge> 1 then h1 XOR murmur_mix (k1 XOR ucast (t ! 0)) else h1)"

definition murmur_final :: "u32 \<Rightarrow> u32" where
  "murmur_final h1 =
     (let h1 = h1 XOR drop_bit 16 h1;
          h1 = h1 * 0x85ebca6b;
          h1 = h1 XOR drop_bit 13 h1;
          h1 = h1 * 0xc2b2ae35
      in h1 XOR drop_bit 16 h1)"

definition MurmurHash3 :: "u32 \<Rightarrow> bytes \<Rightarrow> u32" where
  "MurmurHash3 nHashSeed vDataToHash =
     (let nblocks = length vDataToHash div 4;
          h1 = nHashSeed;
          h1 = (if length vDataToHash > 0
                then murmur_tail (drop (nblocks * 4) vDataToHash) (fold (murmur_block vDataToHash) [0..<nblocks] h1) else h1)
      in murmur_final (h1 XOR of_nat (length vDataToHash)))"

section \<open>SipHash\<close>

type_synonym sip_state = "u64 \<times> u64 \<times> u64 \<times> u64"

definition ROTL :: "u64 \<Rightarrow> nat \<Rightarrow> u64" where
  "ROTL x b = push_bit b x OR drop_bit (64 - b) x"

definition SIPROUND :: "sip_state \<Rightarrow> sip_state" where
  "SIPROUND = (\<lambda>(v0, v1, v2, v3).
     let v0 = v0 + v1; v1 = ROTL v1 13; v1 = v1 XOR v0;
         v0 = ROTL v0 32;
         v2 = v2 + v3; v3 = ROTL v3 16; v3 = v3 XOR v2;
         v0 = v0 + v3; v3 = ROTL v3 21; v3 = v3 XOR v0;
         v2 = v2 + v1; v1 = ROTL v1 17; v1 = v1 XOR v2;
         v2 = ROTL v2 32
     in (v0, v1, v2, v3))"

definition xor_v0 :: "u64 \<Rightarrow> sip_state \<Rightarrow> sip_state" where
  "xor_v0 d = (\<lambda>(v0, v1, v2, v3). (v0 XOR d, v1, v2, v3))"

definition xor_v2 :: "u64 \<Rightarrow> sip_state \<Rightarrow> sip_state" where
  "xor_v2 d = (\<lambda>(v0, v1, v2, v3). (v0, v1, v2 XOR d, v3))"

definition xor_v3 :: "u64 \<Rightarrow> sip_state \<Rightarrow> sip_state" where
  "xor_v3 d = (\<lambda>(v0, v1, v2, v3). (v0, v1, v2, v3 XOR d))"

definition xor_all :: "sip_state \<Rightarrow> u64" where
  "xor_all = (\<lambda>(v0, v1, v2, v3). v0 XOR v1 XOR v2 XOR v3)"

text \<open>The member \<^verbatim>\<open>count\<close> is an \<^verbatim>\<open>int\<close>, converted to 64 bits when it is used.\<close>

record CSipHasher =
  sip_v :: sip_state
  sip_count :: int

definition mk_CSipHasher :: "u64 \<Rightarrow> u64 \<Rightarrow> CSipHasher" where
  "mk_CSipHasher k0 k1 =
     \<lparr>sip_v = (0x736f6d6570736575 XOR k0, 0x646f72616e646f6d XOR k1, 0x6c7967656e657261 XOR k0, 0x7465646279746573 XOR k1), sip_count = 0\<rparr>"

definition sip_Write :: "CSipHasher \<Rightarrow> u64 \<Rightarrow> CSipHasher" where
  "sip_Write h data =
     (let v = xor_v3 data (sip_v h); v = SIPROUND v; v = SIPROUND v
      in \<lparr>sip_v = xor_v0 data v, sip_count = sip_count h + 1\<rparr>)"

definition sip_Finalize :: "CSipHasher \<Rightarrow> u64" where
  "sip_Finalize h =
     (let c = push_bit 59 (word_of_int (sip_count h));
          v = xor_v3 c (sip_v h); v = SIPROUND v; v = SIPROUND v;
          v = xor_v0 c v; v = xor_v2 0xFF v;
          v = SIPROUND v; v = SIPROUND v; v = SIPROUND v; v = SIPROUND v
      in xor_all v)"

definition GetUint64 :: "bytes \<Rightarrow> nat \<Rightarrow> u64" where
  "GetUint64 val pos =
     (let ptr = drop (pos * 8) val
      in ucast (ptr ! 0) OR push_bit 8 (ucast (ptr ! 1)) OR push_bit 16 (ucast (ptr ! 2)) OR push_bit 24 (ucast (ptr ! 3))
         OR push_bit 32 (ucast (ptr ! 4)) OR push_bit 40 (ucast (ptr ! 5)) OR push_bit 48 (ucast (ptr ! 6)) OR push_bit 56 (ucast (ptr ! 7)))"

definition SipHashUint256 :: "u64 \<Rightarrow> u64 \<Rightarrow> bytes \<Rightarrow> u64" where
  "SipHashUint256 k0 k1 val =
     (let d = GetUint64 val 0;
          v = (0x736f6d6570736575 XOR k0, 0x646f72616e646f6d XOR k1, 0x6c7967656e657261 XOR k0, 0x7465646279746573 XOR k1 XOR d);
          v = SIPROUND v; v = SIPROUND v; v = xor_v0 d v;
          d = GetUint64 val 1; v = xor_v3 d v; v = SIPROUND v; v = SIPROUND v; v = xor_v0 d v;
          d = GetUint64 val 2; v = xor_v3 d v; v = SIPROUND v; v = SIPROUND v; v = xor_v0 d v;
          d = GetUint64 val 3; v = xor_v3 d v; v = SIPROUND v; v = SIPROUND v; v = xor_v0 d v;
          v = xor_v3 (push_bit 59 4) v; v = SIPROUND v; v = SIPROUND v; v = xor_v0 (push_bit 59 4) v;
          v = xor_v2 0xFF v; v = SIPROUND v; v = SIPROUND v; v = SIPROUND v; v = SIPROUND v
      in xor_all v)"

definition SipHashUint256Extra :: "u64 \<Rightarrow> u64 \<Rightarrow> bytes \<Rightarrow> u32 \<Rightarrow> u64" where
  "SipHashUint256Extra k0 k1 val extra =
     (let d = GetUint64 val 0;
          v = (0x736f6d6570736575 XOR k0, 0x646f72616e646f6d XOR k1, 0x6c7967656e657261 XOR k0, 0x7465646279746573 XOR k1 XOR d);
          v = SIPROUND v; v = SIPROUND v; v = xor_v0 d v;
          d = GetUint64 val 1; v = xor_v3 d v; v = SIPROUND v; v = SIPROUND v; v = xor_v0 d v;
          d = GetUint64 val 2; v = xor_v3 d v; v = SIPROUND v; v = SIPROUND v; v = xor_v0 d v;
          d = GetUint64 val 3; v = xor_v3 d v; v = SIPROUND v; v = SIPROUND v; v = xor_v0 d v;
          d = push_bit 56 36 OR ucast extra; v = xor_v3 d v; v = SIPROUND v; v = SIPROUND v; v = xor_v0 d v;
          v = xor_v2 0xFF v; v = SIPROUND v; v = SIPROUND v; v = SIPROUND v; v = SIPROUND v
      in xor_all v)"

section \<open>SipHash-2-4 on byte strings\<close>

text \<open>
  The definition of the hash: the message is cut into little-endian words of eight bytes, and the
  bytes that are left, with the length of the message modulo 256 as the top byte, form a last word.
\<close>

definition sip_compress :: "u64 \<Rightarrow> sip_state \<Rightarrow> sip_state" where
  "sip_compress m v = xor_v0 m (SIPROUND (SIPROUND (xor_v3 m v)))"

fun le_word :: "bytes \<Rightarrow> u64" where
  "le_word [] = 0"
| "le_word (b # m) = ucast b OR push_bit 8 (le_word m)"

function sip_words :: "nat \<Rightarrow> bytes \<Rightarrow> u64 list" where
  "sip_words len m = (if length m \<ge> 8 then le_word (take 8 m) # sip_words len (drop 8 m)
                      else [push_bit 56 (of_nat len) OR le_word m])"
  by auto
termination by (relation "measure (\<lambda>(_, m). length m)") auto

declare sip_words.simps [simp del]

definition SipHash24 :: "u64 \<Rightarrow> u64 \<Rightarrow> bytes \<Rightarrow> u64" where
  "SipHash24 k0 k1 m =
     (let v = fold sip_compress (sip_words (length m) m)
                (0x736f6d6570736575 XOR k0, 0x646f72616e646f6d XOR k1, 0x6c7967656e657261 XOR k0, 0x7465646279746573 XOR k1)
      in xor_all ((SIPROUND ^^ 4) (xor_v2 0xFF v)))"

lemma le_word_8:
  "length m = 8 \<Longrightarrow> le_word m = GetUint64 m 0"
  by (auto simp: GetUint64_def length_Suc_conv eval_nat_numeral push_bit_or push_bit_push_bit ac_simps or.assoc)

lemma GetUint64_take: "8 * pos + 8 \<le> length m \<Longrightarrow> GetUint64 m pos = le_word (take 8 (drop (8 * pos) m))"
  by (simp add: le_word_8 GetUint64_def mult.commute)

lemma sip_words_append:
  assumes "length ds = 8 * n"
  shows "sip_words len (ds @ rest) = map (GetUint64 ds) [0..<n] @ sip_words len rest"
  using assms
proof (induction n arbitrary: ds)
  case (Suc n)
  have "sip_words len (ds @ rest) = le_word (take 8 ds) # sip_words len (drop 8 ds @ rest)"
    using Suc.prems by (subst sip_words.simps) simp
  also have "\<dots> = GetUint64 ds 0 # map (GetUint64 (drop 8 ds)) [0..<n] @ sip_words len rest"
    using Suc.IH [of "drop 8 ds"] Suc.prems GetUint64_take [of 0 ds] by simp
  also have "map (GetUint64 (drop 8 ds)) [0..<n] = map (\<lambda>i. GetUint64 ds (Suc i)) [0..<n]"
    by (simp add: GetUint64_def add.commute)
  also have "GetUint64 ds 0 # \<dots> @ sip_words len rest = map (GetUint64 ds) [0..<Suc n] @ sip_words len rest"
    by (simp only: upt_conv_Cons [OF zero_less_Suc] map_Suc_upt [symmetric] list.map map_map comp_def append_Cons)
  finally show ?case .
qed simp

lemma sip_count_tag: "push_bit 59 (word_of_nat n) = (push_bit 56 (of_nat (8 * n)) :: u64)"
proof -
  have "(of_nat (8 * n) :: u64) = push_bit 3 (of_nat n)" by (simp add: push_bit_eq_mult)
  then show ?thesis by (simp add: push_bit_push_bit)
qed

lemma fold_sip_Write:
  "fold (\<lambda>d h. sip_Write h d) ds h = \<lparr>sip_v = fold sip_compress ds (sip_v h), sip_count = sip_count h + int (length ds)\<rparr>"
  by (induction ds arbitrary: h) (simp_all add: sip_Write_def sip_compress_def Let_def)

lemma le_word_WriteLE32: "le_word (WriteLE32 x) = ucast x"
proof (rule bit_word_eqI)
  fix n
  assume "n < LENGTH(64)"
  show "bit (le_word (WriteLE32 x)) n = bit (ucast x :: u64) n"
    using bit_imp_le_length [of x n] by (cases "24 \<le> n"; cases "16 \<le> n"; cases "8 \<le> n") (auto simp: bit_simps possible_bit_word)
qed

lemma sip_words_less: "length m < 8 \<Longrightarrow> sip_words len m = [push_bit 56 (of_nat len) OR le_word m]"
  by (simp add: sip_words.simps)

text \<open>
  The three SipHash routines are SipHash-2-4: writing the words of a message of whole words and
  finalising gives the hash of its bytes, and the unrolled routines give the hash of the 32 bytes, and of these
  followed by the four bytes of \<^verbatim>\<open>extra\<close>.
\<close>

theorem siphash_correct:
  "(length m = 8 * n \<longrightarrow>
      sip_Finalize (fold (\<lambda>d h. sip_Write h d) (map (GetUint64 m) [0..<n]) (mk_CSipHasher k0 k1)) = SipHash24 k0 k1 m)
   \<and> (length val = 32 \<longrightarrow>
      SipHashUint256 k0 k1 val = SipHash24 k0 k1 val \<and> SipHashUint256Extra k0 k1 val extra = SipHash24 k0 k1 (val @ WriteLE32 extra))"
proof -
  have r4: "(SIPROUND ^^ 4) v = SIPROUND (SIPROUND (SIPROUND (SIPROUND v)))" for v by (simp add: eval_nat_numeral)
  have words: "sip_words len m = map (GetUint64 m) [0..<n] @ [push_bit 56 (of_nat len)]" if "length m = 8 * n" for m n len
    using sip_words_append [OF that, of len "[]"] by (simp add: sip_words_less)
  have 1: "sip_Finalize (fold (\<lambda>d h. sip_Write h d) (map (GetUint64 m) [0..<n]) (mk_CSipHasher k0 k1)) = SipHash24 k0 k1 m"
    if "length m = 8 * n" for m n
    unfolding SipHash24_def words [OF that] fold_sip_Write sip_Finalize_def mk_CSipHasher_def that
    by (simp add: Let_def r4 sip_compress_def sip_count_tag del: of_nat_mult)
  have u4: "[0..<4] = [0, 1, 2, 3 :: nat]" by (simp add: upt_rec)
  have start: "xor_v3 d (a, b, c, e) = (a, b, c, e XOR d)" for a b c d e by (simp add: xor_v3_def)
  have 2: "SipHashUint256 k0 k1 val = SipHash24 k0 k1 val" if "length val = 32"
    using that words [of val 4 32] unfolding SipHash24_def that
    by (simp add: SipHashUint256_def Let_def u4 r4 sip_compress_def start xor.assoc)
  have 3: "SipHashUint256Extra k0 k1 val extra = SipHash24 k0 k1 (val @ WriteLE32 extra)" if "length val = 32"
  proof -
    have "sip_words 36 (val @ WriteLE32 extra) = map (GetUint64 val) [0..<4] @ [push_bit 56 36 OR ucast extra]"
      using that sip_words_append [of val 4 36 "WriteLE32 extra"] sip_words_less [of "WriteLE32 extra" 36] le_word_WriteLE32 [of extra]
      by (simp del: le_word.simps)
    moreover have "length (val @ WriteLE32 extra) = 36" using that by simp
    ultimately show ?thesis unfolding SipHash24_def
      by (simp add: SipHashUint256Extra_def Let_def u4 r4 sip_compress_def start xor.assoc del: WriteLE32.simps length_append)
  qed
  show ?thesis using 1 2 3 by blast
qed

theorem siphash_correct_witness:
  "SipHashUint256 0x0706050403020100 0x0F0E0D0C0B0A0908 (map of_nat [0..<32])
     = SipHash24 0x0706050403020100 0x0F0E0D0C0B0A0908 (map of_nat [0..<32])"
  using siphash_correct [where ?k0.0 = "0x0706050403020100" and ?k1.0 = "0x0F0E0D0C0B0A0908" and val = "map of_nat [0..<32]"] by simp

end
