(* ===== verification/Bloom.thy ===== *)
theory Bloom
  imports KeyedHashes Standard Transaction
begin

text \<open>
  \<^verbatim>\<open>bloom.h\<close> and \<^verbatim>\<open>bloom.cpp\<close>: the Bloom filters that light clients load into a node, and the rolling filter
  that remembers the most recently inserted keys. The size and the number of hash functions a
  constructor computes in floating point are its arguments here. \<^verbatim>\<open>Hash\<close> divides by the number
  of bits: \<open>None\<close> is the division by zero when there are none.
\<close>

definition MAX_BLOOM_FILTER_SIZE :: nat where "MAX_BLOOM_FILTER_SIZE = 36000"

definition MAX_HASH_FUNCS :: u32 where "MAX_HASH_FUNCS = 50"

definition BLOOM_UPDATE_NONE :: u8 where "BLOOM_UPDATE_NONE = 0"

definition BLOOM_UPDATE_ALL :: u8 where "BLOOM_UPDATE_ALL = 1"

definition BLOOM_UPDATE_P2PUBKEY_ONLY :: u8 where "BLOOM_UPDATE_P2PUBKEY_ONLY = 2"

definition BLOOM_UPDATE_MASK :: u8 where "BLOOM_UPDATE_MASK = 3"

record CBloomFilter =
  vData :: bytes
  isFull :: bool
  isEmpty :: bool
  nHashFuncs :: u32
  nTweak :: u32
  nFlags :: u8

section \<open>Construction and serialization\<close>

text \<open>\<open>nBits\<close> and \<open>nFuncs size\<close> are the truncated values of the two formulas; \<open>nFuncs\<close> is called on the size of \<^verbatim>\<open>vData\<close>.\<close>

definition mk_CBloomFilter :: "nat \<Rightarrow> (nat \<Rightarrow> u32) \<Rightarrow> u32 \<Rightarrow> u8 \<Rightarrow> CBloomFilter" where
  "mk_CBloomFilter nBits nFuncs nTweakIn nFlagsIn =
     (let size = min nBits (MAX_BLOOM_FILTER_SIZE * 8) div 8
      in \<lparr>vData = replicate size 0, isFull = False, isEmpty = True, nHashFuncs = min (nFuncs size) MAX_HASH_FUNCS,
          nTweak = nTweakIn, nFlags = nFlagsIn\<rparr>)"

definition mk_CBloomFilter_rolling :: "nat \<Rightarrow> (nat \<Rightarrow> u32) \<Rightarrow> u32 \<Rightarrow> CBloomFilter" where
  "mk_CBloomFilter_rolling nBits nFuncs nTweakIn =
     (let size = nBits div 8
      in \<lparr>vData = replicate size 0, isFull = False, isEmpty = True, nHashFuncs = nFuncs size, nTweak = nTweakIn, nFlags = BLOOM_UPDATE_NONE\<rparr>)"

definition CBloomFilter_default :: CBloomFilter where
  "CBloomFilter_default = \<lparr>vData = [], isFull = True, isEmpty = False, nHashFuncs = 0, nTweak = 0, nFlags = 0\<rparr>"

definition ser_bloom :: "CBloomFilter \<Rightarrow> bytes" where
  "ser_bloom f = ser_bytes (vData f) @ WriteLE32 (nHashFuncs f) @ WriteLE32 (nTweak f) @ [nFlags f]"

text \<open>Reading sets the serialized members of an object and leaves the others.\<close>

definition des_bloom :: "CBloomFilter \<Rightarrow> CBloomFilter reader" where
  "des_bloom f s =
     (case des_bytes s of
        None \<Rightarrow> None
      | Some (d, s) \<Rightarrow> (case ser_readdata32 s of
          None \<Rightarrow> None
        | Some (h, s) \<Rightarrow> (case ser_readdata32 s of
            None \<Rightarrow> None
          | Some (t, s) \<Rightarrow> (case ser_readdata8 s of
              None \<Rightarrow> None
            | Some (g, s) \<Rightarrow> Some (f\<lparr>vData := d, nHashFuncs := h, nTweak := t, nFlags := g\<rparr>, s)))))"

section \<open>Operations\<close>

definition bloom_Hash :: "CBloomFilter \<Rightarrow> u32 \<Rightarrow> bytes \<Rightarrow> nat option" where
  "bloom_Hash f nHashNum vDataToHash =
     (if length (vData f) = 0 then None
      else Some (unat (MurmurHash3 (nHashNum * 0xFBA4C795 + nTweak f) vDataToHash) mod (length (vData f) * 8)))"

fun insert_loop :: "nat list \<Rightarrow> bytes \<Rightarrow> CBloomFilter \<Rightarrow> CBloomFilter option" where
  "insert_loop [] vKey f = Some f"
| "insert_loop (i # is) vKey f =
     (case bloom_Hash f (of_nat i) vKey of
        None \<Rightarrow> None
      | Some nIndex \<Rightarrow>
          insert_loop is vKey (f\<lparr>vData := (vData f)[nIndex div 8 := vData f ! (nIndex div 8) OR push_bit (7 AND nIndex) 1]\<rparr>))"

definition bloom_insert :: "CBloomFilter \<Rightarrow> bytes \<Rightarrow> CBloomFilter option" where
  "bloom_insert f vKey =
     (if isFull f then Some f
      else map_option (\<lambda>f. f\<lparr>isEmpty := False\<rparr>) (insert_loop [0..<unat (nHashFuncs f)] vKey f))"

definition bloom_insert_outpoint :: "CBloomFilter \<Rightarrow> COutPoint \<Rightarrow> CBloomFilter option" where
  "bloom_insert_outpoint f outpoint = bloom_insert f (ser_outpoint outpoint)"

fun contains_loop :: "nat list \<Rightarrow> bytes \<Rightarrow> CBloomFilter \<Rightarrow> bool option" where
  "contains_loop [] vKey f = Some True"
| "contains_loop (i # is) vKey f =
     (case bloom_Hash f (of_nat i) vKey of
        None \<Rightarrow> None
      | Some nIndex \<Rightarrow>
          if vData f ! (nIndex div 8) AND push_bit (7 AND nIndex) 1 = 0 then Some False else contains_loop is vKey f)"

definition bloom_contains :: "CBloomFilter \<Rightarrow> bytes \<Rightarrow> bool option" where
  "bloom_contains f vKey =
     (if isFull f then Some True
      else if isEmpty f then Some False
      else contains_loop [0..<unat (nHashFuncs f)] vKey f)"

definition bloom_contains_outpoint :: "CBloomFilter \<Rightarrow> COutPoint \<Rightarrow> bool option" where
  "bloom_contains_outpoint f outpoint = bloom_contains f (ser_outpoint outpoint)"

definition bloom_clear :: "CBloomFilter \<Rightarrow> CBloomFilter" where
  "bloom_clear f = f\<lparr>vData := replicate (length (vData f)) 0, isFull := False, isEmpty := True\<rparr>"

definition bloom_reset :: "CBloomFilter \<Rightarrow> u32 \<Rightarrow> CBloomFilter" where
  "bloom_reset f nNewTweak = (bloom_clear f)\<lparr>nTweak := nNewTweak\<rparr>"

definition IsWithinSizeConstraints :: "CBloomFilter \<Rightarrow> bool" where
  "IsWithinSizeConstraints f \<longleftrightarrow> length (vData f) \<le> MAX_BLOOM_FILTER_SIZE \<and> nHashFuncs f \<le> MAX_HASH_FUNCS"

definition UpdateEmptyFull :: "CBloomFilter \<Rightarrow> CBloomFilter" where
  "UpdateEmptyFull f =
     (case fold (\<lambda>b (full, empt). (full \<and> b = 0xff, empt \<and> b = 0)) (vData f) (True, True) of
        (full, empt) \<Rightarrow> f\<lparr>isFull := full, isEmpty := empt\<rparr>)"

text \<open>The loop over the data elements of a script: whether one of them is in the filter.\<close>

function scan_elements :: "CBloomFilter \<Rightarrow> bytes \<Rightarrow> bool option" where
  "scan_elements f pc =
     (if pc = [] then Some False
      else case GetOp2 pc of
        (None, _) \<Rightarrow> Some False
      | (Some (opcode, data), pc) \<Rightarrow>
          if data = [] then scan_elements f pc
          else (case bloom_contains f data of
                  None \<Rightarrow> None
                | Some True \<Rightarrow> Some True
                | Some False \<Rightarrow> scan_elements f pc))"
  by auto
termination
  by (relation "measure (\<lambda>(_, pc). length pc)") (auto dest: GetOp2_shorter)

declare scan_elements.simps [simp del]

definition update_matched :: "CBloomFilter \<Rightarrow> bytes \<Rightarrow> nat \<Rightarrow> CScript \<Rightarrow> CBloomFilter option" where
  "update_matched f hash i script =
     (if nFlags f AND BLOOM_UPDATE_MASK = BLOOM_UPDATE_ALL
      then bloom_insert_outpoint f \<lparr>outHash = hash, outN = of_nat i\<rparr>
      else if nFlags f AND BLOOM_UPDATE_MASK = BLOOM_UPDATE_P2PUBKEY_ONLY
      then (case Solver script of (ok, type, vSolutions) \<Rightarrow>
              if ok \<and> (type = TX_PUBKEY \<or> type = TX_MULTISIG)
              then bloom_insert_outpoint f \<lparr>outHash = hash, outN = of_nat i\<rparr> else Some f)
      else Some f)"

fun match_outputs :: "bytes \<Rightarrow> nat \<Rightarrow> CTxOut list \<Rightarrow> bool \<Rightarrow> CBloomFilter \<Rightarrow> (bool \<times> CBloomFilter) option" where
  "match_outputs hash i [] fFound f = Some (fFound, f)"
| "match_outputs hash i (txout # outs) fFound f =
     (case scan_elements f (scriptPubKey txout) of
        None \<Rightarrow> None
      | Some False \<Rightarrow> match_outputs hash (Suc i) outs fFound f
      | Some True \<Rightarrow> (case update_matched f hash i (scriptPubKey txout) of
                       None \<Rightarrow> None
                     | Some f \<Rightarrow> match_outputs hash (Suc i) outs True f))"

fun match_inputs :: "CTxIn list \<Rightarrow> CBloomFilter \<Rightarrow> bool option" where
  "match_inputs [] f = Some False"
| "match_inputs (txin # ins) f =
     (case bloom_contains_outpoint f (prevout txin) of
        None \<Rightarrow> None
      | Some True \<Rightarrow> Some True
      | Some False \<Rightarrow> (case scan_elements f (scriptSig txin) of
                        None \<Rightarrow> None
                      | Some True \<Rightarrow> Some True
                      | Some False \<Rightarrow> match_inputs ins f))"

definition IsRelevantAndUpdate :: "crypto \<Rightarrow> CBloomFilter \<Rightarrow> CTransaction \<Rightarrow> (bool \<times> CBloomFilter) option" where
  "IsRelevantAndUpdate cr f tx =
     (if isFull f then Some (True, f)
      else if isEmpty f then Some (False, f)
      else let hash = tx_GetHash cr tx
           in case bloom_contains f hash of
                None \<Rightarrow> None
              | Some fFound \<Rightarrow>
                  (case match_outputs hash 0 (vout tx) fFound f of
                     None \<Rightarrow> None
                   | Some (fFound, f) \<Rightarrow>
                       if fFound then Some (True, f) else map_option (\<lambda>r. (r, f)) (match_inputs (vin tx) f)))"

section \<open>The rolling filter\<close>

record CRollingBloomFilter =
  nBloomSize :: nat
  nInsertions :: nat
  b1 :: CBloomFilter
  b2 :: CBloomFilter

text \<open>The argument \<open>nNewTweak\<close> is the random number.\<close>

definition rolling_reset :: "CRollingBloomFilter \<Rightarrow> u32 \<Rightarrow> CRollingBloomFilter" where
  "rolling_reset r nNewTweak = r\<lparr>b1 := bloom_reset (b1 r) nNewTweak, b2 := bloom_reset (b2 r) nNewTweak, nInsertions := 0\<rparr>"

definition mk_CRollingBloomFilter :: "nat \<Rightarrow> nat \<Rightarrow> (nat \<Rightarrow> u32) \<Rightarrow> u32 \<Rightarrow> CRollingBloomFilter" where
  "mk_CRollingBloomFilter nElements nBits nFuncs nNewTweak =
     rolling_reset \<lparr>nBloomSize = nElements * 2 mod 2 ^ 32, nInsertions = 0, b1 = mk_CBloomFilter_rolling nBits nFuncs 0,
                    b2 = mk_CBloomFilter_rolling nBits nFuncs 0\<rparr> nNewTweak"

definition rolling_insert :: "CRollingBloomFilter \<Rightarrow> bytes \<Rightarrow> CRollingBloomFilter option" where
  "rolling_insert r vKey =
     (let r = (if nInsertions r = 0 then r\<lparr>b1 := bloom_clear (b1 r)\<rparr>
               else if nInsertions r = nBloomSize r div 2 then r\<lparr>b2 := bloom_clear (b2 r)\<rparr> else r)
      in case bloom_insert (b1 r) vKey of
           None \<Rightarrow> None
         | Some f1 \<Rightarrow> (case bloom_insert (b2 r) vKey of
             None \<Rightarrow> None
           | Some f2 \<Rightarrow>
               let n = (nInsertions r + 1) mod 2 ^ 32
               in Some (r\<lparr>b1 := f1, b2 := f2, nInsertions := if n = nBloomSize r then 0 else n\<rparr>)))"

definition rolling_contains :: "CRollingBloomFilter \<Rightarrow> bytes \<Rightarrow> bool option" where
  "rolling_contains r vKey = (if nInsertions r < nBloomSize r div 2 then bloom_contains (b2 r) vKey else bloom_contains (b1 r) vKey)"

section \<open>What a membership filter promises\<close>

text \<open>
  A filter accepts every key that was inserted since it was cleared, whatever else was inserted.
\<close>

locale membership_filter =
  fixes ok :: "'f \<Rightarrow> bool" and ins :: "'f \<Rightarrow> 'k \<Rightarrow> 'f option" and con :: "'f \<Rightarrow> 'k \<Rightarrow> bool option"
  assumes ins_total: "ok f \<Longrightarrow> \<exists>f'. ins f k = Some f' \<and> ok f'"
    and con_total: "ok f \<Longrightarrow> \<exists>b. con f k = Some b"
    and ins_con: "ok f \<Longrightarrow> ins f k = Some f' \<Longrightarrow> con f' k = Some True"
    and ins_mono: "ok f \<Longrightarrow> ins f k = Some f' \<Longrightarrow> con f x = Some True \<Longrightarrow> con f' x = Some True"
begin

definition covers :: "'f \<Rightarrow> 'k list \<Rightarrow> bool" where
  "covers f ks \<longleftrightarrow> ok f \<and> (\<forall>k \<in> set ks. con f k = Some True)"

lemma covers_insert: "covers f ks \<Longrightarrow> \<exists>f'. ins f k = Some f' \<and> covers f' (k # ks)"
  using ins_total ins_con ins_mono unfolding covers_def by (metis set_ConsD)

lemma covers_subset: "covers f ks \<Longrightarrow> set ks' \<subseteq> set ks \<Longrightarrow> covers f ks'"
  unfolding covers_def by blast

end

locale clearable_filter = membership_filter +
  fixes clr :: "'a \<Rightarrow> 'a"
  assumes clr_ok: "ok f \<Longrightarrow> ok (clr f)"
begin

lemma covers_clear: "covers f ks \<Longrightarrow> covers (clr f) []"
  using clr_ok unfolding covers_def by simp

end

section \<open>Bits of the filter\<close>

definition bit_set :: "bytes \<Rightarrow> nat \<Rightarrow> bool" where
  "bit_set d n \<longleftrightarrow> bit (d ! (n div 8)) (n mod 8)"

definition bloom_index :: "CBloomFilter \<Rightarrow> bytes \<Rightarrow> nat \<Rightarrow> nat" where
  "bloom_index f k i = unat (MurmurHash3 (of_nat i * 0xFBA4C795 + nTweak f) k) mod (length (vData f) * 8)"

lemma and_7: "7 AND n = (n :: nat) mod 8"
  using take_bit_eq_mask [of 3 n] by (simp add: take_bit_eq_mod mask_eq_exp_minus_1 and.commute)

lemma bloom_Hash_index: "vData f \<noteq> [] \<Longrightarrow> bloom_Hash f (of_nat i) k = Some (bloom_index f k i)"
  by (simp add: bloom_Hash_def bloom_index_def)

lemma bloom_index_less: "vData f \<noteq> [] \<Longrightarrow> bloom_index f k i div 8 < length (vData f)"
  by (simp add: bloom_index_def less_mult_imp_div_less)

lemma bloom_index_update [simp]: "length d = length (vData f) \<Longrightarrow> bloom_index (f\<lparr>vData := d\<rparr>) = bloom_index f"
  by (simp add: bloom_index_def fun_eq_iff)

lemma bit_set_update:
  assumes "m div 8 < length d"
  shows "bit_set (d[m div 8 := d ! (m div 8) OR push_bit (7 AND m) 1]) n \<longleftrightarrow> bit_set d n \<or> n = m"
proof (cases "n div 8 = m div 8")
  case True
  moreover have "n mod 8 = m mod 8 \<longleftrightarrow> n = m" using True by (metis div_mult_mod_eq)
  ultimately show ?thesis using assms by (auto simp: bit_set_def and_7 bit_simps)
next
  case False
  then show ?thesis by (auto simp: bit_set_def)
qed

lemma insert_loop_spec:
  assumes "vData f \<noteq> []"
  shows "\<exists>d. insert_loop is k f = Some (f\<lparr>vData := d\<rparr>) \<and> length d = length (vData f)
           \<and> (\<forall>n. bit_set d n \<longleftrightarrow> bit_set (vData f) n \<or> n \<in> bloom_index f k ` set is)"
  using assms
proof (induction "is" arbitrary: f)
  case Nil
  then show ?case by (intro exI [of _ "vData f"]) simp
next
  case (Cons i "is")
  let ?m = "bloom_index f k i"
  let ?g = "f\<lparr>vData := (vData f)[?m div 8 := vData f ! (?m div 8) OR push_bit (7 AND ?m) 1]\<rparr>"
  obtain d where "insert_loop is k ?g = Some (?g\<lparr>vData := d\<rparr>)" "length d = length (vData ?g)"
    "\<forall>n. bit_set d n \<longleftrightarrow> bit_set (vData ?g) n \<or> n \<in> bloom_index ?g k ` set is"
    using Cons.IH [of ?g] Cons.prems by auto
  then show ?case
    using Cons.prems bit_set_update [OF bloom_index_less [OF Cons.prems, of k i]]
    by (intro exI [of _ d]) (auto simp: bloom_Hash_index)
qed

lemma contains_loop_spec:
  assumes "vData f \<noteq> []"
  shows "contains_loop is k f = Some (\<forall>i \<in> set is. bit_set (vData f) (bloom_index f k i))"
  using assms by (induction "is") (simp_all add: bloom_Hash_index bit_set_def and_7 bit_iff_and_push_bit_not_eq_0)

text \<open>A filter with no bits is only usable when it is full or has no hash functions.\<close>

definition bloom_ok :: "CBloomFilter \<Rightarrow> bool" where
  "bloom_ok f \<longleftrightarrow> vData f = [] \<longrightarrow> isFull f \<or> nHashFuncs f = 0"

definition sized_ok :: "CBloomFilter \<Rightarrow> bool" where
  "sized_ok f \<longleftrightarrow> vData f = [] \<longrightarrow> nHashFuncs f = 0"

lemma bloom_insert_spec:
  assumes "bloom_ok f" "\<not> isFull f"
  obtains d where "bloom_insert f k = Some (f\<lparr>vData := d, isEmpty := False\<rparr>)" "length d = length (vData f)"
    "\<And>n. bit_set d n \<longleftrightarrow> bit_set (vData f) n \<or> n \<in> bloom_index f k ` {0..<unat (nHashFuncs f)}"
proof (cases "vData f = []")
  case True
  then show thesis using that [of "vData f"] assms by (auto simp: bloom_insert_def bloom_ok_def)
next
  case False
  then show thesis using that insert_loop_spec [OF False, of "[0..<unat (nHashFuncs f)]" k] assms(2) by (auto simp: bloom_insert_def)
qed

lemma bloom_contains_spec:
  assumes "bloom_ok f"
  shows "bloom_contains f k = Some (isFull f \<or> \<not> isEmpty f \<and> (\<forall>i < unat (nHashFuncs f). bit_set (vData f) (bloom_index f k i)))"
proof (cases "vData f = []")
  case True
  then show ?thesis using assms by (auto simp: bloom_contains_def bloom_ok_def)
next
  case False
  then show ?thesis by (auto simp: bloom_contains_def contains_loop_spec)
qed

lemma bloom_insert_ok:
  assumes "bloom_ok f" "bloom_insert f k = Some f'"
  shows "bloom_ok f' \<and> nFlags f' = nFlags f \<and> nHashFuncs f' = nHashFuncs f \<and> length (vData f') = length (vData f) \<and> isFull f' = isFull f"
proof (cases "isFull f")
  case True
  then show ?thesis using assms by (simp add: bloom_insert_def)
next
  case False
  obtain d where "bloom_insert f k = Some (f\<lparr>vData := d, isEmpty := False\<rparr>)" "length d = length (vData f)"
    using bloom_insert_spec [OF assms(1) False] by metis
  then show ?thesis using assms by (auto simp: bloom_ok_def)
qed

lemma bloom_insert_total: "bloom_ok f \<Longrightarrow> \<exists>f'. bloom_insert f k = Some f'"
  by (cases "isFull f") (simp add: bloom_insert_def, metis bloom_insert_spec)

lemma bloom_insert_contains:
  assumes "bloom_ok f" "bloom_insert f k = Some f'"
  shows "bloom_contains f' k = Some True" "bloom_contains f x = Some True \<Longrightarrow> bloom_contains f' x = Some True"
proof -
  have ok': "bloom_ok f'" using bloom_insert_ok [OF assms] by blast
  have *: "bloom_contains f' k = Some True \<and> (bloom_contains f x = Some True \<longrightarrow> bloom_contains f' x = Some True)" for x
  proof (cases "isFull f")
    case True
    then show ?thesis using assms by (simp add: bloom_insert_def bloom_contains_def)
  next
    case False
    obtain d where d: "bloom_insert f k = Some (f\<lparr>vData := d, isEmpty := False\<rparr>)" "length d = length (vData f)"
      "\<And>n. bit_set d n \<longleftrightarrow> bit_set (vData f) n \<or> n \<in> bloom_index f k ` {0..<unat (nHashFuncs f)}"
      using bloom_insert_spec [OF assms(1) False] by metis
    have "bloom_index f' y = bloom_index f y" for y using d assms(2) by (auto simp: bloom_index_def fun_eq_iff)
    then show ?thesis using d assms ok' by (auto simp: bloom_contains_spec)
  qed
  show "bloom_contains f' k = Some True" "bloom_contains f x = Some True \<Longrightarrow> bloom_contains f' x = Some True" using * by blast+
qed

interpretation bloom: membership_filter bloom_ok bloom_insert bloom_contains
  by unfold_locales (metis bloom_insert_total bloom_insert_ok, simp add: bloom_contains_spec, (erule (1) bloom_insert_contains)+)

interpretation sized: clearable_filter sized_ok bloom_insert bloom_contains bloom_clear
proof unfold_locales
  have ok: "bloom_ok f" if "sized_ok f" for f using that by (simp add: sized_ok_def bloom_ok_def)
  show "\<exists>f'. bloom_insert f k = Some f' \<and> sized_ok f'" if "sized_ok f" for f k
  proof -
    note f = that ok [OF that]
    obtain f' where f': "bloom_insert f k = Some f'" using bloom.ins_total [OF f(2)] by blast
    then show ?thesis using f(1) bloom_insert_ok [OF f(2) f'] by (auto simp: sized_ok_def)
  qed
  show "\<exists>b. bloom_contains f k = Some b" if "sized_ok f" for f k using that ok bloom.con_total by blast
  show "bloom_contains f' k = Some True" if "sized_ok f" "bloom_insert f k = Some f'" for f k f' using that ok bloom.ins_con by blast
  show "bloom_contains f' x = Some True" if "sized_ok f" "bloom_insert f k = Some f'" "bloom_contains f x = Some True" for f k f' x
    using that ok bloom.ins_mono by blast
  show "sized_ok (bloom_clear f)" if "sized_ok f" for f using that by (simp add: sized_ok_def bloom_clear_def)
qed

text \<open>A filter as \<^verbatim>\<open>filterload\<close> reads it, before \<^verbatim>\<open>UpdateEmptyFull\<close> looks at its bits.\<close>

definition loaded_ok :: "CBloomFilter \<Rightarrow> bool" where
  "loaded_ok f \<longleftrightarrow> bytes_ok (vData f) \<and> isFull f \<and> \<not> isEmpty f"

interpretation bloom_codec: codec ser_bloom "des_bloom CBloomFilter_default" loaded_ok
  by unfold_locales
    (simp add: ser_bloom_def des_bloom_def loaded_ok_def des_ser_bytes readdata_write ser_readdata8_def CBloomFilter_default_def
      del: WriteLE32.simps)

section \<open>Relevant transactions\<close>

text \<open>The non-empty data elements of a script, up to the first one that cannot be read.\<close>

function elements :: "bytes \<Rightarrow> bytes list" where
  "elements pc =
     (if pc = [] then []
      else case GetOp2 pc of (None, _) \<Rightarrow> [] | (Some (_, data), pc) \<Rightarrow> (if data = [] then [] else [data]) @ elements pc)"
  by auto
termination
  by (relation "measure length") (auto dest: GetOp2_shorter)

declare elements.simps [simp del]

definition has :: "CBloomFilter \<Rightarrow> bytes \<Rightarrow> bool" where
  "has f k \<longleftrightarrow> bloom_contains f k = Some True"

definition has_element :: "CBloomFilter \<Rightarrow> CScript \<Rightarrow> bool" where
  "has_element f s \<longleftrightarrow> list_ex (has f) (elements s)"

definition relevant :: "crypto \<Rightarrow> CBloomFilter \<Rightarrow> CTransaction \<Rightarrow> bool" where
  "relevant cr f tx \<longleftrightarrow> has f (tx_GetHash cr tx) \<or> list_ex (\<lambda>out. has_element f (scriptPubKey out)) (vout tx)
     \<or> list_ex (\<lambda>i. has f (ser_outpoint (prevout i)) \<or> has_element f (scriptSig i)) (vin tx)"

text \<open>Whether the flags ask for a matched output to be inserted.\<close>

definition watches :: "CBloomFilter \<Rightarrow> CScript \<Rightarrow> bool" where
  "watches f s \<longleftrightarrow> nFlags f AND BLOOM_UPDATE_MASK = BLOOM_UPDATE_ALL
     \<or> nFlags f AND BLOOM_UPDATE_MASK = BLOOM_UPDATE_P2PUBKEY_ONLY
       \<and> (case Solver s of (ok, type, _) \<Rightarrow> ok \<and> (type = TX_PUBKEY \<or> type = TX_MULTISIG))"

definition grows :: "CBloomFilter \<Rightarrow> CBloomFilter \<Rightarrow> bool" where
  "grows f f' \<longleftrightarrow> bloom_ok f' \<and> nFlags f' = nFlags f \<and> (\<forall>k. has f k \<longrightarrow> has f' k)"

lemma grows_refl: "bloom_ok f \<Longrightarrow> grows f f"
  by (simp add: grows_def)

lemma grows_trans: "grows f g \<Longrightarrow> grows g h \<Longrightarrow> grows f h"
  by (simp add: grows_def)

lemma grows_element: "grows f g \<Longrightarrow> has_element f s \<Longrightarrow> has_element g s"
  by (auto simp: grows_def has_element_def list_ex_iff)

lemma contains_has: "bloom_ok f \<Longrightarrow> bloom_contains f k = Some (has f k)"
  using bloom.con_total [of f k] by (auto simp: has_def)

lemma scan_elements_spec: "bloom_ok f \<Longrightarrow> scan_elements f pc = Some (has_element f pc)"
proof (induction pc rule: elements.induct)
  case (1 pc)
  show ?case
  proof (cases "pc = []")
    case True
    then show ?thesis by (simp add: scan_elements.simps has_element_def elements.simps)
  next
    case False
    obtain r pc' where g: "GetOp2 pc = (r, pc')" by fastforce
    show ?thesis
    proof (cases r)
      case None
      then show ?thesis using g False by (simp add: scan_elements.simps [of f pc] has_element_def elements.simps [of pc])
    next
      case (Some od)
      obtain opc data where od: "od = (opc, data)" by fastforce
      have IH: "scan_elements f pc' = Some (has_element f pc')"
        using 1(1) [OF False g [symmetric] Some od [symmetric] 1(2)] .
      have "scan_elements f pc = (if data \<noteq> [] \<and> has f data then Some True else scan_elements f pc')"
        using g False Some od contains_has [OF 1(2), of data] by (subst scan_elements.simps) (auto split: bool.splits)
      moreover have "has_element f pc \<longleftrightarrow> (data \<noteq> [] \<and> has f data) \<or> has_element f pc'"
        using g False Some od by (simp add: has_element_def elements.simps [of pc])
      ultimately show ?thesis using IH by simp
    qed
  qed
qed

lemma insert_grows:
  assumes "bloom_ok f"
  obtains f' where "bloom_insert f k = Some f'" "grows f f'" "has f' k"
  using bloom.ins_total [OF assms, of k] bloom_insert_ok [OF assms] bloom.ins_con [OF assms] bloom.ins_mono [OF assms]
  unfolding grows_def has_def by metis

lemma update_matched_spec:
  assumes "bloom_ok f"
  obtains f' where "update_matched f hash i s = Some f'" "grows f f'"
    "watches f s \<Longrightarrow> has f' (ser_outpoint \<lparr>outHash = hash, outN = of_nat i\<rparr>)"
proof (cases "watches f s")
  case True
  then have "update_matched f hash i s = bloom_insert f (ser_outpoint \<lparr>outHash = hash, outN = of_nat i\<rparr>)"
    by (auto simp: update_matched_def watches_def bloom_insert_outpoint_def split: prod.splits)
  then show thesis using that insert_grows [OF assms] by metis
next
  case False
  then have "update_matched f hash i s = Some f"
    by (auto simp: update_matched_def watches_def split: prod.splits)
  then show thesis using that False grows_refl [OF assms] by blast
qed

lemma watches_grows: "grows f g \<Longrightarrow> watches g s = watches f s"
  by (simp add: grows_def watches_def)

lemma match_outputs_spec:
  assumes "bloom_ok f"
  shows "\<exists>b f'. match_outputs hash i outs fFound f = Some (b, f') \<and> grows f f'
     \<and> (fFound \<or> list_ex (\<lambda>out. has_element f (scriptPubKey out)) outs \<longrightarrow> b)
     \<and> (b \<longrightarrow> fFound \<or> list_ex (\<lambda>out. has_element f' (scriptPubKey out)) outs) \<and> (\<not> b \<longrightarrow> f' = f)
     \<and> (\<forall>j < length outs. has_element f (scriptPubKey (outs ! j)) \<and> watches f (scriptPubKey (outs ! j)) \<longrightarrow>
          has f' (ser_outpoint \<lparr>outHash = hash, outN = of_nat (i + j)\<rparr>))"
  using assms
proof (induction outs arbitrary: i fFound f)
  case Nil
  then show ?case by (simp add: grows_refl)
next
  case (Cons out outs)
  show ?case
  proof (cases "has_element f (scriptPubKey out)")
    case True
    obtain g where g: "update_matched f hash i (scriptPubKey out) = Some g" "grows f g"
      "watches f (scriptPubKey out) \<Longrightarrow> has g (ser_outpoint \<lparr>outHash = hash, outN = of_nat i\<rparr>)"
      using update_matched_spec [OF Cons.prems] by metis
    have "bloom_ok g" using g(2) by (simp add: grows_def)
    from Cons.IH [OF this, of "Suc i" True] obtain f' where f': "match_outputs hash (Suc i) outs True g = Some (True, f')" "grows g f'"
      "\<forall>j < length outs. has_element g (scriptPubKey (outs ! j)) \<and> watches g (scriptPubKey (outs ! j)) \<longrightarrow>
          has f' (ser_outpoint \<lparr>outHash = hash, outN = of_nat (Suc i + j)\<rparr>)" by auto
    have "has f' (ser_outpoint \<lparr>outHash = hash, outN = of_nat (i + j)\<rparr>)"
      if "j < length (out # outs)" "has_element f (scriptPubKey ((out # outs) ! j))" "watches f (scriptPubKey ((out # outs) ! j))" for j
    proof (cases j)
      case 0
      then show ?thesis using that g(3) f'(2) by (simp add: grows_def)
    next
      case (Suc j')
      then show ?thesis using that f'(3) grows_element [OF g(2)] watches_grows [OF g(2)] by (auto dest!: spec [of _ j'])
    qed
    then show ?thesis using True Cons.prems g f' grows_trans [OF g(2) f'(2)] grows_element [OF grows_trans [OF g(2) f'(2)] True]
      by (intro exI [of _ True] exI [of _ f']) (simp add: scan_elements_spec)
  next
    case False
    obtain b f' where f': "match_outputs hash (Suc i) outs fFound f = Some (b, f')" "grows f f'"
      "fFound \<or> list_ex (\<lambda>out. has_element f (scriptPubKey out)) outs \<longrightarrow> b"
      "b \<longrightarrow> fFound \<or> list_ex (\<lambda>out. has_element f' (scriptPubKey out)) outs" "\<not> b \<longrightarrow> f' = f"
      "\<forall>j < length outs. has_element f (scriptPubKey (outs ! j)) \<and> watches f (scriptPubKey (outs ! j)) \<longrightarrow>
          has f' (ser_outpoint \<lparr>outHash = hash, outN = of_nat (Suc i + j)\<rparr>)" using Cons.IH [OF Cons.prems, of "Suc i" fFound] by blast
    have "has f' (ser_outpoint \<lparr>outHash = hash, outN = of_nat (i + j)\<rparr>)"
      if "j < length (out # outs)" "has_element f (scriptPubKey ((out # outs) ! j))" "watches f (scriptPubKey ((out # outs) ! j))" for j
      using that f'(6) False by (cases j) auto
    then show ?thesis using False Cons.prems f'(1-5) by (intro exI [of _ b] exI [of _ f']) (auto simp: scan_elements_spec)
  qed
qed

lemma match_inputs_spec:
  "bloom_ok f \<Longrightarrow> match_inputs ins f = Some (list_ex (\<lambda>i. has f (ser_outpoint (prevout i)) \<or> has_element f (scriptSig i)) ins)"
  by (induction ins) (auto simp: bloom_contains_outpoint_def contains_has scan_elements_spec split: bool.splits)

lemma UpdateEmptyFull_spec:
  "UpdateEmptyFull f = f\<lparr>isFull := list_all (\<lambda>b. b = 0xff) (vData f), isEmpty := list_all (\<lambda>b. b = 0) (vData f)\<rparr>"
proof -
  have "fold (\<lambda>b (full, empt). (full \<and> b = 0xff, empt \<and> b = 0)) d (x, y)
      = (x \<and> list_all (\<lambda>b. b = 0xff) d, y \<and> list_all (\<lambda>b. b = 0) d)" for x y and d :: bytes
    by (induction d arbitrary: x y) auto
  then show ?thesis by (simp add: UpdateEmptyFull_def)
qed

section \<open>Histories of the rolling filter\<close>

text \<open>The states a rolling filter can reach, with the keys inserted since the last reset, newest first.\<close>

inductive rolling_reach :: "nat \<Rightarrow> nat \<Rightarrow> (nat \<Rightarrow> u32) \<Rightarrow> CRollingBloomFilter \<Rightarrow> bytes list \<Rightarrow> bool" for nElements nBits nFuncs where
  rr_new: "rolling_reach nElements nBits nFuncs (mk_CRollingBloomFilter nElements nBits nFuncs nNewTweak) []"
| rr_insert: "rolling_reach nElements nBits nFuncs r h \<Longrightarrow> rolling_insert r k = Some r' \<Longrightarrow> rolling_reach nElements nBits nFuncs r' (k # h)"
| rr_reset: "rolling_reach nElements nBits nFuncs r h \<Longrightarrow> rolling_reach nElements nBits nFuncs (rolling_reset r nNewTweak) []"

definition rolling_ok :: "nat \<Rightarrow> CRollingBloomFilter \<Rightarrow> bytes list \<Rightarrow> bool" where
  "rolling_ok N r h \<longleftrightarrow> nBloomSize r = 2 * N \<and> nInsertions r < 2 * N
     \<and> sized.covers (b1 r) (take (nInsertions r) h)
     \<and> sized.covers (b2 r) (take (if nInsertions r \<le> N then nInsertions r + N else nInsertions r - N) h)"

lemma sized_reset: "sized_ok f \<Longrightarrow> sized.covers (bloom_reset f t) []"
  by (simp add: sized.covers_def sized_ok_def bloom_reset_def bloom_clear_def)

lemma rolling_new_ok:
  assumes "0 < N" "2 * N < 2 ^ 32" "nBits < 8 \<Longrightarrow> nFuncs 0 = 0"
  shows "rolling_ok N (mk_CRollingBloomFilter N nBits nFuncs t) []"
proof -
  have "sized_ok (mk_CBloomFilter_rolling nBits nFuncs 0)"
    using assms(3) by (auto simp: sized_ok_def mk_CBloomFilter_rolling_def Let_def)
  then show ?thesis using assms(1,2)
    by (simp add: rolling_ok_def mk_CRollingBloomFilter_def rolling_reset_def sized_reset mult.commute)
qed

lemma rolling_reset_ok: "rolling_ok N r h \<Longrightarrow> rolling_ok N (rolling_reset r t) []"
  by (auto simp: rolling_ok_def rolling_reset_def sized.covers_def intro!: sized_reset [unfolded sized.covers_def, THEN conjunct1])

text \<open>Clearing a filter and inserting a key, and inserting a key into what is kept.\<close>

lemma rolling_insert_ok:
  assumes "rolling_ok N r h" "0 < N" "2 * N < 2 ^ 32"
  shows "\<exists>r'. rolling_insert r k = Some r' \<and> rolling_ok N r' (k # h)"
proof -
  let ?m = "nInsertions r"
  define f1 where "f1 = (if ?m = 0 then bloom_clear (b1 r) else b1 r)"
  define f2 where "f2 = (if ?m = N then bloom_clear (b2 r) else b2 r)"
  have r: "nBloomSize r = 2 * N" "?m < 2 * N" and c: "sized.covers (b1 r) (take ?m h)"
    "sized.covers (b2 r) (take (if ?m \<le> N then ?m + N else ?m - N) h)" using assms(1) by (simp_all add: rolling_ok_def)
  have "sized.covers f1 (take ?m h)" using c(1) sized.covers_clear [OF c(1)] by (auto simp: f1_def)
  moreover have "sized.covers f2 (take (if ?m < N then ?m + N else ?m - N) h)"
    using c(2) sized.covers_clear [OF c(2)] by (auto simp: f2_def)
  ultimately obtain g1 g2 where g: "bloom_insert f1 k = Some g1" "sized.covers g1 (k # take ?m h)"
    "bloom_insert f2 k = Some g2" "sized.covers g2 (k # take (if ?m < N then ?m + N else ?m - N) h)"
    using sized.covers_insert by blast
  let ?n = "if ?m + 1 = 2 * N then 0 else ?m + 1"
  have mod: "(?m + 1) mod 2 ^ 32 = ?m + 1" using r(2) assms(3) by simp
  have "rolling_insert r k = Some (r\<lparr>b1 := g1, b2 := g2, nInsertions := ?n\<rparr>)"
    using g(1,3) mod r(1) assms(2) unfolding rolling_insert_def f1_def f2_def by (auto simp: Let_def)
  moreover have "rolling_ok N (r\<lparr>b1 := g1, b2 := g2, nInsertions := ?n\<rparr>) (k # h)"
  proof -
    have "sized.covers g1 (take ?n (k # h))" using sized.covers_subset [OF g(2), of "take ?n (k # h)"] by auto
    moreover have "take (if ?n \<le> N then ?n + N else ?n - N) (k # h) = k # take (if ?m < N then ?m + N else ?m - N) h"
      using r(2) assms(2) by (auto simp: take_Cons' Suc_diff_le not_less intro!: arg_cong [of _ _ "\<lambda>x. take x h"])
    ultimately show ?thesis using g(4) r assms(2) by (auto simp: rolling_ok_def)
  qed
  ultimately show ?thesis by blast
qed

lemma rolling_reach_ok:
  assumes "rolling_reach N nBits nFuncs r h" "0 < N" "2 * N < 2 ^ 32" "nBits < 8 \<Longrightarrow> nFuncs 0 = 0"
  shows "rolling_ok N r h"
  using assms(1)
proof induction
  case (rr_insert r h k r')
  then show ?case using rolling_insert_ok [OF rr_insert.IH assms(2,3), of k] by auto
qed (use assms rolling_new_ok rolling_reset_ok in auto)

section \<open>Properties\<close>

text \<open>
  C34. A filter a light client loads never misses: after \<^verbatim>\<open>UpdateEmptyFull\<close> every filter that can
  arrive from the network can be asked without a division by zero, \<^verbatim>\<open>IsRelevantAndUpdate\<close> then always returns, is true for
  every transaction whose hash, output data, spent outpoints or signature data is in the filter and only for transactions that
  the updated filter finds relevant, keeps every key, and inserts the outpoint of each output that
  matched when the flags ask for it, so that the transaction that spends it will be found.
\<close>

theorem IsRelevantAndUpdate_correct:
  "bloom_ok (UpdateEmptyFull g)
   \<and> (bloom_ok f \<longrightarrow>
        (\<exists>r f'. IsRelevantAndUpdate cr f tx = Some (r, f') \<and> bloom_ok f' \<and> (\<forall>k. has f k \<longrightarrow> has f' k)
           \<and> (relevant cr f tx \<longrightarrow> r) \<and> (r \<longrightarrow> relevant cr f' tx)
           \<and> (\<forall>i < length (vout tx). has_element f (scriptPubKey (vout tx ! i)) \<and> watches f (scriptPubKey (vout tx ! i)) \<longrightarrow>
                has f' (ser_outpoint \<lparr>outHash = tx_GetHash cr tx, outN = of_nat i\<rparr>))))"
proof -
  have "bloom_ok (UpdateEmptyFull g)" by (simp add: bloom_ok_def UpdateEmptyFull_spec)
  moreover have "\<exists>r f'. IsRelevantAndUpdate cr f tx = Some (r, f') \<and> grows f f'
           \<and> (relevant cr f tx \<longrightarrow> r) \<and> (r \<longrightarrow> relevant cr f' tx)
           \<and> (\<forall>i < length (vout tx). has_element f (scriptPubKey (vout tx ! i)) \<and> watches f (scriptPubKey (vout tx ! i)) \<longrightarrow>
                has f' (ser_outpoint \<lparr>outHash = tx_GetHash cr tx, outN = of_nat i\<rparr>))" if ok: "bloom_ok f"
  proof -
    consider (full) "isFull f" | (empty) "\<not> isFull f" "isEmpty f" | (scan) "\<not> isFull f" "\<not> isEmpty f" by blast
    then show ?thesis
    proof cases
      case full
      then have "has f k" for k by (simp add: has_def bloom_contains_def)
      then show ?thesis using full ok by (auto simp: IsRelevantAndUpdate_def relevant_def grows_refl)
    next
      case empty
      then have "\<not> has f k" for k by (simp add: has_def bloom_contains_def)
      then show ?thesis using empty ok by (auto simp: IsRelevantAndUpdate_def relevant_def has_element_def list_ex_iff grows_refl)
    next
      case scan
      let ?h = "tx_GetHash cr tx"
      obtain b f' where b: "match_outputs ?h 0 (vout tx) (has f ?h) f = Some (b, f')" "grows f f'"
        "has f ?h \<or> list_ex (\<lambda>out. has_element f (scriptPubKey out)) (vout tx) \<longrightarrow> b"
        "b \<longrightarrow> has f ?h \<or> list_ex (\<lambda>out. has_element f' (scriptPubKey out)) (vout tx)" "\<not> b \<longrightarrow> f' = f"
        "\<forall>j < length (vout tx). has_element f (scriptPubKey (vout tx ! j)) \<and> watches f (scriptPubKey (vout tx ! j)) \<longrightarrow>
          has f' (ser_outpoint \<lparr>outHash = ?h, outN = of_nat (0 + j)\<rparr>)"
        using match_outputs_spec [OF ok, of ?h 0 "vout tx" "has f ?h"] by (elim exE conjE) (rule that)
      show ?thesis
      proof (cases b)
        case True
        then have "IsRelevantAndUpdate cr f tx = Some (True, f')"
          using scan b(1) by (simp add: IsRelevantAndUpdate_def contains_has [OF ok])
        moreover have "relevant cr f' tx" using True b(2,4) by (auto simp: relevant_def grows_def)
        ultimately show ?thesis using b(2,6) by auto
      next
        case False
        then have "IsRelevantAndUpdate cr f tx
            = Some (list_ex (\<lambda>i. has f (ser_outpoint (prevout i)) \<or> has_element f (scriptSig i)) (vin tx), f)"
          using scan b(1,5) by (simp add: IsRelevantAndUpdate_def contains_has [OF ok] match_inputs_spec [OF ok])
        then show ?thesis using False b(2,3,5,6) by (auto simp: relevant_def)
      qed
    qed
  qed
  ultimately show ?thesis unfolding grows_def by blast
qed

definition sample_filter :: CBloomFilter where
  "sample_filter = \<lparr>vData = [0, 0, 0, 0], isFull = False, isEmpty = True, nHashFuncs = 2, nTweak = 5, nFlags = 1\<rparr>"

definition sample_payment :: CTransaction where
  "sample_payment = \<lparr>txVersion = 1, vin = [], vout = [\<lparr>nValue = 7, scriptPubKey = [3, 1, 2, 3], imgbase64 = [], nRounds = 0\<rparr>], nLockTime = 0\<rparr>"

theorem IsRelevantAndUpdate_correct_witness:
  "\<exists>f f'. bloom_insert sample_filter [1, 2, 3] = Some f \<and> IsRelevantAndUpdate sample_crypto f sample_payment = Some (True, f')
     \<and> has f' (ser_outpoint \<lparr>outHash = tx_GetHash sample_crypto sample_payment, outN = 0\<rparr>)"
proof -
  have "bloom_ok sample_filter" by (simp add: bloom_ok_def sample_filter_def)
  then obtain f where f: "bloom_insert sample_filter [1, 2, 3] = Some f" "grows sample_filter f" "has f [1, 2, 3]" by (rule insert_grows)
  have ok: "bloom_ok f" and fl: "nFlags f = 1" using f(2) by (simp_all add: grows_def sample_filter_def)
  have "elements [3, 1, 2, 3] = [[1, 2, 3]]" by (simp add: elements.simps push_size_def)
  then have e: "has_element f [3, 1, 2, 3]" using f(3) by (simp add: has_element_def)
  have w: "watches f s" for s using fl by (simp add: watches_def BLOOM_UPDATE_MASK_def BLOOM_UPDATE_ALL_def)
  have "relevant sample_crypto f sample_payment" using e by (simp add: relevant_def sample_payment_def)
  then obtain f' where "IsRelevantAndUpdate sample_crypto f sample_payment = Some (True, f')"
    "\<forall>i < length (vout sample_payment). has_element f (scriptPubKey (vout sample_payment ! i)) \<and> watches f (scriptPubKey (vout sample_payment ! i)) \<longrightarrow>
       has f' (ser_outpoint \<lparr>outHash = tx_GetHash sample_crypto sample_payment, outN = of_nat i\<rparr>)"
    using IsRelevantAndUpdate_correct [of f f sample_crypto sample_payment] ok by auto
  then show ?thesis using f(1) e w by (auto simp: sample_payment_def)
qed

text \<open>
  C35. In every state a rolling filter can reach, inserting a key returns, and the filter reports
  each of the last \<^verbatim>\<open>nElements\<close> keys inserted since the last reset, although each of its two halves is cleared again and again.
\<close>

theorem rolling_remembers:
  assumes "rolling_reach nElements nBits nFuncs r h" and "0 < nElements" and "2 * nElements < 2 ^ 32"
    and "nBits < 8 \<Longrightarrow> nFuncs 0 = 0"
  shows "(\<exists>r'. rolling_insert r vKey = Some r') \<and> (\<forall>k \<in> set (take nElements h). rolling_contains r k = Some True)"
proof -
  have ok: "rolling_ok nElements r h" by (rule rolling_reach_ok [OF assms])
  have sub: "set (take nElements h) \<subseteq> set (take n h)" if "nElements \<le> n" for n using that by (rule set_take_subset_set_take)
  have "rolling_contains r k = Some True" if "k \<in> set (take nElements h)" for k
  proof (cases "nInsertions r < nElements")
    case True
    then have "k \<in> set (take (nInsertions r + nElements) h)" using that sub [of "nInsertions r + nElements"] by auto
    then show ?thesis using ok True by (simp add: rolling_contains_def rolling_ok_def sized.covers_def)
  next
    case False
    then have "k \<in> set (take (nInsertions r) h)" using that sub [of "nInsertions r"] by auto
    then show ?thesis using ok False by (simp add: rolling_contains_def rolling_ok_def sized.covers_def)
  qed
  then show ?thesis using rolling_insert_ok [OF ok assms(2,3), of vKey] by blast
qed

theorem rolling_remembers_witness:
  "\<exists>r r'. rolling_insert (mk_CRollingBloomFilter 1 16 (\<lambda>_. 3) 9) [4, 2] = Some r \<and> rolling_contains r [4, 2] = Some True
     \<and> rolling_insert r [7] = Some r' \<and> rolling_contains r' [7] = Some True"
proof -
  let ?r0 = "mk_CRollingBloomFilter 1 16 (\<lambda>_. 3) 9"
  have 0: "rolling_reach 1 16 (\<lambda>_. 3) ?r0 []" by (rule rr_new)
  obtain r where r: "rolling_insert ?r0 [4, 2] = Some r" using rolling_remembers [OF 0, of "[4, 2]"] by auto
  have 1: "rolling_reach 1 16 (\<lambda>_. 3) r [[4, 2]]" by (rule rr_insert [OF 0 r])
  obtain r' where r': "rolling_insert r [7] = Some r'" using rolling_remembers [OF 1, of "[7]"] by auto
  have 2: "rolling_reach 1 16 (\<lambda>_. 3) r' [[7], [4, 2]]" by (rule rr_insert [OF 1 r'])
  show ?thesis using r r' rolling_remembers [OF 1] rolling_remembers [OF 2] by auto
qed

end
