(* ===== verification/NetAddress.thy ===== *)
theory NetAddress
  imports Serialize
begin

text \<open>
  \<^verbatim>\<open>netaddress.h\<close> and \<^verbatim>\<open>netaddress.cpp\<close>: IP addresses as 16 bytes in network order, their classes by address range, and the group
  that the address manager uses to spread addresses over its buckets. A \<^verbatim>\<open>CNetAddr\<close> is the list of its bytes.
\<close>

unbundle bit_operations_syntax

datatype Network = NET_UNROUTABLE | NET_IPV4 | NET_IPV6 | NET_TOR

fun Network_byte :: "Network \<Rightarrow> u8" where
  "Network_byte NET_UNROUTABLE = 0"
| "Network_byte NET_IPV4 = 1"
| "Network_byte NET_IPV6 = 2"
| "Network_byte NET_TOR = 3"

definition pchIPv4 :: bytes where "pchIPv4 = [0, 0, 0, 0, 0, 0, 0, 0, 0, 0, 0xff, 0xff]"

definition pchOnionCat :: bytes where "pchOnionCat = [0xFD, 0x87, 0xD8, 0x7E, 0xEB, 0x43]"

text \<open>\<^verbatim>\<open>memcmp(ip, p, sizeof(p)) == 0\<close>.\<close>

definition has_prefix :: "bytes \<Rightarrow> bytes \<Rightarrow> bool" where
  "has_prefix p ip = (take (length p) ip = p)"

text \<open>\<^verbatim>\<open>SetRaw\<close> asserts that the network is one of two.\<close>

fun SetRaw :: "Network \<Rightarrow> bytes \<Rightarrow> bytes option" where
  "SetRaw NET_IPV4 ip_in = Some (pchIPv4 @ take 4 ip_in)"
| "SetRaw NET_IPV6 ip_in = Some (take 16 ip_in)"
| "SetRaw _ ip_in = None"

definition GetByte :: "bytes \<Rightarrow> nat \<Rightarrow> u8" where
  "GetByte ip n = ip ! (15 - n)"

definition IsIPv4 :: "bytes \<Rightarrow> bool" where
  "IsIPv4 ip = has_prefix pchIPv4 ip"

definition IsTor :: "bytes \<Rightarrow> bool" where
  "IsTor ip = has_prefix pchOnionCat ip"

definition IsIPv6 :: "bytes \<Rightarrow> bool" where
  "IsIPv6 ip \<longleftrightarrow> \<not> IsIPv4 ip \<and> \<not> IsTor ip"

definition IsRFC1918 :: "bytes \<Rightarrow> bool" where
  "IsRFC1918 ip \<longleftrightarrow> IsIPv4 ip \<and> (GetByte ip 3 = 10 \<or> GetByte ip 3 = 192 \<and> GetByte ip 2 = 168
     \<or> GetByte ip 3 = 172 \<and> GetByte ip 2 \<ge> 16 \<and> GetByte ip 2 \<le> 31)"

definition IsRFC2544 :: "bytes \<Rightarrow> bool" where
  "IsRFC2544 ip \<longleftrightarrow> IsIPv4 ip \<and> GetByte ip 3 = 198 \<and> (GetByte ip 2 = 18 \<or> GetByte ip 2 = 19)"

definition IsRFC3927 :: "bytes \<Rightarrow> bool" where
  "IsRFC3927 ip \<longleftrightarrow> IsIPv4 ip \<and> GetByte ip 3 = 169 \<and> GetByte ip 2 = 254"

definition IsRFC6598 :: "bytes \<Rightarrow> bool" where
  "IsRFC6598 ip \<longleftrightarrow> IsIPv4 ip \<and> GetByte ip 3 = 100 \<and> GetByte ip 2 \<ge> 64 \<and> GetByte ip 2 \<le> 127"

definition IsRFC5737 :: "bytes \<Rightarrow> bool" where
  "IsRFC5737 ip \<longleftrightarrow> IsIPv4 ip \<and> (GetByte ip 3 = 192 \<and> GetByte ip 2 = 0 \<and> GetByte ip 1 = 2
     \<or> GetByte ip 3 = 198 \<and> GetByte ip 2 = 51 \<and> GetByte ip 1 = 100 \<or> GetByte ip 3 = 203 \<and> GetByte ip 2 = 0 \<and> GetByte ip 1 = 113)"

definition IsRFC3849 :: "bytes \<Rightarrow> bool" where
  "IsRFC3849 ip \<longleftrightarrow> GetByte ip 15 = 0x20 \<and> GetByte ip 14 = 0x01 \<and> GetByte ip 13 = 0x0D \<and> GetByte ip 12 = 0xB8"

definition IsRFC3964 :: "bytes \<Rightarrow> bool" where
  "IsRFC3964 ip \<longleftrightarrow> GetByte ip 15 = 0x20 \<and> GetByte ip 14 = 0x02"

definition IsRFC6052 :: "bytes \<Rightarrow> bool" where
  "IsRFC6052 ip = has_prefix [0, 0x64, 0xFF, 0x9B, 0, 0, 0, 0, 0, 0, 0, 0] ip"

definition IsRFC4380 :: "bytes \<Rightarrow> bool" where
  "IsRFC4380 ip \<longleftrightarrow> GetByte ip 15 = 0x20 \<and> GetByte ip 14 = 0x01 \<and> GetByte ip 13 = 0 \<and> GetByte ip 12 = 0"

definition IsRFC4862 :: "bytes \<Rightarrow> bool" where
  "IsRFC4862 ip = has_prefix [0xFE, 0x80, 0, 0, 0, 0, 0, 0] ip"

definition IsRFC4193 :: "bytes \<Rightarrow> bool" where
  "IsRFC4193 ip \<longleftrightarrow> GetByte ip 15 AND 0xFE = 0xFC"

definition IsRFC6145 :: "bytes \<Rightarrow> bool" where
  "IsRFC6145 ip = has_prefix [0, 0, 0, 0, 0, 0, 0, 0, 0xFF, 0xFF, 0, 0] ip"

definition IsRFC4843 :: "bytes \<Rightarrow> bool" where
  "IsRFC4843 ip \<longleftrightarrow> GetByte ip 15 = 0x20 \<and> GetByte ip 14 = 0x01 \<and> GetByte ip 13 = 0 \<and> GetByte ip 12 AND 0xF0 = 0x10"

definition IsLocal :: "bytes \<Rightarrow> bool" where
  "IsLocal ip \<longleftrightarrow> IsIPv4 ip \<and> (GetByte ip 3 = 127 \<or> GetByte ip 3 = 0) \<or> has_prefix (replicate 15 0 @ [1]) ip"

definition IsMulticast :: "bytes \<Rightarrow> bool" where
  "IsMulticast ip \<longleftrightarrow> IsIPv4 ip \<and> GetByte ip 3 AND 0xF0 = 0xE0 \<or> GetByte ip 15 = 0xFF"

definition netaddr_IsValid :: "bytes \<Rightarrow> bool" where
  "netaddr_IsValid ip =
     (if has_prefix (drop 3 pchIPv4) ip then False
      else if has_prefix (replicate 16 0) ip then False
      else if IsRFC3849 ip then False
      else if IsIPv4 ip \<and> take 4 (drop 12 ip) = replicate 4 0xff then False
      else if IsIPv4 ip \<and> take 4 (drop 12 ip) = replicate 4 0 then False
      else True)"

definition IsRoutable :: "bytes \<Rightarrow> bool" where
  "IsRoutable ip \<longleftrightarrow> netaddr_IsValid ip \<and> \<not> (IsRFC1918 ip \<or> IsRFC2544 ip \<or> IsRFC3927 ip \<or> IsRFC4862 ip \<or> IsRFC6598 ip \<or> IsRFC5737 ip
     \<or> IsRFC4193 ip \<and> \<not> IsTor ip \<or> IsRFC4843 ip \<or> IsLocal ip)"

definition GetNetwork :: "bytes \<Rightarrow> Network" where
  "GetNetwork ip =
     (if \<not> IsRoutable ip then NET_UNROUTABLE else if IsIPv4 ip then NET_IPV4 else if IsTor ip then NET_TOR else NET_IPV6)"

fun group_bytes :: "bytes \<Rightarrow> nat \<Rightarrow> nat \<Rightarrow> bytes" where
  "group_bytes ip nStartByte nBits =
     (if nBits \<ge> 8 then GetByte ip (15 - nStartByte) # group_bytes ip (nStartByte + 1) (nBits - 8)
      else if nBits > 0 then [GetByte ip (15 - nStartByte) OR (push_bit (8 - nBits) 1 - 1)]
      else [])"

declare group_bytes.simps [simp del]

text \<open>The class 255 of local addresses is overwritten, since no local address is routable.\<close>

definition GetGroup :: "bytes \<Rightarrow> bytes" where
  "GetGroup ip =
     (let (nClass, nBits) = (if IsLocal ip then (255, 0) else (Network_byte NET_IPV6, 16))
      in if \<not> IsRoutable ip then Network_byte NET_UNROUTABLE # group_bytes ip 0 0
         else if IsIPv4 ip \<or> IsRFC6145 ip \<or> IsRFC6052 ip then Network_byte NET_IPV4 # group_bytes ip 12 nBits
         else if IsRFC3964 ip then Network_byte NET_IPV4 # group_bytes ip 2 nBits
         else if IsRFC4380 ip then [Network_byte NET_IPV4, GetByte ip 3 XOR 0xFF, GetByte ip 2 XOR 0xFF]
         else if IsTor ip then Network_byte NET_TOR # group_bytes ip 6 4
         else if GetByte ip 15 = 0x20 \<and> GetByte ip 14 = 0x01 \<and> GetByte ip 13 = 0x04 \<and> GetByte ip 12 = 0x70
         then nClass # group_bytes ip 0 36
         else nClass # group_bytes ip 0 32)"

datatype Reachability = REACH_UNREACHABLE | REACH_DEFAULT | REACH_TEREDO | REACH_IPV6_WEAK | REACH_IPV4 | REACH_IPV6_STRONG | REACH_PRIVATE

datatype ext_network = Net Network | NET_UNKNOWN | NET_TEREDO

fun GetExtNetwork :: "bytes option \<Rightarrow> ext_network" where
  "GetExtNetwork None = NET_UNKNOWN"
| "GetExtNetwork (Some ip) = (if IsRFC4380 ip then NET_TEREDO else Net (GetNetwork ip))"

definition GetReachabilityFrom :: "bytes \<Rightarrow> bytes option \<Rightarrow> Reachability" where
  "GetReachabilityFrom ip paddrPartner =
     (if \<not> IsRoutable ip then REACH_UNREACHABLE
      else let ourNet = GetExtNetwork (Some ip);
               theirNet = GetExtNetwork paddrPartner;
               fTunnel = (IsRFC3964 ip \<or> IsRFC6052 ip \<or> IsRFC6145 ip)
           in case theirNet of
                Net NET_IPV4 \<Rightarrow> (if ourNet = Net NET_IPV4 then REACH_IPV4 else REACH_DEFAULT)
              | Net NET_IPV6 \<Rightarrow>
                  (case ourNet of
                     NET_TEREDO \<Rightarrow> REACH_TEREDO
                   | Net NET_IPV4 \<Rightarrow> REACH_IPV4
                   | Net NET_IPV6 \<Rightarrow> if fTunnel then REACH_IPV6_WEAK else REACH_IPV6_STRONG
                   | _ \<Rightarrow> REACH_DEFAULT)
              | Net NET_TOR \<Rightarrow>
                  (case ourNet of Net NET_IPV4 \<Rightarrow> REACH_IPV4 | Net NET_TOR \<Rightarrow> REACH_PRIVATE | _ \<Rightarrow> REACH_DEFAULT)
              | NET_TEREDO \<Rightarrow>
                  (case ourNet of
                     NET_TEREDO \<Rightarrow> REACH_TEREDO
                   | Net NET_IPV6 \<Rightarrow> REACH_IPV6_WEAK
                   | Net NET_IPV4 \<Rightarrow> REACH_IPV4
                   | _ \<Rightarrow> REACH_DEFAULT)
              | _ \<Rightarrow>
                  (case ourNet of
                     NET_TEREDO \<Rightarrow> REACH_TEREDO
                   | Net NET_IPV6 \<Rightarrow> REACH_IPV6_WEAK
                   | Net NET_IPV4 \<Rightarrow> REACH_IPV4
                   | Net NET_TOR \<Rightarrow> REACH_PRIVATE
                   | _ \<Rightarrow> REACH_DEFAULT))"

section \<open>Services and addresses of nodes\<close>

record CService =
  ip :: bytes
  port :: "16 word"

record CAddress = CService +
  nServices :: u64
  nTime :: int

definition service_eq :: "'a CService_scheme \<Rightarrow> 'b CService_scheme \<Rightarrow> bool" where
  "service_eq a b \<longleftrightarrow> ip a = ip b \<and> port a = port b"

definition service_GetKey :: "'a CService_scheme \<Rightarrow> bytes" where
  "service_GetKey s = ip s @ [ucast (port s div 0x100), ucast (port s AND 0xFF)]"

section \<open>Groups\<close>

text \<open>Routable IPv4 addresses are in the same group exactly when their upper 16 bits agree.\<close>

lemma group_IPv4:
  assumes "IsRoutable a" "IsIPv4 a"
  shows "GetGroup a = [1, a ! 12, a ! 13]"
proof -
  have "\<not> IsLocal a" using assms(1) by (simp add: IsRoutable_def)
  then show ?thesis using assms by (simp add: GetGroup_def GetByte_def group_bytes.simps)
qed

end
