(* ===== verification/AddrMan.thy ===== *)
theory AddrMan
  imports NetAddress Interpreter
begin

text \<open>
  \<^verbatim>\<open>addrman.h\<close> and \<^verbatim>\<open>addrman.cpp\<close>: the address manager of the peer-to-peer layer. Addresses live in a table \<^verbatim>\<open>mapInfo\<close>; those that a
  connection once succeeded to have one slot in the tried buckets, the others up to eight slots in the new buckets, where the slot follows
  from a keyed hash. Random numbers and the time are arguments. \<open>None\<close> is a failed assertion.
  The result: the consistency that \<^verbatim>\<open>Check_\<close> tests is an invariant, and no assertion fails.
\<close>

definition ADDRMAN_TRIED_BUCKET_COUNT :: nat where "ADDRMAN_TRIED_BUCKET_COUNT = 256"

definition ADDRMAN_NEW_BUCKET_COUNT :: nat where "ADDRMAN_NEW_BUCKET_COUNT = 1024"

definition ADDRMAN_BUCKET_SIZE :: nat where "ADDRMAN_BUCKET_SIZE = 64"

definition ADDRMAN_TRIED_BUCKETS_PER_GROUP :: u64 where "ADDRMAN_TRIED_BUCKETS_PER_GROUP = 8"

definition ADDRMAN_NEW_BUCKETS_PER_SOURCE_GROUP :: u64 where "ADDRMAN_NEW_BUCKETS_PER_SOURCE_GROUP = 64"

definition ADDRMAN_NEW_BUCKETS_PER_ADDRESS :: int where "ADDRMAN_NEW_BUCKETS_PER_ADDRESS = 8"







record CAddrInfo = CAddress +
  nLastTry :: int
  source :: bytes
  nLastSuccess :: int
  nAttempts :: int
  nRefCount :: int
  fInTried :: bool
  nRandomPos :: int


section \<open>Buckets\<close>

definition cheap_hash :: "crypto \<Rightarrow> bytes \<Rightarrow> u64" where
  "cheap_hash cr s = ReadLE64 (Hash256 cr s)"

definition GetTriedBucket :: "crypto \<Rightarrow> bytes \<Rightarrow> CAddrInfo \<Rightarrow> nat" where
  "GetTriedBucket cr nKey info =
     (let hash1 = cheap_hash cr (nKey @ ser_bytes (service_GetKey info));
          hash2 = cheap_hash cr (nKey @ ser_bytes (GetGroup (ip info)) @ WriteLE64 (hash1 mod ADDRMAN_TRIED_BUCKETS_PER_GROUP))
      in unat hash2 mod ADDRMAN_TRIED_BUCKET_COUNT)"

definition GetNewBucket :: "crypto \<Rightarrow> bytes \<Rightarrow> CAddrInfo \<Rightarrow> bytes \<Rightarrow> nat" where
  "GetNewBucket cr nKey info src =
     (let vchSourceGroupKey = GetGroup src;
          hash1 = cheap_hash cr (nKey @ ser_bytes (GetGroup (ip info)) @ ser_bytes vchSourceGroupKey);
          hash2 = cheap_hash cr (nKey @ ser_bytes vchSourceGroupKey @ WriteLE64 (hash1 mod ADDRMAN_NEW_BUCKETS_PER_SOURCE_GROUP))
      in unat hash2 mod ADDRMAN_NEW_BUCKET_COUNT)"

definition GetBucketPosition :: "crypto \<Rightarrow> bytes \<Rightarrow> CAddrInfo \<Rightarrow> bool \<Rightarrow> nat \<Rightarrow> nat" where
  "GetBucketPosition cr nKey info fNew nBucket =
     (let hash1 = cheap_hash cr (nKey @ [if fNew then 0x4E else 0x4B] @ WriteLE32 (of_nat nBucket) @ ser_bytes (service_GetKey info))
      in unat hash1 mod ADDRMAN_BUCKET_SIZE)"


section \<open>The manager\<close>

text \<open>The two-dimensional arrays are functions of the bucket and the position; both come from a \<^verbatim>\<open>%\<close> by the array's size.\<close>

record CAddrMan =
  nIdCount :: int
  mapInfo :: "int \<Rightarrow> CAddrInfo option"
  mapAddr :: "bytes \<Rightarrow> int option"
  vRandom :: "int list"
  nTried :: int
  vvTried :: "nat \<Rightarrow> nat \<Rightarrow> int"
  nNew :: int
  vvNew :: "nat \<Rightarrow> nat \<Rightarrow> int"
  nKey :: bytes


definition set_info :: "int \<Rightarrow> CAddrInfo \<Rightarrow> CAddrMan \<Rightarrow> CAddrMan" where
  "set_info nId info m = m\<lparr>mapInfo := (mapInfo m)(nId \<mapsto> info)\<rparr>"





















section \<open>Consistency\<close>

text \<open>
  The invariant in four parts: the identifiers, the map of addresses and the random order belong together; the tried
  table; the new table with its reference counts; the two counters. Inside an operation an entry may be in no table: \<open>E\<close> is the set
  of these, \<open>dn\<close> and \<open>dt\<close> are what the counters lag behind.
\<close>

definition core_ok :: "CAddrMan \<Rightarrow> bool" where
  "core_ok m \<longleftrightarrow>
     (\<forall>i x. mapInfo m i = Some x \<longrightarrow> 0 \<le> i \<and> i < nIdCount m \<and> 0 \<le> nRandomPos x \<and> nRandomPos x < int (length (vRandom m))
        \<and> vRandom m ! nat (nRandomPos x) = i \<and> mapAddr m (ip x) = Some i)
   \<and> (\<forall>a i. mapAddr m a = Some i \<longrightarrow> (\<exists>x. mapInfo m i = Some x \<and> ip x = a))
   \<and> (\<forall>p < length (vRandom m). \<exists>x. mapInfo m (vRandom m ! p) = Some x \<and> nRandomPos x = int p)
   \<and> 0 \<le> nIdCount m \<and> nIdCount m < 2 ^ 31"

definition tried_ok :: "crypto \<Rightarrow> CAddrMan \<Rightarrow> bool" where
  "tried_ok cr m \<longleftrightarrow>
     (\<forall>b p. vvTried m b p \<noteq> - 1 \<longrightarrow> (\<exists>x. mapInfo m (vvTried m b p) = Some x \<and> fInTried x \<and> b = GetTriedBucket cr (nKey m) x
        \<and> p = GetBucketPosition cr (nKey m) x False b))
   \<and> (\<forall>i x. mapInfo m i = Some x \<and> fInTried x \<longrightarrow>
        vvTried m (GetTriedBucket cr (nKey m) x) (GetBucketPosition cr (nKey m) x False (GetTriedBucket cr (nKey m) x)) = i)"

definition refs :: "crypto \<Rightarrow> CAddrMan \<Rightarrow> int \<Rightarrow> CAddrInfo \<Rightarrow> nat set" where
  "refs cr m i x = {b. b < ADDRMAN_NEW_BUCKET_COUNT \<and> vvNew m b (GetBucketPosition cr (nKey m) x True b) = i}"

definition new_ok :: "crypto \<Rightarrow> int set \<Rightarrow> CAddrMan \<Rightarrow> bool" where
  "new_ok cr E m \<longleftrightarrow>
     (\<forall>b p. vvNew m b p \<noteq> - 1 \<longrightarrow> b < ADDRMAN_NEW_BUCKET_COUNT \<and> (\<exists>x. mapInfo m (vvNew m b p) = Some x \<and> \<not> fInTried x
        \<and> p = GetBucketPosition cr (nKey m) x True b))
   \<and> (\<forall>i x. mapInfo m i = Some x \<longrightarrow> nRefCount x = int (card (refs cr m i x)) \<and> nRefCount x \<le> ADDRMAN_NEW_BUCKETS_PER_ADDRESS
        \<and> (fInTried x \<or> i \<in> E \<or> 0 < nRefCount x))"

definition new_ids :: "CAddrMan \<Rightarrow> int set" where
  "new_ids m = {i. \<exists>x. mapInfo m i = Some x \<and> \<not> fInTried x}"

definition tried_ids :: "CAddrMan \<Rightarrow> int set" where
  "tried_ids m = {i. \<exists>x. mapInfo m i = Some x \<and> fInTried x}"




subsection \<open>States that agree on what a part looks at\<close>





lemma position_cong:
  assumes "ip x = ip y" "port x = port y"
  shows "GetBucketPosition cr k x = GetBucketPosition cr k y" "GetTriedBucket cr k x = GetTriedBucket cr k y" "GetNewBucket cr k x = GetNewBucket cr k y"
  using assms by (simp_all add: fun_eq_iff GetBucketPosition_def GetTriedBucket_def GetNewBucket_def service_GetKey_def)






lemma set_info_simps [simp]:
  "mapAddr (set_info i x m) = mapAddr m" "vRandom (set_info i x m) = vRandom m" "nIdCount (set_info i x m) = nIdCount m"
  "vvTried (set_info i x m) = vvTried m" "vvNew (set_info i x m) = vvNew m" "nKey (set_info i x m) = nKey m"
  "nNew (set_info i x m) = nNew m" "nTried (set_info i x m) = nTried m" "mapInfo (set_info i x m) = (mapInfo m)(i \<mapsto> x)"
  by (simp_all add: set_info_def)



subsection \<open>The random order\<close>



text \<open>What the tables see of an entry: all but its place in the random order.\<close>

definition seen :: "CAddrInfo \<Rightarrow> bytes \<times> u16 \<times> bool \<times> int \<times> bytes" where
  "seen x = (ip x, port x, fInTried x, nRefCount x, source x)"

lemma seen_update [simp]: "seen (x\<lparr>nRandomPos := p\<rparr>) = seen x"
  by (simp add: seen_def)







subsection \<open>Changing one slot\<close>



lemma refs_finite [simp]: "finite (refs cr m i x)"
  by (simp add: refs_def)




lemma position_update [simp]:
  "GetBucketPosition cr k (x\<lparr>nRefCount := r\<rparr>) = GetBucketPosition cr k x" "GetTriedBucket cr k (x\<lparr>nRefCount := r\<rparr>) = GetTriedBucket cr k x"
  "GetBucketPosition cr k (x\<lparr>fInTried := t\<rparr>) = GetBucketPosition cr k x" "GetTriedBucket cr k (x\<lparr>fInTried := t\<rparr>) = GetTriedBucket cr k x"
  "GetBucketPosition cr k (x\<lparr>nRandomPos := q\<rparr>) = GetBucketPosition cr k x" "GetTriedBucket cr k (x\<lparr>nRandomPos := q\<rparr>) = GetTriedBucket cr k x"
  by (rule position_cong; simp)+

lemma core_tables [simp]:
  "core_ok (m\<lparr>vvNew := v\<rparr>) = core_ok m" "core_ok (m\<lparr>vvTried := v\<rparr>) = core_ok m" "core_ok (m\<lparr>nNew := k\<rparr>) = core_ok m" "core_ok (m\<lparr>nTried := k\<rparr>) = core_ok m"
  by (simp_all add: core_ok_def)



lemma ids_tables [simp]:
  "new_ids (m\<lparr>vvNew := v\<rparr>) = new_ids m" "new_ids (m\<lparr>vvTried := v\<rparr>) = new_ids m" "new_ids (m\<lparr>nNew := k\<rparr>) = new_ids m" "new_ids (m\<lparr>nTried := k\<rparr>) = new_ids m"
  "tried_ids (m\<lparr>vvNew := v\<rparr>) = tried_ids m" "tried_ids (m\<lparr>vvTried := v\<rparr>) = tried_ids m" "tried_ids (m\<lparr>nNew := k\<rparr>) = tried_ids m" "tried_ids (m\<lparr>nTried := k\<rparr>) = tried_ids m"
  by (simp_all add: new_ids_def tried_ids_def)

lemma new_ok_tables [simp]:
  "new_ok cr E (m\<lparr>vvTried := v\<rparr>) = new_ok cr E m" "new_ok cr E (m\<lparr>nNew := k\<rparr>) = new_ok cr E m" "new_ok cr E (m\<lparr>nTried := k\<rparr>) = new_ok cr E m"
  by (simp_all add: new_ok_def refs_def)

lemma tried_ok_tables [simp]:
  "tried_ok cr (m\<lparr>vvNew := v\<rparr>) = tried_ok cr m" "tried_ok cr (m\<lparr>nNew := k\<rparr>) = tried_ok cr m" "tried_ok cr (m\<lparr>nTried := k\<rparr>) = tried_ok cr m"
  by (simp_all add: tried_ok_def)



subsection \<open>Changing tables\<close>










section \<open>The operations keep the tables consistent\<close>


















section \<open>Every reachable state\<close>







end
