(* ===== verification/HashEngine.thy ===== *)
theory HashEngine
  imports Prelude
begin

text \<open>
  The part that \<^verbatim>\<open>crypto/sha1.cpp\<close>, \<^verbatim>\<open>crypto/sha256.cpp\<close>, \<^verbatim>\<open>crypto/sha512.cpp\<close> and
  \<^verbatim>\<open>crypto/ripemd160.cpp\<close> have in common: a buffer of one block, a count of the bytes written, the
  \<^verbatim>\<open>Write\<close> that feeds full blocks to the transformation and keeps the rest, and the padding of
  \<^verbatim>\<open>Finalize\<close>. The locale \<open>hash_engine\<close> proves once that the result depends on the concatenation of
  the data only.
\<close>

record 's hasher =
  chain :: 's
  hbuf :: bytes
  hbytes :: nat

text \<open>\<^verbatim>\<open>memcpy(buf + i, src, n)\<close>\<close>

definition copy_at :: "bytes \<Rightarrow> nat \<Rightarrow> bytes \<Rightarrow> bytes" where
  "copy_at buf i src = take i buf @ src @ drop (i + length src) buf"

text \<open>Full blocks are taken directly from the source.\<close>

function chunk_loop :: "nat \<Rightarrow> ('s \<Rightarrow> bytes \<Rightarrow> 's) \<Rightarrow> 's hasher \<Rightarrow> bytes \<Rightarrow> 's hasher \<times> bytes" where
  "chunk_loop B transform st data =
     (if 0 < B \<and> B \<le> length data
      then chunk_loop B transform
             (st\<lparr>chain := transform (chain st) (take B data), hbytes := (hbytes st + B) mod 2 ^ 64\<rparr>) (drop B data)
      else (st, data))"
  by pat_completeness auto
termination by (relation "measure (\<lambda>(_, _, _, data). length data)") auto

declare chunk_loop.simps [simp del]

definition hasher_Write :: "nat \<Rightarrow> ('s \<Rightarrow> bytes \<Rightarrow> 's) \<Rightarrow> 's hasher \<Rightarrow> bytes \<Rightarrow> 's hasher" where
  "hasher_Write B transform st data =
     (let bufsize = hbytes st mod B;
          (st, data, bufsize) =
            (if bufsize \<noteq> 0 \<and> bufsize + length data \<ge> B
             then let buf = copy_at (hbuf st) bufsize (take (B - bufsize) data)
                  in (st\<lparr>hbuf := buf, hbytes := (hbytes st + (B - bufsize)) mod 2 ^ 64, chain := transform (chain st) buf\<rparr>,
                      drop (B - bufsize) data, 0)
             else (st, data, bufsize));
          (st, data) = chunk_loop B transform st data
      in if data \<noteq> []
         then st\<lparr>hbuf := copy_at (hbuf st) bufsize data, hbytes := (hbytes st + length data) mod 2 ^ 64\<rparr>
         else st)"

text \<open>
  \<^verbatim>\<open>Finalize\<close>: \<open>K\<close> is the constant in the number of padding bytes, \<open>enc\<close> writes the size descriptor for
  the length in bits, \<open>out\<close> the chaining value.
\<close>

definition hasher_Finalize :: "nat \<Rightarrow> ('s \<Rightarrow> bytes \<Rightarrow> 's) \<Rightarrow> nat \<Rightarrow> (nat \<Rightarrow> bytes) \<Rightarrow> ('s \<Rightarrow> bytes) \<Rightarrow> 's hasher \<Rightarrow> bytes" where
  "hasher_Finalize B transform K enc out st =
     (let sizedesc = enc (hbytes st * 8 mod 2 ^ 64);
          st = hasher_Write B transform st (take (1 + (K - hbytes st mod B) mod B) (0x80 # replicate (B - 1) 0));
          st = hasher_Write B transform st sizedesc
      in out (chain st))"

section \<open>Reference: hashing a whole message\<close>

function absorb :: "nat \<Rightarrow> ('s \<Rightarrow> bytes \<Rightarrow> 's) \<Rightarrow> 's \<Rightarrow> bytes \<Rightarrow> 's \<times> bytes" where
  "absorb B transform s m =
     (if 0 < B \<and> B \<le> length m then absorb B transform (transform s (take B m)) (drop B m) else (s, m))"
  by pat_completeness auto
termination by (relation "measure (\<lambda>(_, _, _, m). length m)") auto

declare absorb.simps [simp del]

text \<open>The message with a one bit, zeros up to \<open>L\<close> bytes before the end of a block, and its length in bits.\<close>

definition padded :: "nat \<Rightarrow> nat \<Rightarrow> (nat \<Rightarrow> bytes) \<Rightarrow> bytes \<Rightarrow> bytes" where
  "padded B L enc m = m @ 0x80 # replicate (nat ((- int (length m) - 1 - int L) mod int B)) 0 @ enc (8 * length m)"

definition hash_message :: "nat \<Rightarrow> ('s \<Rightarrow> bytes \<Rightarrow> 's) \<Rightarrow> 's \<Rightarrow> nat \<Rightarrow> (nat \<Rightarrow> bytes) \<Rightarrow> ('s \<Rightarrow> bytes) \<Rightarrow> bytes \<Rightarrow> bytes" where
  "hash_message B transform s0 L enc out m = out (fst (absorb B transform s0 (padded B L enc m)))"

section \<open>The engine\<close>

lemma absorb_short: "length m < B \<Longrightarrow> absorb B transform s m = (s, m)"
  by (simp add: absorb.simps)

lemma absorb_block: "0 < B \<Longrightarrow> length b = B \<Longrightarrow> absorb B transform s (b @ m) = absorb B transform (transform s b) m"
  by (subst absorb.simps) simp

lemma length_copy_at [simp]: "i + length src \<le> length buf \<Longrightarrow> length (copy_at buf i src) = length buf"
  by (simp add: copy_at_def)

lemma take_copy_at: "i \<le> length buf \<Longrightarrow> take (i + length src) (copy_at buf i src) = take i buf @ src"
  by (simp add: copy_at_def)

locale hash_engine =
  fixes B :: nat and transform :: "'s \<Rightarrow> bytes \<Rightarrow> 's" and K L :: nat
  assumes block_pos: "0 < B" and block_dvd: "B dvd 2 ^ 64" and K_ge: "B \<le> K" and K_pad: "B dvd K + 1 + L"
begin

text \<open>\<open>st\<close> is what \<open>m\<close> leaves: the chaining value of its full blocks, and the rest in the buffer.\<close>

definition represents :: "'s \<Rightarrow> 's hasher \<Rightarrow> bytes \<Rightarrow> bool" where
  "represents s0 st m \<longleftrightarrow> length (hbuf st) = B \<and> hbytes st = length m mod 2 ^ 64 \<and>
     absorb B transform s0 m = (chain st, take (length m mod B) (hbuf st))"

lemma mod_block: "n mod 2 ^ 64 mod B = n mod B"
  using block_dvd by (rule mod_mod_cancel)

lemma absorb_append:
  "absorb B transform s (m @ d) = (case absorb B transform s m of (s', r) \<Rightarrow> absorb B transform s' (r @ d))"
proof (induction "length m" arbitrary: s m rule: less_induct)
  case less
  show ?case
  proof (cases "B \<le> length m")
    case True
    then have "absorb B transform s (m @ d) = absorb B transform (transform s (take B m)) (drop B m @ d)"
      using block_pos by (subst absorb.simps) simp
    then show ?thesis using less [of "drop B m"] True block_pos by (simp add: absorb.simps [of B transform s m])
  next
    case False
    then show ?thesis by (simp add: absorb_short)
  qed
qed

lemma absorb_rest_length: "length (snd (absorb B transform s m)) = length m mod B"
proof (induction "length m" arbitrary: s m rule: less_induct)
  case less
  show ?case
  proof (cases "B \<le> length m")
    case True
    then show ?thesis using less [of "drop B m"] block_pos by (simp add: absorb.simps [of B transform s m] mod_if)
  next
    case False
    then show ?thesis by (simp add: absorb_short)
  qed
qed

lemma chunk_loop_absorb:
  "hbytes st = n mod 2 ^ 64 \<Longrightarrow> chunk_loop B transform st d =
     (st\<lparr>chain := fst (absorb B transform (chain st) d), hbytes := (n + (length d - length d mod B)) mod 2 ^ 64\<rparr>,
      snd (absorb B transform (chain st) d))"
proof (induction "length d" arbitrary: st d n rule: less_induct)
  case less
  show ?case
  proof (cases "B \<le> length d")
    case True
    let ?st = "st\<lparr>chain := transform (chain st) (take B d), hbytes := (hbytes st + B) mod 2 ^ 64\<rparr>"
    have e: "chunk_loop B transform st d = chunk_loop B transform ?st (drop B d)" using True block_pos by (subst chunk_loop.simps) simp
    have a: "absorb B transform (chain st) d = absorb B transform (transform (chain st) (take B d)) (drop B d)"
      using True block_pos by (subst absorb.simps) simp
    have h: "hbytes ?st = (n + B) mod 2 ^ 64" using less.prems by (simp add: mod_add_left_eq)
    have "(length d - B) mod B = length d mod B" using True by (simp add: le_mod_geq)
    moreover have "length d mod B \<le> length d - B" using calculation by (metis mod_less_eq_dividend)
    ultimately have eqn: "n + B + (length (drop B d) - length (drop B d) mod B) = n + (length d - length d mod B)" using True by simp
    have l: "length (drop B d) < length d" using True block_pos by simp
    show ?thesis unfolding e less.hyps [OF l h] eqn by (simp add: a)
  next
    case False
    then show ?thesis using less.prems by (simp add: chunk_loop.simps [of B transform st d] absorb_short)
  qed
qed

lemma Write_represents:
  assumes "represents s0 st m"
  shows "represents s0 (hasher_Write B transform st d) (m @ d)"
proof -
  let ?r = "length m mod B"
  define s r where "s = chain st" and "r = take ?r (hbuf st)"
  have ab: "absorb B transform s0 m = (s, r)" and hb: "hbytes st = length m mod 2 ^ 64" and lb: "length (hbuf st) = B"
    using assms by (simp_all add: represents_def s_def r_def)
  have rl: "length r = ?r" "?r < B" using lb block_pos by (simp_all add: r_def)
  have bs: "hbytes st mod B = ?r" unfolding hb by (rule mod_block)
  have goal: "absorb B transform s0 (m @ d) = absorb B transform s (r @ d)" unfolding absorb_append [of s0 m d] ab by simp
  have lm: "length (snd (absorb B transform s (r @ d))) = (length m + length d) mod B"
    using absorb_rest_length [of s "r @ d"] rl by (simp add: mod_add_left_eq)
  show ?thesis
  proof (cases "?r \<noteq> 0 \<and> ?r + length d \<ge> B")
    case True
    let ?d1 = "take (B - ?r) d" and ?d2 = "drop (B - ?r) d"
    let ?buf = "copy_at (hbuf st) ?r ?d1"
    have d1: "length ?d1 = B - ?r" using True by auto
    then have buf: "?buf = r @ ?d1" using rl lb unfolding copy_at_def by (simp add: r_def del: length_take)
    let ?st = "st\<lparr>hbuf := ?buf, hbytes := (hbytes st + (B - ?r)) mod 2 ^ 64, chain := transform (chain st) ?buf\<rparr>"
    have h: "hbytes ?st = (length m + (B - ?r)) mod 2 ^ 64" by (simp add: hb mod_add_left_eq)
    have lbuf: "length ?buf = B" using buf d1 rl by simp
    have ab2: "absorb B transform s (r @ d) = absorb B transform (transform s ?buf) ?d2"
    proof -
      have "r @ d = ?buf @ ?d2" using buf by simp
      then show ?thesis using absorb_block [OF block_pos lbuf, of transform s ?d2] by simp
    qed
    define s2 r2 where "s2 = fst (absorb B transform (transform s ?buf) ?d2)" and "r2 = snd (absorb B transform (transform s ?buf) ?d2)"
    define n where "n = length m + (B - ?r) + (length ?d2 - length ?d2 mod B)"
    have loop: "chunk_loop B transform ?st ?d2 = (?st\<lparr>chain := s2, hbytes := n mod 2 ^ 64\<rparr>, r2)"
      using chunk_loop_absorb [OF h, of ?d2] by (simp add: s2_def r2_def s_def n_def)
    have r2l: "length r2 = length ?d2 mod B" by (simp add: r2_def absorb_rest_length)
    have r2m: "length r2 = (length m + length d) mod B" using lm ab2 by (simp add: r2_def)
    have n: "n + length r2 = length m + length d"
    proof -
      have "length r2 \<le> length ?d2" unfolding r2l by (rule mod_less_eq_dividend)
      moreover have "length ?d2 + (B - ?r) = length d" using True rl(2) by auto
      ultimately show ?thesis unfolding n_def using r2l by linarith
    qed
    have w: "hasher_Write B transform st d =
        (if r2 \<noteq> [] then ?st\<lparr>chain := s2, hbuf := copy_at ?buf 0 r2, hbytes := (n mod 2 ^ 64 + length r2) mod 2 ^ 64\<rparr>
         else ?st\<lparr>chain := s2, hbytes := n mod 2 ^ 64\<rparr>)"
      using True loop by (simp add: hasher_Write_def bs Let_def)
    have rb: "length r2 \<le> B" using r2l block_pos by (simp add: less_imp_le_nat)
    have "(n mod 2 ^ 64 + length r2) mod 2 ^ 64 = (length m + length d) mod 2 ^ 64" unfolding mod_add_left_eq n by (rule refl)
    then have hb2: "hbytes (hasher_Write B transform st d) = length (m @ d) mod 2 ^ 64"
      unfolding w using n by (cases "r2 = []") simp_all
    have "length (hbuf (hasher_Write B transform st d)) = B" unfolding w using lbuf rb by simp
    moreover have "take (length (m @ d) mod B) (hbuf (hasher_Write B transform st d)) = r2"
      unfolding w length_append r2m [symmetric] using take_copy_at [of 0 ?buf r2] by simp
    moreover have "absorb B transform s (r @ d) = (s2, r2)" unfolding ab2 s2_def r2_def by simp
    moreover have "chain (hasher_Write B transform st d) = s2" unfolding w by simp
    ultimately show ?thesis unfolding represents_def goal using hb2 by simp
  next
    case False
    define n where "n = length m + (length d - length d mod B)"
    define s2 r2 where "s2 = fst (absorb B transform s d)" and "r2 = snd (absorb B transform s d)"
    have loop: "chunk_loop B transform st d = (st\<lparr>chain := s2, hbytes := n mod 2 ^ 64\<rparr>, r2)"
      using chunk_loop_absorb [OF hb, of d] by (simp add: s2_def r2_def s_def n_def)
    have r2l: "length r2 = length d mod B" by (simp add: r2_def absorb_rest_length)
    have ab2: "absorb B transform s (r @ d) = (s2, r @ r2)" if "?r + length d < B \<or> ?r = 0"
    proof (cases "?r = 0")
      case True
      then have "r = []" using rl by simp
      then show ?thesis by (simp add: s2_def r2_def)
    next
      case f: False
      then have "length (r @ d) < B" using that rl by simp
      then show ?thesis by (simp add: absorb_short s2_def r2_def)
    qed
    then have ab3: "absorb B transform s (r @ d) = (s2, r @ r2)" using False by auto
    have n: "n + length r2 = length m + length d" unfolding n_def r2l using mod_less_eq_dividend [of "length d" B] by linarith
    have rr: "?r + length r2 = (length m + length d) mod B" using lm ab3 rl by simp
    then have le: "?r + length r2 \<le> B" using block_pos by (simp add: less_imp_le_nat)
    have w: "hasher_Write B transform st d =
        (if r2 \<noteq> [] then st\<lparr>chain := s2, hbuf := copy_at (hbuf st) ?r r2, hbytes := (n mod 2 ^ 64 + length r2) mod 2 ^ 64\<rparr>
         else st\<lparr>chain := s2, hbytes := n mod 2 ^ 64\<rparr>)"
      using False loop by (auto simp: hasher_Write_def bs Let_def)
    have "(n mod 2 ^ 64 + length r2) mod 2 ^ 64 = (length m + length d) mod 2 ^ 64" unfolding mod_add_left_eq n by (rule refl)
    then have hb2: "hbytes (hasher_Write B transform st d) = length (m @ d) mod 2 ^ 64"
      unfolding w using n by (cases "r2 = []") simp_all
    have "length (hbuf (hasher_Write B transform st d)) = B" unfolding w using lb le by simp
    moreover have "take (length (m @ d) mod B) (hbuf (hasher_Write B transform st d)) = r @ r2"
      unfolding w length_append rr [symmetric] using take_copy_at [of ?r "hbuf st" r2] rl lb by (simp add: r_def)
    moreover have "chain (hasher_Write B transform st d) = s2" unfolding w by simp
    ultimately show ?thesis unfolding represents_def goal ab3 using hb2 by simp
  qed
qed

lemma Writes_represents:
  "represents s0 st m \<Longrightarrow> represents s0 (fold (\<lambda>d st. hasher_Write B transform st d) ds st) (m @ concat ds)"
  by (induction ds arbitrary: st m) (use Write_represents in fastforce)+

lemma pad_count: "(K - n mod B) mod B = nat ((- int n - 1 - int L) mod int B)"
proof -
  have le: "n mod B \<le> K" using K_ge block_pos by (meson less_imp_le_nat mod_less_divisor order_trans)
  obtain q where q: "K + 1 + L = B * q" using K_pad by (rule dvdE)
  have "int (K - n mod B) = int B * int q - 1 - int L - int n mod int B" using q le by (simp add: of_nat_diff zmod_int algebra_simps flip: of_nat_mult)
  also have "\<dots> mod int B = (- int n - 1 - int L) mod int B"
  proof -
    have "(int B * int q - 1 - int L - int n mod int B) mod int B = (int B * int q - 1 - int L - int n) mod int B" by (simp add: mod_diff_right_eq)
    also have "\<dots> = ((- int n - 1 - int L) + int q * int B) mod int B" by (simp add: algebra_simps)
    finally show ?thesis by simp
  qed
  finally have "int ((K - n mod B) mod B) = (- int n - 1 - int L) mod int B" by (simp add: zmod_int)
  then show ?thesis by linarith
qed

text \<open>\<^verbatim>\<open>Finalize\<close> returns the hash of the whole message.\<close>

lemma Finalize_message:
  assumes "represents s0 st m" and "8 * length m < 2 ^ 64"
  shows "hasher_Finalize B transform K enc out st = hash_message B transform s0 L enc out m"
proof -
  let ?k = "nat ((- int (length m) - 1 - int L) mod int B)"
  have hb: "hbytes st = length m" using assms by (simp add: represents_def)
  have k: "(K - hbytes st mod B) mod B = ?k" unfolding hb by (rule pad_count)
  have kB: "?k < B" unfolding pad_count [symmetric] using block_pos by simp
  have pad: "take (1 + ?k) (0x80 # replicate (B - 1) 0) = 0x80 # replicate ?k (0 :: u8)" using kB by (simp add: min_absorb1)
  define st1 where "st1 = hasher_Write B transform st (0x80 # replicate ?k 0)"
  have "represents s0 st1 (m @ 0x80 # replicate ?k 0)" unfolding st1_def by (rule Write_represents [OF assms(1)])
  from Write_represents [OF this, of "enc (8 * length m)"]
  have "represents s0 (hasher_Write B transform st1 (enc (8 * length m))) (padded B L enc m)" by (simp add: padded_def)
  then have "fst (absorb B transform s0 (padded B L enc m)) = chain (hasher_Write B transform st1 (enc (8 * length m)))"
    by (simp add: represents_def)
  moreover have "hbytes st * 8 mod 2 ^ 64 = 8 * length m" using hb assms(2) by (simp add: mult.commute)
  ultimately show ?thesis
    unfolding hasher_Finalize_def hash_message_def k Let_def pad st1_def by simp
qed

end

text \<open>A fresh object: the chaining value is set, nothing is written, the buffer is whatever memory holds.\<close>

definition hasher_init :: "nat \<Rightarrow> 's \<Rightarrow> 's hasher" where
  "hasher_init B s0 = \<lparr>chain = s0, hbuf = replicate B 0, hbytes = 0\<rparr>"

definition hasher_Reset :: "'s \<Rightarrow> 's hasher \<Rightarrow> 's hasher" where
  "hasher_Reset s0 st = st\<lparr>hbytes := 0, chain := s0\<rparr>"

context hash_engine
begin

lemma init_represents: "represents s0 (hasher_init B s0) []"
  using block_pos by (simp add: represents_def hasher_init_def absorb_short)

lemma Reset_represents: "length (hbuf st) = B \<Longrightarrow> represents s0 (hasher_Reset s0 st) []"
  using block_pos by (simp add: represents_def hasher_Reset_def absorb_short)

lemma hash_writes:
  assumes "8 * length (concat ds) < 2 ^ 64"
  shows "hasher_Finalize B transform K enc out (fold (\<lambda>d st. hasher_Write B transform st d) ds (hasher_init B s0))
    = hash_message B transform s0 L enc out (concat ds)"
  using Finalize_message [OF Writes_represents [OF init_represents]] assms by simp

end

end
