(* ===== verification/Hashes.thy ===== *)
theory Hashes
  imports Complex_Main HashEngine Serialize Interpreter
begin

text \<open>
  The hash functions of \<^verbatim>\<open>crypto/\<close> and \<^verbatim>\<open>hash.h\<close> that the consensus code uses: SHA-256,
  SHA-512, SHA-1, RIPEMD-160, the double hashes built from them, and HMAC. The unrolled rounds of the
  sources call one round function with its register arguments shifted by one place each time; here
  the registers are shifted instead. Every function is an interpretation of \<open>hash_engine\<close>, and SHA-256 is
  proved equal to the definition in FIPS 180-4.
\<close>

section \<open>Byte order\<close>

definition ReadBE32 :: "bytes \<Rightarrow> u32" where
  "ReadBE32 p = push_bit 24 (ucast (p ! 0)) OR push_bit 16 (ucast (p ! 1)) OR push_bit 8 (ucast (p ! 2)) OR ucast (p ! 3)"

definition WriteBE32 :: "u32 \<Rightarrow> bytes" where
  "WriteBE32 x = [ucast (drop_bit 24 x), ucast (drop_bit 16 x), ucast (drop_bit 8 x), ucast x]"

definition ReadBE64 :: "bytes \<Rightarrow> u64" where
  "ReadBE64 p = push_bit 32 (ucast (ReadBE32 p)) OR ucast (ReadBE32 (drop 4 p))"

definition WriteBE64 :: "u64 \<Rightarrow> bytes" where
  "WriteBE64 x = WriteBE32 (ucast (drop_bit 32 x)) @ WriteBE32 (ucast x)"

section \<open>SHA-256\<close>

definition sha256_Ch :: "u32 \<Rightarrow> u32 \<Rightarrow> u32 \<Rightarrow> u32" where "sha256_Ch x y z = z XOR (x AND (y XOR z))"
definition sha256_Maj :: "u32 \<Rightarrow> u32 \<Rightarrow> u32 \<Rightarrow> u32" where "sha256_Maj x y z = (x AND y) OR (z AND (x OR y))"
definition sha256_Sigma0 :: "u32 \<Rightarrow> u32" where
  "sha256_Sigma0 x = (drop_bit 2 x OR push_bit 30 x) XOR (drop_bit 13 x OR push_bit 19 x) XOR (drop_bit 22 x OR push_bit 10 x)"
definition sha256_Sigma1 :: "u32 \<Rightarrow> u32" where
  "sha256_Sigma1 x = (drop_bit 6 x OR push_bit 26 x) XOR (drop_bit 11 x OR push_bit 21 x) XOR (drop_bit 25 x OR push_bit 7 x)"
definition sha256_sigma0 :: "u32 \<Rightarrow> u32" where
  "sha256_sigma0 x = (drop_bit 7 x OR push_bit 25 x) XOR (drop_bit 18 x OR push_bit 14 x) XOR drop_bit 3 x"
definition sha256_sigma1 :: "u32 \<Rightarrow> u32" where
  "sha256_sigma1 x = (drop_bit 17 x OR push_bit 15 x) XOR (drop_bit 19 x OR push_bit 13 x) XOR drop_bit 10 x"

type_synonym 'w regs8 = "'w \<times> 'w \<times> 'w \<times> 'w \<times> 'w \<times> 'w \<times> 'w \<times> 'w"

fun sha256_Round :: "u32 regs8 \<Rightarrow> u32 \<Rightarrow> u32 \<Rightarrow> u32 regs8" where
  "sha256_Round (a, b, c, d, e, f, g, h) k w =
     (let t1 = h + sha256_Sigma1 e + sha256_Ch e f g + k + w;
          t2 = sha256_Sigma0 a + sha256_Maj a b c
      in (t1 + t2, a, b, c, d + t1, e, f, g))"

definition sha256_Initialize :: "u32 regs8" where
  "sha256_Initialize = (0x6a09e667, 0xbb67ae85, 0x3c6ef372, 0xa54ff53a, 0x510e527f, 0x9b05688c, 0x1f83d9ab, 0x5be0cd19)"

definition sha256_K :: "u32 list" where
  "sha256_K =
     concat [[0x428a2f98, 0x71374491, 0xb5c0fbcf, 0xe9b5dba5], [0x3956c25b, 0x59f111f1, 0x923f82a4, 0xab1c5ed5],
             [0xd807aa98, 0x12835b01, 0x243185be, 0x550c7dc3], [0x72be5d74, 0x80deb1fe, 0x9bdc06a7, 0xc19bf174],
             [0xe49b69c1, 0xefbe4786, 0x0fc19dc6, 0x240ca1cc], [0x2de92c6f, 0x4a7484aa, 0x5cb0a9dc, 0x76f988da],
             [0x983e5152, 0xa831c66d, 0xb00327c8, 0xbf597fc7], [0xc6e00bf3, 0xd5a79147, 0x06ca6351, 0x14292967],
             [0x27b70a85, 0x2e1b2138, 0x4d2c6dfc, 0x53380d13], [0x650a7354, 0x766a0abb, 0x81c2c92e, 0x92722c85],
             [0xa2bfe8a1, 0xa81a664b, 0xc24b8b70, 0xc76c51a3], [0xd192e819, 0xd6990624, 0xf40e3585, 0x106aa070],
             [0x19a4c116, 0x1e376c08, 0x2748774c, 0x34b0bcb5], [0x391c0cb3, 0x4ed8aa4a, 0x5b9cca4f, 0x682e6ff3],
             [0x748f82ee, 0x78a5636f, 0x84c87814, 0x8cc70208], [0x90befffa, 0xa4506ceb, 0xbef9a3f7, 0xc67178f2]]"

text \<open>The word of round \<open>i\<close>: the first 16 are read from the chunk, later ones replace the oldest.\<close>

definition sha256_word :: "nat \<Rightarrow> u32 list \<Rightarrow> u32 list" where
  "sha256_word i w =
     (if i < 16 then w
      else w[i mod 16 := w ! (i mod 16) + (sha256_sigma1 (w ! ((i + 14) mod 16)) + w ! ((i + 9) mod 16) + sha256_sigma0 (w ! ((i + 1) mod 16)))])"

fun sha256_rounds :: "nat list \<Rightarrow> u32 list \<Rightarrow> u32 regs8 \<Rightarrow> u32 regs8" where
  "sha256_rounds [] w r = r"
| "sha256_rounds (i # is) w r = (let w = sha256_word i w in sha256_rounds is w (sha256_Round r (sha256_K ! i) (w ! (i mod 16))))"

fun regs8_add :: "'w :: plus regs8 \<Rightarrow> 'w regs8 \<Rightarrow> 'w regs8" where
  "regs8_add (s0, s1, s2, s3, s4, s5, s6, s7) (a, b, c, d, e, f, g, h) = (s0 + a, s1 + b, s2 + c, s3 + d, s4 + e, s5 + f, s6 + g, s7 + h)"

definition sha256_Transform :: "u32 regs8 \<Rightarrow> bytes \<Rightarrow> u32 regs8" where
  "sha256_Transform s chunk =
     regs8_add s (sha256_rounds [0..<64] (map (\<lambda>j. ReadBE32 (drop (4 * j) chunk)) [0..<16]) s)"

fun sha256_output :: "u32 regs8 \<Rightarrow> bytes" where
  "sha256_output (s0, s1, s2, s3, s4, s5, s6, s7) =
     WriteBE32 s0 @ WriteBE32 s1 @ WriteBE32 s2 @ WriteBE32 s3 @ WriteBE32 s4 @ WriteBE32 s5 @ WriteBE32 s6 @ WriteBE32 s7"

type_synonym CSHA256 = "u32 regs8 hasher"

definition CSHA256_init :: CSHA256 where "CSHA256_init = hasher_init 64 sha256_Initialize"
definition CSHA256_Write :: "CSHA256 \<Rightarrow> bytes \<Rightarrow> CSHA256" where "CSHA256_Write = hasher_Write 64 sha256_Transform"
definition CSHA256_Finalize :: "CSHA256 \<Rightarrow> bytes" where
  "CSHA256_Finalize = hasher_Finalize 64 sha256_Transform 119 (\<lambda>n. WriteBE64 (of_nat n)) sha256_output"
definition CSHA256_Reset :: "CSHA256 \<Rightarrow> CSHA256" where "CSHA256_Reset = hasher_Reset sha256_Initialize"

section \<open>SHA-512\<close>

definition sha512_Ch :: "u64 \<Rightarrow> u64 \<Rightarrow> u64 \<Rightarrow> u64" where "sha512_Ch x y z = z XOR (x AND (y XOR z))"
definition sha512_Maj :: "u64 \<Rightarrow> u64 \<Rightarrow> u64 \<Rightarrow> u64" where "sha512_Maj x y z = (x AND y) OR (z AND (x OR y))"
definition sha512_Sigma0 :: "u64 \<Rightarrow> u64" where
  "sha512_Sigma0 x = (drop_bit 28 x OR push_bit 36 x) XOR (drop_bit 34 x OR push_bit 30 x) XOR (drop_bit 39 x OR push_bit 25 x)"
definition sha512_Sigma1 :: "u64 \<Rightarrow> u64" where
  "sha512_Sigma1 x = (drop_bit 14 x OR push_bit 50 x) XOR (drop_bit 18 x OR push_bit 46 x) XOR (drop_bit 41 x OR push_bit 23 x)"
definition sha512_sigma0 :: "u64 \<Rightarrow> u64" where
  "sha512_sigma0 x = (drop_bit 1 x OR push_bit 63 x) XOR (drop_bit 8 x OR push_bit 56 x) XOR drop_bit 7 x"
definition sha512_sigma1 :: "u64 \<Rightarrow> u64" where
  "sha512_sigma1 x = (drop_bit 19 x OR push_bit 45 x) XOR (drop_bit 61 x OR push_bit 3 x) XOR drop_bit 6 x"

fun sha512_Round :: "u64 regs8 \<Rightarrow> u64 \<Rightarrow> u64 \<Rightarrow> u64 regs8" where
  "sha512_Round (a, b, c, d, e, f, g, h) k w =
     (let t1 = h + sha512_Sigma1 e + sha512_Ch e f g + k + w;
          t2 = sha512_Sigma0 a + sha512_Maj a b c
      in (t1 + t2, a, b, c, d + t1, e, f, g))"

definition sha512_Initialize :: "u64 regs8" where
  "sha512_Initialize =
     (0x6a09e667f3bcc908, 0xbb67ae8584caa73b, 0x3c6ef372fe94f82b, 0xa54ff53a5f1d36f1,
      0x510e527fade682d1, 0x9b05688c2b3e6c1f, 0x1f83d9abfb41bd6b, 0x5be0cd19137e2179)"

definition sha512_K :: "u64 list" where
  "sha512_K =
     concat [[0x428a2f98d728ae22, 0x7137449123ef65cd, 0xb5c0fbcfec4d3b2f, 0xe9b5dba58189dbbc],
             [0x3956c25bf348b538, 0x59f111f1b605d019, 0x923f82a4af194f9b, 0xab1c5ed5da6d8118],
             [0xd807aa98a3030242, 0x12835b0145706fbe, 0x243185be4ee4b28c, 0x550c7dc3d5ffb4e2],
             [0x72be5d74f27b896f, 0x80deb1fe3b1696b1, 0x9bdc06a725c71235, 0xc19bf174cf692694],
             [0xe49b69c19ef14ad2, 0xefbe4786384f25e3, 0x0fc19dc68b8cd5b5, 0x240ca1cc77ac9c65],
             [0x2de92c6f592b0275, 0x4a7484aa6ea6e483, 0x5cb0a9dcbd41fbd4, 0x76f988da831153b5],
             [0x983e5152ee66dfab, 0xa831c66d2db43210, 0xb00327c898fb213f, 0xbf597fc7beef0ee4],
             [0xc6e00bf33da88fc2, 0xd5a79147930aa725, 0x06ca6351e003826f, 0x142929670a0e6e70],
             [0x27b70a8546d22ffc, 0x2e1b21385c26c926, 0x4d2c6dfc5ac42aed, 0x53380d139d95b3df],
             [0x650a73548baf63de, 0x766a0abb3c77b2a8, 0x81c2c92e47edaee6, 0x92722c851482353b],
             [0xa2bfe8a14cf10364, 0xa81a664bbc423001, 0xc24b8b70d0f89791, 0xc76c51a30654be30],
             [0xd192e819d6ef5218, 0xd69906245565a910, 0xf40e35855771202a, 0x106aa07032bbd1b8],
             [0x19a4c116b8d2d0c8, 0x1e376c085141ab53, 0x2748774cdf8eeb99, 0x34b0bcb5e19b48a8],
             [0x391c0cb3c5c95a63, 0x4ed8aa4ae3418acb, 0x5b9cca4f7763e373, 0x682e6ff3d6b2b8a3],
             [0x748f82ee5defb2fc, 0x78a5636f43172f60, 0x84c87814a1f0ab72, 0x8cc702081a6439ec],
             [0x90befffa23631e28, 0xa4506cebde82bde9, 0xbef9a3f7b2c67915, 0xc67178f2e372532b],
             [0xca273eceea26619c, 0xd186b8c721c0c207, 0xeada7dd6cde0eb1e, 0xf57d4f7fee6ed178],
             [0x06f067aa72176fba, 0x0a637dc5a2c898a6, 0x113f9804bef90dae, 0x1b710b35131c471b],
             [0x28db77f523047d84, 0x32caab7b40c72493, 0x3c9ebe0a15c9bebc, 0x431d67c49c100d4c],
             [0x4cc5d4becb3e42b6, 0x597f299cfc657e2a, 0x5fcb6fab3ad6faec, 0x6c44198c4a475817]]"

definition sha512_word :: "nat \<Rightarrow> u64 list \<Rightarrow> u64 list" where
  "sha512_word i w =
     (if i < 16 then w
      else w[i mod 16 := w ! (i mod 16) + (sha512_sigma1 (w ! ((i + 14) mod 16)) + w ! ((i + 9) mod 16) + sha512_sigma0 (w ! ((i + 1) mod 16)))])"

fun sha512_rounds :: "nat list \<Rightarrow> u64 list \<Rightarrow> u64 regs8 \<Rightarrow> u64 regs8" where
  "sha512_rounds [] w r = r"
| "sha512_rounds (i # is) w r = (let w = sha512_word i w in sha512_rounds is w (sha512_Round r (sha512_K ! i) (w ! (i mod 16))))"

definition sha512_Transform :: "u64 regs8 \<Rightarrow> bytes \<Rightarrow> u64 regs8" where
  "sha512_Transform s chunk =
     regs8_add s (sha512_rounds [0..<80] (map (\<lambda>j. ReadBE64 (drop (8 * j) chunk)) [0..<16]) s)"

fun sha512_output :: "u64 regs8 \<Rightarrow> bytes" where
  "sha512_output (s0, s1, s2, s3, s4, s5, s6, s7) =
     WriteBE64 s0 @ WriteBE64 s1 @ WriteBE64 s2 @ WriteBE64 s3 @ WriteBE64 s4 @ WriteBE64 s5 @ WriteBE64 s6 @ WriteBE64 s7"

type_synonym CSHA512 = "u64 regs8 hasher"

definition CSHA512_init :: CSHA512 where "CSHA512_init = hasher_init 128 sha512_Initialize"
definition CSHA512_Write :: "CSHA512 \<Rightarrow> bytes \<Rightarrow> CSHA512" where "CSHA512_Write = hasher_Write 128 sha512_Transform"
definition CSHA512_Finalize :: "CSHA512 \<Rightarrow> bytes" where
  "CSHA512_Finalize = hasher_Finalize 128 sha512_Transform 239 (\<lambda>n. replicate 8 0 @ WriteBE64 (of_nat n)) sha512_output"
definition CSHA512_Reset :: "CSHA512 \<Rightarrow> CSHA512" where "CSHA512_Reset = hasher_Reset sha512_Initialize"

section \<open>SHA-1\<close>

type_synonym regs5 = "u32 \<times> u32 \<times> u32 \<times> u32 \<times> u32"

definition sha1_f1 :: "u32 \<Rightarrow> u32 \<Rightarrow> u32 \<Rightarrow> u32" where "sha1_f1 b c d = d XOR (b AND (c XOR d))"
definition sha1_f2 :: "u32 \<Rightarrow> u32 \<Rightarrow> u32 \<Rightarrow> u32" where "sha1_f2 b c d = b XOR c XOR d"
definition sha1_f3 :: "u32 \<Rightarrow> u32 \<Rightarrow> u32 \<Rightarrow> u32" where "sha1_f3 b c d = (b AND c) OR (d AND (b OR c))"
definition sha1_left :: "u32 \<Rightarrow> u32" where "sha1_left x = push_bit 1 x OR drop_bit 31 x"

fun sha1_Round :: "regs5 \<Rightarrow> u32 \<Rightarrow> u32 \<Rightarrow> u32 \<Rightarrow> regs5" where
  "sha1_Round (a, b, c, d, e) f k w =
     (e + ((push_bit 5 a OR drop_bit 27 a) + f + k + w), a, push_bit 30 b OR drop_bit 2 b, c, d)"

definition sha1_Initialize :: regs5 where
  "sha1_Initialize = (0x67452301, 0xEFCDAB89, 0x98BADCFE, 0x10325476, 0xC3D2E1F0)"

fun sha1_step :: "nat \<Rightarrow> u32 \<Rightarrow> regs5 \<Rightarrow> regs5" where
  "sha1_step i w (a, b, c, d, e) =
     (if i < 20 then sha1_Round (a, b, c, d, e) (sha1_f1 b c d) 0x5A827999 w
      else if i < 40 then sha1_Round (a, b, c, d, e) (sha1_f2 b c d) 0x6ED9EBA1 w
      else if i < 60 then sha1_Round (a, b, c, d, e) (sha1_f3 b c d) 0x8F1BBCDC w
      else sha1_Round (a, b, c, d, e) (sha1_f2 b c d) 0xCA62C1D6 w)"

definition sha1_word :: "nat \<Rightarrow> u32 list \<Rightarrow> u32 list" where
  "sha1_word i w =
     (if i < 16 then w
      else w[i mod 16 := sha1_left (w ! (i mod 16) XOR w ! ((i + 13) mod 16) XOR w ! ((i + 8) mod 16) XOR w ! ((i + 2) mod 16))])"

fun sha1_rounds :: "nat list \<Rightarrow> u32 list \<Rightarrow> regs5 \<Rightarrow> regs5" where
  "sha1_rounds [] w r = r"
| "sha1_rounds (i # is) w r = (let w = sha1_word i w in sha1_rounds is w (sha1_step i (w ! (i mod 16)) r))"

fun regs5_add :: "regs5 \<Rightarrow> regs5 \<Rightarrow> regs5" where
  "regs5_add (s0, s1, s2, s3, s4) (a, b, c, d, e) = (s0 + a, s1 + b, s2 + c, s3 + d, s4 + e)"

definition sha1_Transform :: "regs5 \<Rightarrow> bytes \<Rightarrow> regs5" where
  "sha1_Transform s chunk = regs5_add s (sha1_rounds [0..<80] (map (\<lambda>j. ReadBE32 (drop (4 * j) chunk)) [0..<16]) s)"

fun sha1_output :: "regs5 \<Rightarrow> bytes" where
  "sha1_output (s0, s1, s2, s3, s4) = WriteBE32 s0 @ WriteBE32 s1 @ WriteBE32 s2 @ WriteBE32 s3 @ WriteBE32 s4"

type_synonym CSHA1 = "regs5 hasher"

definition CSHA1_init :: CSHA1 where "CSHA1_init = hasher_init 64 sha1_Initialize"
definition CSHA1_Write :: "CSHA1 \<Rightarrow> bytes \<Rightarrow> CSHA1" where "CSHA1_Write = hasher_Write 64 sha1_Transform"
definition CSHA1_Finalize :: "CSHA1 \<Rightarrow> bytes" where
  "CSHA1_Finalize = hasher_Finalize 64 sha1_Transform 119 (\<lambda>n. WriteBE64 (of_nat n)) sha1_output"
definition CSHA1_Reset :: "CSHA1 \<Rightarrow> CSHA1" where "CSHA1_Reset = hasher_Reset sha1_Initialize"

section \<open>RIPEMD-160\<close>

definition rmd_f1 :: "u32 \<Rightarrow> u32 \<Rightarrow> u32 \<Rightarrow> u32" where "rmd_f1 x y z = x XOR y XOR z"
definition rmd_f2 :: "u32 \<Rightarrow> u32 \<Rightarrow> u32 \<Rightarrow> u32" where "rmd_f2 x y z = (x AND y) OR (NOT x AND z)"
definition rmd_f3 :: "u32 \<Rightarrow> u32 \<Rightarrow> u32 \<Rightarrow> u32" where "rmd_f3 x y z = (x OR NOT y) XOR z"
definition rmd_f4 :: "u32 \<Rightarrow> u32 \<Rightarrow> u32 \<Rightarrow> u32" where "rmd_f4 x y z = (x AND z) OR (y AND NOT z)"
definition rmd_f5 :: "u32 \<Rightarrow> u32 \<Rightarrow> u32 \<Rightarrow> u32" where "rmd_f5 x y z = x XOR (y OR NOT z)"

definition rmd_rol :: "u32 \<Rightarrow> nat \<Rightarrow> u32" where "rmd_rol x i = push_bit i x OR drop_bit (32 - i) x"

fun rmd_Round :: "regs5 \<Rightarrow> u32 \<Rightarrow> u32 \<Rightarrow> u32 \<Rightarrow> nat \<Rightarrow> regs5" where
  "rmd_Round (a, b, c, d, e) f x k r = (e, rmd_rol (a + f + x + k) r + e, b, rmd_rol c 10, d)"

definition rmd_Initialize :: regs5 where
  "rmd_Initialize = (0x67452301, 0xEFCDAB89, 0x98BADCFE, 0x10325476, 0xC3D2E1F0)"

text \<open>The message word and the rotation of every step, for the two lines.\<close>

definition rmd_r1 :: "nat list" where
  "rmd_r1 =
     [0, 1, 2, 3, 4, 5, 6, 7, 8, 9, 10, 11, 12, 13, 14, 15,
      7, 4, 13, 1, 10, 6, 15, 3, 12, 0, 9, 5, 2, 14, 11, 8,
      3, 10, 14, 4, 9, 15, 8, 1, 2, 7, 0, 6, 13, 11, 5, 12,
      1, 9, 11, 10, 0, 8, 12, 4, 13, 3, 7, 15, 14, 5, 6, 2,
      4, 0, 5, 9, 7, 12, 2, 10, 14, 1, 3, 8, 11, 6, 15, 13]"

definition rmd_s1 :: "nat list" where
  "rmd_s1 =
     [11, 14, 15, 12, 5, 8, 7, 9, 11, 13, 14, 15, 6, 7, 9, 8,
      7, 6, 8, 13, 11, 9, 7, 15, 7, 12, 15, 9, 11, 7, 13, 12,
      11, 13, 6, 7, 14, 9, 13, 15, 14, 8, 13, 6, 5, 12, 7, 5,
      11, 12, 14, 15, 14, 15, 9, 8, 9, 14, 5, 6, 8, 6, 5, 12,
      9, 15, 5, 11, 6, 8, 13, 12, 5, 12, 13, 14, 11, 8, 5, 6]"

definition rmd_r2 :: "nat list" where
  "rmd_r2 =
     [5, 14, 7, 0, 9, 2, 11, 4, 13, 6, 15, 8, 1, 10, 3, 12,
      6, 11, 3, 7, 0, 13, 5, 10, 14, 15, 8, 12, 4, 9, 1, 2,
      15, 5, 1, 3, 7, 14, 6, 9, 11, 8, 12, 2, 10, 0, 4, 13,
      8, 6, 4, 1, 3, 11, 15, 0, 5, 12, 2, 13, 9, 7, 10, 14,
      12, 15, 10, 4, 1, 5, 8, 7, 6, 2, 13, 14, 0, 3, 9, 11]"

definition rmd_s2 :: "nat list" where
  "rmd_s2 =
     [8, 9, 9, 11, 13, 15, 15, 5, 7, 7, 8, 11, 14, 14, 12, 6,
      9, 13, 15, 7, 12, 8, 9, 11, 7, 7, 12, 7, 6, 15, 13, 11,
      9, 7, 15, 11, 8, 6, 6, 14, 12, 13, 5, 14, 13, 13, 7, 5,
      15, 5, 8, 11, 14, 14, 6, 14, 6, 9, 12, 9, 12, 5, 15, 8,
      8, 5, 12, 9, 12, 5, 14, 6, 8, 13, 6, 5, 15, 13, 11, 11]"

fun rmd_line1 :: "nat \<Rightarrow> u32 \<Rightarrow> nat \<Rightarrow> regs5 \<Rightarrow> regs5" where
  "rmd_line1 i x r (a, b, c, d, e) =
     (if i < 16 then rmd_Round (a, b, c, d, e) (rmd_f1 b c d) x 0 r
      else if i < 32 then rmd_Round (a, b, c, d, e) (rmd_f2 b c d) x 0x5A827999 r
      else if i < 48 then rmd_Round (a, b, c, d, e) (rmd_f3 b c d) x 0x6ED9EBA1 r
      else if i < 64 then rmd_Round (a, b, c, d, e) (rmd_f4 b c d) x 0x8F1BBCDC r
      else rmd_Round (a, b, c, d, e) (rmd_f5 b c d) x 0xA953FD4E r)"

fun rmd_line2 :: "nat \<Rightarrow> u32 \<Rightarrow> nat \<Rightarrow> regs5 \<Rightarrow> regs5" where
  "rmd_line2 i x r (a, b, c, d, e) =
     (if i < 16 then rmd_Round (a, b, c, d, e) (rmd_f5 b c d) x 0x50A28BE6 r
      else if i < 32 then rmd_Round (a, b, c, d, e) (rmd_f4 b c d) x 0x5C4DD124 r
      else if i < 48 then rmd_Round (a, b, c, d, e) (rmd_f3 b c d) x 0x6D703EF3 r
      else if i < 64 then rmd_Round (a, b, c, d, e) (rmd_f2 b c d) x 0x7A6D76E9 r
      else rmd_Round (a, b, c, d, e) (rmd_f1 b c d) x 0 r)"

fun rmd_combine :: "regs5 \<Rightarrow> regs5 \<Rightarrow> regs5 \<Rightarrow> regs5" where
  "rmd_combine (s0, s1, s2, s3, s4) (a1, b1, c1, d1, e1) (a2, b2, c2, d2, e2) =
     (s1 + c1 + d2, s2 + d1 + e2, s3 + e1 + a2, s4 + a1 + b2, s0 + b1 + c2)"

definition rmd_Transform :: "regs5 \<Rightarrow> bytes \<Rightarrow> regs5" where
  "rmd_Transform s chunk =
     (let w = map (\<lambda>j. ReadLE32 (drop (4 * j) chunk)) [0..<16];
          (r1, r2) = fold (\<lambda>i (r1, r2). (rmd_line1 i (w ! (rmd_r1 ! i)) (rmd_s1 ! i) r1, rmd_line2 i (w ! (rmd_r2 ! i)) (rmd_s2 ! i) r2)) [0..<80] (s, s)
      in rmd_combine s r1 r2)"

fun rmd_output :: "regs5 \<Rightarrow> bytes" where
  "rmd_output (s0, s1, s2, s3, s4) = WriteLE32 s0 @ WriteLE32 s1 @ WriteLE32 s2 @ WriteLE32 s3 @ WriteLE32 s4"

type_synonym CRIPEMD160 = "regs5 hasher"

definition CRIPEMD160_init :: CRIPEMD160 where "CRIPEMD160_init = hasher_init 64 rmd_Initialize"
definition CRIPEMD160_Write :: "CRIPEMD160 \<Rightarrow> bytes \<Rightarrow> CRIPEMD160" where "CRIPEMD160_Write = hasher_Write 64 rmd_Transform"
definition CRIPEMD160_Finalize :: "CRIPEMD160 \<Rightarrow> bytes" where
  "CRIPEMD160_Finalize = hasher_Finalize 64 rmd_Transform 119 (\<lambda>n. WriteLE64 (of_nat n)) rmd_output"
definition CRIPEMD160_Reset :: "CRIPEMD160 \<Rightarrow> CRIPEMD160" where "CRIPEMD160_Reset = hasher_Reset rmd_Initialize"

section \<open>Double hashes\<close>

definition CHash256_Finalize :: "CSHA256 \<Rightarrow> bytes" where
  "CHash256_Finalize sha = CSHA256_Finalize (CSHA256_Write (CSHA256_Reset sha) (CSHA256_Finalize sha))"

definition CHash160_Finalize :: "CSHA256 \<Rightarrow> bytes" where
  "CHash160_Finalize sha = CRIPEMD160_Finalize (CRIPEMD160_Write CRIPEMD160_init (CSHA256_Finalize sha))"

text \<open>The functions the interpreter is given, with the elliptic curve check left open.\<close>

definition source_crypto :: "(bytes \<Rightarrow> bool) \<Rightarrow> crypto" where
  "source_crypto low_s =
     \<lparr>RIPEMD160 = (\<lambda>b. CRIPEMD160_Finalize (CRIPEMD160_Write CRIPEMD160_init b)),
      SHA1 = (\<lambda>b. CSHA1_Finalize (CSHA1_Write CSHA1_init b)),
      SHA256 = (\<lambda>b. CSHA256_Finalize (CSHA256_Write CSHA256_init b)),
      Hash160 = (\<lambda>b. CHash160_Finalize (CSHA256_Write CSHA256_init b)),
      Hash256 = (\<lambda>b. CHash256_Finalize (CSHA256_Write CSHA256_init b)),
      CheckLowS = low_s\<rparr>"

section \<open>HMAC\<close>

record 's hmac =
  outer :: "'s hasher"
  inner :: "'s hasher"

definition CHMAC_SHA256 :: "bytes \<Rightarrow> u32 regs8 hmac" where
  "CHMAC_SHA256 key =
     (let rkey = (if length key \<le> 64 then key @ replicate (64 - length key) 0
                  else CSHA256_Finalize (CSHA256_Write CSHA256_init key) @ replicate 32 0);
          okey = map (\<lambda>b. b XOR 0x5c) rkey;
          ikey = map (\<lambda>b. b XOR (0x5c XOR 0x36)) okey
      in \<lparr>outer = CSHA256_Write CSHA256_init okey, inner = CSHA256_Write CSHA256_init ikey\<rparr>)"

definition CHMAC_SHA256_Write :: "u32 regs8 hmac \<Rightarrow> bytes \<Rightarrow> u32 regs8 hmac" where
  "CHMAC_SHA256_Write h data = h\<lparr>inner := CSHA256_Write (inner h) data\<rparr>"

definition CHMAC_SHA256_Finalize :: "u32 regs8 hmac \<Rightarrow> bytes" where
  "CHMAC_SHA256_Finalize h = CSHA256_Finalize (CSHA256_Write (outer h) (CSHA256_Finalize (inner h)))"

definition CHMAC_SHA512 :: "bytes \<Rightarrow> u64 regs8 hmac" where
  "CHMAC_SHA512 key =
     (let rkey = (if length key \<le> 128 then key @ replicate (128 - length key) 0
                  else CSHA512_Finalize (CSHA512_Write CSHA512_init key) @ replicate 64 0);
          okey = map (\<lambda>b. b XOR 0x5c) rkey;
          ikey = map (\<lambda>b. b XOR (0x5c XOR 0x36)) okey
      in \<lparr>outer = CSHA512_Write CSHA512_init okey, inner = CSHA512_Write CSHA512_init ikey\<rparr>)"

definition CHMAC_SHA512_Write :: "u64 regs8 hmac \<Rightarrow> bytes \<Rightarrow> u64 regs8 hmac" where
  "CHMAC_SHA512_Write h data = h\<lparr>inner := CSHA512_Write (inner h) data\<rparr>"

definition CHMAC_SHA512_Finalize :: "u64 regs8 hmac \<Rightarrow> bytes" where
  "CHMAC_SHA512_Finalize h = CSHA512_Finalize (CSHA512_Write (outer h) (CSHA512_Finalize (inner h)))"

definition BIP32Hash :: "bytes \<Rightarrow> u32 \<Rightarrow> u8 \<Rightarrow> bytes \<Rightarrow> bytes" where
  "BIP32Hash chainCode nChild header data =
     (let num = [ucast (drop_bit 24 nChild AND 0xFF), ucast (drop_bit 16 nChild AND 0xFF),
                 ucast (drop_bit 8 nChild AND 0xFF), ucast (nChild AND 0xFF)]
      in CHMAC_SHA512_Finalize (CHMAC_SHA512_Write (CHMAC_SHA512_Write (CHMAC_SHA512_Write (CHMAC_SHA512 chainCode) [header]) data) num))"

section \<open>Reference: FIPS 180-4 and RFC 2104\<close>

text \<open>The definition of SHA-256 in the standard, written without any definition of the code's model.\<close>

definition fips_Ch :: "u32 \<Rightarrow> u32 \<Rightarrow> u32 \<Rightarrow> u32" where "fips_Ch x y z = (x AND y) XOR (NOT x AND z)"
definition fips_Maj :: "u32 \<Rightarrow> u32 \<Rightarrow> u32 \<Rightarrow> u32" where "fips_Maj x y z = (x AND y) XOR (x AND z) XOR (y AND z)"
definition fips_Sigma0 :: "u32 \<Rightarrow> u32" where "fips_Sigma0 x = word_rotr 2 x XOR word_rotr 13 x XOR word_rotr 22 x"
definition fips_Sigma1 :: "u32 \<Rightarrow> u32" where "fips_Sigma1 x = word_rotr 6 x XOR word_rotr 11 x XOR word_rotr 25 x"
definition fips_sigma0 :: "u32 \<Rightarrow> u32" where "fips_sigma0 x = word_rotr 7 x XOR word_rotr 18 x XOR drop_bit 3 x"
definition fips_sigma1 :: "u32 \<Rightarrow> u32" where "fips_sigma1 x = word_rotr 17 x XOR word_rotr 19 x XOR drop_bit 10 x"

text \<open>Numbers as byte strings, most significant byte first.\<close>

definition be_number :: "bytes \<Rightarrow> nat" where
  "be_number = foldl (\<lambda>n b. 256 * n + unat b) 0"

fun be_digits :: "nat \<Rightarrow> nat \<Rightarrow> bytes" where
  "be_digits 0 n = []"
| "be_digits (Suc k) n = be_digits k (n div 256) @ [of_nat n]"

text \<open>
  The constants: the first 32 bits of the fractional parts of the cube roots of the first 64 primes and of
  the square roots of the first 8 primes.
\<close>

definition fips_primes :: "nat list" where
  "fips_primes = filter (\<lambda>p. list_all (\<lambda>d. \<not> d dvd p) [2..<p]) [2..<312]"

definition fraction_bits :: "real \<Rightarrow> u32" where
  "fraction_bits x = of_int \<lfloor>frac x * 2 ^ 32\<rfloor>"

definition fips_K :: "nat \<Rightarrow> u32" where
  "fips_K t = fraction_bits (root 3 (real (fips_primes ! t)))"

definition fips_H :: "nat \<Rightarrow> u32" where
  "fips_H i = fraction_bits (sqrt (real (fips_primes ! i)))"

text \<open>The message schedule.\<close>

fun fips_W :: "bytes \<Rightarrow> nat \<Rightarrow> u32" where
  "fips_W M t = (if t < 16 then of_nat (be_number (take 4 (drop (4 * t) M)))
     else fips_sigma1 (fips_W M (t - 2)) + fips_W M (t - 7) + fips_sigma0 (fips_W M (t - 15)) + fips_W M (t - 16))"

declare fips_W.simps [simp del]

fun fips_round :: "bytes \<Rightarrow> nat \<Rightarrow> u32 regs8 \<Rightarrow> u32 regs8" where
  "fips_round M t (a, b, c, d, e, f, g, h) =
     (let T1 = h + fips_Sigma1 e + fips_Ch e f g + fips_K t + fips_W M t;
          T2 = fips_Sigma0 a + fips_Maj a b c
      in (T1 + T2, a, b, c, d + T1, e, f, g))"

text \<open>The next hash value after a block of 64 bytes.\<close>

fun fips_compress :: "bytes \<Rightarrow> u32 regs8 \<Rightarrow> u32 regs8" where
  "fips_compress M (H0, H1, H2, H3, H4, H5, H6, H7) =
     (case fold (fips_round M) [0..<64] (H0, H1, H2, H3, H4, H5, H6, H7) of
        (a, b, c, d, e, f, g, h) \<Rightarrow> (H0 + a, H1 + b, H2 + c, H3 + d, H4 + e, H5 + f, H6 + g, H7 + h))"

text \<open>A one bit, the fewest zeros that leave 8 bytes of the last block, and the length in bits.\<close>

definition fips_padding :: "bytes \<Rightarrow> bytes" where
  "fips_padding m = m @ 0x80 # replicate (LEAST k. (length m + 1 + k) mod 64 = 56) 0 @ be_digits 8 (8 * length m)"

definition fips_blocks :: "bytes \<Rightarrow> bytes list" where
  "fips_blocks p = map (\<lambda>i. take 64 (drop (64 * i) p)) [0..<length p div 64]"

fun fips_digest :: "u32 regs8 \<Rightarrow> bytes" where
  "fips_digest (H0, H1, H2, H3, H4, H5, H6, H7) = concat (map (\<lambda>x. be_digits 4 (unat x)) [H0, H1, H2, H3, H4, H5, H6, H7])"

definition fips_sha256 :: "bytes \<Rightarrow> bytes" where
  "fips_sha256 m = fips_digest (fold fips_compress (fips_blocks (fips_padding m))
     (fips_H 0, fips_H 1, fips_H 2, fips_H 3, fips_H 4, fips_H 5, fips_H 6, fips_H 7))"

definition message_sha512 :: "bytes \<Rightarrow> bytes" where
  "message_sha512 = hash_message 128 sha512_Transform sha512_Initialize 16 (\<lambda>n. replicate 8 0 @ WriteBE64 (of_nat n)) sha512_output"

definition message_sha1 :: "bytes \<Rightarrow> bytes" where
  "message_sha1 = hash_message 64 sha1_Transform sha1_Initialize 8 (\<lambda>n. WriteBE64 (of_nat n)) sha1_output"

definition message_ripemd160 :: "bytes \<Rightarrow> bytes" where
  "message_ripemd160 = hash_message 64 rmd_Transform rmd_Initialize 8 (\<lambda>n. WriteLE64 (of_nat n)) rmd_output"

definition rfc_hmac :: "(bytes \<Rightarrow> bytes) \<Rightarrow> nat \<Rightarrow> bytes \<Rightarrow> bytes \<Rightarrow> bytes" where
  "rfc_hmac H B key text =
     (let K = (if length key > B then H key else key); K0 = K @ replicate (B - length K) 0
      in H (map (\<lambda>b. b XOR 0x5c) K0 @ H (map (\<lambda>b. b XOR 0x36) K0 @ text)))"

section \<open>The constants and the byte order of FIPS 180-4\<close>

lemma trial_division:
  fixes p :: nat
  assumes "2 \<le> p" and "p < 312"
  shows "list_all (\<lambda>d. \<not> d dvd p) [2..<p] \<longleftrightarrow> list_all (\<lambda>d. d < p \<longrightarrow> \<not> d dvd p) [2, 3, 5, 7, 11, 13, 17]"
proof
  assume no: "list_all (\<lambda>d. d < p \<longrightarrow> \<not> d dvd p) [2, 3, 5, 7, 11, 13, 17]"
  have small: False if "d dvd p" "1 < d" "d < p" "d \<le> 17" for d
  proof -
    have "\<forall>d \<in> set [2..<18]. \<exists>q \<in> set [2, 3, 5, 7, 11, 13, 17]. q dvd d" by simp
    then have "\<exists>q \<in> {2, 3, 5, 7, 11, 13, 17}. q dvd d" unfolding list.set set_upt
      by (rule bspec) (use that(2,4) in simp)
    then obtain q where q: "q \<in> {2, 3, 5, 7, 11, 13, 17}" "q dvd d" by blast
    then have "q dvd p" "q < p" using that dvd_trans dvd_imp_le [of q d] by auto
    then show False using no q(1) by auto
  qed
  show "list_all (\<lambda>d. \<not> d dvd p) [2..<p]"
    unfolding list_all_iff
  proof (intro ballI notI)
    fix d assume d: "d \<in> set [2..<p]" "d dvd p"
    then obtain e where e: "p = d * e" by blast
    have "1 < d" "d < p" using d(1) by auto
    moreover have "e \<noteq> 0" "e \<noteq> 1" using e assms(1) \<open>d < p\<close> by (metis mult_0_right not_less_zero, metis mult_1_right less_irrefl)
    then have "1 < e" by simp
    moreover have "e < p" using e \<open>1 < d\<close> \<open>1 < e\<close> by simp
    moreover have "d \<le> 17 \<or> e \<le> 17"
    proof (rule ccontr)
      assume "\<not> ?thesis"
      then have "18 * 18 \<le> d * e" by (intro mult_le_mono) auto
      then show False using e assms(2) by simp
    qed
    ultimately show False using small [of d] small [of e] e by auto
  qed
qed (auto simp: list_all_iff)

lemma fips_primes_eq: "fips_primes =
  [2, 3, 5, 7, 11, 13, 17, 19, 23, 29, 31, 37, 41, 43, 47, 53, 59, 61, 67, 71, 73, 79, 83, 89, 97, 101, 103, 107, 109, 113, 127, 131,
   137, 139, 149, 151, 157, 163, 167, 173, 179, 181, 191, 193, 197, 199, 211, 223, 227, 229, 233, 239, 241, 251, 257, 263, 269, 271,
   277, 281, 283, 293, 307, 311]"
proof -
  have "fips_primes = filter (\<lambda>p. list_all (\<lambda>d. d < p \<longrightarrow> \<not> d dvd p) [2, 3, 5, 7, 11, 13, 17]) [2..<312]"
    unfolding fips_primes_def
    by (rule filter_cong [OF refl], rule trial_division) (simp_all only: set_upt atLeastLessThan_iff)
  then show ?thesis by simp
qed

lemma fraction_bits_scaled: "fraction_bits x = of_int \<lfloor>x * 2 ^ 32\<rfloor>"
proof -
  have "frac x * 2 ^ 32 = x * 2 ^ 32 - of_int (\<lfloor>x\<rfloor> * 2 ^ 32)" by (simp add: frac_def algebra_simps)
  then have fl: "\<lfloor>frac x * 2 ^ 32\<rfloor> = \<lfloor>x * 2 ^ 32\<rfloor> - \<lfloor>x\<rfloor> * 2 ^ 32" by (simp only: floor_diff_of_int)
  have z: "of_int (2 ^ 32) = (0 :: u32)" by (rule word_of_int_eq_0_iff [THEN iffD2]) simp
  show ?thesis unfolding fraction_bits_def fl of_int_diff of_int_mult z by simp
qed

lemma fraction_bits_unique:
  fixes n :: nat
  assumes "0 < k" and "0 \<le> x" and "x ^ k = real p"
    and "n ^ k \<le> p * 2 ^ (32 * k)" and "p * 2 ^ (32 * k) < (n + 1) ^ k"
  shows "fraction_bits x = of_nat n"
proof -
  have xk: "(x * 2 ^ 32) ^ k = real (p * 2 ^ (32 * k))"
    using assms(3) by (simp add: power_mult_distrib power_mult)
  have "real n ^ k \<le> (x * 2 ^ 32) ^ k" unfolding xk using assms(4) by (metis of_nat_le_iff of_nat_power)
  then have "real n \<le> x * 2 ^ 32" using power_mono_iff [of "real n" "x * 2 ^ 32" k] assms(1,2) by simp
  moreover have "(x * 2 ^ 32) ^ k < real (n + 1) ^ k" unfolding xk using assms(5) by (metis of_nat_less_iff of_nat_power)
  then have "x * 2 ^ 32 < real (n + 1)" by (rule power_less_imp_less_base) simp
  ultimately have "\<lfloor>x * 2 ^ 32\<rfloor> = int n" by linarith
  then show ?thesis by (simp add: fraction_bits_scaled)
qed

text \<open>A word is the fraction of the \<open>k\<close>-th root of \<open>p\<close> when the root lies between the word and its successor, for some whole part.\<close>

definition root_word :: "nat \<Rightarrow> nat \<Rightarrow> u32 \<Rightarrow> bool" where
  "root_word k p w = list_ex (\<lambda>c. (c * 2 ^ 32 + unat w) ^ k \<le> p * 2 ^ (32 * k) \<and> p * 2 ^ (32 * k) < (c * 2 ^ 32 + unat w + 1) ^ k) [1..<7]"

lemma root_word_bits: "0 < k \<Longrightarrow> root_word k p w \<Longrightarrow> fraction_bits (root k (real p)) = w"
proof -
  assume k: "0 < k" and "root_word k p w"
  then obtain c where c: "(c * 2 ^ 32 + unat w) ^ k \<le> p * 2 ^ (32 * k)" "p * 2 ^ (32 * k) < (c * 2 ^ 32 + unat w + 1) ^ k"
    by (auto simp: root_word_def list_ex_iff)
  have "fraction_bits (root k (real p)) = of_nat (c * 2 ^ 32 + unat w)"
    by (rule fraction_bits_unique [OF k _ _ c]) (use k in simp_all)
  also have "\<dots> = of_nat c * of_nat (2 ^ 32) + w" by (simp only: of_nat_add of_nat_mult of_nat_unat ucast_id)
  also have "of_nat (2 ^ 32) = (0 :: u32)" by (rule word_of_nat_eq_0_iff [THEN iffD2]) simp
  finally show ?thesis by simp
qed

lemma sha256_K_fips: "t < 64 \<Longrightarrow> sha256_K ! t = fips_K t"
proof -
  assume t: "t < 64"
  have "list_all2 (root_word 3) fips_primes sha256_K" unfolding fips_primes_eq by (simp add: sha256_K_def root_word_def upt_rec)
  then have "root_word 3 (fips_primes ! t) (sha256_K ! t)" by (rule list_all2_nthD) (use t in \<open>simp add: fips_primes_eq\<close>)
  then show ?thesis by (simp add: fips_K_def root_word_bits)
qed

lemma sha256_Initialize_fips:
  "sha256_Initialize = (fips_H 0, fips_H 1, fips_H 2, fips_H 3, fips_H 4, fips_H 5, fips_H 6, fips_H 7)"
proof -
  let ?hs = "[0x6a09e667, 0xbb67ae85, 0x3c6ef372, 0xa54ff53a, 0x510e527f, 0x9b05688c, 0x1f83d9ab, 0x5be0cd19] :: u32 list"
  have "list_all2 (root_word 2) (take 8 fips_primes) ?hs" unfolding fips_primes_eq by (simp add: root_word_def upt_rec)
  then have "fips_H i = ?hs ! i" if "i < 8" for i
    using list_all2_nthD2 [of "root_word 2" "take 8 fips_primes" ?hs i] that
    by (simp add: fips_H_def sqrt_def root_word_bits)
  from this [of 0] this [of 1] this [of 2] this [of 3] this [of 4] this [of 5] this [of 6] this [of 7]
  show ?thesis by (simp add: sha256_Initialize_def)
qed

lemma length_be_digits [simp]: "length (be_digits k n) = k"
  by (induction k arbitrary: n) auto

lemma be_digits_map: "be_digits k n = map (\<lambda>i. of_nat (n div 256 ^ i)) (rev [0..<k])"
proof (induction k arbitrary: n)
  case (Suc k)
  have "[0..<Suc k] = 0 # map Suc [0..<k]" by (simp add: map_Suc_upt upt_conv_Cons del: upt_Suc)
  then show ?case by (simp add: Suc rev_map [symmetric] div_mult2_eq comp_def del: upt_Suc)
qed simp

lemma be_number_digits: "be_number (be_digits k n) = n mod 256 ^ k"
proof (induction k arbitrary: n)
  case (Suc k)
  have "256 * be_number (be_digits k (n div 256)) + n mod 256 = n mod (256 * 256 ^ k)"
    by (simp add: Suc mod_mult2_eq)
  then show ?case by (simp add: be_number_def unat_of_nat take_bit_eq_mod)
qed (simp add: be_number_def)

lemma be_byte: "(of_nat (n div 256 ^ i) :: u8) = ucast (drop_bit (8 * i) (of_nat n :: 'a::len word))" if "8 * i + 8 \<le> LENGTH('a)"
proof -
  have d: "n div 256 ^ i = drop_bit (8 * i) n" by (simp add: drop_bit_eq_div power_mult)
  show ?thesis unfolding d by (rule bit_word_eqI) (use that in \<open>auto simp: bit_simps\<close>)
qed

lemma WriteBE32_digits: "WriteBE32 x = be_digits 4 (unat x)"
proof -
  have "be_digits 4 (unat x) = map (\<lambda>i. ucast (drop_bit (8 * i) x)) (rev [0..<4])"
    unfolding be_digits_map by (rule map_cong [OF refl]) (simp add: be_byte [where 'a = 32])
  also have "rev [0..<4] = [3, 2, 1, 0 :: nat]" by (simp add: upt_rec)
  finally show ?thesis by (simp add: WriteBE32_def)
qed

lemma WriteBE64_digits: "WriteBE64 (of_nat n) = be_digits 8 n"
proof -
  have "be_digits 8 n = map (\<lambda>i. ucast (drop_bit (8 * i) (of_nat n :: u64))) (rev [0..<8])"
    unfolding be_digits_map by (rule map_cong [OF refl], rule be_byte) simp
  also have "rev [0..<8] = [7, 6, 5, 4, 3, 2, 1, 0 :: nat]" by (simp add: upt_rec)
  finally show ?thesis unfolding WriteBE64_def WriteBE32_def
    by (auto intro!: bit_word_eqI simp: bit_simps)
qed

lemma ReadBE32_number: "4 \<le> length p \<Longrightarrow> ReadBE32 p = of_nat (be_number (take 4 p))"
proof -
  assume "4 \<le> length p"
  then obtain a b c d r where p: "p = a # b # c # d # r"
    by (auto simp: Suc_le_length_iff eval_nat_numeral)
  have "WriteBE32 (ReadBE32 p) = [a, b, c, d]"
    unfolding WriteBE32_def ReadBE32_def p
    by (auto intro!: bit_word_eqI simp: bit_simps) (drule bit_lt8, simp)+
  then have "be_number [a, b, c, d] = unat (ReadBE32 p) mod 256 ^ 4"
    by (metis WriteBE32_digits be_number_digits)
  then show ?thesis using unsigned_less [where 'a = nat, of "ReadBE32 p"] by (simp add: p)
qed

section \<open>SHA-256 is FIPS 180-4\<close>

lemma shifts_rotate: "0 < n \<Longrightarrow> n < 32 \<Longrightarrow> drop_bit n x OR push_bit (32 - n) x = word_rotr n (x :: u32)"
proof (rule bit_word_eqI)
  fix i assume "0 < n" "n < 32" "i < LENGTH(32)"
  then have n: "n < 32" "i < 32" by simp_all
  have r: "bit (word_rotr n x) i \<longleftrightarrow> bit x ((i + n) mod 32)" using n by (simp add: bit_word_rotr_iff)
  have l: "bit (drop_bit n x OR push_bit (32 - n) x) i \<longleftrightarrow> bit x (n + i) \<or> 32 - n \<le> i \<and> bit x (i - (32 - n))"
    using n by (auto simp: bit_simps)
  show "bit (drop_bit n x OR push_bit (32 - n) x) i \<longleftrightarrow> bit (word_rotr n x) i"
  proof (cases "i + n < 32")
    case True
    then have "\<not> 32 - n \<le> i" by simp
    then show ?thesis unfolding r l using True by (simp add: add.commute)
  next
    case False
    then have "(i + n) mod 32 = i - (32 - n)" using n by (simp add: mod_if)
    moreover have "\<not> bit x (n + i)" using False bit_imp_le_length [of x "n + i"] by auto
    moreover have "32 - n \<le> i" using False by simp
    ultimately show ?thesis unfolding r l by simp
  qed
qed

lemma sha256_sigmas:
  "sha256_Sigma0 x = fips_Sigma0 x" "sha256_Sigma1 x = fips_Sigma1 x"
  "sha256_sigma0 x = fips_sigma0 x" "sha256_sigma1 x = fips_sigma1 x"
  by (simp_all add: sha256_Sigma0_def sha256_Sigma1_def sha256_sigma0_def sha256_sigma1_def
      fips_Sigma0_def fips_Sigma1_def fips_sigma0_def fips_sigma1_def flip: shifts_rotate)

lemma sha256_Ch_Maj: "sha256_Ch x y z = fips_Ch x y z" "sha256_Maj x y z = fips_Maj x y z"
  by (rule bit_word_eqI; auto simp: sha256_Ch_def fips_Ch_def sha256_Maj_def fips_Maj_def bit_simps)+

lemma sha256_Round_fips: "t < 64 \<Longrightarrow> w = fips_W M t \<Longrightarrow> sha256_Round r (sha256_K ! t) w = fips_round M t r"
  by (cases "(r, sha256_K ! t, w)" rule: sha256_Round.cases) (simp add: sha256_sigmas sha256_Ch_Maj sha256_K_fips)

text \<open>The 16 words kept are the last 16 of the schedule.\<close>

definition schedule_ok :: "bytes \<Rightarrow> nat \<Rightarrow> u32 list \<Rightarrow> bool" where
  "schedule_ok M i w \<longleftrightarrow> length w = 16 \<and> (\<forall>j. j < max i 16 \<longrightarrow> i \<le> j + 16 \<longrightarrow> w ! (j mod 16) = fips_W M j)"

lemma schedule_step:
  assumes "schedule_ok M i w"
  shows "schedule_ok M (Suc i) (sha256_word i w)" and "sha256_word i w ! (i mod 16) = fips_W M i"
proof -
  have len: "length w = 16" and W: "\<And>j. j < max i 16 \<Longrightarrow> i \<le> j + 16 \<Longrightarrow> w ! (j mod 16) = fips_W M j"
    using assms by (auto simp: schedule_ok_def)
  show new: "sha256_word i w ! (i mod 16) = fips_W M i"
  proof (cases "i < 16")
    case True
    then show ?thesis using W [of i] by (simp add: sha256_word_def)
  next
    case False
    then obtain j where j: "i = j + 16" by (metis add.commute le_Suc_ex not_less)
    have m: "i mod 16 = (i - 16) mod 16" "(i + 14) mod 16 = (i - 2) mod 16" "(i + 9) mod 16 = (i - 7) mod 16" "(i + 1) mod 16 = (i - 15) mod 16"
      using mod_add_self2 [of j 16] mod_add_self2 [of "j + 14" 16] mod_add_self2 [of "j + 9" 16] mod_add_self2 [of "j + 1" 16]
      unfolding j by (simp_all add: add.assoc add.commute [of j])
    have "w ! (i mod 16) = fips_W M (i - 16)" by (subst m(1), rule W) (use False in auto)
    moreover have "w ! ((i + 14) mod 16) = fips_W M (i - 2)" by (subst m(2), rule W) (use False in auto)
    moreover have "w ! ((i + 9) mod 16) = fips_W M (i - 7)" by (subst m(3), rule W) (use False in auto)
    moreover have "w ! ((i + 1) mod 16) = fips_W M (i - 15)" by (subst m(4), rule W) (use False in auto)
    ultimately have "sha256_word i w ! (i mod 16) = fips_W M (i - 16) + (sha256_sigma1 (fips_W M (i - 2)) + fips_W M (i - 7) + sha256_sigma0 (fips_W M (i - 15)))"
      using False len by (simp add: sha256_word_def)
    then show ?thesis using False by (simp add: fips_W.simps [of M i] sha256_sigmas add.commute add.left_commute)
  qed
  show "schedule_ok M (Suc i) (sha256_word i w)"
    unfolding schedule_ok_def
  proof (intro conjI allI impI)
    show "length (sha256_word i w) = 16" using len by (simp add: sha256_word_def)
    fix j assume j: "j < max (Suc i) 16" "Suc i \<le> j + 16"
    show "sha256_word i w ! (j mod 16) = fips_W M j"
    proof (cases "i < 16 \<or> j = i")
      case True
      then show ?thesis using new W [of j] j by (auto simp: sha256_word_def)
    next
      case False
      then have ji: "j < i" "i - j < 16" using j by auto
      moreover have "j mod 16 \<noteq> i mod 16"
      proof
        assume "j mod 16 = i mod 16"
        then have "16 dvd i - j" using mod_eq_dvd_iff_nat [of j i 16] ji(1) by (metis less_imp_le_nat)
        then show False using ji by (simp add: nat_dvd_not_less)
      qed
      ultimately show ?thesis using W [of j] j False len by (simp add: sha256_word_def)
    qed
  qed
qed

lemma sha256_rounds_fips: "schedule_ok M i w \<Longrightarrow> n \<le> 64 \<Longrightarrow> sha256_rounds [i..<n] w r = fold (fips_round M) [i..<n] r"
proof (induction "n - i" arbitrary: i w r)
  case (Suc d)
  then have "[i..<n] = i # [Suc i..<n]" by (simp add: upt_conv_Cons)
  then show ?case using Suc.hyps(1) [of "Suc i"] Suc.hyps(2) schedule_step [OF Suc.prems(1)] Suc.prems(2) sha256_Round_fips [of i _ M]
    by (simp add: Let_def)
qed simp

lemma sha256_Transform_fips: "length chunk = 64 \<Longrightarrow> sha256_Transform s chunk = fips_compress chunk s"
proof -
  assume len: "length chunk = 64"
  have "schedule_ok chunk 0 (map (\<lambda>j. ReadBE32 (drop (4 * j) chunk)) [0..<16])"
    using len by (auto simp: schedule_ok_def fips_W.simps ReadBE32_number)
  then show ?thesis
    by (cases s rule: fips_digest.cases) (simp add: sha256_Transform_def sha256_rounds_fips split: prod.split)
qed

lemma sha256_output_fips: "sha256_output r = fips_digest r"
  by (cases r rule: fips_digest.cases) (simp add: WriteBE32_digits)

text \<open>Absorbing whole blocks is a fold over them.\<close>

lemma absorb_blocks:
  "0 < B \<Longrightarrow> length p = B * k \<Longrightarrow> (\<And>s b. length b = B \<Longrightarrow> f s b = g b s) \<Longrightarrow>
   fst (absorb B f s p) = fold g (map (\<lambda>i. take B (drop (B * i) p)) [0..<k]) s"
proof (induction k arbitrary: s p)
  case (Suc k)
  have len: "length (take B p) = B" "length (drop B p) = B * k" using Suc.prems(2) by simp_all
  have "[0..<Suc k] = 0 # map Suc [0..<k]" by (simp add: map_Suc_upt upt_conv_Cons del: upt_Suc)
  then have "map (\<lambda>i. take B (drop (B * i) p)) [0..<Suc k] = take B p # map (\<lambda>i. take B (drop (B * i) (drop B p))) [0..<k]"
    by (simp add: comp_def add.commute del: upt_Suc)
  moreover have "absorb B f s p = absorb B f (g (take B p) s) (drop B p)"
    using absorb_block [OF Suc.prems(1) len(1), of f s "drop B p"] Suc.prems(3) [OF len(1)] by simp
  ultimately show ?case using Suc.IH [OF Suc.prems(1) len(2) Suc.prems(3)] by simp
qed (simp add: absorb_short)

lemma pad_zeros:
  fixes n :: nat
  defines "k \<equiv> nat ((- int n - 1 - 8) mod 64)"
  shows "(n + 1 + k) mod 64 = 56" and "(n + 1 + j) mod 64 = 56 \<Longrightarrow> k \<le> j" and "64 dvd n + 1 + k + 8"
proof -
  let ?a = "- int n - 1 - 8"
  have "int k = ?a - 64 * (?a div 64)" by (simp add: k_def minus_mult_div_eq_mod)
  then have "int (n + 1 + k + 8) = 64 * (- (?a div 64))" by simp
  then show d: "64 dvd n + 1 + k + 8" by (metis dvd_triv_left int_dvd_int_iff of_nat_numeral)
  then obtain c where c: "n + 1 + k + 8 = 64 * c" ..
  then obtain c' where c': "c = Suc c'" by (cases c) auto
  have "n + 1 + k = 56 + 64 * c'" using c unfolding c' by simp
  then show m: "(n + 1 + k) mod 64 = 56" by simp
  have k64: "k < 64" by (simp add: k_def nat_less_iff)
  show "k \<le> j" if j: "(n + 1 + j) mod 64 = 56"
  proof (rule ccontr)
    assume "\<not> k \<le> j"
    then have "64 dvd (n + 1 + k) - (n + 1 + j)" using mod_eq_dvd_iff_nat [of "n + 1 + j" "n + 1 + k" 64] m j by simp
    then show False using k64 \<open>\<not> k \<le> j\<close> by (auto dest: dvd_imp_le)
  qed
qed

lemma padded_fips: "padded 64 8 (\<lambda>n. WriteBE64 (of_nat n)) m = fips_padding m"
proof -
  have "(LEAST k. (length m + 1 + k) mod 64 = 56) = nat ((- int (length m) - 1 - 8) mod 64)"
    by (rule Least_equality) (rule pad_zeros(1), rule pad_zeros(2))
  then show ?thesis by (simp add: padded_def fips_padding_def WriteBE64_digits)
qed

lemma length_fips_padding: "64 dvd length (fips_padding m)"
  using pad_zeros(3) [of "length m"]
  by (simp add: padded_fips [symmetric] padded_def WriteBE64_digits add.left_commute [of "length m"])

lemma hash_message_fips:
  "hash_message 64 sha256_Transform sha256_Initialize 8 (\<lambda>n. WriteBE64 (of_nat n)) sha256_output m = fips_sha256 m"
  unfolding hash_message_def padded_fips sha256_output_fips fips_sha256_def fips_blocks_def sha256_Initialize_fips
  by (subst absorb_blocks [where g = fips_compress]) (use length_fips_padding [of m] in \<open>auto simp: sha256_Transform_fips\<close>)

interpretation sha256: hash_engine 64 sha256_Transform 119 8
  by unfold_locales simp_all

interpretation sha512: hash_engine 128 sha512_Transform 239 16
  by unfold_locales simp_all

interpretation sha1: hash_engine 64 sha1_Transform 119 8
  by unfold_locales simp_all

interpretation ripemd160: hash_engine 64 rmd_Transform 119 8
  by unfold_locales simp_all

lemmas sha256_defs = CSHA256_init_def CSHA256_Write_def CSHA256_Finalize_def CSHA256_Reset_def
lemmas sha512_defs = CSHA512_init_def CSHA512_Write_def CSHA512_Finalize_def CSHA512_Reset_def message_sha512_def

lemma CSHA256_writes:
  "8 * length (concat ds) < 2 ^ 64 \<Longrightarrow> CSHA256_Finalize (fold (\<lambda>d st. CSHA256_Write st d) ds CSHA256_init) = fips_sha256 (concat ds)"
  unfolding sha256_defs hash_message_fips [symmetric] by (rule sha256.hash_writes)

lemma CSHA512_writes:
  "8 * length (concat ds) < 2 ^ 64 \<Longrightarrow> CSHA512_Finalize (fold (\<lambda>d st. CSHA512_Write st d) ds CSHA512_init) = message_sha512 (concat ds)"
  unfolding sha512_defs by (rule sha512.hash_writes)

lemma CSHA256_one_write:
  "8 * length m < 2 ^ 64 \<Longrightarrow> CSHA256_Finalize (CSHA256_Write CSHA256_init m) = fips_sha256 m"
  using CSHA256_writes [of "[m]"] by simp

lemma CSHA512_one_write:
  "8 * length m < 2 ^ 64 \<Longrightarrow> CSHA512_Finalize (CSHA512_Write CSHA512_init m) = message_sha512 m"
  using CSHA512_writes [of "[m]"] by simp

lemma CSHA1_one_write:
  "8 * length m < 2 ^ 64 \<Longrightarrow> CSHA1_Finalize (CSHA1_Write CSHA1_init m) = message_sha1 m"
  using sha1.hash_writes [of "[m]"] by (simp add: CSHA1_Finalize_def CSHA1_Write_def CSHA1_init_def message_sha1_def)

lemma CRIPEMD160_one_write:
  "8 * length m < 2 ^ 64 \<Longrightarrow> CRIPEMD160_Finalize (CRIPEMD160_Write CRIPEMD160_init m) = message_ripemd160 m"
  using ripemd160.hash_writes [of "[m]"] by (simp add: CRIPEMD160_Finalize_def CRIPEMD160_Write_def CRIPEMD160_init_def message_ripemd160_def)

lemma length_WriteBE [simp]: "length (WriteBE32 x) = 4" "length (WriteBE64 y) = 8"
  by (simp_all add: WriteBE32_def WriteBE64_def)

lemma length_sha256_output [simp]: "length (sha256_output r) = 32"
  by (cases r rule: sha256_output.cases) simp

lemma length_sha512_output [simp]: "length (sha512_output r) = 64"
  by (cases r rule: sha512_output.cases) simp

lemma length_fips_sha256 [simp]: "length (fips_sha256 m) = 32"
  by (simp add: hash_message_fips [symmetric] hash_message_def)

lemma length_message_sha512 [simp]: "length (message_sha512 m) = 64"
  by (simp add: message_sha512_def hash_message_def)

lemma CSHA256_Finalize_represents:
  "sha256.represents sha256_Initialize st m \<Longrightarrow> 8 * length m < 2 ^ 64 \<Longrightarrow> CSHA256_Finalize st = fips_sha256 m"
  unfolding CSHA256_Finalize_def hash_message_fips [symmetric] by (rule sha256.Finalize_message)

lemma CHash256_message:
  assumes "8 * length m < 2 ^ 64"
  shows "CHash256_Finalize (CSHA256_Write CSHA256_init m) = fips_sha256 (fips_sha256 m)"
proof -
  let ?st = "CSHA256_Write CSHA256_init m"
  have "sha256.represents sha256_Initialize ?st m"
    using sha256.Write_represents [OF sha256.init_represents, of sha256_Initialize m] by (simp add: sha256_defs)
  then have "length (hbuf ?st) = 64" by (simp add: sha256.represents_def)
  from sha256.Write_represents [OF sha256.Reset_represents [OF this], of sha256_Initialize "fips_sha256 m"]
  have "sha256.represents sha256_Initialize (CSHA256_Write (CSHA256_Reset ?st) (fips_sha256 m)) (fips_sha256 m)" by (simp add: sha256_defs)
  then show ?thesis unfolding CHash256_Finalize_def CSHA256_one_write [OF assms] by (rule CSHA256_Finalize_represents) simp
qed

lemma map_xor_pads: "map (\<lambda>b :: u8. b XOR (0x5c XOR 0x36)) (map (\<lambda>b. b XOR 0x5c) xs) = map (\<lambda>b. b XOR 0x36) xs"
  by (simp add: xor.assoc comp_def)

section \<open>Properties\<close>

text \<open>
  C40. \<^verbatim>\<open>CSHA256\<close> computes SHA-256: however a message of fewer than 2^61 bytes is split over calls of
  \<^verbatim>\<open>Write\<close>, \<^verbatim>\<open>Finalize\<close> returns the digest that FIPS 180-4 defines for the whole message, and
  \<^verbatim>\<open>CHash256\<close> that digest of the digest. The reference shares nothing with the code: its constants are the
  leading bits of the fractions of the cube and square roots of the first primes, its words are numbers
  in base 256, its schedule is the recursive one.
\<close>

theorem CSHA256_correct:
  assumes "8 * length (concat ds) < 2 ^ 64"
  shows "CSHA256_Finalize (fold (\<lambda>d st. CSHA256_Write st d) ds CSHA256_init) = fips_sha256 (concat ds)
    \<and> CHash256_Finalize (CSHA256_Write CSHA256_init (concat ds)) = fips_sha256 (fips_sha256 (concat ds))"
  using CSHA256_writes [OF assms] CHash256_message [OF assms] by simp

theorem CSHA256_correct_witness:
  "CSHA256_Finalize (fold (\<lambda>d st. CSHA256_Write st d) [[97], [98, 99]] CSHA256_init) = fips_sha256 [97, 98, 99]
    \<and> CHash256_Finalize (CSHA256_Write CSHA256_init [97, 98, 99]) = fips_sha256 (fips_sha256 [97, 98, 99])"
  using CSHA256_correct [of "[[97], [98, 99]]"] by simp

text \<open>
  The HMAC classes compute RFC 2104 for keys and messages of any practical length: the key is hashed when it is longer
  than a block and filled up with zeros otherwise, and both passes use the right pad.
\<close>

theorem hmac_correct:
  assumes "8 * (length key + length text + 128) < 2 ^ 64"
  shows "CHMAC_SHA256_Finalize (CHMAC_SHA256_Write (CHMAC_SHA256 key) text) = rfc_hmac fips_sha256 64 key text
    \<and> CHMAC_SHA512_Finalize (CHMAC_SHA512_Write (CHMAC_SHA512 key) text) = rfc_hmac message_sha512 128 key text"
proof
  have k: "8 * length key < 2 ^ 64" using assms by simp
  define k2 where "k2 = (if length key \<le> 64 then key @ replicate (64 - length key) 0 else fips_sha256 key @ replicate 32 0)"
  have l2: "length k2 = 64" by (simp add: k2_def)
  have r2: "rfc_hmac fips_sha256 64 key text = fips_sha256 (map (\<lambda>b. b XOR 0x5c) k2 @ fips_sha256 (map (\<lambda>b. b XOR 0x36) k2 @ text))"
    by (simp add: rfc_hmac_def k2_def Let_def)
  have "CHMAC_SHA256 key = \<lparr>outer = CSHA256_Write CSHA256_init (map (\<lambda>b. b XOR 0x5c) k2), inner = CSHA256_Write CSHA256_init (map (\<lambda>b. b XOR 0x36) k2)\<rparr>"
    unfolding CHMAC_SHA256_def Let_def map_xor_pads CSHA256_one_write [OF k] k2_def by simp
  then show "CHMAC_SHA256_Finalize (CHMAC_SHA256_Write (CHMAC_SHA256 key) text) = rfc_hmac fips_sha256 64 key text"
    unfolding r2 using assms l2 CSHA256_writes [of "[map (\<lambda>b. b XOR 0x36) k2, text]"]
      CSHA256_writes [of "[map (\<lambda>b. b XOR 0x5c) k2, fips_sha256 (map (\<lambda>b. b XOR 0x36) k2 @ text)]"]
    by (simp add: CHMAC_SHA256_Finalize_def CHMAC_SHA256_Write_def)
  define k5 where "k5 = (if length key \<le> 128 then key @ replicate (128 - length key) 0 else message_sha512 key @ replicate 64 0)"
  have l5: "length k5 = 128" by (simp add: k5_def)
  have r5: "rfc_hmac message_sha512 128 key text = message_sha512 (map (\<lambda>b. b XOR 0x5c) k5 @ message_sha512 (map (\<lambda>b. b XOR 0x36) k5 @ text))"
    by (simp add: rfc_hmac_def k5_def Let_def)
  have "CHMAC_SHA512 key = \<lparr>outer = CSHA512_Write CSHA512_init (map (\<lambda>b. b XOR 0x5c) k5), inner = CSHA512_Write CSHA512_init (map (\<lambda>b. b XOR 0x36) k5)\<rparr>"
    unfolding CHMAC_SHA512_def Let_def map_xor_pads CSHA512_one_write [OF k] k5_def by simp
  then show "CHMAC_SHA512_Finalize (CHMAC_SHA512_Write (CHMAC_SHA512 key) text) = rfc_hmac message_sha512 128 key text"
    unfolding r5 using assms l5 CSHA512_writes [of "[map (\<lambda>b. b XOR 0x36) k5, text]"]
      CSHA512_writes [of "[map (\<lambda>b. b XOR 0x5c) k5, message_sha512 (map (\<lambda>b. b XOR 0x36) k5 @ text)]"]
    by (simp add: CHMAC_SHA512_Finalize_def CHMAC_SHA512_Write_def)
qed

theorem hmac_correct_witness:
  "CHMAC_SHA256_Finalize (CHMAC_SHA256_Write (CHMAC_SHA256 [1, 2]) [3]) = rfc_hmac fips_sha256 64 [1, 2] [3]
    \<and> CHMAC_SHA512_Finalize (CHMAC_SHA512_Write (CHMAC_SHA512 [1, 2]) [3]) = rfc_hmac message_sha512 128 [1, 2] [3]"
  using hmac_correct [of "[1, 2]" "[3]"] by simp

end
