(* ===== verification/Spec2Isabelle.thy ===== *)
theory Spec2Isabelle
  imports ArithUint256 Chain Pow BlockTree ActiveChain Script Interpreter Standard Serialize Amount Transaction Compressor Coins Validation VersionBits Merkle MerkleBlock BlockChecks Mempool MempoolInvariant KeyedHashes Bloom NetAddress AddrMan Hashes
begin

text \<open>
  ImageCoin is a full node of the Bitcoin family: it keeps a tree of block headers, chooses the branch
  with the most work, and moves a database of unspent outputs along that branch by checking,
  connecting and disconnecting blocks. This library models the consensus core of the C++ sources
  under \<^verbatim>\<open>src/src/\<close> as HOL definitions that follow the code function by function, and proves
  what makes that core correct.

  \<^bold>\<open>How C++ is represented.\<close> Unsigned machine integers are words where wrap-around matters
  (limbs, hashes, compact targets) and numbers with the wrap-around written out elsewhere; signed integers are
  \<open>int\<close> with the conversions of the source. Bytes are \<open>8 word\<close>, vectors are lists, \<^verbatim>\<open>uint256\<close> values
  are their 32 bytes (or eight limbs, in arithmetic). Classes are records, enums are datatypes or named constants.
  Pointers to block index entries are addresses of a store, with \<open>None\<close> for null. A function whose
  C++ counterpart can fail an assertion, throw or read out of range returns \<open>option\<close> or a result
  type of its own, and \<open>None\<close> (or \<open>Abort\<close>) is that failure. Loops are structural recursion where there is a
  bound in the source and \<open>partial_function (option)\<close> where there is none: not returning is then \<open>None\<close>
  too, and each theorem about such a loop proves that it returns \<open>Some\<close>. No definition uses fuel.

  \<^bold>\<open>Parts of the program and the theories that model them.\<close>

  \<^item> Numbers of the consensus rules. \<open>ArithUint256\<close> (\<^verbatim>\<open>arith_uint256.h/.cpp\<close>): every operator of the 256-bit
    integers as its limb loop, proved to be arithmetic modulo \<open>2 ^ 256\<close> (locale \<open>uint_arith\<close>), the
    restoring division, and the compact encoding of targets with its round trip.
    \<open>Amount\<close> (\<^verbatim>\<open>amount.h/.cpp\<close>): fee rates with the mixed signed and unsigned division of the source.

  \<^item> The block tree. \<open>Chain\<close> (\<^verbatim>\<open>chain.h/.cpp\<close>): index entries, skip pointers, the active chain, locators
    and forks; on a well-formed tree every walk ends and finds the ancestor it should.
    \<open>Pow\<close> (\<^verbatim>\<open>pow.cpp\<close>): retargeting by Dark Gravity Wave and by the Bitcoin rule, the proof-of-work check and the
    work of a block. \<open>VersionBits\<close> (\<^verbatim>\<open>versionbits.cpp\<close>): the state of a deployment, whose cached computation equals the recursive
    definition over periods, and that enough signalling activates it. \<open>BlockTree\<close> and \<open>ActiveChain\<close> (\<^verbatim>\<open>validation.cpp\<close>): the record \<open>node\<close> holds the global
    variables of the block tree; headers and block data arrive, candidates for the tip are kept in the comparator's order, \<^verbatim>\<open>FindMostWorkChain\<close> finds
    the best usable candidate, blocks are connected, disconnected, invalidated and reconsidered. The step relation \<open>node_step\<close> has all
    these operations as rules, and \<open>node_ok\<close> is an invariant of every reachable state. \<open>BlockChecks\<close>: the checks on headers and
    blocks, and \<^verbatim>\<open>AcceptBlock\<close>, whose every outcome is a run of \<open>node_step\<close>.

  \<^item> Scripts. \<open>Script\<close> (\<^verbatim>\<open>script/script.h/.cpp\<close>): opcodes, script numbers, reading and writing of pushes.
    \<open>Interpreter\<close> (\<^verbatim>\<open>script/interpreter.cpp\<close>): all opcodes of \<^verbatim>\<open>EvalScript\<close> and
    \<^verbatim>\<open>VerifyScript\<close>; resource limits are invariants, no input makes it abort, and multi-signature
    checking accepts exactly when the signatures match a subsequence of the keys. \<open>Standard\<close> (\<^verbatim>\<open>script/standard.cpp\<close>): recognising and building the
    standard forms of scripts, with the shape of the results of \<^verbatim>\<open>Solver\<close> and the round trips.

  \<^item> Data formats. \<open>Serialize\<close> (\<^verbatim>\<open>serialize.h\<close>) states what a format promises as the locale \<open>codec\<close>, which
    \<open>Transaction\<close> (\<^verbatim>\<open>primitives/transaction.h/.cpp\<close>, signature hashes) and \<open>Compressor\<close> (\<^verbatim>\<open>compressor.h/.cpp\<close>)
    interpret on their readers and writers.

  \<^item> Unspent outputs. \<open>Coins\<close> (\<^verbatim>\<open>coins.h/.cpp\<close>, \<^verbatim>\<open>txdb.cpp\<close>, \<^verbatim>\<open>undo.h\<close>): caches over a database refine a plain map from
    outpoints to coins (locale \<open>utxo_store\<close>). \<open>Validation\<close> (\<^verbatim>\<open>validation.cpp\<close>, \<^verbatim>\<open>consensus/tx_verify\<close> rules): transaction checks, time locks,
    and the round trip that disconnecting a block undoes connecting it.

  \<^item> Unconfirmed transactions. \<open>Mempool\<close> (\<^verbatim>\<open>txmempool.h/.cpp\<close>): entries that keep the count, size and fees of their descendants, links to
    parents and children, the ancestor limits, and removal for blocks, conflicts, age and size. \<open>MempoolInvariant\<close>: the step relation
    \<open>mempool_step\<close> of the pool and its invariant \<open>pool_ok\<close>, which says that what is kept incrementally is what a recount would give.

  \<^item> Filters. \<open>KeyedHashes\<close> (\<^verbatim>\<open>hash.cpp\<close>): MurmurHash3 and SipHash-2-4. \<open>Bloom\<close> (\<^verbatim>\<open>bloom.cpp\<close>): the filters of light clients and the
    rolling filter, which never miss a key they promise to remember (locale \<open>membership_filter\<close>).

  \<^item> Peers. \<open>NetAddress\<close> (\<^verbatim>\<open>netaddress.cpp\<close>): the classes, groups and reachability of addresses. \<open>AddrMan\<close> (\<^verbatim>\<open>addrman.h/.cpp\<close>): the
    tables of new and tried addresses; their consistency is an invariant of the relation \<open>addrman_reach\<close>, and no operation fails an assertion.

  \<^item> Commitments and hashes. \<open>Merkle\<close> and \<open>MerkleBlock\<close> (\<^verbatim>\<open>consensus/merkle.cpp\<close>, \<^verbatim>\<open>merkleblock.cpp\<close>): the constant-space Merkle root equals the
    level-by-level one, equal unmutated roots bind the leaves up to a hash collision, partial trees are read back as they were built, and what an arbitrary partial tree under a block's root can report is
    bounded by the block's transactions.
    \<open>HashEngine\<close> and \<open>Hashes\<close> (\<^verbatim>\<open>crypto/sha*.cpp\<close>, \<^verbatim>\<open>crypto/ripemd160.cpp\<close>, \<^verbatim>\<open>crypto/hmac_*.cpp\<close>, \<^verbatim>\<open>hash.h\<close>): the streaming interface as the locale
    \<open>hash_engine\<close>, interpreted on the four hash functions; SHA-256 equals its definition in FIPS 180-4, whose constants are derived
    from the roots of the first primes.

  \<open>Prelude\<close> holds the type names, fact collections and generic lemmas they share.

  \<^bold>\<open>Interfaces.\<close> The locales \<open>uint_arith\<close>, \<open>codec\<close>, \<open>utxo_store\<close>, \<open>hash_engine\<close>, \<open>membership_filter\<close>, \<open>clearable_filter\<close> and \<open>ordered_set\<close> state what a client may rely on; each is interpreted on
  the model's own definitions in the theory that provides them. Hash functions are arguments of the definitions that call
  them (\<open>crypto\<close>); \<open>source_crypto\<close> of \<open>Hashes\<close> instantiates them with the modelled functions. Elliptic-curve operations
  (\<^verbatim>\<open>libsecp256k1\<close>) and the Kimoto Gravity Well's use of \<^verbatim>\<open>double\<close> stay arguments.

  \<^bold>\<open>Bounds.\<close> Theorems carry the bounds the source's types imply, and where one needs more its text says so: heights below \<open>2 ^ 31\<close>, fewer than
  \<open>2 ^ 31\<close> leaves in a Merkle tree (one fewer bit than the comment in the source claims), messages shorter than \<open>2 ^ 61\<close> bytes
  for the bit counters of the hash functions, containers shorter than \<open>0x02000000\<close> elements in the formats, as \<^verbatim>\<open>ReadCompactSize\<close> requires,
  transactions of less than \<open>2 ^ 63\<close> bytes together in the pool, fewer than \<open>2 ^ 31\<close> identifiers of the address manager.

  \<^bold>\<open>Not modelled.\<close> Sockets, threads and message handling (\<^verbatim>\<open>net.cpp\<close>, \<^verbatim>\<open>net_processing.cpp\<close>), the wallet and its database, RPC and the graphical
  interface, start-up (\<^verbatim>\<open>init.cpp\<close>), the masternode, governance and mixing subsystems, and block files on disk: these
  are input and output, timers and formatting around the core. Memory accounting, floating-point priorities and fee estimation, and the
  repair of the pool after a reorganisation (\<^verbatim>\<open>UpdateTransactionsFromBlock\<close>, \<^verbatim>\<open>removeForReorg\<close>) are left out, so that the invariant of the
  pool is that of its states outside a reorganisation. Of the address manager, \<^verbatim>\<open>Select_\<close>, which draws by floating-point chances, and the file format
  are left out. The vendored libraries
  (\<^verbatim>\<open>secp256k1\<close>, \<^verbatim>\<open>leveldb\<close>, \<^verbatim>\<open>univalue\<close>) are parameters.
\<close>

end
